(* ===== verification/Prelude.thy ===== *)
theory Prelude
  imports Main "HOL-Library.Word"
begin

text \<open>
  The prelude of the MiniCore development: the machine integers of the C code, the
  kernel's byte-addressed memory with its little-endian loads and stores, the constants
  of \<^verbatim>\<open>src/mm/layout.h\<close> and \<^verbatim>\<open>src/abi.h\<close>, and the generic facts (disjoint byte
  ranges, page arithmetic, lists) that the component theories share.

  Kernel memory is a total function from 64-bit virtual addresses to bytes. The kernel
  reaches every physical page through its direct map (\<open>phys_to_virt\<close>), so this one
  function holds page tables, slab headers, list nodes and file pages alike; a store
  through one of them can be proved not to disturb another only by showing that the two
  byte ranges are disjoint (\<open>disj\<close>).
\<close>

unbundle bit_operations_syntax

type_synonym u8 = "8 word"
type_synonym u16 = "16 word"
type_synonym u32 = "32 word"
type_synonym u64 = "64 word"
type_synonym mem = "u64 \<Rightarrow> u8"
type_synonym bytes = "u8 list"

text \<open>A C string is the list of its bytes without the terminating NUL; \<open>cstr\<close> is a string literal.\<close>

abbreviation cstr :: "string \<Rightarrow> bytes" where "cstr s \<equiv> map of_char s"

named_theorems apart_intros \<open>rules that prove two byte ranges disjoint\<close>
named_theorems word_arith_simps \<open>rewriting 64-bit page arithmetic to natural numbers\<close>

section \<open>Little-endian encoding\<close>

definition le_bytes :: "nat \<Rightarrow> 'a::len word \<Rightarrow> u8 list" where
  "le_bytes n v = map (\<lambda>i. ucast (drop_bit (8 * i) v)) [0..<n]"

fun of_le_bytes :: "u8 list \<Rightarrow> 'a::len word" where
  "of_le_bytes [] = 0"
| "of_le_bytes (b # bs) = ucast b OR push_bit 8 (of_le_bytes bs)"

lemma le_bytes_0 [simp]: "le_bytes 0 v = []"
  by (simp add: le_bytes_def)

lemma length_le_bytes [simp]: "length (le_bytes n v) = n"
  by (simp add: le_bytes_def)

lemma le_bytes_Suc: "le_bytes (Suc n) v = ucast v # le_bytes n (drop_bit 8 v)"
  by (simp add: le_bytes_def upt_conv_Cons map_Suc_upt [symmetric] del: upt_Suc)
     (simp add: ac_simps)

lemma of_le_bytes_le_bytes:
  fixes v :: "'a::len word"
  shows "of_le_bytes (le_bytes n v) = take_bit (8 * n) v"
proof (induction n arbitrary: v)
  case 0
  then show ?case by simp
next
  case (Suc n)
  have "of_le_bytes (le_bytes (Suc n) v)
      = ucast (ucast v :: u8) OR push_bit 8 (take_bit (8 * n) (drop_bit 8 v))"
    by (simp add: le_bytes_Suc Suc.IH)
  also have "\<dots> = take_bit (8 * Suc n) v"
    by (rule bit_word_eqI) (auto simp: bit_simps)
  finally show ?case .
qed

section \<open>Byte ranges in memory\<close>

definition read_bytes :: "mem \<Rightarrow> u64 \<Rightarrow> nat \<Rightarrow> u8 list" where
  "read_bytes m a n = map (\<lambda>i. m (a + of_nat i)) [0..<n]"

definition write_bytes :: "mem \<Rightarrow> u64 \<Rightarrow> u8 list \<Rightarrow> mem" where
  "write_bytes m a bs = (\<lambda>x. if unat (x - a) < length bs then bs ! unat (x - a) else m x)"

definition disj :: "u64 \<Rightarrow> nat \<Rightarrow> u64 \<Rightarrow> nat \<Rightarrow> bool" where
  "disj a n b k \<longleftrightarrow> (\<forall>i<n. \<forall>j<k. a + of_nat i \<noteq> b + of_nat j)"

lemma length_read_bytes [simp]: "length (read_bytes m a n) = n"
  by (simp add: read_bytes_def)

lemma nth_read_bytes [simp]: "i < n \<Longrightarrow> read_bytes m a n ! i = m (a + of_nat i)"
  by (simp add: read_bytes_def)

lemma unat_u64: "unat (x :: u64) < 2 ^ 64"
proof -
  have "(unsigned x :: nat) < 2 ^ LENGTH(64)" by (rule unsigned_less)
  then show ?thesis by simp
qed

lemma unat_of_nat_small [word_arith_simps]: "i < 2 ^ 64 \<Longrightarrow> unat (of_nat i :: u64) = i"
  by (simp add: unat_of_nat)

lemma read_write_same:
  assumes "length bs \<le> 2 ^ 64" and "n = length bs"
  shows "read_bytes (write_bytes m a bs) a n = bs"
  using assms by (intro nth_equalityI) (auto simp: write_bytes_def unat_of_nat_small)

lemma write_bytes_outside:
  assumes "\<forall>j<length bs. x \<noteq> b + of_nat j"
  shows "write_bytes m b bs x = m x"
proof -
  have "x = b + of_nat (unat (x - b))" by simp
  with assms show ?thesis by (auto simp: write_bytes_def)
qed

lemma read_write_disj:
  assumes "disj a n b (length bs)"
  shows "read_bytes (write_bytes m b bs) a n = read_bytes m a n"
  using assms by (intro nth_equalityI) (auto simp: disj_def write_bytes_outside)

lemma disj_sym: "disj a n b k \<longleftrightarrow> disj b k a n"
  by (auto simp: disj_def) metis+

lemma disj_mono:
  assumes d: "disj a n b k" and "x + n' \<le> n" "y + k' \<le> k"
  shows "disj (a + of_nat x) n' (b + of_nat y) k'"
  unfolding disj_def
proof (intro allI impI)
  fix i j assume "i < n'" "j < k'"
  with assms(2,3) have "x + i < n" "y + j < k" by simp_all
  with d have "a + of_nat (x + i) \<noteq> b + of_nat (y + j)" unfolding disj_def by blast
  then show "a + of_nat x + of_nat i \<noteq> b + of_nat y + of_nat j" by (simp add: algebra_simps)
qed

lemma disj_offset [apart_intros]:
  assumes "x + n \<le> y \<or> y + k \<le> x" "x + n \<le> 2 ^ 64" "y + k \<le> 2 ^ 64"
  shows "disj (p + of_nat x) n (p + of_nat y) k"
  unfolding disj_def
proof (intro allI impI notI)
  fix i j assume ij: "i < n" "j < k" and eq: "p + of_nat x + of_nat i = p + of_nat y + of_nat j"
  then have "(of_nat (x + i) :: u64) = of_nat (y + j)" by (simp add: algebra_simps)
  then have "unat (of_nat (x + i) :: u64) = unat (of_nat (y + j) :: u64)" by (rule arg_cong)
  with ij assms have "x + i = y + j" by (simp add: unat_of_nat_small del: of_nat_add)
  with ij assms(1) show False by auto
qed

subsection \<open>Integer loads and stores\<close>

definition read64 :: "mem \<Rightarrow> u64 \<Rightarrow> u64" where
  "read64 m a = of_le_bytes (read_bytes m a 8)"

definition write64 :: "mem \<Rightarrow> u64 \<Rightarrow> u64 \<Rightarrow> mem" where
  "write64 m a v = write_bytes m a (le_bytes 8 v)"

definition read32 :: "mem \<Rightarrow> u64 \<Rightarrow> u32" where
  "read32 m a = of_le_bytes (read_bytes m a 4)"

definition write32 :: "mem \<Rightarrow> u64 \<Rightarrow> u32 \<Rightarrow> mem" where
  "write32 m a v = write_bytes m a (le_bytes 4 v)"

definition read16 :: "mem \<Rightarrow> u64 \<Rightarrow> u16" where
  "read16 m a = of_le_bytes (read_bytes m a 2)"

definition write16 :: "mem \<Rightarrow> u64 \<Rightarrow> u16 \<Rightarrow> mem" where
  "write16 m a v = write_bytes m a (le_bytes 2 v)"

lemma read_write_le_bytes:
  fixes v :: "'a::len word"
  assumes "n \<le> 8" "LENGTH('a) \<le> 8 * n"
  shows "of_le_bytes (read_bytes (write_bytes m a (le_bytes n v)) a n) = v"
  using assms read_write_same [of "le_bytes n v" n m a]
  by (simp add: of_le_bytes_le_bytes take_bit_word_eq_self)

lemma read_write_int_same [simp]:
  "read64 (write64 m a v) a = v" "read32 (write32 m a w) a = w" "read16 (write16 m a h) a = h"
  by (simp_all add: read64_def write64_def read32_def write32_def read16_def write16_def
      read_write_le_bytes)

lemma read64_disj:
  "disj a 8 b 8 \<Longrightarrow> read64 (write64 m b v) a = read64 m a"
  "disj a 8 b 4 \<Longrightarrow> read64 (write32 m b w) a = read64 m a"
  "disj a 8 b 2 \<Longrightarrow> read64 (write16 m b h) a = read64 m a"
  "disj a 8 b (length bs) \<Longrightarrow> read64 (write_bytes m b bs) a = read64 m a"
  by (simp_all add: read64_def write64_def write32_def write16_def read_write_disj)

lemma read32_disj:
  "disj a 4 b 8 \<Longrightarrow> read32 (write64 m b v) a = read32 m a"
  "disj a 4 b 4 \<Longrightarrow> read32 (write32 m b w) a = read32 m a"
  "disj a 4 b 2 \<Longrightarrow> read32 (write16 m b h) a = read32 m a"
  "disj a 4 b (length bs) \<Longrightarrow> read32 (write_bytes m b bs) a = read32 m a"
  by (simp_all add: read32_def write64_def write32_def write16_def read_write_disj)

lemma read16_disj:
  "disj a 2 b 8 \<Longrightarrow> read16 (write64 m b v) a = read16 m a"
  "disj a 2 b 4 \<Longrightarrow> read16 (write32 m b w) a = read16 m a"
  "disj a 2 b 2 \<Longrightarrow> read16 (write16 m b h) a = read16 m a"
  "disj a 2 b (length bs) \<Longrightarrow> read16 (write_bytes m b bs) a = read16 m a"
  by (simp_all add: read16_def write64_def write32_def write16_def read_write_disj)

lemma read64_cong: "(\<And>i. i < 8 \<Longrightarrow> m (a + of_nat i) = m' (a + of_nat i)) \<Longrightarrow> read64 m a = read64 m' a"
  unfolding read64_def read_bytes_def by (intro arg_cong [where f = of_le_bytes] map_cong) simp_all

text \<open>\<open>memset\<close> with a zero byte, the only value the kernel fills pages and objects with.\<close>

definition zero_bytes :: "mem \<Rightarrow> u64 \<Rightarrow> nat \<Rightarrow> mem" where
  "zero_bytes m a n = write_bytes m a (replicate n 0)"

lemma of_le_bytes_zeros [simp]: "of_le_bytes (replicate n 0) = 0"
  by (induction n) simp_all

lemma read64_zero_bytes:
  assumes "x + 8 \<le> n" "n \<le> 2 ^ 64"
  shows "read64 (zero_bytes m a n) (a + of_nat x) = 0"
proof -
  have "read_bytes (zero_bytes m a n) (a + of_nat x) 8 = replicate 8 0"
  proof (rule nth_equalityI)
    fix i assume "i < length (read_bytes (zero_bytes m a n) (a + of_nat x) 8)"
    then have i: "i < 8" by simp
    have "a + of_nat x + of_nat i - a = (of_nat (x + i) :: u64)" by simp
    moreover have "x + i < n" using i assms by simp
    ultimately show "read_bytes (zero_bytes m a n) (a + of_nat x) 8 ! i = replicate 8 0 ! i"
      using i assms
      by (simp add: zero_bytes_def write_bytes_def unat_of_nat_small del: of_nat_add)
  qed simp
  then show ?thesis by (simp add: read64_def)
qed

section \<open>Pages: src/mm/layout.h\<close>

definition PAGE_SIZE :: u64 where "PAGE_SIZE = 4096"
definition PAGE_MASK :: u64 where "PAGE_MASK = PAGE_SIZE - 1"
definition KERNEL_DIRECT_BASE :: u64 where "KERNEL_DIRECT_BASE = 0xffffffc000000000"

definition phys_to_virt :: "u64 \<Rightarrow> u64" where
  "phys_to_virt physical = KERNEL_DIRECT_BASE + physical"

definition virt_to_phys :: "u64 \<Rightarrow> u64" where
  "virt_to_phys virtual_address = virtual_address - KERNEL_DIRECT_BASE"

lemma phys_virt_inverse [simp]:
  "virt_to_phys (phys_to_virt p) = p" "phys_to_virt (virt_to_phys v) = v"
  by (simp_all add: phys_to_virt_def virt_to_phys_def)

lemma phys_to_virt_inject [simp]: "phys_to_virt p = phys_to_virt q \<longleftrightarrow> p = q"
  by (simp add: phys_to_virt_def)

lemma PAGE_MASK_mask: "PAGE_MASK = mask 12"
  by (simp add: PAGE_MASK_def PAGE_SIZE_def mask_eq_exp_minus_1)

definition page_aligned :: "u64 \<Rightarrow> bool" where
  "page_aligned p \<longleftrightarrow> p AND PAGE_MASK = 0"

lemma page_aligned_iff_dvd: "page_aligned p \<longleftrightarrow> 4096 dvd unat p"
  using and_mask_dvd_nat [of 12 p] by (simp add: page_aligned_def PAGE_MASK_mask)

lemma page_aligned_0 [simp]: "page_aligned 0"
  by (simp add: page_aligned_def)

lemma page_aligned_add_iff:
  assumes "page_aligned p"
  shows "page_aligned (p + q) \<longleftrightarrow> page_aligned q"
proof -
  have "(4096::nat) dvd (unat p + unat q) mod 2 ^ 64 \<longleftrightarrow> 4096 dvd unat p + unat q"
    by (rule dvd_mod_iff) simp
  with assms show ?thesis
    by (simp add: page_aligned_iff_dvd unat_word_ariths dvd_add_right_iff)
qed

lemma page_aligned_phys_to_virt [simp]: "page_aligned (phys_to_virt p) \<longleftrightarrow> page_aligned p"
proof -
  have "page_aligned KERNEL_DIRECT_BASE"
    by (simp add: page_aligned_def KERNEL_DIRECT_BASE_def PAGE_MASK_def PAGE_SIZE_def)
  then show ?thesis by (simp add: phys_to_virt_def page_aligned_add_iff)
qed

lemma unat_page_offset [word_arith_simps]:
  assumes "page_aligned p" "x < 4096"
  shows "unat (p + of_nat x) = unat p + x"
proof -
  from assms(1) obtain q where q: "unat p = 4096 * q" by (auto simp: page_aligned_iff_dvd)
  have "unat p < 2 ^ 64" using unat_u64 by simp
  with q have "q < 2 ^ 52" by simp
  then have "4096 * q + 4096 \<le> 2 ^ 64" by simp
  with assms(2) q have "unat p + x < 2 ^ 64" by linarith
  with assms(2) show ?thesis
    by (simp add: unat_word_ariths unat_of_nat_small)
qed

lemma page_offset_inject:
  assumes "page_aligned p" "page_aligned q" "x < 4096" "y < 4096"
    and eq: "p + of_nat x = q + of_nat y"
  shows "p = q \<and> x = y"
proof -
  from eq have "unat (p + of_nat x) = unat (q + of_nat y)" by (rule arg_cong)
  then have eq': "unat p + x = unat q + y"
    using unat_page_offset [of p x] unat_page_offset [of q y] assms(1-4) by simp
  obtain a where a: "unat p = 4096 * a" using assms(1) by (auto simp: page_aligned_iff_dvd)
  obtain b where b: "unat q = 4096 * b" using assms(2) by (auto simp: page_aligned_iff_dvd)
  from assms have "(4096 * a + x) div 4096 = a" "(4096 * b + y) div 4096 = b" by simp_all
  with eq' a b have "a = b" by simp
  with eq' a b show ?thesis by (simp add: word_unat_eq_iff)
qed

lemma and_not_PAGE_MASK: "x AND NOT PAGE_MASK = push_bit 12 (drop_bit 12 x)"
  by (rule bit_word_eqI) (auto simp: PAGE_MASK_mask bit_simps)

lemma unat_and_not_PAGE_MASK: "unat (x AND NOT PAGE_MASK) = 4096 * (unat x div 4096)"
proof -
  have "4096 * (unat x div 4096) \<le> unat x" by simp
  then have "4096 * (unat x div 4096) < 2 ^ 64" using unat_u64 [of x] by (rule order_le_less_trans)
  then show ?thesis
    by (simp add: and_not_PAGE_MASK push_bit_eq_mult drop_bit_eq_div unat_word_ariths unat_div mult.commute)
qed

lemma page_aligned_and_not [simp]: "page_aligned (x AND NOT PAGE_MASK)"
  by (simp add: page_aligned_iff_dvd unat_and_not_PAGE_MASK)

lemma disj_pages [apart_intros]:
  assumes "page_aligned p" "page_aligned q" "p \<noteq> q" "x + n \<le> 4096" "y + k \<le> 4096"
  shows "disj (p + of_nat x) n (q + of_nat y) k"
  unfolding disj_def
proof (intro allI impI notI)
  fix i j assume ij: "i < n" "j < k" and eq: "p + of_nat x + of_nat i = q + of_nat y + of_nat j"
  then have "p + of_nat (x + i) = q + of_nat (y + j)" by (simp add: algebra_simps)
  with ij assms page_offset_inject [of p q "x + i" "y + j"] show False by simp
qed

end
