(* ===== verification/Intrusive_List.thy ===== *)
theory Intrusive_List
  imports Prelude
begin

text \<open>
  \<^verbatim>\<open>src/kernel/list.h\<close> and \<^verbatim>\<open>src/kernel/refcount.h\<close>: the circular doubly linked lists
  embedded in kernel objects, as loads and stores on kernel memory, and the abstraction
  \<open>dlist\<close> that relates a list head in memory to the sequence of nodes linked on it.
  A node is 16 bytes: the \<open>prev\<close> pointer at its address, the \<open>next\<close> pointer 8 bytes
  above. The locale \<open>node_sequence\<close> is the interface the users of the lists rely on, and
  its interpretation \<open>klist\<close> discharges it for the pointer code.
\<close>

section \<open>struct list_node and its operations\<close>

definition list_prev :: "mem \<Rightarrow> u64 \<Rightarrow> u64" where
  "list_prev m node = read64 m node"

definition list_next :: "mem \<Rightarrow> u64 \<Rightarrow> u64" where
  "list_next m node = read64 m (node + 8)"

definition set_prev :: "mem \<Rightarrow> u64 \<Rightarrow> u64 \<Rightarrow> mem" where
  "set_prev m node v = write64 m node v"

definition set_next :: "mem \<Rightarrow> u64 \<Rightarrow> u64 \<Rightarrow> mem" where
  "set_next m node v = write64 m (node + 8) v"

definition list_init :: "mem \<Rightarrow> u64 \<Rightarrow> mem" where
  "list_init m head = set_next (set_prev m head head) head head"

definition list_empty :: "mem \<Rightarrow> u64 \<Rightarrow> bool" where
  "list_empty m head \<longleftrightarrow> list_next m head = head"

definition list_insert_before :: "mem \<Rightarrow> u64 \<Rightarrow> u64 \<Rightarrow> mem" where
  "list_insert_before m position node =
     (let m1 = set_prev m node (list_prev m position);
          m2 = set_next m1 node position;
          m3 = set_next m2 (list_prev m2 position) node
      in set_prev m3 position node)"

definition list_push_back :: "mem \<Rightarrow> u64 \<Rightarrow> u64 \<Rightarrow> mem" where
  "list_push_back m head node = list_insert_before m head node"

definition list_remove :: "mem \<Rightarrow> u64 \<Rightarrow> mem" where
  "list_remove m node =
     (let m1 = set_next m (list_prev m node) (list_next m node);
          m2 = set_prev m1 (list_next m1 node) (list_prev m1 node)
      in list_init m2 node)"

text \<open>
  The loop of \<open>address_space_move\<close> in \<^verbatim>\<open>src/mm/address_space.c\<close>: unlink the first entry
  of the source and append it to the destination until the source is empty. On a list that
  is not circular the C loop would not stop; then the value is \<open>None\<close>.
\<close>

partial_function (option) move_entries :: "mem \<Rightarrow> u64 \<Rightarrow> u64 \<Rightarrow> mem option" where
  "move_entries m source destination =
     (if list_empty m source then Some m
      else let entry = list_next m source;
               m1 = list_remove m entry
           in move_entries (list_push_back m1 destination entry) source destination)"

section \<open>struct refcount\<close>

definition refcount_init :: u64 where "refcount_init = 1"

definition refcount_get :: "u64 \<Rightarrow> u64" where "refcount_get v = v + 1"

definition refcount_put :: "u64 \<Rightarrow> bool \<times> u64" where
  "refcount_put v = (v - 1 = 0, v - 1)"

definition refcount_read :: "u64 \<Rightarrow> u64" where "refcount_read v = v"

section \<open>The fields of nodes that do not overlap\<close>

definition nodes_apart :: "u64 \<Rightarrow> u64 \<Rightarrow> bool" where
  "nodes_apart a b \<longleftrightarrow> disj a 16 b 16"

lemma nodes_apart_sym: "nodes_apart a b \<longleftrightarrow> nodes_apart b a"
  by (simp add: nodes_apart_def disj_sym)

lemma nodes_apart_fields:
  assumes "nodes_apart a b"
  shows "disj a 8 b 8" "disj (a + 8) 8 b 8" "disj a 8 (b + 8) 8" "disj (a + 8) 8 (b + 8) 8"
  using assms disj_mono [of a 16 b 16 0 8 0 8] disj_mono [of a 16 b 16 8 8 0 8]
    disj_mono [of a 16 b 16 0 8 8 8] disj_mono [of a 16 b 16 8 8 8 8]
  by (simp_all add: nodes_apart_def)

lemma disj_own_fields: "disj a 8 (a + 8) 8" "disj (a + 8) 8 a 8"
  using disj_offset [of 0 8 8 8 a] disj_offset [of 8 8 0 8 a] by simp_all

lemma nodes_apart_unat:
  assumes "unat a + 16 \<le> unat b" "unat b + 16 \<le> 2 ^ 64"
  shows "nodes_apart a b"
proof -
  have "disj (0 + of_nat (unat a)) 16 (0 + of_nat (unat b)) 16"
    by (rule disj_offset) (use assms in auto)
  then show ?thesis by (simp add: nodes_apart_def)
qed

lemmas list_field_defs = list_prev_def list_next_def set_prev_def set_next_def

lemma list_fields_same [simp]:
  "list_prev (set_prev m a v) a = v" "list_next (set_next m a v) a = v"
  "list_prev (set_next m a v) a = list_prev m a" "list_next (set_prev m a v) a = list_next m a"
  by (simp_all add: list_field_defs read64_disj disj_own_fields)

lemma list_fields_apart [simp]:
  assumes "nodes_apart b a"
  shows "list_prev (set_prev m a v) b = list_prev m b" "list_next (set_next m a v) b = list_next m b"
    "list_prev (set_next m a v) b = list_prev m b" "list_next (set_prev m a v) b = list_next m b"
  using nodes_apart_fields [OF assms] by (simp_all add: list_field_defs read64_disj)

lemma insert_fields:
  assumes pw: "pairwise nodes_apart S" and S: "n \<in> S" "q \<in> S" "p \<in> S" "x \<in> S"
    and p: "p = list_prev m q" and ne: "n \<noteq> q" "n \<noteq> p"
  shows "list_next (list_insert_before m q n) x =
      (if x = n then q else if x = p then n else list_next m x)"
    and "list_prev (list_insert_before m q n) x =
      (if x = n then p else if x = q then n else list_prev m x)"
proof -
  have ap: "a \<noteq> b \<Longrightarrow> a \<in> S \<Longrightarrow> b \<in> S \<Longrightarrow> nodes_apart a b" for a b
    using pw by (simp add: pairwise_def)
  have "list_prev (set_next (set_prev m n p) n q) q = p"
    using S ne ap [of q n] p by simp
  then have m: "list_insert_before m q n = set_prev (set_next (set_next (set_prev m n p) n q) p n) q n"
    by (simp add: list_insert_before_def Let_def p [symmetric])
  note aps = ap [of x n] ap [of x p] ap [of x q] ap [of n p] ap [of n q] ap [of p q]
  show "list_next (list_insert_before m q n) x =
      (if x = n then q else if x = p then n else list_next m x)"
    unfolding m using S ne aps by (cases "x = q"; cases "x = p"; cases "x = n"; simp)
  show "list_prev (list_insert_before m q n) x =
      (if x = n then p else if x = q then n else list_prev m x)"
    unfolding m using S ne aps by (cases "x = q"; cases "x = p"; cases "x = n"; simp)
qed

lemma remove_fields:
  assumes pw: "pairwise nodes_apart S" and S: "n \<in> S" "q \<in> S" "p \<in> S" "x \<in> S"
    and pq: "p = list_prev m n" "q = list_next m n" and ne: "n \<noteq> q" "n \<noteq> p"
  shows "list_next (list_remove m n) x =
      (if x = n then n else if x = p then q else list_next m x)"
    and "list_prev (list_remove m n) x =
      (if x = n then n else if x = q then p else list_prev m x)"
proof -
  have ap: "a \<noteq> b \<Longrightarrow> a \<in> S \<Longrightarrow> b \<in> S \<Longrightarrow> nodes_apart a b" for a b
    using pw by (simp add: pairwise_def)
  have "list_next (set_next m p q) n = q" "list_prev (set_next m p q) n = p"
    using S ne ap [of n p] pq by simp_all
  then have m: "list_remove m n = list_init (set_prev (set_next m p q) q p) n"
    by (simp add: list_remove_def Let_def pq [symmetric])
  note aps = ap [of x n] ap [of x p] ap [of x q] ap [of n p] ap [of n q] ap [of p q]
  show "list_next (list_remove m n) x = (if x = n then n else if x = p then q else list_next m x)"
    unfolding m list_init_def using S ne aps
    by (cases "x = q"; cases "x = p"; cases "x = n"; simp)
  show "list_prev (list_remove m n) x = (if x = n then n else if x = q then p else list_prev m x)"
    unfolding m list_init_def using S ne aps
    by (cases "x = q"; cases "x = p"; cases "x = n"; simp)
qed

section \<open>The sequence a list head stands for\<close>

fun chain :: "mem \<Rightarrow> u64 list \<Rightarrow> bool" where
  "chain m (a # b # cs) \<longleftrightarrow> list_next m a = b \<and> list_prev m b = a \<and> chain m (b # cs)"
| "chain m _ \<longleftrightarrow> True"

definition dlist :: "mem \<Rightarrow> u64 \<Rightarrow> u64 list \<Rightarrow> bool" where
  "dlist m head xs \<longleftrightarrow> chain m (head # xs @ [head]) \<and> distinct (head # xs) \<and>
     pairwise nodes_apart (set (head # xs))"

lemma chain_append: "chain m (as @ x # bs) \<longleftrightarrow> chain m (as @ [x]) \<and> chain m (x # bs)"
proof (induction as)
  case (Cons a as)
  then show ?case by (cases as) auto
qed (cases bs, auto)

lemma chain_cong:
  "(\<And>a. a \<in> set (butlast cs) \<Longrightarrow> list_next m' a = list_next m a) \<Longrightarrow>
   (\<And>b. b \<in> set (tl cs) \<Longrightarrow> list_prev m' b = list_prev m b) \<Longrightarrow> chain m' cs = chain m cs"
  by (induction m cs rule: chain.induct) auto

text \<open>
  The cycle through \<open>head\<close>, cut around a stretch \<open>zs\<close> of the list: \<open>p\<close> is the node before
  it and \<open>q\<close> the node after it (either may be the head itself).
\<close>

lemma cycle_cut:
  assumes dist: "distinct (head # as @ zs @ bs)"
  obtains cs p q ds where "q = hd (bs @ [head])" "set cs \<subseteq> insert head (set as)" "set ds \<subseteq> insert head (set bs)"
    "p \<in> insert head (set as)" "q \<in> insert head (set bs)" "tl (cs @ [p]) = as" "butlast (q # ds) = bs"
    "p \<notin> set cs" "p \<notin> set bs" "q \<notin> set as" "q \<notin> set ds"
    "\<And>ws. head # (as @ ws @ bs) @ [head] = cs @ p # ws @ q # ds"
proof -
  define p where "p = last (head # as)"
  define cs where "cs = butlast (head # as)"
  define q where "q = hd (bs @ [head])"
  define ds where "ds = tl (bs @ [head])"
  have l: "head # as = cs @ [p]" and r: "bs @ [head] = q # ds"
    by (simp_all add: p_def cs_def q_def ds_def)
  have sets: "set (cs @ [p]) = insert head (set as)" "set (q # ds) = insert head (set bs)"
    "tl (cs @ [p]) = as" "butlast (q # ds) = bs"
    unfolding l [symmetric] r [symmetric] by simp_all
  have dd: "distinct (cs @ [p])" "distinct (q # ds)"
    unfolding l [symmetric] r [symmetric] using dist by auto
  have sub: "set cs \<subseteq> insert head (set as)" "set ds \<subseteq> insert head (set bs)"
    and pq: "p \<in> insert head (set as)" "q \<in> insert head (set bs)"
    unfolding sets(1,2) [symmetric] by auto
  have "p \<notin> set bs" "q \<notin> set as" using pq dist by auto
  moreover have "head # (as @ ws @ bs) @ [head] = cs @ p # ws @ q # ds" for ws
  proof -
    have "head # (as @ ws @ bs) @ [head] = (head # as) @ ws @ (bs @ [head])" by simp
    also have "\<dots> = cs @ p # ws @ q # ds" unfolding l r by simp
    finally show ?thesis .
  qed
  moreover have "p \<notin> set cs" "q \<notin> set ds" using dd by simp_all
  ultimately show thesis using sub pq sets(3,4) by (intro that [OF q_def])
qed

lemma chain_relink:
  assumes "chain m (cs @ [p])" "chain m (q # ds)"
    and "\<And>x. x \<in> set cs \<union> set (butlast (q # ds)) \<Longrightarrow> list_next m' x = list_next m x"
    and "\<And>x. x \<in> set (tl (cs @ [p])) \<union> set ds \<Longrightarrow> list_prev m' x = list_prev m x"
  shows "chain m' (cs @ [p]) \<and> chain m' (q # ds)"
proof
  show "chain m' (cs @ [p])" using assms by (subst chain_cong [of _ _ m]) auto
  show "chain m' (q # ds)" using assms by (subst chain_cong [of _ _ m]) auto
qed

lemma dlist_insert_before:
  assumes d: "dlist m head (as @ bs)" and n: "n \<notin> set (head # as @ bs)"
    and ap: "\<forall>x\<in>set (head # as @ bs). nodes_apart x n"
  shows "dlist (list_insert_before m (hd (bs @ [head])) n) head (as @ n # bs)"
proof -
  have dist: "distinct (head # as @ [] @ bs)" using d by (simp add: dlist_def)
  obtain cs p q ds where q: "q = hd (bs @ [head])"
    and sub: "set cs \<subseteq> insert head (set as)" "set ds \<subseteq> insert head (set bs)"
    and pq: "p \<in> insert head (set as)" "q \<in> insert head (set bs)"
    and ends: "tl (cs @ [p]) = as" "butlast (q # ds) = bs"
    and nin: "p \<notin> set cs" "p \<notin> set bs" "q \<notin> set as" "q \<notin> set ds"
    and whole: "\<And>ws. head # (as @ ws @ bs) @ [head] = cs @ p # ws @ q # ds"
    by (rule cycle_cut [OF dist], rule that)
  let ?S = "insert n (set (head # as @ bs))" and ?m = "list_insert_before m q n"
  have pw: "pairwise nodes_apart ?S"
    using d ap by (auto simp: dlist_def pairwise_insert nodes_apart_sym)
  have "chain m (cs @ p # q # ds)" using d whole [of "[]"] by (simp add: dlist_def)
  then have ch: "chain m (cs @ [p])" "chain m (q # ds)" "p = list_prev m q"
    using chain_append [of m cs p "q # ds"] by simp_all
  have S: "n \<in> ?S" "q \<in> ?S" "p \<in> ?S" "n \<noteq> q" "n \<noteq> p" using pq n by auto
  have f: "list_next ?m x = (if x = n then q else if x = p then n else list_next m x)"
    "list_prev ?m x = (if x = n then p else if x = q then n else list_prev m x)" if "x \<in> ?S" for x
    using insert_fields [OF pw S(1-3) that ch(3) S(4,5)] by simp_all
  have "list_next ?m x = list_next m x" if "x \<in> set cs \<union> set bs" for x
  proof -
    have "x \<in> ?S" "x \<noteq> n" "x \<noteq> p" using that sub nin n by auto
    with f(1) [of x] show ?thesis by simp
  qed
  moreover have "list_prev ?m x = list_prev m x" if "x \<in> set as \<union> set ds" for x
  proof -
    have "x \<in> ?S" "x \<noteq> n" "x \<noteq> q" using that sub nin n by auto
    with f(2) [of x] show ?thesis by simp
  qed
  ultimately have "chain ?m (cs @ [p]) \<and> chain ?m (q # ds)"
    using chain_relink [OF ch(1,2), of ?m] ends by simp
  moreover have "list_next ?m p = n" "list_prev ?m n = p" "list_next ?m n = q" "list_prev ?m q = n"
    using f(1) [OF S(3)] f(1) [OF S(1)] f(2) [OF S(1)] f(2) [OF S(2)] S(4,5) by simp_all
  ultimately have "chain ?m (head # (as @ n # bs) @ [head])"
    using whole [of "[n]"] chain_append [of ?m cs p "n # q # ds"] by simp
  moreover have "set (head # as @ n # bs) = ?S" by auto
  moreover have "distinct (head # as @ n # bs)" using dist n by auto
  ultimately show ?thesis using pw unfolding dlist_def q by simp
qed

lemma dlist_remove:
  assumes d: "dlist m head (as @ n # bs)"
  shows "dlist (list_remove m n) head (as @ bs)" "dlist (list_remove m n) n []"
proof -
  have dist: "distinct (head # as @ [n] @ bs)" using d by (simp add: dlist_def)
  obtain cs p q ds where sub: "set cs \<subseteq> insert head (set as)" "set ds \<subseteq> insert head (set bs)"
    and pq: "p \<in> insert head (set as)" "q \<in> insert head (set bs)"
    and ends: "tl (cs @ [p]) = as" "butlast (q # ds) = bs"
    and nin: "p \<notin> set cs" "p \<notin> set bs" "q \<notin> set as" "q \<notin> set ds"
    and whole: "\<And>ws. head # (as @ ws @ bs) @ [head] = cs @ p # ws @ q # ds"
    by (rule cycle_cut [OF dist], rule that)
  let ?S = "set (head # as @ n # bs)" and ?m = "list_remove m n"
  have pw: "pairwise nodes_apart ?S" using d by (simp add: dlist_def)
  have "chain m (cs @ p # n # q # ds)" using d whole [of "[n]"] by (simp add: dlist_def)
  then have ch: "chain m (cs @ [p])" "chain m (q # ds)" "p = list_prev m n" "q = list_next m n"
    using chain_append [of m cs p "n # q # ds"] by simp_all
  have S: "n \<in> ?S" "q \<in> ?S" "p \<in> ?S" "n \<noteq> q" "n \<noteq> p" using pq dist by auto
  have f: "list_next ?m x = (if x = n then n else if x = p then q else list_next m x)"
    "list_prev ?m x = (if x = n then n else if x = q then p else list_prev m x)" if "x \<in> ?S" for x
    using remove_fields [OF pw S(1-3) that ch(3,4) S(4,5)] by simp_all
  have "list_next ?m x = list_next m x" if "x \<in> set cs \<union> set bs" for x
  proof -
    have "x \<in> ?S" "x \<noteq> n" "x \<noteq> p" using that sub nin dist by auto
    with f(1) [of x] show ?thesis by simp
  qed
  moreover have "list_prev ?m x = list_prev m x" if "x \<in> set as \<union> set ds" for x
  proof -
    have "x \<in> ?S" "x \<noteq> n" "x \<noteq> q" using that sub nin dist by auto
    with f(2) [of x] show ?thesis by simp
  qed
  ultimately have "chain ?m (cs @ [p]) \<and> chain ?m (q # ds)"
    using chain_relink [OF ch(1,2), of ?m] ends by simp
  moreover have "list_next ?m p = q" "list_prev ?m q = p"
    using f(1) [OF S(3)] f(2) [OF S(2)] S(4,5) by simp_all
  ultimately have "chain ?m (head # (as @ bs) @ [head])"
    using whole [of "[]"] chain_append [of ?m cs p "q # ds"] by simp
  moreover have "pairwise nodes_apart (set (head # as @ bs))"
    using pw by (rule pairwise_subset) auto
  ultimately show "dlist ?m head (as @ bs)" using dist unfolding dlist_def by simp
  show "dlist ?m n []" using f [OF S(1)] by (simp add: dlist_def)
qed

lemma dlist_init: "dlist (list_init m head) head []"
  by (simp add: dlist_def list_init_def)

lemma dlist_empty_iff: "dlist m head xs \<Longrightarrow> list_empty m head \<longleftrightarrow> xs = []"
  by (cases xs) (auto simp: dlist_def list_empty_def)

lemma dlist_first: "dlist m head (x # xs) \<Longrightarrow> list_next m head = x"
  by (simp add: dlist_def)

lemma dlist_last:
  assumes "dlist m head xs"
  shows "list_prev m head = last (head # xs)"
proof -
  have "(head # xs) @ [head] = butlast (head # xs) @ last (head # xs) # [head]" by simp
  then have "chain m (butlast (head # xs) @ last (head # xs) # [head])"
    using assms unfolding dlist_def by (metis append_Cons)
  then show ?thesis using chain_append [of m "butlast (head # xs)" "last (head # xs)" "[head]"] by simp
qed

text \<open>Stores that leave every node of the list alone leave the list alone.\<close>

lemma dlist_cong:
  assumes "\<And>a. a \<in> set (head # xs) \<Longrightarrow> list_next m' a = list_next m a \<and> list_prev m' a = list_prev m a"
  shows "dlist m' head xs = dlist m head xs"
proof -
  have "chain m' (head # xs @ [head]) = chain m (head # xs @ [head])"
    by (rule chain_cong) (use assms in \<open>auto dest!: in_set_butlastD split: if_splits\<close>)
  then show ?thesis by (simp add: dlist_def)
qed

section \<open>The interface of the lists\<close>

locale node_sequence =
  fixes rep :: "mem \<Rightarrow> u64 \<Rightarrow> u64 list \<Rightarrow> bool"
    and init :: "mem \<Rightarrow> u64 \<Rightarrow> mem"
    and is_empty :: "mem \<Rightarrow> u64 \<Rightarrow> bool"
    and first :: "mem \<Rightarrow> u64 \<Rightarrow> u64"
    and push :: "mem \<Rightarrow> u64 \<Rightarrow> u64 \<Rightarrow> mem"
    and unlink :: "mem \<Rightarrow> u64 \<Rightarrow> mem"
    and apart :: "u64 \<Rightarrow> u64 \<Rightarrow> bool"
  assumes rep_init: "rep (init m h) h []"
    and rep_is_empty: "rep m h xs \<Longrightarrow> is_empty m h \<longleftrightarrow> xs = []"
    and rep_first: "rep m h (x # xs) \<Longrightarrow> first m h = x"
    and rep_push: "rep m h xs \<Longrightarrow> n \<notin> set (h # xs) \<Longrightarrow> \<forall>x\<in>set (h # xs). apart x n \<Longrightarrow>
        rep (push m h n) h (xs @ [n])"
    and rep_unlink: "rep m h (as @ n # bs) \<Longrightarrow> rep (unlink m n) h (as @ bs)"
    and rep_apart: "rep m h xs \<Longrightarrow> distinct (h # xs) \<and> pairwise apart (set (h # xs))"
begin

lemma pop_front: "rep m h (x # xs) \<Longrightarrow> first m h = x \<and> rep (unlink m x) h xs"
  using rep_first rep_unlink [of m h "[]" x xs] by simp

lemma push_all:
  assumes "rep m h ys" "distinct (h # ys @ xs)" "pairwise apart (set (h # ys @ xs))"
  shows "rep (foldl (\<lambda>m n. push m h n) m xs) h (ys @ xs)"
  using assms
proof (induction xs arbitrary: m ys)
  case Nil
  then show ?case by simp
next
  case (Cons x xs)
  have "\<forall>y\<in>set (h # ys). apart y x"
    using Cons.prems(2,3) by (auto simp: pairwise_def)
  then have "rep (push m h x) h (ys @ [x])"
    using Cons.prems by (intro rep_push) auto
  with Cons.prems have "rep (foldl (\<lambda>m n. push m h n) (push m h x) xs) h ((ys @ [x]) @ xs)"
    by (intro Cons.IH) simp_all
  then show ?case by simp
qed

lemma fifo:
  assumes "distinct (h # x # xs)" "pairwise apart (set (h # x # xs))"
  shows "first (foldl (\<lambda>m n. push m h n) (init m h) (x # xs)) h = x"
  using push_all [OF rep_init, of h "x # xs" m] assms rep_first by simp

end

interpretation klist: node_sequence dlist list_init list_empty list_next list_push_back list_remove nodes_apart
proof unfold_locales
  fix m h xs n assume "dlist m h xs" "n \<notin> set (h # xs)" "\<forall>x\<in>set (h # xs). nodes_apart x n"
  then show "dlist (list_push_back m h n) h (xs @ [n])"
    using dlist_insert_before [of m h xs "[]" n] by (simp add: list_push_back_def)
next
  fix m h xs assume "dlist m h xs"
  then show "distinct (h # xs) \<and> pairwise nodes_apart (set (h # xs))" by (simp only: dlist_def simp_thms)
qed (rule dlist_init dlist_empty_iff dlist_first dlist_remove; assumption)+


section \<open>Moving a list\<close>

lemma unlink_frame:
  assumes "dlist m head (as @ n # bs)" "dlist m other ys"
    and "pairwise nodes_apart (set (head # as @ n # bs) \<union> set (other # ys))"
    and "set (head # as @ n # bs) \<inter> set (other # ys) = {}"
  shows "dlist (list_remove m n) other ys"
proof -
  have d: "dlist m head (as @ n # bs)" by fact
  have dist: "distinct (head # as @ [n] @ bs)" using d by (simp add: dlist_def)
  obtain cs p q ds where pq: "p \<in> insert head (set as)" "q \<in> insert head (set bs)"
    and whole: "\<And>ws. head # (as @ ws @ bs) @ [head] = cs @ p # ws @ q # ds"
    by (rule cycle_cut [OF dist], rule that)
  have "chain m (cs @ p # n # q # ds)" using d whole [of "[n]"] by (simp add: dlist_def)
  then have ch: "p = list_prev m n" "q = list_next m n"
    using chain_append [of m cs p "n # q # ds"] by simp_all
  let ?S = "set (head # as @ n # bs) \<union> set (other # ys)"
  have "n \<in> ?S" "q \<in> ?S" "p \<in> ?S" "n \<noteq> q" "n \<noteq> p" using pq dist by auto
  note f = remove_fields [OF assms(3) this(1-3) _ ch this(4,5)]
  have "list_next (list_remove m n) a = list_next m a \<and> list_prev (list_remove m n) a = list_prev m a"
    if "a \<in> set (other # ys)" for a
  proof -
    have "a \<in> ?S" "a \<noteq> n" "a \<noteq> p" "a \<noteq> q" using that assms(4) pq by auto
    with f [of a] show ?thesis by simp
  qed
  then show ?thesis using assms(2) dlist_cong [of other ys "list_remove m n" m] by simp
qed

lemma push_frame:
  assumes d: "dlist m head xs" "dlist m other ys" and n: "n \<notin> set (head # xs) \<union> set (other # ys)"
    and ap: "pairwise nodes_apart (insert n (set (head # xs) \<union> set (other # ys)))"
    and dj: "set (head # xs) \<inter> set (other # ys) = {}"
  shows "dlist (list_push_back m head n) other ys"
proof -
  let ?S = "insert n (set (head # xs) \<union> set (other # ys))"
  have pin: "list_prev m head \<in> set (head # xs)"
    unfolding dlist_last [OF d(1)] by (rule last_in_set) simp
  then have S: "n \<in> ?S" "head \<in> ?S" "list_prev m head \<in> ?S" "n \<noteq> head" "n \<noteq> list_prev m head"
    using n by auto
  note f = insert_fields [OF ap S(1-3) _ refl S(4,5)]
  have "list_next (list_push_back m head n) a = list_next m a \<and>
      list_prev (list_push_back m head n) a = list_prev m a" if "a \<in> set (other # ys)" for a
  proof -
    have "a \<in> ?S" "a \<noteq> n" "a \<noteq> head" "a \<noteq> list_prev m head"
      using that dj n pin by auto
    with f [of a] show ?thesis by (simp add: list_push_back_def)
  qed
  then show ?thesis using d(2) dlist_cong [of other ys "list_push_back m head n" m] by simp
qed

text \<open>
  C29. Moving the entries of one list to another always returns; it leaves the source empty
  and the destination with its old entries followed by the source's, in order. The two
  lists share no node and no two of their nodes overlap in memory.
\<close>

lemma move_entries_returns:
  assumes "dlist m source xs" "dlist m destination ys"
    and "set (source # xs) \<inter> set (destination # ys) = {}"
    and "pairwise nodes_apart (set (source # xs) \<union> set (destination # ys))"
  shows "\<exists>m'. move_entries m source destination = Some m' \<and>
     dlist m' source [] \<and> dlist m' destination (ys @ xs)"
  using assms
proof (induction xs arbitrary: m ys)
  case Nil
  then show ?case by (subst move_entries.simps) (simp add: klist.rep_is_empty)
next
  case (Cons x xs)
  define m1 where "m1 = list_remove m x"
  define m2 where "m2 = list_push_back m1 destination x"
  have pop: "list_next m source = x" "dlist m1 source xs"
    using klist.pop_front [OF Cons.prems(1)] by (simp_all add: m1_def)
  have d1: "dlist m1 destination ys"
    using unlink_frame [of m source "[]" x xs destination ys] Cons.prems by (simp add: m1_def)
  have dx: "distinct (source # x # xs)" using Cons.prems(1) by (simp add: dlist_def)
  have sub: "pairwise nodes_apart T" if "T \<subseteq> set (source # x # xs) \<union> set (destination # ys)" for T
    using Cons.prems(4) that by (rule pairwise_subset)
  have "\<forall>y\<in>set (destination # ys). nodes_apart y x"
    using Cons.prems(3,4) by (auto simp: pairwise_def)
  then have d2: "dlist m2 destination (ys @ [x])"
    unfolding m2_def using Cons.prems(3) d1 by (intro klist.rep_push) auto
  have s2: "dlist m2 source xs" unfolding m2_def
    by (rule push_frame [OF d1 pop(2)]) (use dx Cons.prems(3) in \<open>auto intro!: sub\<close>)
  have "\<exists>m'. move_entries m2 source destination = Some m' \<and>
      dlist m' source [] \<and> dlist m' destination ((ys @ [x]) @ xs)"
    by (rule Cons.IH [OF s2 d2]) (use dx Cons.prems(3) in \<open>auto intro!: sub\<close>)
  moreover have "move_entries m source destination = move_entries m2 source destination"
    using klist.rep_is_empty [OF Cons.prems(1)] pop(1)
    by (subst move_entries.simps) (simp add: Let_def m1_def m2_def)
  ultimately show ?case by simp
qed

definition two_lists :: mem where
  "two_lists =
     list_push_back (list_push_back (list_init (list_init (\<lambda>_. 0) 4096) 8192) 4096 12288) 4096 16384"

theorem move_entries_returns_witness:
  "dlist two_lists 4096 [12288, 16384] \<and> dlist two_lists 8192 [] \<and>
    (\<exists>m'. move_entries two_lists 4096 8192 = Some m' \<and>
      dlist m' 4096 [] \<and> dlist m' 8192 [12288, 16384])"
proof -
  have ap: "pairwise nodes_apart {4096, 8192, 12288, 16384}"
    by (auto simp: pairwise_def intro: nodes_apart_unat nodes_apart_sym [THEN iffD1, OF nodes_apart_unat])
  let ?m0 = "list_init (list_init (\<lambda>_. 0) 4096) 8192"
  have sub: "pairwise nodes_apart T" if "T \<subseteq> {4096, 8192, 12288, 16384}" for T
    using ap that by (rule pairwise_subset)
  have i8: "dlist ?m0 8192 []" by (rule klist.rep_init)
  have "nodes_apart 4096 8192" by (rule nodes_apart_unat) simp_all
  then have "list_next ?m0 a = list_next (list_init (\<lambda>_. 0) 4096) a \<and>
      list_prev ?m0 a = list_prev (list_init (\<lambda>_. 0) 4096) a" if "a \<in> set [4096]" for a
    using that by (simp add: list_init_def)
  then have i4: "dlist ?m0 4096 []"
    using dlist_cong [of 4096 "[]" ?m0 "list_init (\<lambda>_. 0) 4096"] klist.rep_init by simp
  have "dlist two_lists 4096 ([] @ [12288, 16384])"
    using klist.push_all [OF i4, of "[12288, 16384]"] by (simp add: two_lists_def sub)
  then have 4: "dlist two_lists 4096 [12288, 16384]" by simp
  have "dlist (list_push_back ?m0 4096 12288) 4096 ([] @ [12288])"
    using klist.push_all [OF i4, of "[12288]"] by (simp add: sub)
  moreover have "dlist (list_push_back ?m0 4096 12288) 8192 []"
    by (rule push_frame [OF i4 i8]) (auto intro!: sub)
  ultimately have 8: "dlist two_lists 8192 []"
    unfolding two_lists_def by (rule push_frame) (auto intro!: sub)
  from 4 8 show ?thesis
    using move_entries_returns [OF 4 8] by (simp add: sub)
qed

end
