(* ===== verification/Runtime.thy ===== *)
theory Runtime
  imports Prelude
begin

text \<open>
  The memory and string routines of \<^verbatim>\<open>src/runtime.c\<close>, byte by byte as written. The other theories
  use their effect on whole blocks (\<open>write_bytes\<close>, \<open>read_bytes\<close>, \<open>zero_bytes\<close>); here the loops are
  shown to have that effect, \<open>memmove\<close> also when source and destination overlap.
\<close>

section \<open>The routines\<close>

fun memcpy :: "u64 \<Rightarrow> u64 \<Rightarrow> nat \<Rightarrow> mem \<Rightarrow> mem" where
  "memcpy d s 0 m = m"
| "memcpy d s (Suc n) m = memcpy (d + 1) (s + 1) n (m(d := m s))"

fun memcmp :: "mem \<Rightarrow> u64 \<Rightarrow> u64 \<Rightarrow> nat \<Rightarrow> int" where
  "memcmp m a b 0 = 0"
| "memcmp m a b (Suc n) =
     (if m a \<noteq> m b then if m a < m b then - 1 else 1 else memcmp m (a + 1) (b + 1) n)"

fun copy_down :: "u64 \<Rightarrow> u64 \<Rightarrow> nat \<Rightarrow> mem \<Rightarrow> mem" where
  "copy_down d s 0 m = m"
| "copy_down d s (Suc n) m = copy_down (d - 1) (s - 1) n (m(d - 1 := m (s - 1)))"

definition memmove :: "u64 \<Rightarrow> u64 \<Rightarrow> nat \<Rightarrow> mem \<Rightarrow> mem" where
  "memmove dst src n m =
     (if dst < src then memcpy dst src n m
      else if dst > src then copy_down (dst + of_nat n) (src + of_nat n) n m
      else m)"

fun memset :: "u64 \<Rightarrow> u8 \<Rightarrow> nat \<Rightarrow> mem \<Rightarrow> mem" where
  "memset d v 0 m = m"
| "memset d v (Suc n) m = memset (d + 1) v n (m(d := v))"

partial_function (option) strlen_from :: "mem \<Rightarrow> u64 \<Rightarrow> nat \<Rightarrow> nat option" where
  "strlen_from m s n = (if m (s + of_nat n) \<noteq> 0 then strlen_from m s (Suc n) else Some n)"

definition strlen :: "mem \<Rightarrow> u64 \<Rightarrow> nat option" where
  "strlen m s = strlen_from m s 0"

section \<open>Their effect on blocks\<close>

lemma write_bytes_Nil [simp]: "write_bytes m a [] = m"
  by (rule ext) (simp add: write_bytes_def)

lemma write_bytes_Cons:
  assumes "Suc (length bs) \<le> 2 ^ 64"
  shows "write_bytes m a (b # bs) = write_bytes (m(a := b)) (a + 1) bs"
proof
  fix x
  show "write_bytes m a (b # bs) x = write_bytes (m(a := b)) (a + 1) bs x"
  proof (cases "x = a")
    case True
    have "unat (a - (a + 1)) = 2 ^ 64 - 1" by (simp add: unsigned_minus_1_eq_mask mask_eq_exp_minus_1)
    then show ?thesis using True assms by (simp add: write_bytes_def)
  next
    case False
    then have "x - a \<noteq> 0" by simp
    then have "unat (x - a) = Suc (unat (x - a - 1))" using unat_minus_one [of "x - a"] unat_gt_0 [of "x - a"] by simp
    then show ?thesis using False by (simp add: write_bytes_def diff_diff_eq [symmetric])
  qed
qed

lemma read_bytes_Suc: "read_bytes m a (Suc n) = m a # read_bytes m (a + 1) n"
  unfolding read_bytes_def upt_conv_Cons [OF zero_less_Suc] by (simp add: map_Suc_upt [symmetric] algebra_simps del: upt_Suc)

lemma memset_block: "n \<le> 2 ^ 64 \<Longrightarrow> memset d v n m = write_bytes m d (replicate n v)"
  by (induction n arbitrary: d m) (simp_all add: write_bytes_Cons)

lemma memset_zero: "n \<le> 2 ^ 64 \<Longrightarrow> memset d 0 n m = zero_bytes m d n"
  by (simp add: memset_block zero_bytes_def)

lemma write_bytes_snoc:
  assumes "length bs < 2 ^ 64"
  shows "write_bytes m a (bs @ [b]) = write_bytes (m(a + of_nat (length bs) := b)) a bs"
proof
  fix x
  have u: "unat (of_nat (length bs) :: u64) = length bs" using assms by (rule unat_of_nat_small)
  show "write_bytes m a (bs @ [b]) x = write_bytes (m(a + of_nat (length bs) := b)) a bs x"
  proof (cases "x = a + of_nat (length bs)")
    case True
    then show ?thesis by (simp add: write_bytes_def u)
  next
    case False
    have "unat (x - a) \<noteq> length bs"
    proof
      assume "unat (x - a) = length bs"
      then have "x - a = of_nat (length bs)" by (simp add: word_unat_eq_iff u)
      then show False using False by (simp add: algebra_simps)
    qed
    then show ?thesis using False by (simp add: write_bytes_def nth_append less_Suc_eq)
  qed
qed

lemma read_bytes_snoc: "read_bytes m a (Suc n) = read_bytes m a n @ [m (a + of_nat n)]"
  by (simp add: read_bytes_def)

lemma read_bytes_update: "(\<And>i. i < n \<Longrightarrow> x \<noteq> a + of_nat i) \<Longrightarrow> read_bytes (m(x := v)) a n = read_bytes m a n"
  unfolding read_bytes_def by (rule map_cong) auto

lemma memcpy_forward:
  assumes "n \<le> 2 ^ 64" "\<And>i j. i < j \<Longrightarrow> j < n \<Longrightarrow> d + of_nat i \<noteq> s + of_nat j"
  shows "memcpy d s n m = write_bytes m d (read_bytes m s n)"
  using assms
proof (induction n arbitrary: d s m)
  case (Suc n)
  have "memcpy d s (Suc n) m = write_bytes (m(d := m s)) (d + 1) (read_bytes (m(d := m s)) (s + 1) n)"
    unfolding memcpy.simps
  proof (rule Suc.IH)
    show "d + 1 + of_nat i \<noteq> s + 1 + of_nat j" if "i < j" "j < n" for i j
      using Suc.prems(2) [of "Suc i" "Suc j"] that by (simp add: algebra_simps)
  qed (use Suc.prems in simp)
  also have "read_bytes (m(d := m s)) (s + 1) n = read_bytes m (s + 1) n"
  proof (rule read_bytes_update)
    show "d \<noteq> s + 1 + of_nat i" if "i < n" for i
      using Suc.prems(2) [of 0 "Suc i"] that by (simp add: algebra_simps)
  qed
  also have "write_bytes (m(d := m s)) (d + 1) (read_bytes m (s + 1) n) = write_bytes m d (read_bytes m s (Suc n))"
    unfolding read_bytes_Suc using Suc.prems(1) by (subst write_bytes_Cons) simp_all
  finally show ?case .
qed (simp add: read_bytes_def)

lemma copy_down_block:
  assumes "n \<le> 2 ^ 64" "\<And>i j. j < i \<Longrightarrow> i < n \<Longrightarrow> d + of_nat i \<noteq> s + of_nat j"
  shows "copy_down (d + of_nat n) (s + of_nat n) n m = write_bytes m d (read_bytes m s n)"
  using assms
proof (induction n arbitrary: m)
  case (Suc n)
  have e: "d + of_nat (Suc n) - 1 = d + of_nat n" "s + of_nat (Suc n) - 1 = s + of_nat n" by simp_all
  let ?m = "m(d + of_nat n := m (s + of_nat n))"
  have "copy_down (d + of_nat (Suc n)) (s + of_nat (Suc n)) (Suc n) m = copy_down (d + of_nat n) (s + of_nat n) n ?m"
    unfolding copy_down.simps e ..
  also have "\<dots> = write_bytes ?m d (read_bytes ?m s n)"
    by (rule Suc.IH) (use Suc.prems in auto)
  also have "read_bytes ?m s n = read_bytes m s n"
    by (rule read_bytes_update) (use Suc.prems(2) in auto)
  also have "write_bytes ?m d (read_bytes m s n) = write_bytes m d (read_bytes m s (Suc n))"
    using write_bytes_snoc [of "read_bytes m s n" m d "m (s + of_nat n)"] Suc.prems(1) by (simp add: read_bytes_snoc)
  finally show ?case .
qed (simp add: read_bytes_def)

lemma no_wrap_neq:
  fixes d s :: u64
  assumes "unat d < unat s" "unat s + n \<le> 2 ^ 64" "i \<le> j" "j < n"
  shows "d + of_nat i \<noteq> s + of_nat j"
proof
  assume "d + of_nat i = s + of_nat j"
  then have "unat (d + of_nat i) = unat (s + of_nat j)" by (rule arg_cong)
  moreover have "unat (d + of_nat i) = unat d + i" "unat (s + of_nat j) = unat s + j"
    using assms by (simp_all add: unat_word_ariths unat_of_nat_small)
  ultimately show False using assms by simp
qed

text \<open>
  C31. \<open>memmove\<close> copies correctly whether or not the two blocks overlap: afterwards the destination
  holds the bytes the source held before the call, and nothing else changed. The blocks do not
  wrap around the end of the address space.
\<close>

theorem memmove_correct:
  assumes "unat dst + n \<le> 2 ^ 64" "unat src + n \<le> 2 ^ 64"
  shows "memmove dst src n m = write_bytes m dst (read_bytes m src n)"
proof -
  consider "unat dst < unat src" | "unat src < unat dst" | "dst = src"
    unfolding word_unat_eq_iff by linarith
  then show ?thesis
  proof cases
    case 1
    then have "memcpy dst src n m = write_bytes m dst (read_bytes m src n)"
      using assms no_wrap_neq [OF 1 assms(2)] by (intro memcpy_forward) simp_all
    then show ?thesis using 1 by (simp add: memmove_def word_less_nat_alt)
  next
    case 2
    have "copy_down (dst + of_nat n) (src + of_nat n) n m = write_bytes m dst (read_bytes m src n)"
    proof (rule copy_down_block)
      show "dst + of_nat i \<noteq> src + of_nat j" if "j < i" "i < n" for i j
        using no_wrap_neq [OF 2 assms(1), of j i] that by simp
    qed (use assms in simp)
    then show ?thesis using 2 by (simp add: memmove_def word_less_nat_alt)
  next
    case 3
    have "write_bytes m src (read_bytes m src n) x = m x" for x by (auto simp: write_bytes_def)
    then show ?thesis using 3 by (auto simp: memmove_def)
  qed
qed

theorem memmove_correct_witness:
  "memmove 0x1004 0x1000 8 (\<lambda>a. ucast a) 0x100b = 0x07 \<and>
   memmove 0x1004 0x1000 8 (\<lambda>a. ucast a) = write_bytes (\<lambda>a. ucast a) 0x1004 (read_bytes (\<lambda>a. ucast a) 0x1000 8)"
proof -
  have "memmove 0x1004 0x1000 8 (\<lambda>a. ucast a) = write_bytes (\<lambda>a. ucast a) 0x1004 (read_bytes (\<lambda>a. ucast a) 0x1000 8)"
    by (rule memmove_correct) simp_all
  moreover have "write_bytes (\<lambda>a. ucast a) 0x1004 (read_bytes (\<lambda>a. ucast (a :: u64)) 0x1000 8) 0x100b = (0x07 :: u8)"
    by (simp add: write_bytes_def)
  ultimately show ?thesis by simp
qed

section \<open>Comparison and length\<close>

lemma find_upt_Suc: "find P [0..<Suc n] = (if P 0 then Some 0 else map_option Suc (find (\<lambda>i. P (Suc i)) [0..<n]))"
proof -
  have "find P (map Suc xs) = map_option Suc (find (\<lambda>i. P (Suc i)) xs)" for xs
    by (induction xs) simp_all
  then show ?thesis unfolding upt_conv_Cons [OF zero_less_Suc] map_Suc_upt [symmetric] by simp
qed

text \<open>
  \<open>memcmp\<close> compares as unsigned bytes at the first difference: it returns 0 if the blocks are
  equal, and otherwise -1 or 1 according to the first pair of bytes that differ.
\<close>

theorem memcmp_correct:
  "memcmp m a b n =
     (case find (\<lambda>i. m (a + of_nat i) \<noteq> m (b + of_nat i)) [0..<n] of
        None \<Rightarrow> 0
      | Some i \<Rightarrow> if m (a + of_nat i) < m (b + of_nat i) then - 1 else 1)"
proof (induction n arbitrary: a b)
  case (Suc n)
  have "a + of_nat (Suc i) = a + 1 + of_nat i" "b + of_nat (Suc i) = b + 1 + of_nat i" for i :: nat
    by (simp_all add: algebra_simps)
  then show ?case using Suc [of "a + 1" "b + 1"]
    unfolding find_upt_Suc by (auto simp: add.assoc split: option.split)
qed simp

lemma strlen_from_sound:
  assumes "strlen_from m s n = Some k"
  shows "n \<le> k \<and> m (s + of_nat k) = 0 \<and> (\<forall>i. n \<le> i \<and> i < k \<longrightarrow> m (s + of_nat i) \<noteq> 0)"
proof (rule strlen_from.raw_induct [OF _ assms])
  fix f :: "mem \<Rightarrow> u64 \<Rightarrow> nat \<Rightarrow> nat option" and m s n k
  assume IH: "\<And>m s n k. f m s n = Some k \<Longrightarrow>
      n \<le> k \<and> m (s + of_nat k) = 0 \<and> (\<forall>i. n \<le> i \<and> i < k \<longrightarrow> m (s + of_nat i) \<noteq> 0)"
    and step: "(if m (s + of_nat n) \<noteq> 0 then f m s (Suc n) else Some n) = Some k"
  show "n \<le> k \<and> m (s + of_nat k) = 0 \<and> (\<forall>i. n \<le> i \<and> i < k \<longrightarrow> m (s + of_nat i) \<noteq> 0)"
  proof (cases "m (s + of_nat n) \<noteq> 0")
    case True
    then have "f m s (Suc n) = Some k" using step by simp
    note ih = IH [OF this]
    have "m (s + of_nat i) \<noteq> 0" if "n \<le> i \<and> i < k" for i
      using that True ih by (cases "i = n") auto
    then show ?thesis using ih by auto
  qed (use step in auto)
qed

lemma strlen_from_complete:
  "m (s + of_nat (n + d)) = 0 \<Longrightarrow> (\<And>i. i < d \<Longrightarrow> m (s + of_nat (n + i)) \<noteq> 0) \<Longrightarrow> strlen_from m s n = Some (n + d)"
proof (induction d arbitrary: n)
  case 0
  then show ?case by (subst strlen_from.simps) simp
next
  case (Suc d)
  have "strlen_from m s (Suc n) = Some (Suc n + d)"
  proof (rule Suc.IH)
    show "m (s + of_nat (Suc n + d)) = 0" using Suc.prems(1) by simp
    show "m (s + of_nat (Suc n + i)) \<noteq> 0" if "i < d" for i using Suc.prems(2) [of "Suc i"] that by simp
  qed
  then show ?case using Suc.prems(2) [of 0] by (subst strlen_from.simps) simp
qed

text \<open>
  \<open>strlen\<close> returns exactly when the string is terminated, and then the position of the first zero
  byte.
\<close>

theorem strlen_correct:
  "strlen m s = Some n \<longleftrightarrow> m (s + of_nat n) = 0 \<and> (\<forall>i\<in>{0..<n}. m (s + of_nat i) \<noteq> 0)"
proof
  assume "strlen m s = Some n"
  then show "m (s + of_nat n) = 0 \<and> (\<forall>i\<in>{0..<n}. m (s + of_nat i) \<noteq> 0)"
    using strlen_from_sound [of m s 0 n] by (simp add: strlen_def)
next
  assume "m (s + of_nat n) = 0 \<and> (\<forall>i\<in>{0..<n}. m (s + of_nat i) \<noteq> 0)"
  then have "strlen_from m s 0 = Some (0 + n)" by (intro strlen_from_complete) simp_all
  then show "strlen m s = Some n" by (simp add: strlen_def)
qed

theorem strlen_correct_witness: "strlen ((\<lambda>_. 0)(0x1000 := 1, 0x1001 := 2)) 0x1000 = Some 2"
proof -
  have "{0..<2 :: nat} = {0, 1}" by auto
  then show ?thesis by (subst strlen_correct) simp
qed

end
