(* ===== verification/Sync.thy ===== *)
theory Sync
  imports Prelude
begin

text \<open>
  The interrupt and spinlock primitives of \<^verbatim>\<open>src/kernel/sync.c\<close> on a single hart.
  Every critical section of the kernel is an \<open>irq_save\<close>, a body, and an \<open>irq_restore\<close> of
  the flags it returned; \<open>irq_restored\<close> is the fact that lets a component forget the pair.
  The wait queues of the same file need the scheduler and are in theory Scheduler.
\<close>

section \<open>The supervisor status register\<close>

definition SSTATUS_SIE :: u64 where "SSTATUS_SIE = push_bit 1 1"
definition SSTATUS_SPIE :: u64 where "SSTATUS_SPIE = push_bit 5 1"
definition SSTATUS_SPP :: u64 where "SSTATUS_SPP = push_bit 8 1"

record cpu =
  sstatus :: u64

definition csr_set_sstatus :: "u64 \<Rightarrow> 'a cpu_scheme \<Rightarrow> 'a cpu_scheme" where
  "csr_set_sstatus bits s = s\<lparr>sstatus := sstatus s OR bits\<rparr>"

definition csr_clear_sstatus :: "u64 \<Rightarrow> 'a cpu_scheme \<Rightarrow> 'a cpu_scheme" where
  "csr_clear_sstatus bits s = s\<lparr>sstatus := sstatus s AND NOT bits\<rparr>"

definition irq_save :: "'a cpu_scheme \<Rightarrow> u64 \<times> 'a cpu_scheme" where
  "irq_save s = (sstatus s, csr_clear_sstatus SSTATUS_SIE s)"

definition irq_restore :: "u64 \<Rightarrow> 'a cpu_scheme \<Rightarrow> 'a cpu_scheme" where
  "irq_restore flags s =
     (if flags AND SSTATUS_SIE \<noteq> 0 then csr_set_sstatus SSTATUS_SIE s
      else csr_clear_sstatus SSTATUS_SIE s)"

definition irq_enabled :: "'a cpu_scheme \<Rightarrow> bool" where
  "irq_enabled s \<longleftrightarrow> sstatus s AND SSTATUS_SIE \<noteq> 0"

lemmas irq_defs = irq_save_def irq_restore_def csr_set_sstatus_def csr_clear_sstatus_def

lemma and_SIE_eq_0_iff: "x AND SSTATUS_SIE = 0 \<longleftrightarrow> \<not> bit x 1"
  by (simp add: SSTATUS_SIE_def bit_iff_and_push_bit_not_eq_0)

lemma sie_roundtrip:
  "(x AND NOT SSTATUS_SIE) OR SSTATUS_SIE = (if bit x 1 then x else x OR SSTATUS_SIE)"
  "(x AND NOT SSTATUS_SIE) AND NOT SSTATUS_SIE = x AND NOT SSTATUS_SIE"
  "\<not> bit x 1 \<Longrightarrow> x AND NOT SSTATUS_SIE = x"
  by (auto simp: SSTATUS_SIE_def bit_simps intro!: bit_word_eqI)

text \<open>A body that does not touch \<open>sstatus\<close> runs with interrupts off and leaves it as it was.\<close>

lemma irq_restored:
  assumes "sstatus t = sstatus (snd (irq_save s))"
  shows "irq_restore (fst (irq_save s)) t = t\<lparr>sstatus := sstatus s\<rparr>"
  using assms by (auto simp: irq_defs and_SIE_eq_0_iff sie_roundtrip)

lemma irq_save_disables: "\<not> irq_enabled (snd (irq_save s))"
  by (simp add: irq_enabled_def irq_defs and_SIE_eq_0_iff) (simp add: SSTATUS_SIE_def bit_simps)

section \<open>Spinlocks\<close>

text \<open>
  With one hart nobody can release a lock that is already held while \<open>spin_lock\<close> spins on
  it: the loop then never ends, which is the value \<open>None\<close>.
\<close>

type_synonym spinlock = u32

definition spinlock_init :: spinlock where "spinlock_init = 0"

definition spin_lock :: "spinlock \<Rightarrow> spinlock option" where
  "spin_lock lock = (if lock = 0 then Some 1 else None)"

definition spin_unlock :: "spinlock \<Rightarrow> spinlock" where
  "spin_unlock lock = 0"

end
