(* ===== verification/Log.thy ===== *)
theory Log
  imports Sync
begin

text \<open>
  The kernel log, \<^verbatim>\<open>src/kernel/log.c\<close>: a ring of 1024 bytes with the position of the next write
  and the number of bytes kept. \<open>log_contents\<close> is the text the ring stands for; writing appends
  to it and forgets the oldest bytes beyond 1024, reading returns its beginning. \<open>None\<close> is a
  call that never returns because the lock is held.
\<close>

definition LOG_CAPACITY :: nat where "LOG_CAPACITY = 1024"

record log_state = cpu +
  log_buffer :: "u8 list"
  log_head :: nat
  log_count :: nat
  log_lock :: spinlock

definition log_init :: "'a log_state_scheme \<Rightarrow> 'a log_state_scheme" where
  "log_init s = s\<lparr>log_head := 0, log_count := 0, log_lock := spinlock_init\<rparr>"

fun log_put :: "u8 list \<Rightarrow> 'a log_state_scheme \<Rightarrow> 'a log_state_scheme" where
  "log_put [] s = s"
| "log_put (b # bs) s =
     (let s = s\<lparr>log_buffer := (log_buffer s)[log_head s := b], log_head := (log_head s + 1) mod LOG_CAPACITY\<rparr>;
          s = if log_count s < LOG_CAPACITY then s\<lparr>log_count := log_count s + 1\<rparr> else s
      in log_put bs s)"

definition log_write :: "u8 list \<Rightarrow> 'a log_state_scheme \<Rightarrow> 'a log_state_scheme option" where
  "log_write data s =
     (let (flags, s) = irq_save s in
      case spin_lock (log_lock s) of
        None \<Rightarrow> None
      | Some l \<Rightarrow>
          let s = log_put data (s\<lparr>log_lock := l\<rparr>);
              s = s\<lparr>log_lock := spin_unlock (log_lock s)\<rparr>
          in Some (irq_restore flags s))"

definition log_read :: "nat \<Rightarrow> 'a log_state_scheme \<Rightarrow> (u8 list \<times> 'a log_state_scheme) option" where
  "log_read capacity s =
     (let (flags, s) = irq_save s in
      case spin_lock (log_lock s) of
        None \<Rightarrow> None
      | Some l \<Rightarrow>
          let s = s\<lparr>log_lock := l\<rparr>;
              amount = if log_count s < capacity then log_count s else capacity;
              start = (log_head s + LOG_CAPACITY - log_count s) mod LOG_CAPACITY;
              data = map (\<lambda>i. log_buffer s ! ((start + i) mod LOG_CAPACITY)) [0..<amount];
              s = s\<lparr>log_lock := spin_unlock (log_lock s)\<rparr>
          in Some (data, irq_restore flags s))"

section \<open>The text a ring stands for\<close>

definition last_bytes :: "nat \<Rightarrow> 'b list \<Rightarrow> 'b list" where
  "last_bytes n xs = drop (length xs - n) xs"

lemma last_bytes_append: "last_bytes n (last_bytes n xs @ ys) = last_bytes n (xs @ ys)"
  by (cases "n \<le> length xs") (simp_all add: last_bytes_def add.commute)

definition log_start :: "'a log_state_scheme \<Rightarrow> nat" where
  "log_start s = (log_head s + LOG_CAPACITY - log_count s) mod LOG_CAPACITY"

definition log_contents :: "'a log_state_scheme \<Rightarrow> u8 list" where
  "log_contents s = map (\<lambda>i. log_buffer s ! ((log_start s + i) mod LOG_CAPACITY)) [0..<log_count s]"

definition log_inv :: "'a log_state_scheme \<Rightarrow> bool" where
  "log_inv s \<longleftrightarrow> length (log_buffer s) = LOG_CAPACITY \<and> log_head s < LOG_CAPACITY \<and>
     log_count s \<le> LOG_CAPACITY"

lemma ring_index_le:
  fixes i j n a :: nat
  assumes "i \<le> j" "j < n" "(a + i) mod n = (a + j) mod n"
  shows "i = j"
proof -
  have "n dvd (a + j) - (a + i)" using assms by (subst mod_eq_dvd_iff_nat [symmetric]) simp_all
  then have "j - i = 0" using assms(1,2) nat_dvd_not_less [of "j - i" n] by fastforce
  then show ?thesis using assms(1) by simp
qed

lemma ring_index:
  fixes i j n a :: nat
  assumes "i < n" "j < n"
  shows "(a + i) mod n = (a + j) mod n \<longleftrightarrow> i = j"
  using ring_index_le [of i j n a] ring_index_le [of j i n a] assms by (cases "i \<le> j") auto

lemma start_head: "log_count s \<le> LOG_CAPACITY \<Longrightarrow> log_head s < LOG_CAPACITY \<Longrightarrow> (log_start s + log_count s) mod LOG_CAPACITY = log_head s"
  unfolding log_start_def mod_add_left_eq by (simp add: LOG_CAPACITY_def)

text \<open>One byte written.\<close>

lemma log_put_byte:
  assumes inv: "log_inv s"
    and s': "s' = log_put [b] s"
  shows "log_inv s'" "log_contents s' = last_bytes LOG_CAPACITY (log_contents s @ [b])"
proof -
  let ?N = LOG_CAPACITY and ?h = "log_head s" and ?c = "log_count s" and ?a = "log_start s"
  have N: "0 < ?N" by (simp add: LOG_CAPACITY_def)
  have len: "length (log_buffer s) = ?N" and h: "?h < ?N" and c: "?c \<le> ?N" using inv by (simp_all add: log_inv_def)
  have fields: "log_buffer s' = (log_buffer s)[?h := b]" "log_head s' = (?h + 1) mod ?N"
    "log_count s' = (if ?c < ?N then ?c + 1 else ?c)" "log_lock s' = log_lock s"
    using s' by (simp_all add: Let_def)
  show "log_inv s'" using inv N by (auto simp: log_inv_def fields)
  have hd: "?h = (?a + ?c) mod ?N" using start_head [OF c h] by simp
  have rd: "log_buffer s' ! ((?a + i) mod ?N) = (if i = ?c then b else log_buffer s ! ((?a + i) mod ?N))" if "i < ?N" "?c < ?N" for i
    using ring_index [OF that, of ?a] len h hd by (auto simp: fields(1))
  show "log_contents s' = last_bytes ?N (log_contents s @ [b])"
  proof (cases "?c < ?N")
    case True
    have "log_start s' = ?a"
    proof -
      have "log_start s' = ((?h + 1) mod ?N + (?N - (?c + 1))) mod ?N"
        using True by (simp add: log_start_def fields)
      also have "\<dots> = (?h + 1 + (?N - (?c + 1))) mod ?N" unfolding mod_add_left_eq ..
      also have "?h + 1 + (?N - (?c + 1)) = ?h + ?N - ?c" using True by simp
      finally show ?thesis by (simp add: log_start_def)
    qed
    then have "log_contents s' = map (\<lambda>i. log_buffer s' ! ((?a + i) mod ?N)) [0..<Suc ?c]"
      using True by (simp add: log_contents_def fields(3))
    also have "\<dots> = log_contents s @ [b]" unfolding log_contents_def using rd True by simp
    finally show ?thesis using True by (simp add: last_bytes_def log_contents_def)
  next
    case False
    then have cN: "?c = ?N" using c by simp
    have a: "?a = ?h" using cN h by (simp add: log_start_def)
    have a': "log_start s' = (?h + 1) mod ?N" using cN by (simp add: log_start_def fields)
    have nth: "log_buffer s' ! (((?h + 1) mod ?N + i) mod ?N) = (log_contents s @ [b]) ! Suc i" if "i < ?N" for i
    proof -
      have e: "((?h + 1) mod ?N + i) mod ?N = (?h + Suc i) mod ?N" unfolding mod_add_left_eq by simp
      show ?thesis
      proof (cases "Suc i = ?N")
        case True
        then have "(?h + Suc i) mod ?N = ?h" using h by simp
        then show ?thesis using True cN e h len by (simp add: fields(1) nth_append log_contents_def)
      next
        case False
        then have si: "Suc i < ?N" using that by simp
        then have "(?h + Suc i) mod ?N \<noteq> ?h" using ring_index [OF si N, of ?h] h by auto
        then show ?thesis using si cN e a by (simp add: fields(1) nth_append log_contents_def)
      qed
    qed
    have lc: "length (log_contents s) = ?N" using cN by (simp add: log_contents_def)
    then have "log_contents s' = drop 1 (log_contents s @ [b])"
      using nth cN a' by (intro nth_equalityI) (simp_all add: log_contents_def [of s'] fields(3) del: drop_append)
    then show ?thesis using lc by (simp add: last_bytes_def del: drop_append)
  qed
qed

lemma log_put_bytes:
  assumes "log_inv s"
  shows "log_inv (log_put bs s) \<and> log_contents (log_put bs s) = last_bytes LOG_CAPACITY (log_contents s @ bs) \<and>
    log_lock (log_put bs s) = log_lock s \<and> sstatus (log_put bs s) = sstatus s"
  using assms
proof (induction bs arbitrary: s)
  case Nil
  then show ?case by (simp add: last_bytes_def log_contents_def log_inv_def)
next
  case (Cons b bs)
  define t where "t = log_put [b] s"
  have put: "log_put (b # bs) s = log_put bs t" by (simp add: t_def Let_def)
  have t: "log_inv t" "log_contents t = last_bytes LOG_CAPACITY (log_contents s @ [b])"
    "log_lock t = log_lock s" "sstatus t = sstatus s"
    using log_put_byte [OF Cons.prems t_def] by (simp_all add: t_def Let_def)
  show ?case using Cons.IH [OF t(1)] t(2-4) unfolding put by (simp add: last_bytes_append)
qed

lemma log_ring_cong:
  "log_inv (log_lock_update f s) = log_inv s" "log_contents (log_lock_update f s) = log_contents s"
  "log_inv (sstatus_update g s) = log_inv s" "log_contents (sstatus_update g s) = log_contents s"
  by (simp_all add: log_inv_def log_contents_def log_start_def)

definition log_ready :: "'a log_state_scheme \<Rightarrow> bool" where
  "log_ready s \<longleftrightarrow> log_inv s \<and> log_lock s = 0"

lemma log_write_appends:
  assumes "log_ready s"
  shows "\<exists>t. log_write data s = Some t \<and> log_ready t \<and> sstatus t = sstatus s \<and>
    log_contents t = last_bytes LOG_CAPACITY (log_contents s @ data)"
proof -
  define u where "u = snd (irq_save s)\<lparr>log_lock := 1\<rparr>"
  define v where "v = (log_put data u)\<lparr>log_lock := 0\<rparr>"
  have lock: "log_lock (snd (irq_save s)) = 0" using assms by (simp add: irq_defs log_ready_def)
  have u: "log_inv u" "log_contents u = log_contents s" "sstatus u = sstatus (snd (irq_save s))"
    using assms by (simp_all add: u_def log_ready_def irq_defs log_ring_cong)
  note put = log_put_bytes [OF u(1), of data]
  have w: "log_write data s = Some (irq_restore (fst (irq_save s)) v)"
    using lock by (simp add: log_write_def split_beta spin_lock_def spin_unlock_def Let_def u_def v_def)
  have r: "irq_restore (fst (irq_save s)) v = v\<lparr>sstatus := sstatus s\<rparr>"
    by (rule irq_restored) (use put u(3) in \<open>simp add: v_def\<close>)
  show ?thesis unfolding w r using put u(2) by (simp add: log_ready_def log_ring_cong v_def)
qed

lemma log_read_prefix:
  assumes "log_ready s"
  shows "log_read capacity s = Some (take capacity (log_contents s), s)"
proof -
  have lock: "log_lock (snd (irq_save s)) = 0" using assms by (simp add: irq_defs log_ready_def)
  have keep: "log_count (snd (irq_save s)) = log_count s" "log_head (snd (irq_save s)) = log_head s"
    "log_buffer (snd (irq_save s)) = log_buffer s"
    by (simp_all add: irq_defs)
  have r: "irq_restore (fst (irq_save s)) (snd (irq_save s)\<lparr>log_lock := 0\<rparr>) = s"
    by (subst irq_restored) (use assms in \<open>simp_all add: irq_defs log_ready_def\<close>)
  have "take capacity (log_contents s) =
    map (\<lambda>i. log_buffer s ! ((log_start s + i) mod LOG_CAPACITY)) [0..<min (log_count s) capacity]"
    by (simp add: log_contents_def take_map min_def)
  then show ?thesis using lock
    by (simp add: log_read_def split_beta spin_lock_def spin_unlock_def Let_def keep r log_start_def min_def)
qed

primrec log_writes :: "u8 list list \<Rightarrow> 'a log_state_scheme \<Rightarrow> 'a log_state_scheme option" where
  "log_writes [] s = Some s"
| "log_writes (d # ds) s = (case log_write d s of None \<Rightarrow> None | Some s \<Rightarrow> log_writes ds s)"

lemma log_writes_append:
  assumes "log_ready s"
  shows "\<exists>t. log_writes ds s = Some t \<and> log_ready t \<and> sstatus t = sstatus s \<and>
    log_contents t = last_bytes LOG_CAPACITY (log_contents s @ concat ds)"
  using assms
proof (induction ds arbitrary: s)
  case Nil
  then show ?case by (simp add: last_bytes_def log_contents_def log_ready_def log_inv_def)
next
  case (Cons d ds)
  obtain t where t: "log_write d s = Some t" "log_ready t" "sstatus t = sstatus s"
    "log_contents t = last_bytes LOG_CAPACITY (log_contents s @ d)"
    using log_write_appends [OF Cons.prems] by blast
  show ?case using Cons.IH [OF t(2)] t by (auto simp: last_bytes_append)
qed

text \<open>
  C30. A log that was initialised and then written any number of times, with chunks of any length,
  reads back the last 1024 bytes written, in order, cut to the reader's capacity. Every call
  returns and leaves the interrupt state and the ring as they were.
\<close>

theorem log_keeps_last_bytes:
  fixes s :: "'a log_state_scheme"
  assumes "length (log_buffer s) = LOG_CAPACITY"
  shows "\<exists>t. log_writes chunks (log_init s) = Some t \<and> sstatus t = sstatus s \<and>
    log_read capacity t = Some (take capacity (last_bytes LOG_CAPACITY (concat chunks)), t)"
proof -
  have "log_ready (log_init s)" "log_contents (log_init s) = []" "sstatus (log_init s) = sstatus s"
    using assms by (simp_all add: log_ready_def log_inv_def log_init_def log_contents_def spinlock_init_def LOG_CAPACITY_def)
  then show ?thesis using log_writes_append [of "log_init s" chunks] log_read_prefix by fastforce
qed

theorem log_keeps_last_bytes_witness:
  "\<exists>t. log_writes [[1, 2], replicate 1023 7] (log_init \<lparr>sstatus = 2, log_buffer = replicate 1024 9, log_head = 5, log_count = 0, log_lock = 1\<rparr>) = Some t \<and>
    log_read 2 t = Some ([2, 7], t)"
  using log_keeps_last_bytes [of "\<lparr>sstatus = 2, log_buffer = replicate 1024 9, log_head = 5, log_count = 0, log_lock = 1\<rparr>" "[[1, 2], replicate 1023 7]" 2]
  by (auto simp: LOG_CAPACITY_def last_bytes_def numeral_eq_Suc)

end
