(* ===== verification/Boot_Info.thy ===== *)
theory Boot_Info
  imports Prelude
begin

text \<open>
  The data of \<^verbatim>\<open>src/platform/dtb.h\<close> that the device-tree parser hands to the rest of the
  kernel. A fixed array with its count is the list of its used entries: \<open>memory_count\<close>
  is \<open>length (memory info)\<close>, and the bound of the array is checked where the code
  appends to it.
\<close>

record physical_range =
  rbase :: u64
  rsize :: u64

record boot_info =
  memory :: "physical_range list"
  reserved :: "physical_range list"
  uart :: physical_range
  uart_irq :: u32
  plic :: physical_range
  plic_source_count :: u32
  virtio :: "physical_range list"
  virtio_irqs :: "u32 list"
  timebase_frequency :: u64
  dtb_base :: u64
  dtb_size :: u64
  uart_present :: bool
  plic_present :: bool

definition BOOT_MAX_MEMORY_RANGES :: nat where "BOOT_MAX_MEMORY_RANGES = 8"
definition BOOT_MAX_RESERVED_RANGES :: nat where "BOOT_MAX_RESERVED_RANGES = 16"
definition BOOT_MAX_VIRTIO_DEVICES :: nat where "BOOT_MAX_VIRTIO_DEVICES = 16"

end
