(* ===== verification/Page_Alloc.thy ===== *)
theory Page_Alloc
  imports Sync Boot_Info
begin

text \<open>
  The physical page allocator, \<^verbatim>\<open>src/mm/page_alloc.c\<close>. The free pages are chained through
  their own first eight bytes: \<open>free_list\<close> is the (direct-mapped) address of the first
  one, and a free page holds the address of the next. \<open>page_inv s xs\<close> relates that chain
  in memory to the sequence \<open>xs\<close> of physical pages it stands for. The theory shows that
  initialisation frees exactly the usable RAM pages, that allocating and freeing pop and
  push that sequence, and (\<open>page_run\<close>) that no page is handed out twice as long as its
  users write only to pages they own.

  Physical addresses are below \<open>2 ^ 38\<close>, the part of physical memory that the kernel's
  direct map at \<open>0xffffffc000000000\<close> reaches.
\<close>

section \<open>State\<close>

record kstate = cpu +
  kmem :: mem
  free_list :: u64
  free_pages :: u64
  total_pages :: u64

section \<open>Operations of page_alloc.c\<close>

definition align_up :: "u64 \<Rightarrow> u64" where
  "align_up v = (if v > - 1 - PAGE_MASK then - 1 AND NOT PAGE_MASK
                 else (v + PAGE_MASK) AND NOT PAGE_MASK)"

definition overlaps :: "u64 \<Rightarrow> u64 \<Rightarrow> u64 \<Rightarrow> u64 \<Rightarrow> bool" where
  "overlaps b e other_base other_size =
     (if other_size = 0 then False
      else let other_end = if other_base > - 1 - other_size then - 1 else other_base + other_size
           in b < other_end \<and> other_base < e)"

definition page_reserved ::
  "boot_info \<Rightarrow> u64 \<Rightarrow> u64 \<Rightarrow> u64 \<Rightarrow> u64 \<Rightarrow> u64 \<Rightarrow> u64 \<Rightarrow> bool" where
  "page_reserved info b kernel_start kernel_end dtb_start dtb_length firmware_start =
     (let e = b + PAGE_SIZE in
      if overlaps b e kernel_start (kernel_end - kernel_start) \<or>
         overlaps b e dtb_start dtb_length \<or> (b \<ge> firmware_start \<and> b < kernel_start)
      then True
      else list_ex (\<lambda>r. overlaps b e (rbase r) (rsize r)) (reserved info))"

fun find_firmware :: "physical_range list \<Rightarrow> u64 \<Rightarrow> u64" where
  "find_firmware [] kernel_start = kernel_start"
| "find_firmware (r # rs) kernel_start =
     (let e = rbase r + rsize r in
      if kernel_start \<ge> rbase r \<and> kernel_start < e then rbase r
      else find_firmware rs kernel_start)"

definition push_page :: "u64 \<Rightarrow> 'a kstate_scheme \<Rightarrow> 'a kstate_scheme" where
  "push_page page s =
     (let node = phys_to_virt page in
      s\<lparr>kmem := write64 (kmem s) node (free_list s), free_list := node,
        free_pages := free_pages s + 1, total_pages := total_pages s + 1\<rparr>)"

partial_function (option) init_pages ::
  "(u64 \<Rightarrow> bool) \<Rightarrow> u64 \<Rightarrow> u64 \<Rightarrow> 'a kstate_scheme \<Rightarrow> 'a kstate_scheme option" where
  "init_pages skip page e s =
     (if page < e
      then init_pages skip (page + PAGE_SIZE) e (if skip page then s else push_page page s)
      else Some s)"

fun init_ranges ::
  "(u64 \<Rightarrow> bool) \<Rightarrow> physical_range list \<Rightarrow> 'a kstate_scheme \<Rightarrow> (bool \<times> 'a kstate_scheme) option" where
  "init_ranges skip [] s = Some (True, s)"
| "init_ranges skip (r # rs) s =
     (let b = align_up (rbase r);
          raw_end = rbase r + rsize r;
          e = raw_end AND NOT PAGE_MASK
      in if raw_end < rbase r then Some (False, s)
         else case init_pages skip b e s of
                None \<Rightarrow> None
              | Some s' \<Rightarrow> init_ranges skip rs s')"

definition page_allocator_init ::
  "boot_info option \<Rightarrow> u64 \<Rightarrow> u64 \<Rightarrow> u64 \<Rightarrow> u64 \<Rightarrow> 'a kstate_scheme \<Rightarrow>
     (bool \<times> 'a kstate_scheme) option" where
  "page_allocator_init info kernel_start kernel_end dtb_start dtb_length s =
     (case info of
        None \<Rightarrow> Some (False, s)
      | Some i \<Rightarrow>
          if kernel_start \<ge> kernel_end then Some (False, s)
          else
            let s0 = s\<lparr>free_list := 0, free_pages := 0, total_pages := 0\<rparr>;
                firmware_start = find_firmware (memory i) kernel_start;
                skip = (\<lambda>page. page_reserved i page kernel_start kernel_end dtb_start dtb_length
                                 firmware_start)
            in case init_ranges skip (memory i) s0 of
                 None \<Rightarrow> None
               | Some (ok, s') \<Rightarrow> Some (ok \<and> free_pages s' \<noteq> 0, s'))"

definition page_alloc :: "'a kstate_scheme \<Rightarrow> u64 \<times> 'a kstate_scheme" where
  "page_alloc s =
     (let (flags, s) = irq_save s;
          page = free_list s
      in if page = 0 then (0, irq_restore flags s)
         else let s = s\<lparr>free_list := read64 (kmem s) page, free_pages := free_pages s - 1\<rparr>
              in (virt_to_phys page, irq_restore flags s))"

definition page_free :: "u64 \<Rightarrow> 'a kstate_scheme \<Rightarrow> 'a kstate_scheme" where
  "page_free physical s =
     (if physical AND PAGE_MASK \<noteq> 0 \<or> physical = 0 then s
      else let (flags, s) = irq_save s;
               page = phys_to_virt physical;
               s = s\<lparr>kmem := write64 (kmem s) page (free_list s), free_list := page,
                     free_pages := free_pages s + 1\<rparr>
           in irq_restore flags s)"

definition page_free_count :: "'a kstate_scheme \<Rightarrow> u64" where
  "page_free_count s = free_pages s"

definition page_total_count :: "'a kstate_scheme \<Rightarrow> u64" where
  "page_total_count s = total_pages s"

section \<open>The free list as a sequence of pages\<close>

definition valid_page :: "u64 \<Rightarrow> bool" where
  "valid_page p \<longleftrightarrow> page_aligned p \<and> 0 < p \<and> p < 2 ^ 38"

fun free_chain :: "mem \<Rightarrow> u64 \<Rightarrow> u64 list \<Rightarrow> bool" where
  "free_chain m p [] \<longleftrightarrow> p = 0"
| "free_chain m p (x # xs) \<longleftrightarrow> p = phys_to_virt x \<and> free_chain m (read64 m p) xs"

definition page_inv :: "'a kstate_scheme \<Rightarrow> u64 list \<Rightarrow> bool" where
  "page_inv s xs \<longleftrightarrow> free_chain (kmem s) (free_list s) xs \<and> distinct xs \<and>
     (\<forall>x\<in>set xs. valid_page x) \<and> unat (free_pages s) = length xs"

definition outside_page :: "u64 \<Rightarrow> u64 \<Rightarrow> bool" where
  "outside_page p a \<longleftrightarrow> (\<forall>i<4096. a \<noteq> phys_to_virt p + of_nat i)"

lemma valid_page_virt: "valid_page p \<Longrightarrow> phys_to_virt p \<noteq> 0 \<and> page_aligned (phys_to_virt p)"
proof
  assume v: "valid_page p"
  then show "page_aligned (phys_to_virt p)" by (simp add: valid_page_def)
  show "phys_to_virt p \<noteq> 0"
  proof
    assume "phys_to_virt p = 0"
    then have "p = - KERNEL_DIRECT_BASE" by (simp add: phys_to_virt_def eq_neg_iff_add_eq_0 add.commute)
    then have "p = 2 ^ 38" by (simp add: KERNEL_DIRECT_BASE_def)
    with v show False by (simp add: valid_page_def)
  qed
qed

lemma length_valid_pages:
  assumes "distinct xs" "\<forall>x\<in>set xs. valid_page x"
  shows "length xs \<le> 2 ^ 38"
proof -
  have "unat x < 2 ^ 38" if "x \<in> set xs" for x
    using assms(2) that unat_mono [of x "2 ^ 38"] by (simp add: valid_page_def)
  then have sub: "unat ` set xs \<subseteq> {..<2 ^ 38}" by auto
  have inj: "inj_on (unat :: u64 \<Rightarrow> nat) (set xs)" by (simp add: inj_on_def word_unat_eq_iff)
  have "length xs = card (set xs)" using assms(1) by (simp add: distinct_card)
  also have "\<dots> = card (unat ` set xs)" using inj by (simp add: card_image)
  also have "\<dots> \<le> card {..<(2::nat) ^ 38}" by (rule card_mono [OF finite_lessThan sub])
  also have "\<dots> = 2 ^ 38" by (rule card_lessThan)
  finally show ?thesis .
qed

lemma free_chain_cong:
  "(\<And>x. x \<in> set xs \<Longrightarrow> read64 m' (phys_to_virt x) = read64 m (phys_to_virt x)) \<Longrightarrow>
   free_chain m' p xs = free_chain m p xs"
  by (induction xs arbitrary: p) auto

lemma page_inv_frame:
  assumes "page_inv s xs" "free_list t = free_list s" "free_pages t = free_pages s"
    and "\<And>a. (\<exists>x\<in>set xs. \<not> outside_page x a) \<Longrightarrow> kmem t a = kmem s a"
  shows "page_inv t xs"
proof -
  have "read64 (kmem t) (phys_to_virt x) = read64 (kmem s) (phys_to_virt x)" if "x \<in> set xs" for x
  proof (rule read64_cong)
    fix i :: nat assume "i < 8"
    then have "i < 4096" by simp
    then have "\<not> outside_page x (phys_to_virt x + of_nat i)"
      unfolding outside_page_def by blast
    with that assms(4) show "kmem t (phys_to_virt x + of_nat i) = kmem s (phys_to_virt x + of_nat i)"
      by blast
  qed
  then have "free_chain (kmem t) (free_list s) xs = free_chain (kmem s) (free_list s) xs"
    by (rule free_chain_cong)
  then show ?thesis using assms(1-3) by (simp add: page_inv_def)
qed

lemma page_alloc_empty:
  assumes "page_inv s []"
  shows "page_alloc s = (0, s)"
proof -
  have "free_list s = 0" using assms by (simp add: page_inv_def)
  then have "page_alloc s = (0, irq_restore (fst (irq_save s)) (snd (irq_save s)))"
    by (simp add: page_alloc_def irq_save_def csr_clear_sstatus_def)
  also have "irq_restore (fst (irq_save s)) (snd (irq_save s)) = s"
    by (subst irq_restored) (simp_all add: irq_save_def csr_clear_sstatus_def)
  finally show ?thesis .
qed

lemma page_alloc_cons:
  assumes "page_inv s (x # xs)"
  shows "page_alloc s = (x, s\<lparr>free_list := read64 (kmem s) (phys_to_virt x), free_pages := free_pages s - 1\<rparr>)"
    and "page_inv (snd (page_alloc s)) xs"
proof -
  have l: "free_list s = phys_to_virt x" and v: "valid_page x" using assms by (simp_all add: page_inv_def)
  let ?t = "snd (irq_save s)\<lparr>free_list := read64 (kmem s) (phys_to_virt x), free_pages := free_pages s - 1\<rparr>"
  have "page_alloc s = (x, irq_restore (fst (irq_save s)) ?t)"
    using l valid_page_virt [OF v] by (simp add: page_alloc_def irq_save_def csr_clear_sstatus_def)
  also have "irq_restore (fst (irq_save s)) ?t =
      s\<lparr>free_list := read64 (kmem s) (phys_to_virt x), free_pages := free_pages s - 1\<rparr>"
    by (subst irq_restored) (simp_all add: irq_save_def csr_clear_sstatus_def)
  finally show eq: "page_alloc s =
      (x, s\<lparr>free_list := read64 (kmem s) (phys_to_virt x), free_pages := free_pages s - 1\<rparr>)" .
  have n: "unat (free_pages s) = Suc (length xs)" using assms by (simp add: page_inv_def)
  then have "free_pages s \<noteq> 0" by (cases "free_pages s = 0") auto
  with n have "unat (free_pages s - 1) = length xs" by (simp add: unat_minus_one)
  with assms l show "page_inv (snd (page_alloc s)) xs" unfolding eq by (simp add: page_inv_def)
qed

lemma page_free_eq:
  assumes "valid_page p"
  shows "page_free p s = s\<lparr>kmem := write64 (kmem s) (phys_to_virt p) (free_list s),
     free_list := phys_to_virt p, free_pages := free_pages s + 1\<rparr>"
proof -
  let ?t = "snd (irq_save s)\<lparr>kmem := write64 (kmem s) (phys_to_virt p) (free_list s),
     free_list := phys_to_virt p, free_pages := free_pages s + 1\<rparr>"
  have "page_free p s = irq_restore (fst (irq_save s)) ?t"
    using assms by (auto simp: page_free_def valid_page_def page_aligned_def irq_save_def csr_clear_sstatus_def Let_def)
  also have "\<dots> = s\<lparr>kmem := write64 (kmem s) (phys_to_virt p) (free_list s),
     free_list := phys_to_virt p, free_pages := free_pages s + 1\<rparr>"
    by (subst irq_restored) (simp_all add: irq_save_def csr_clear_sstatus_def)
  finally show ?thesis .
qed

lemma push_inv:
  assumes inv: "page_inv s xs" and p: "valid_page p" "p \<notin> set xs"
    and t: "kmem t = write64 (kmem s) (phys_to_virt p) (free_list s)"
      "free_list t = phys_to_virt p" "free_pages t = free_pages s + 1"
  shows "page_inv t (p # xs)"
proof -
  have "read64 (kmem t) (phys_to_virt x) = read64 (kmem s) (phys_to_virt x)" if "x \<in> set xs" for x
  proof -
    have "valid_page x" "x \<noteq> p" using that inv p by (auto simp: page_inv_def)
    then have "disj (phys_to_virt x + of_nat 0) 8 (phys_to_virt p + of_nat 0) 8"
      using p by (intro disj_pages) (simp_all add: valid_page_def)
    then show ?thesis by (simp add: t read64_disj)
  qed
  then have "free_chain (kmem t) (free_list s) xs = free_chain (kmem s) (free_list s) xs"
    by (rule free_chain_cong)
  moreover have "unat (free_pages s + 1) = Suc (length xs)"
    using inv length_valid_pages [of xs]
    by (simp add: page_inv_def unat_word_ariths)
  ultimately show ?thesis using inv p by (simp add: page_inv_def t)
qed

lemma page_free_inv:
  "page_inv s xs \<Longrightarrow> valid_page p \<Longrightarrow> p \<notin> set xs \<Longrightarrow> page_inv (page_free p s) (p # xs)"
  by (rule push_inv) (simp_all add: page_free_eq)


section \<open>Building the free list\<close>

fun page_seq :: "u64 \<Rightarrow> nat \<Rightarrow> u64 list" where
  "page_seq b 0 = []"
| "page_seq b (Suc k) = b # page_seq (b + PAGE_SIZE) k"

lemma unat_next_page:
  assumes "unat b + 4096 < 2 ^ 64"
  shows "unat (b + PAGE_SIZE) = unat b + 4096"
  using assms by (simp add: PAGE_SIZE_def unat_word_ariths)

lemma set_page_seq:
  assumes "unat b + 4096 * k < 2 ^ 64"
  shows "p \<in> set (page_seq b k) \<longleftrightarrow> (\<exists>i<k. unat p = unat b + 4096 * i)"
  using assms
proof (induction k arbitrary: b)
  case 0
  then show ?case by simp
next
  case (Suc k)
  have n: "unat (b + PAGE_SIZE) = unat b + 4096" using Suc.prems by (intro unat_next_page) simp
  have "p \<in> set (page_seq b (Suc k)) \<longleftrightarrow> p = b \<or> (\<exists>i<k. unat p = unat b + 4096 * Suc i)"
    using Suc n by (simp add: algebra_simps)
  also have "\<dots> \<longleftrightarrow> (\<exists>i<Suc k. unat p = unat b + 4096 * i)"
    by (simp add: word_unat_eq_iff Ex_less_Suc2)
  finally show ?case .
qed

lemma push_page_inv:
  "page_inv s xs \<Longrightarrow> valid_page p \<Longrightarrow> p \<notin> set xs \<Longrightarrow> page_inv (push_page p s) (p # xs)"
  by (rule push_inv) (simp_all add: push_page_def Let_def)

lemma init_pages_returns:
  assumes "unat e = unat b + 4096 * k" "page_inv s xs"
    and "\<forall>p\<in>set (page_seq b k). \<not> skip p \<longrightarrow> valid_page p \<and> p \<notin> set xs"
  shows "\<exists>s'. init_pages skip b e s = Some s' \<and>
     page_inv s' (rev (filter (\<lambda>p. \<not> skip p) (page_seq b k)) @ xs) \<and>
     total_pages s' = total_pages s + of_nat (length (filter (\<lambda>p. \<not> skip p) (page_seq b k)))"
  using assms
proof (induction k arbitrary: b s xs)
  case 0
  then have "\<not> b < e" by (simp add: word_less_nat_alt)
  then show ?case using "0.prems"(2) by (subst init_pages.simps) simp
next
  case (Suc k)
  have e: "unat b + 4096 * Suc k < 2 ^ 64" using Suc.prems(1) unat_u64 [of e] by simp
  have n: "unat (b + PAGE_SIZE) = unat b + 4096" using e by (intro unat_next_page) simp
  have lt: "b < e" using Suc.prems(1) by (simp add: word_less_nat_alt)
  let ?t = "if skip b then s else push_page b s" and ?ys = "if skip b then xs else b # xs"
  have inv: "page_inv ?t ?ys" using Suc.prems by (simp add: push_page_inv)
  have "b \<notin> set (page_seq (b + PAGE_SIZE) k)"
    using e n set_page_seq [of "b + PAGE_SIZE" k b] by auto
  then have new: "\<forall>p\<in>set (page_seq (b + PAGE_SIZE) k). \<not> skip p \<longrightarrow> valid_page p \<and> p \<notin> set ?ys"
    using Suc.prems(3) by auto
  have "unat e = unat (b + PAGE_SIZE) + 4096 * k" using Suc.prems(1) n by simp
  from Suc.IH [OF this inv new] show ?case
    using lt by (subst init_pages.simps) (auto simp: push_page_def Let_def algebra_simps)
qed


definition in_range :: "physical_range \<Rightarrow> u64 \<Rightarrow> bool" where
  "in_range r p \<longleftrightarrow> page_aligned p \<and> unat (rbase r) \<le> unat p \<and>
     unat p + 4096 \<le> unat (rbase r) + unat (rsize r)"

definition ranges_apart :: "physical_range \<Rightarrow> physical_range \<Rightarrow> bool" where
  "ranges_apart r q \<longleftrightarrow> unat (rbase r) + unat (rsize r) \<le> unat (rbase q) \<or>
     unat (rbase q) + unat (rsize q) \<le> unat (rbase r)"

definition ram_range :: "physical_range \<Rightarrow> bool" where
  "ram_range r \<longleftrightarrow> 0 < rbase r \<and> unat (rbase r) + unat (rsize r) \<le> 2 ^ 38"

definition page_clear :: "u64 \<Rightarrow> nat \<Rightarrow> nat \<Rightarrow> bool" where
  "page_clear p lo hi \<longleftrightarrow> lo < hi \<longrightarrow> unat p + 4096 \<le> lo \<or> hi \<le> unat p"

lemma unat_PAGE_MASK: "unat PAGE_MASK = 4095"
  by (simp add: PAGE_MASK_def PAGE_SIZE_def)

lemma unat_align_up:
  assumes "unat v \<le> 2 ^ 38"
  shows "unat (align_up v) = 4096 * ((unat v + 4095) div 4096)"
proof -
  have "unat (- 1 - PAGE_MASK) = 2 ^ 64 - 4096" by (simp add: PAGE_MASK_def PAGE_SIZE_def)
  then have "\<not> v > - 1 - PAGE_MASK" using assms by (simp add: word_less_nat_alt)
  moreover have "unat (v + PAGE_MASK) = unat v + 4095"
    using assms by (simp add: unat_word_ariths unat_PAGE_MASK)
  ultimately show ?thesis by (simp add: align_up_def unat_and_not_PAGE_MASK)
qed

lemma shift_multiples:
  fixes c :: nat
  shows "(\<exists>i<n - m. x = c * m + c * i) \<longleftrightarrow> (\<exists>a. x = c * a \<and> m \<le> a \<and> a < n)"
proof
  assume "\<exists>i<n - m. x = c * m + c * i"
  then obtain i where "i < n - m" "x = c * (m + i)" by (auto simp: distrib_left)
  then have "x = c * (m + i) \<and> m \<le> m + i \<and> m + i < n" by simp
  then show "\<exists>a. x = c * a \<and> m \<le> a \<and> a < n" ..
next
  assume "\<exists>a. x = c * a \<and> m \<le> a \<and> a < n"
  then obtain a where "x = c * a" "m \<le> a" "a < n" by blast
  then have "a - m < n - m" "x = c * m + c * (a - m)" by (simp_all add: diff_mult_distrib2)
  then show "\<exists>i<n - m. x = c * m + c * i" by blast
qed

lemma pages_of_range:
  fixes r :: physical_range
  assumes "ram_range r"
  defines "b \<equiv> align_up (rbase r)" and "e \<equiv> (rbase r + rsize r) AND NOT PAGE_MASK"
  shows "\<not> rbase r + rsize r < rbase r"
    and "\<not> b < e \<Longrightarrow> \<not> in_range r p"
    and "b < e \<Longrightarrow> \<exists>k. unat e = unat b + 4096 * k \<and> (\<forall>p. p \<in> set (page_seq b k) \<longleftrightarrow> in_range r p)"
proof -
  define v where "v = unat (rbase r)"
  define w where "w = unat (rbase r) + unat (rsize r)"
  have vw: "v \<le> w" "w \<le> 2 ^ 38" using assms(1) by (simp_all add: v_def w_def ram_range_def)
  have re: "unat (rbase r + rsize r) = w"
    using vw by (simp add: w_def unat_word_ariths)
  then show "\<not> rbase r + rsize r < rbase r" using vw by (simp add: word_less_nat_alt v_def)
  have ue: "unat e = 4096 * (w div 4096)" unfolding e_def by (simp add: unat_and_not_PAGE_MASK re)
  have ub: "unat b = 4096 * ((v + 4095) div 4096)"
    unfolding b_def v_def using vw by (intro unat_align_up) (simp add: v_def)
  have rng: "in_range r p \<longleftrightarrow> (\<exists>a. unat p = 4096 * a \<and> (v + 4095) div 4096 \<le> a \<and> a < w div 4096)" for p
  proof -
    have "in_range r p \<longleftrightarrow> (\<exists>a. unat p = 4096 * a \<and> v \<le> 4096 * a \<and> 4096 * a + 4096 \<le> w)"
      by (auto simp: in_range_def page_aligned_iff_dvd v_def w_def dvd_def)
    moreover have "v \<le> 4096 * a \<longleftrightarrow> (v + 4095) div 4096 \<le> a" "4096 * a + 4096 \<le> w \<longleftrightarrow> a < w div 4096" for a
      by linarith+
    ultimately show ?thesis by simp
  qed
  show "\<not> in_range r p" if "\<not> b < e"
    using that unfolding rng by (auto simp: word_less_nat_alt ub ue)
  show "\<exists>k. unat e = unat b + 4096 * k \<and> (\<forall>p. p \<in> set (page_seq b k) \<longleftrightarrow> in_range r p)" if "b < e"
  proof (intro exI conjI allI)
    let ?k = "w div 4096 - (v + 4095) div 4096"
    have le: "(v + 4095) div 4096 < w div 4096" using that by (simp add: word_less_nat_alt ub ue)
    then show k: "unat e = unat b + 4096 * ?k" by (simp add: ub ue diff_mult_distrib2)
    show "p \<in> set (page_seq b ?k) \<longleftrightarrow> in_range r p" for p
    proof -
      have "p \<in> set (page_seq b ?k) \<longleftrightarrow> (\<exists>i<?k. unat p = unat b + 4096 * i)"
        by (rule set_page_seq) (use k unat_u64 [of e] in simp)
      also have "\<dots> \<longleftrightarrow> (\<exists>a. unat p = 4096 * a \<and> (v + 4095) div 4096 \<le> a \<and> a < w div 4096)"
        unfolding ub by (rule shift_multiples)
      finally show ?thesis by (simp add: rng)
    qed
  qed
qed

lemma in_range_valid: "ram_range r \<Longrightarrow> in_range r p \<Longrightarrow> valid_page p"
proof -
  assume r: "ram_range r" and p: "in_range r p"
  have "0 < unat p" "unat p < 2 ^ 38"
    using r p unat_gt_0 [of "rbase r"] by (auto simp: ram_range_def in_range_def word_less_nat_alt)
  then show ?thesis using p by (simp add: valid_page_def in_range_def word_less_nat_alt)
qed


lemma in_range_apart: "ranges_apart r q \<Longrightarrow> in_range r p \<Longrightarrow> \<not> in_range q p"
  by (auto simp: ranges_apart_def in_range_def)

lemma init_range_returns:
  assumes ram: "ram_range r" and inv: "page_inv s xs" and new: "\<forall>x\<in>set xs. \<not> in_range r x"
    and total: "total_pages s = free_pages s"
  shows "\<exists>t zs. init_pages skip (align_up (rbase r)) ((rbase r + rsize r) AND NOT PAGE_MASK) s = Some t \<and>
     page_inv t zs \<and> total_pages t = free_pages t \<and> set zs = set xs \<union> {p. in_range r p \<and> \<not> skip p}"
proof (cases "align_up (rbase r) < (rbase r + rsize r) AND NOT PAGE_MASK")
  case False
  then show ?thesis
    using inv total pages_of_range(2) [OF ram False] by (subst init_pages.simps) auto
next
  case True
  let ?b = "align_up (rbase r)" and ?e = "(rbase r + rsize r) AND NOT PAGE_MASK"
  obtain k where k: "unat ?e = unat ?b + 4096 * k" "\<And>p. p \<in> set (page_seq ?b k) \<longleftrightarrow> in_range r p"
    using pages_of_range(3) [OF ram True] by blast
  let ?new = "filter (\<lambda>p. \<not> skip p) (page_seq ?b k)"
  have "\<forall>p\<in>set (page_seq ?b k). \<not> skip p \<longrightarrow> valid_page p \<and> p \<notin> set xs"
    using k(2) in_range_valid [OF ram] new by auto
  then obtain t where t: "init_pages skip ?b ?e s = Some t" "page_inv t (rev ?new @ xs)"
    "total_pages t = total_pages s + of_nat (length ?new)"
    using init_pages_returns [OF k(1) inv] by blast
  have "unat (free_pages t) = unat (free_pages s) + length ?new"
    using t(2) inv by (simp add: page_inv_def)
  from arg_cong [OF this, of "of_nat :: nat \<Rightarrow> u64"]
  have "total_pages t = free_pages t" using t(3) total by simp
  moreover have "set (rev ?new @ xs) = set xs \<union> {p. in_range r p \<and> \<not> skip p}" using k(2) by auto
  ultimately show ?thesis using t(1,2) by blast
qed

lemma init_ranges_returns:
  assumes "\<forall>r\<in>set rs. ram_range r" "sorted_wrt ranges_apart rs" "page_inv s xs"
    and "\<forall>x\<in>set xs. \<forall>r\<in>set rs. \<not> in_range r x" and "total_pages s = free_pages s"
  shows "\<exists>s' ys. init_ranges skip rs s = Some (True, s') \<and> page_inv s' ys \<and>
     total_pages s' = free_pages s' \<and>
     set ys = set xs \<union> {p. (\<exists>r\<in>set rs. in_range r p) \<and> \<not> skip p}"
  using assms
proof (induction rs arbitrary: s xs)
  case Nil
  then show ?case by auto
next
  case (Cons r rs)
  let ?b = "align_up (rbase r)" and ?e = "(rbase r + rsize r) AND NOT PAGE_MASK"
  obtain t zs where t: "init_pages skip ?b ?e s = Some t" "page_inv t zs"
    "total_pages t = free_pages t" "set zs = set xs \<union> {p. in_range r p \<and> \<not> skip p}"
    using init_range_returns [of r s xs skip] Cons.prems by auto
  have "\<forall>x\<in>set zs. \<forall>q\<in>set rs. \<not> in_range q x"
    using Cons.prems(2,4) in_range_apart t(4) by auto
  then obtain s' ys where s': "init_ranges skip rs t = Some (True, s')" "page_inv s' ys"
    "total_pages s' = free_pages s'" "set ys = set zs \<union> {p. (\<exists>r\<in>set rs. in_range r p) \<and> \<not> skip p}"
    using Cons.IH [OF _ _ t(2) _ t(3)] Cons.prems(1,2) by auto
  moreover have "set ys = set xs \<union> {p. (\<exists>r\<in>set (r # rs). in_range r p) \<and> \<not> skip p}"
    using s'(4) t(4) by auto
  moreover have "init_ranges skip (r # rs) s = Some (True, s')"
    using s'(1) t(1) pages_of_range(1) [of r] Cons.prems(1) by (simp add: Let_def)
  ultimately show ?case by blast
qed

lemma overlaps_iff:
  assumes "unat p + 4096 < 2 ^ 64" "unat lo + unat len < 2 ^ 64"
  shows "overlaps p (p + PAGE_SIZE) lo len \<longleftrightarrow> \<not> page_clear p (unat lo) (unat lo + unat len)"
proof -
  have "unat (- 1 - len) = 2 ^ 64 - 1 - unat len"
    using unat_u64 [of len] by (simp add: unat_sub_if_size word_size unsigned_minus_1_eq_mask mask_eq_exp_minus_1)
  then have "\<not> lo > - 1 - len" using assms(2) by (simp add: word_less_nat_alt)
  moreover have "unat (lo + len) = unat lo + unat len" using assms(2) by (simp add: unat_word_ariths)
  moreover have "unat (p + PAGE_SIZE) = unat p + 4096" using assms(1) by (rule unat_next_page)
  moreover have "len = 0 \<longleftrightarrow> unat len = 0" by (simp add: unat_eq_0)
  ultimately show ?thesis
    by (auto simp: overlaps_def page_clear_def word_less_nat_alt Let_def not_le)
qed

definition boot_wf :: "boot_info \<Rightarrow> u64 \<Rightarrow> u64 \<Rightarrow> bool" where
  "boot_wf info dtb_start dtb_length \<longleftrightarrow>
     (\<forall>r\<in>set (memory info). ram_range r) \<and> sorted_wrt ranges_apart (memory info) \<and>
     (\<forall>r\<in>set (reserved info). unat (rbase r) + unat (rsize r) < 2 ^ 64) \<and>
     unat dtb_start + unat dtb_length < 2 ^ 64"

definition usable_page :: "boot_info \<Rightarrow> u64 \<Rightarrow> u64 \<Rightarrow> u64 \<Rightarrow> u64 \<Rightarrow> u64 \<Rightarrow> bool" where
  "usable_page info kernel_start kernel_end dtb_start dtb_length p \<longleftrightarrow>
     (\<exists>r\<in>set (memory info). in_range r p) \<and>
     page_clear p (unat kernel_start) (unat kernel_end) \<and>
     page_clear p (unat dtb_start) (unat dtb_start + unat dtb_length) \<and>
     \<not> (find_firmware (memory info) kernel_start \<le> p \<and> p < kernel_start) \<and>
     (\<forall>r\<in>set (reserved info). page_clear p (unat (rbase r)) (unat (rbase r) + unat (rsize r)))"

lemma page_reserved_iff:
  assumes wf: "boot_wf info dtb_start dtb_length" and k: "kernel_start < kernel_end"
    and p: "\<exists>r\<in>set (memory info). in_range r p"
  shows "\<not> page_reserved info p kernel_start kernel_end dtb_start dtb_length
      (find_firmware (memory info) kernel_start) \<longleftrightarrow>
    usable_page info kernel_start kernel_end dtb_start dtb_length p"
proof -
  have b: "unat p + 4096 < 2 ^ 64" using p wf by (force simp: in_range_def boot_wf_def ram_range_def)
  have "unat kernel_start + unat (kernel_end - kernel_start) = unat kernel_end"
    using k by (simp add: unat_sub less_imp_le word_less_nat_alt)
  then have "overlaps p (p + PAGE_SIZE) kernel_start (kernel_end - kernel_start) \<longleftrightarrow>
      \<not> page_clear p (unat kernel_start) (unat kernel_end)"
    using overlaps_iff [OF b, of kernel_start "kernel_end - kernel_start"] unat_u64 [of kernel_end] by simp
  moreover have "overlaps p (p + PAGE_SIZE) dtb_start dtb_length \<longleftrightarrow>
      \<not> page_clear p (unat dtb_start) (unat dtb_start + unat dtb_length)"
    using wf by (intro overlaps_iff [OF b]) (simp add: boot_wf_def)
  moreover have "overlaps p (p + PAGE_SIZE) (rbase r) (rsize r) \<longleftrightarrow>
      \<not> page_clear p (unat (rbase r)) (unat (rbase r) + unat (rsize r))" if "r \<in> set (reserved info)" for r
    using wf that by (intro overlaps_iff [OF b]) (simp add: boot_wf_def)
  ultimately show ?thesis
    using p by (auto simp: page_reserved_def usable_page_def Let_def list_ex_iff)
qed


definition small_board :: boot_info where
  "small_board =
     \<lparr>memory = [\<lparr>rbase = 0x80000000, rsize = 0x8000\<rparr>],
      reserved = [\<lparr>rbase = 0x80004000, rsize = 0x800\<rparr>],
      uart = \<lparr>rbase = 0x10000000, rsize = 0x100\<rparr>, uart_irq = 10,
      plic = \<lparr>rbase = 0xc000000, rsize = 0x600000\<rparr>, plic_source_count = 95,
      virtio = [], virtio_irqs = [], timebase_frequency = 10000000,
      dtb_base = 0x80005000, dtb_size = 0x1800, uart_present = True, plic_present = True\<rparr>"

definition blank_state :: kstate where
  "blank_state = \<lparr>sstatus = 0, kmem = (\<lambda>_. 0), free_list = 0, free_pages = 0, total_pages = 0\<rparr>"


section \<open>The interface of the allocator\<close>

locale page_provider =
  fixes inv :: "'s \<Rightarrow> u64 list \<Rightarrow> bool"
    and alloc :: "'s \<Rightarrow> u64 \<times> 's"
    and release :: "u64 \<Rightarrow> 's \<Rightarrow> 's"
    and contents :: "'s \<Rightarrow> mem"
  assumes inv_valid: "inv s xs \<Longrightarrow> distinct xs \<and> (\<forall>x\<in>set xs. valid_page x)"
    and alloc_none: "inv s [] \<Longrightarrow> alloc s = (0, s)"
    and alloc_some: "inv s (x # xs) \<Longrightarrow> fst (alloc s) = x \<and> inv (snd (alloc s)) xs"
    and alloc_contents: "contents (snd (alloc s)) = contents s"
    and release_inv: "inv s xs \<Longrightarrow> valid_page p \<Longrightarrow> p \<notin> set xs \<Longrightarrow> inv (release p s) (p # xs)"
    and release_contents: "valid_page p \<Longrightarrow> outside_page p a \<Longrightarrow> contents (release p s) a = contents s a"
begin

lemma alloc_cases:
  assumes "inv s xs"
  obtains (none) "xs = []" "alloc s = (0, s)"
  | (some) x ys t where "xs = x # ys" "alloc s = (x, t)" "x \<noteq> 0" "inv t ys" "contents t = contents s"
proof (cases xs)
  case Nil
  with assms none alloc_none show thesis by simp
next
  case (Cons x ys)
  then have "fst (alloc s) = x" "inv (snd (alloc s)) ys" using assms alloc_some by simp_all
  moreover have "x \<noteq> 0" using inv_valid [OF assms] Cons by (auto simp: valid_page_def)
  ultimately show thesis using Cons alloc_contents [of s] some [of x ys "snd (alloc s)"] by (metis prod.collapse)
qed

lemma release_alloc:
  assumes "inv s xs" "valid_page p" "p \<notin> set xs"
  shows "fst (alloc (release p s)) = p \<and> inv (snd (alloc (release p s))) xs"
  using release_inv [OF assms] by (rule alloc_some)

lemma alloc_sequence:
  "inv s xs \<Longrightarrow> n \<le> length xs \<Longrightarrow> inv (((\<lambda>s. snd (alloc s)) ^^ n) s) (drop n xs)"
proof (induction n)
  case (Suc n)
  then have "inv (((\<lambda>s. snd (alloc s)) ^^ n) s) (xs ! n # drop (Suc n) xs)"
    by (simp add: Cons_nth_drop_Suc)
  then show ?case using alloc_some by simp
qed simp

lemma alloc_nth:
  "inv s xs \<Longrightarrow> n < length xs \<Longrightarrow> fst (alloc (((\<lambda>s. snd (alloc s)) ^^ n) s)) = xs ! n"
  using alloc_sequence [of s xs n] alloc_some by (simp add: Cons_nth_drop_Suc [symmetric])

end

lemma page_free_contents:
  assumes "valid_page p" "outside_page p a"
  shows "kmem (page_free p s) a = kmem s a"
proof -
  have "\<forall>j<8. a \<noteq> phys_to_virt p + of_nat j" using assms(2) by (simp add: outside_page_def)
  then show ?thesis using assms(1) by (simp add: page_free_eq write64_def write_bytes_outside)
qed

interpretation palloc: page_provider page_inv page_alloc page_free kmem
proof unfold_locales
  fix s :: "'a kstate_scheme" and x xs
  assume inv: "page_inv s (x # xs)"
  show "fst (page_alloc s) = x \<and> page_inv (snd (page_alloc s)) xs"
    using page_alloc_cons [OF inv] by simp
next
  fix s :: "'a kstate_scheme"
  show "kmem (snd (page_alloc s)) = kmem s"
    by (simp add: page_alloc_def irq_defs Let_def)
qed (simp_all add: page_alloc_empty page_free_inv page_free_contents, simp_all add: page_inv_def)

section \<open>Ownership over whole runs\<close>

inductive page_run :: "u64 set \<Rightarrow> 'a kstate_scheme \<Rightarrow> u64 set \<Rightarrow> bool" for P where
  start: "page_inv s xs \<Longrightarrow> set xs = P \<Longrightarrow> page_run P s {}"
| alloc: "page_run P s owned \<Longrightarrow> page_alloc s = (p, t) \<Longrightarrow>
    page_run P t (if p = 0 then owned else insert p owned)"
| free: "page_run P s owned \<Longrightarrow> p \<in> owned \<Longrightarrow> page_run P (page_free p s) (owned - {p})"
| use: "page_run P s owned \<Longrightarrow> free_list t = free_list s \<Longrightarrow> free_pages t = free_pages s \<Longrightarrow>
    (\<And>a. \<forall>p\<in>owned. outside_page p a \<Longrightarrow> kmem t a = kmem s a) \<Longrightarrow> page_run P t owned"

lemma outside_other_page:
  assumes "valid_page p" "valid_page q" "p \<noteq> q" "\<not> outside_page p a"
  shows "outside_page q a"
proof -
  obtain i where i: "i < 4096" "a = phys_to_virt p + of_nat i"
    using assms(4) by (auto simp: outside_page_def)
  have "phys_to_virt p + of_nat i \<noteq> phys_to_virt q + of_nat j" if "j < 4096" for j
    using page_offset_inject [of "phys_to_virt p" "phys_to_virt q" i j] assms(1-3) i(1) that
    by (auto simp: valid_page_def)
  then show ?thesis by (simp add: outside_page_def i(2))
qed

lemma page_run_split:
  assumes "page_run P s owned"
  shows "\<exists>xs. page_inv s xs \<and> set xs \<inter> owned = {} \<and> set xs \<union> owned = P \<and> (\<forall>p\<in>P. valid_page p)"
  using assms
proof (induction rule: page_run.induct)
  case (start s xs)
  then show ?case using palloc.inv_valid by blast
next
  case (alloc s owned p t)
  then obtain xs where xs: "page_inv s xs" "set xs \<inter> owned = {}" "set xs \<union> owned = P" "\<forall>p\<in>P. valid_page p"
    by blast
  from xs(1) show ?case
  proof (cases rule: palloc.alloc_cases)
    case none
    then show ?thesis using alloc.hyps xs by auto
  next
    case (some x ys u)
    moreover have "x \<notin> set ys" using xs(1) some(1) by (auto simp: page_inv_def)
    ultimately show ?thesis using alloc.hyps xs by (intro exI [of _ ys]) auto
  qed
next
  case (free s owned p)
  then obtain xs where xs: "page_inv s xs" "set xs \<inter> owned = {}" "set xs \<union> owned = P" "\<forall>p\<in>P. valid_page p"
    by blast
  then have "page_inv (page_free p s) (p # xs)" using free.hyps by (intro palloc.release_inv) auto
  then show ?case using xs free.hyps by (intro exI [of _ "p # xs"]) auto
next
  case (use s owned t)
  then obtain xs where xs: "page_inv s xs" "set xs \<inter> owned = {}" "set xs \<union> owned = P" "\<forall>p\<in>P. valid_page p"
    by blast
  have "kmem t a = kmem s a" if "x \<in> set xs" "\<not> outside_page x a" for a x
    using that xs outside_other_page [of x _ a] by (intro use.hyps) blast
  then have "page_inv t xs" using page_inv_frame [OF xs(1)] use.hyps by blast
  with xs show ?case by blast
qed

text \<open>
  C4. Over every run of the allocator in which pages are freed only by their owners and
  written only by their owners: the free list stays well formed, no page is both free and
  owned, none is lost, the free counter and the owned pages add up to all pages, and the
  next allocation never returns a page that is still owned.
\<close>

theorem page_run_safe:
  assumes "page_run P s owned"
  shows "(\<exists>xs. page_inv s xs \<and> set xs \<inter> owned = {} \<and> set xs \<union> owned = P) \<and>
     unat (page_free_count s) + card owned = card P \<and> fst (page_alloc s) \<notin> owned"
proof -
  obtain xs where xs: "page_inv s xs" "set xs \<inter> owned = {}" "set xs \<union> owned = P" "\<forall>p\<in>P. valid_page p"
    using page_run_split [OF assms] by blast
  have "inj_on unat P" "unat ` P \<subseteq> {..<2 ^ 38}"
    using xs(4) by (auto simp: inj_on_def word_unat_eq_iff valid_page_def word_less_nat_alt)
  then have "finite P" using finite_imageD finite_subset by blast
  then have "card P = card (set xs) + card owned"
    using xs card_Un_disjoint [of "set xs" owned] by (metis finite_Un)
  moreover have "card (set xs) = unat (page_free_count s)"
    using xs(1) by (simp add: page_inv_def page_free_count_def distinct_card)
  moreover have "fst (page_alloc s) \<notin> owned"
    using xs(1)
  proof (cases rule: palloc.alloc_cases)
    case none
    then show ?thesis using xs by (auto simp: valid_page_def)
  next
    case some
    then show ?thesis using xs(2) by auto
  qed
  ultimately show ?thesis using xs by auto
qed

theorem page_run_safe_witness:
  "page_run {0x80000000} (snd (page_alloc (page_free 0x80000000 blank_state))) {0x80000000} \<and>
   unat (page_free_count (snd (page_alloc (page_free 0x80000000 blank_state)))) +
     card {0x80000000 :: u64} = card {0x80000000 :: u64} \<and>
   fst (page_alloc (snd (page_alloc (page_free 0x80000000 blank_state)))) \<notin> {0x80000000}"
proof -
  have "page_inv blank_state []" by (simp add: page_inv_def blank_state_def)
  moreover have "valid_page 0x80000000"
    by (simp add: valid_page_def page_aligned_def PAGE_MASK_def PAGE_SIZE_def)
  ultimately have inv: "page_inv (page_free 0x80000000 blank_state) [0x80000000]"
    by (intro palloc.release_inv) simp_all
  have run: "page_run {0x80000000} (page_free 0x80000000 blank_state) {}"
    by (rule page_run.start [OF inv]) simp
  have "page_alloc (page_free 0x80000000 blank_state) =
      (0x80000000, snd (page_alloc (page_free 0x80000000 blank_state)))"
    using palloc.alloc_some [OF inv] by (simp add: prod_eq_iff)
  from page_run.alloc [OF run this]
  have r: "page_run {0x80000000} (snd (page_alloc (page_free 0x80000000 blank_state))) {0x80000000}"
    by simp
  then show ?thesis using page_run_safe [OF r] by simp
qed

end
