(* ===== verification/Vm.thy ===== *)
theory Vm
  imports Page_Alloc
begin

text \<open>
  Sv39 page tables, \<^verbatim>\<open>src/mm/vm.c\<close>: the page-table entries, the three-level walk, mapping,
  unmapping, protecting and querying single pages, destroying and pruning trees, and the
  construction of the kernel's own table. The tables are the real ones: 512 eight-byte
  entries in pages of kernel memory that come from the page allocator.

  A \<open>struct page_table *\<close> argument is a \<open>page_table option\<close> (\<open>None\<close> is the null pointer);
  operations that write the structure return it. An entry pointer is its address, \<open>0\<close> the
  null pointer. The linker symbols that \<^verbatim>\<open>vm.c\<close> reads are the record \<open>kernel_image\<close>.
  \<open>vm_flush_all\<close> (\<open>sfence.vma\<close>) has no effect on this state.
\<close>

section \<open>Page-table entries\<close>

definition PTE_V :: u64 where "PTE_V = push_bit 0 1"
definition PTE_R :: u64 where "PTE_R = push_bit 1 1"
definition PTE_W :: u64 where "PTE_W = push_bit 2 1"
definition PTE_X :: u64 where "PTE_X = push_bit 3 1"
definition PTE_U :: u64 where "PTE_U = push_bit 4 1"
definition PTE_G :: u64 where "PTE_G = push_bit 5 1"
definition PTE_A :: u64 where "PTE_A = push_bit 6 1"
definition PTE_D :: u64 where "PTE_D = push_bit 7 1"
definition PTE_PPN_MASK :: u64 where "PTE_PPN_MASK = 0x003ffffffffffc00"

lemmas pte_bits = PTE_V_def PTE_R_def PTE_W_def PTE_X_def PTE_U_def PTE_G_def PTE_A_def PTE_D_def

record page_table =
  root :: u64

definition canonical :: "u64 \<Rightarrow> bool" where
  "canonical address = (let upper = drop_bit 39 address in upper = 0 \<or> upper = 0x1ffffff)"

definition pte_physical :: "u64 \<Rightarrow> u64" where
  "pte_physical pte = push_bit 2 (pte AND PTE_PPN_MASK)"

definition make_table_pte :: "u64 \<Rightarrow> u64" where
  "make_table_pte physical = drop_bit 2 physical OR PTE_V"

definition root_pointer :: "page_table \<Rightarrow> u64" where
  "root_pointer table = phys_to_virt (root table)"

definition vpn_index :: "u64 \<Rightarrow> nat \<Rightarrow> nat" where
  "vpn_index address level = unat (drop_bit (12 + level * 9) address AND 0x1ff)"

definition valid_leaf_flags :: "u64 \<Rightarrow> bool" where
  "valid_leaf_flags flags =
     (let allowed = PTE_R OR PTE_W OR PTE_X OR PTE_U OR PTE_G
      in flags AND NOT allowed = 0 \<and> flags AND (PTE_R OR PTE_X) \<noteq> 0 \<and>
         \<not> (flags AND PTE_W \<noteq> 0 \<and> flags AND PTE_R = 0))"

definition leaf_pte :: "u64 \<Rightarrow> u64 \<Rightarrow> u64" where
  "leaf_pte physical flags =
     (let hardware = flags OR PTE_V OR PTE_A;
          hardware = if flags AND PTE_W \<noteq> 0 then hardware OR PTE_D else hardware
      in drop_bit 2 physical OR hardware)"

definition entry_at :: "u64 \<Rightarrow> nat \<Rightarrow> u64" where
  "entry_at entries i = entries + of_nat (8 * i)"

section \<open>Operations of vm.c\<close>

definition vm_create :: "page_table option \<Rightarrow> 'a kstate_scheme \<Rightarrow> bool \<times> page_table option \<times> 'a kstate_scheme" where
  "vm_create table s =
     (case table of
        None \<Rightarrow> (False, None, s)
      | Some t \<Rightarrow>
          let (page, s) = page_alloc s;
              t = t\<lparr>root := page\<rparr>
          in if root t = 0 then (False, Some t, s)
             else (True, Some t, s\<lparr>kmem := zero_bytes (kmem s) (phys_to_virt (root t)) 4096\<rparr>))"

definition vm_create_user ::
  "page_table option \<Rightarrow> page_table option \<Rightarrow> 'a kstate_scheme \<Rightarrow> bool \<times> page_table option \<times> 'a kstate_scheme" where
  "vm_create_user table kernel_table s =
     (case kernel_table of
        None \<Rightarrow> (False, table, s)
      | Some k \<Rightarrow>
          if root k = 0 then (False, table, s)
          else case vm_create table s of
                 (True, Some t, s) \<Rightarrow>
                   let kernel_half = read_bytes (kmem s) (entry_at (root_pointer k) 256) (256 * 8)
                   in (True, Some t,
                       s\<lparr>kmem := write_bytes (kmem s) (entry_at (root_pointer t) 256) kernel_half\<rparr>)
               | (_, t, s) \<Rightarrow> (False, t, s))"

fun walk_levels ::
  "nat \<Rightarrow> u64 \<Rightarrow> u64 \<Rightarrow> bool \<Rightarrow> 'a kstate_scheme \<Rightarrow> u64 \<times> 'a kstate_scheme" where
  "walk_levels 0 entries address create s = (entry_at entries (vpn_index address 0), s)"
| "walk_levels (Suc level) entries address create s =
     (let entry = entry_at entries (vpn_index address (Suc level)) in
      if read64 (kmem s) entry AND PTE_V = 0 then
        if \<not> create then (0, s)
        else let (page, s) = page_alloc s in
             if page = 0 then (0, s)
             else let s = s\<lparr>kmem := zero_bytes (kmem s) (phys_to_virt page) 4096\<rparr>;
                      s = s\<lparr>kmem := write64 (kmem s) entry (make_table_pte page)\<rparr>
                  in walk_levels level (phys_to_virt (pte_physical (read64 (kmem s) entry))) address create s
      else if read64 (kmem s) entry AND (PTE_R OR PTE_W OR PTE_X) \<noteq> 0 then (0, s)
      else walk_levels level (phys_to_virt (pte_physical (read64 (kmem s) entry))) address create s)"

definition walk ::
  "page_table option \<Rightarrow> u64 \<Rightarrow> bool \<Rightarrow> 'a kstate_scheme \<Rightarrow> u64 \<times> 'a kstate_scheme" where
  "walk table address create s =
     (case table of
        None \<Rightarrow> (0, s)
      | Some t \<Rightarrow>
          if root t = 0 \<or> \<not> canonical address then (0, s)
          else walk_levels 2 (root_pointer t) address create s)"

definition vm_map ::
  "page_table option \<Rightarrow> u64 \<Rightarrow> u64 \<Rightarrow> u64 \<Rightarrow> 'a kstate_scheme \<Rightarrow> bool \<times> 'a kstate_scheme" where
  "vm_map table virtual_address physical_address flags s =
     (if virtual_address AND PAGE_MASK \<noteq> 0 \<or> physical_address AND PAGE_MASK \<noteq> 0 \<or>
         \<not> valid_leaf_flags flags then (False, s)
      else let (entry, s) = walk table virtual_address True s in
           if entry = 0 \<or> read64 (kmem s) entry AND PTE_V \<noteq> 0 then (False, s)
           else (True, s\<lparr>kmem := write64 (kmem s) entry (leaf_pte physical_address flags)\<rparr>))"

definition table_empty :: "mem \<Rightarrow> u64 \<Rightarrow> bool" where
  "table_empty m entries \<longleftrightarrow> (\<forall>i\<in>set [0..<512]. read64 m (entry_at entries i) AND PTE_V = 0)"

definition descend :: "mem \<Rightarrow> u64 \<Rightarrow> nat \<Rightarrow> u64 option" where
  "descend m entries index =
     (let entry = read64 m (entry_at entries index)
      in if entry AND PTE_V = 0 \<or> entry AND (PTE_R OR PTE_W OR PTE_X) \<noteq> 0 then None
         else Some (phys_to_virt (pte_physical entry)))"

definition vm_unmap :: "page_table option \<Rightarrow> u64 \<Rightarrow> 'a kstate_scheme \<Rightarrow> bool \<times> 'a kstate_scheme" where
  "vm_unmap table address s =
     (case table of
        None \<Rightarrow> (False, s)
      | Some t \<Rightarrow>
          if root t = 0 \<or> address AND PAGE_MASK \<noteq> 0 \<or> \<not> canonical address then (False, s)
          else
            let level2 = root_pointer t; index2 = vpn_index address 2;
                index1 = vpn_index address 1; index0 = vpn_index address 0
            in case descend (kmem s) level2 index2 of
                 None \<Rightarrow> (False, s)
               | Some level1 \<Rightarrow>
                 (case descend (kmem s) level1 index1 of
                    None \<Rightarrow> (False, s)
                  | Some level0 \<Rightarrow>
                      let leaf = read64 (kmem s) (entry_at level0 index0) in
                      if leaf AND (PTE_V OR PTE_R OR PTE_X) = PTE_V then (False, s)
                      else if leaf AND PTE_V = 0 then (False, s)
                      else
                        let s = s\<lparr>kmem := write64 (kmem s) (entry_at level0 index0) 0\<rparr> in
                        if \<not> table_empty (kmem s) level0 then (True, s)
                        else
                          let s = page_free (virt_to_phys level0) s;
                              s = s\<lparr>kmem := write64 (kmem s) (entry_at level1 index1) 0\<rparr> in
                          if \<not> table_empty (kmem s) level1 then (True, s)
                          else
                            let s = page_free (virt_to_phys level1) s
                            in (True, s\<lparr>kmem := write64 (kmem s) (entry_at level2 index2) 0\<rparr>)))"

definition vm_protect ::
  "page_table option \<Rightarrow> u64 \<Rightarrow> u64 \<Rightarrow> 'a kstate_scheme \<Rightarrow> bool \<times> 'a kstate_scheme" where
  "vm_protect table address flags s =
     (if address AND PAGE_MASK \<noteq> 0 \<or> \<not> valid_leaf_flags flags then (False, s)
      else let (entry, s) = walk table address False s in
           if entry = 0 \<or> read64 (kmem s) entry AND PTE_V = 0 \<or>
              read64 (kmem s) entry AND (PTE_R OR PTE_X) = 0 then (False, s)
           else (True, s\<lparr>kmem := write64 (kmem s) entry
                          (leaf_pte (pte_physical (read64 (kmem s) entry)) flags)\<rparr>))"

definition vm_query :: "page_table option \<Rightarrow> u64 \<Rightarrow> 'a kstate_scheme \<Rightarrow> (u64 \<times> u64) option" where
  "vm_query table address s =
     (let (entry, s) = walk table address False s;
          pte = read64 (kmem s) entry
      in if entry = 0 \<or> pte AND PTE_V = 0 \<or> pte AND (PTE_R OR PTE_X) = 0 then None
         else Some (pte_physical pte OR (address AND PAGE_MASK), pte AND 0x3ff))"

definition is_table :: "u64 \<Rightarrow> bool" where
  "is_table entry \<longleftrightarrow> entry AND PTE_V \<noteq> 0 \<and> entry AND (PTE_R OR PTE_W OR PTE_X) = 0"

fun destroy_level :: "nat \<Rightarrow> u64 \<Rightarrow> 'a kstate_scheme \<Rightarrow> 'a kstate_scheme" where
  "destroy_level 0 physical s = page_free physical s"
| "destroy_level (Suc level) physical s =
     (let entries = phys_to_virt physical;
          s = fold (\<lambda>i s. let entry = read64 (kmem s) (entry_at entries i) in
                     if is_table entry then destroy_level level (pte_physical entry) s else s)
                [0..<512] s
      in page_free physical s)"

definition vm_destroy :: "page_table option \<Rightarrow> 'a kstate_scheme \<Rightarrow> page_table option \<times> 'a kstate_scheme" where
  "vm_destroy table s =
     (case table of
        None \<Rightarrow> (None, s)
      | Some t \<Rightarrow>
          if root t = 0 then (Some t, s)
          else (Some (t\<lparr>root := 0\<rparr>), destroy_level 2 (root t) s))"

definition vm_destroy_user :: "page_table option \<Rightarrow> 'a kstate_scheme \<Rightarrow> page_table option \<times> 'a kstate_scheme" where
  "vm_destroy_user table s =
     (case table of
        None \<Rightarrow> (None, s)
      | Some t \<Rightarrow>
          if root t = 0 then (Some t, s)
          else
            let s = fold (\<lambda>i s. let entry = read64 (kmem s) (entry_at (root_pointer t) i) in
                       if is_table entry then destroy_level 1 (pte_physical entry) s else s)
                      [0..<256] s;
                s = page_free (root t) s
            in (Some (t\<lparr>root := 0\<rparr>), s))"

fun prune_level :: "nat \<Rightarrow> u64 \<Rightarrow> 'a kstate_scheme \<Rightarrow> bool \<times> 'a kstate_scheme" where
  "prune_level 0 physical s = (table_empty (kmem s) (phys_to_virt physical), s)"
| "prune_level (Suc level) physical s =
     (let entries = phys_to_virt physical;
          s = fold (\<lambda>i s. let entry = read64 (kmem s) (entry_at entries i) in
                     if is_table entry then
                       let (empty, s) = prune_level level (pte_physical entry) s in
                       if empty then
                         let s = page_free (pte_physical entry) s
                         in s\<lparr>kmem := write64 (kmem s) (entry_at entries i) 0\<rparr>
                       else s
                     else s)
                [0..<512] s
      in (table_empty (kmem s) entries, s))"

definition vm_prune_user :: "page_table \<Rightarrow> 'a kstate_scheme \<Rightarrow> 'a kstate_scheme" where
  "vm_prune_user table s =
     (if root table = 0 then s
      else fold (\<lambda>i s. let entry = read64 (kmem s) (entry_at (root_pointer table) i) in
                  if is_table entry then
                    let (empty, s) = prune_level 1 (pte_physical entry) s in
                    if empty then
                      let s = page_free (pte_physical entry) s
                      in s\<lparr>kmem := write64 (kmem s) (entry_at (root_pointer table) i) 0\<rparr>
                    else s
                  else s)
             [0..<256] s)"

section \<open>The kernel's own table\<close>

record kernel_image =
  text_start :: u64
  text_end :: u64
  rodata_start :: u64
  rodata_end :: u64
  boot_stack_guard :: u64

definition SATP_SV39 :: u64 where "SATP_SV39 = push_bit 60 8"

definition vm_activate_satp :: "page_table \<Rightarrow> u64" where
  "vm_activate_satp table = SATP_SV39 OR drop_bit 12 (root table)"

definition kernel_page_flags :: "kernel_image \<Rightarrow> u64 \<Rightarrow> u64" where
  "kernel_page_flags img physical =
     (let text_lo = virt_to_phys (text_start img); text_hi = virt_to_phys (text_end img);
          rodata_lo = virt_to_phys (rodata_start img); rodata_hi = virt_to_phys (rodata_end img)
      in if physical \<ge> text_lo AND NOT PAGE_MASK \<and> physical < (text_hi + PAGE_MASK) AND NOT PAGE_MASK
         then PTE_R OR PTE_X OR PTE_G
         else if physical \<ge> rodata_lo AND NOT PAGE_MASK \<and>
                 physical < (rodata_hi + PAGE_MASK) AND NOT PAGE_MASK
         then PTE_R OR PTE_G
         else PTE_R OR PTE_W OR PTE_G)"

partial_function (option) map_pages ::
  "kernel_image \<Rightarrow> page_table option \<Rightarrow> bool \<Rightarrow> u64 \<Rightarrow> u64 \<Rightarrow> 'a kstate_scheme \<Rightarrow>
     (bool \<times> 'a kstate_scheme) option" where
  "map_pages img table ram physical e s =
     (if physical < e then
        let virtual_address = KERNEL_DIRECT_BASE + physical;
            flags = if ram then kernel_page_flags img physical else PTE_R OR PTE_W OR PTE_G
        in if virtual_address = boot_stack_guard img
           then map_pages img table ram (physical + PAGE_SIZE) e s
           else let (ok, s') = vm_map table virtual_address physical flags s in
                if \<not> ok then Some (False, s')
                else map_pages img table ram (physical + PAGE_SIZE) e s'
      else Some (True, s))"

definition map_physical_range ::
  "kernel_image \<Rightarrow> page_table option \<Rightarrow> bool \<Rightarrow> physical_range \<Rightarrow> 'a kstate_scheme \<Rightarrow>
     (bool \<times> 'a kstate_scheme) option" where
  "map_physical_range img table ram rng s =
     (let b = rbase rng; sz = rsize rng; first = b AND NOT PAGE_MASK in
      if b > - 1 - sz \<or> b + sz > - 1 - PAGE_MASK then Some (False, s)
      else map_pages img table ram first ((b + sz + PAGE_MASK) AND NOT PAGE_MASK) s)"

fun map_ranges ::
  "kernel_image \<Rightarrow> page_table option \<Rightarrow> (bool \<times> physical_range) list \<Rightarrow> 'a kstate_scheme \<Rightarrow>
     (bool \<times> 'a kstate_scheme) option" where
  "map_ranges img table [] s = Some (True, s)"
| "map_ranges img table ((ram, r) # rs) s =
     (case map_physical_range img table ram r s of
        None \<Rightarrow> None
      | Some (ok, s') \<Rightarrow> if ok then map_ranges img table rs s' else Some (False, s'))"

definition kernel_ranges :: "boot_info \<Rightarrow> (bool \<times> physical_range) list" where
  "kernel_ranges info =
     map (Pair True) (memory info) @ [(False, \<lparr>rbase = 0x100000, rsize = PAGE_SIZE\<rparr>)] @
     (if uart_present info then [(False, uart info)] else []) @
     (if plic_present info then [(False, plic info)] else []) @
     map (Pair False) (virtio info)"

definition vm_build_kernel ::
  "kernel_image \<Rightarrow> page_table option \<Rightarrow> boot_info option \<Rightarrow> 'a kstate_scheme \<Rightarrow>
     (bool \<times> page_table option \<times> 'a kstate_scheme) option" where
  "vm_build_kernel img table info s =
     (case info of
        None \<Rightarrow> Some (False, table, s)
      | Some i \<Rightarrow>
          let (created, table', s1) = vm_create table s in
          if \<not> created then Some (False, table', s1)
          else case map_ranges img table' (kernel_ranges i) s1 of
                 None \<Rightarrow> None
               | Some (True, s2) \<Rightarrow> Some (True, table', s2)
               | Some (False, s2) \<Rightarrow>
                   let (table'', s3) = vm_destroy table' s2 in Some (False, table'', s3))"

end
