(* ===== verification/Page_Table.thy ===== *)
theory Page_Table
  imports Vm "HOL-Library.Sublist"
begin

text \<open>
  The trees that \<^verbatim>\<open>src/mm/vm.c\<close> builds in memory. The first part reads page-table entries bit by
  bit: table and leaf entries store and return a physical page, flags stay apart from it. The
  second part names a table by the path of indices that leads to it from the root (\<open>node\<close>);
  \<open>tree_inv\<close> says that all tables are distinct valid pages and that leaves occur only at the
  lowest level, \<open>lookup\<close> reads a leaf. The rest shows what changing one entry does: writing a
  leaf, attaching a zeroed table, detaching an empty one; and when a tree has no empty
  tables (\<open>trimmed\<close>).
\<close>

named_theorems pte_simps

section \<open>Page-table entries\<close>

lemma flag_test: "x AND push_bit n 1 = 0 \<longleftrightarrow> \<not> bit (x :: u64) n"
  by (simp add: bit_iff_and_push_bit_not_eq_0)

lemma bit_push_one: "bit (push_bit n (1 :: u64)) k \<longleftrightarrow> k = n \<and> n < 64"
  by (auto simp: bit_simps)

lemma bits_above:
  assumes "unat (x :: u64) < 2 ^ n" "n \<le> k"
  shows "\<not> bit x k"
proof -
  note assms(1)
  also have "(2::nat) ^ n \<le> 2 ^ k" using assms(2) by simp
  finally have "drop_bit k (unat x) = 0" by (simp add: drop_bit_eq_div)
  then have "\<not> bit (unat x) k" by (simp add: bit_iff_odd_drop_bit)
  then show ?thesis using bit_imp_le_length [of x k] by (auto simp: bit_unsigned_iff)
qed

lemma aligned_bits: "page_aligned p \<Longrightarrow> k < 12 \<Longrightarrow> \<not> bit p k"
proof
  assume "page_aligned p" "k < 12" "bit p k"
  then have "\<not> bit (p AND mask 12) k" by (simp add: page_aligned_def PAGE_MASK_mask)
  with \<open>k < 12\<close> \<open>bit p k\<close> show False by (simp add: bit_simps)
qed

lemma PPN_MASK_bits: "PTE_PPN_MASK = push_bit 10 (mask 44)"
  by (simp add: PTE_PPN_MASK_def mask_eq_exp_minus_1)

text \<open>The physical addresses an entry can hold: page-aligned, 56 bits.\<close>

definition pte_target :: "u64 \<Rightarrow> bool" where
  "pte_target p \<longleftrightarrow> page_aligned p \<and> unat p < 2 ^ 56"

lemma valid_page_target: "valid_page p \<Longrightarrow> pte_target p"
  by (simp add: valid_page_def pte_target_def word_less_nat_alt)

lemma pte_physical_or:
  assumes "pte_target p" "unat f < 2 ^ 10"
  shows "pte_physical (drop_bit 2 p OR f) = p"
proof (rule bit_word_eqI)
  fix k assume "k < LENGTH(64)"
  then have k: "k < 64" by simp
  show "bit (pte_physical (drop_bit 2 p OR f)) k = bit p k"
  proof (cases "12 \<le> k \<and> k < 56")
    case True
    then have "10 \<le> k - 2" by auto
    with assms(2) have "\<not> bit f (k - 2)" by (rule bits_above)
    moreover have "Suc (Suc (k - 2)) = k" using True by auto
    ultimately show ?thesis using True k by (auto simp: pte_physical_def PPN_MASK_bits bit_simps)
  next
    case False
    then have "\<not> bit p k"
      using assms(1) aligned_bits [of p k] bits_above [of p 56 k] by (auto simp: pte_target_def)
    then show ?thesis using False by (auto simp: pte_physical_def PPN_MASK_bits bit_simps)
  qed
qed

lemma pte_physical_table: "valid_page p \<Longrightarrow> pte_physical (make_table_pte p) = p"
  unfolding make_table_pte_def by (rule pte_physical_or) (simp_all add: valid_page_target PTE_V_def)

lemma drop_bit_small: "pte_target p \<Longrightarrow> k < 10 \<Longrightarrow> \<not> bit (drop_bit 2 p) k"
  using aligned_bits [of p "2 + k"] by (simp add: bit_simps pte_target_def)

lemma or_zero: "(x :: u64) OR y = 0 \<longleftrightarrow> x = 0 \<and> y = 0"
proof
  assume z: "x OR y = 0"
  have "\<not> bit x k \<and> \<not> bit y k" for k
    using arg_cong [OF z, of "\<lambda>w. bit w k"] by (simp add: bit_or_iff)
  then show "x = 0 \<and> y = 0" by (auto intro: bit_word_eqI)
qed simp

lemma pte_tests [pte_simps]:
  "x AND PTE_V = 0 \<longleftrightarrow> \<not> bit x 0" "x AND PTE_R = 0 \<longleftrightarrow> \<not> bit x 1"
  "x AND PTE_W = 0 \<longleftrightarrow> \<not> bit x 2" "x AND PTE_X = 0 \<longleftrightarrow> \<not> bit x 3" "x AND PTE_U = 0 \<longleftrightarrow> \<not> bit x 4"
  unfolding pte_bits by (rule flag_test)+

lemma pte_mask_tests [pte_simps]:
  "x AND (PTE_R OR PTE_W OR PTE_X) = 0 \<longleftrightarrow> \<not> bit x 1 \<and> \<not> bit x 2 \<and> \<not> bit x 3"
  "x AND (PTE_R OR PTE_X) = 0 \<longleftrightarrow> \<not> bit x 1 \<and> \<not> bit x 3"
  by (simp_all only: bit.conj_disj_distrib or_zero pte_tests)

lemma is_table_bits: "is_table x \<longleftrightarrow> bit x 0 \<and> \<not> bit x 1 \<and> \<not> bit x 2 \<and> \<not> bit x 3"
  by (auto simp: is_table_def pte_simps)

lemma is_table_make: "valid_page p \<Longrightarrow> is_table (make_table_pte p)"
proof -
  assume "valid_page p"
  then have "\<not> bit (drop_bit 2 p) k" if "k < 10" for k using drop_bit_small valid_page_target that by blast
  then have "bit (make_table_pte p) k \<longleftrightarrow> k = 0" if "k < 10" for k
    using that by (simp add: make_table_pte_def PTE_V_def bit_or_iff bit_1_iff)
  then show ?thesis by (simp add: is_table_bits)
qed

lemma and_not_zero: "x AND NOT y = 0 \<Longrightarrow> bit (x :: u64) k \<Longrightarrow> bit y k"
proof -
  assume z: "x AND NOT y = 0" and x: "bit x k"
  have "\<not> bit (x AND NOT y) k" unfolding z by simp
  then show "bit y k" using x bit_imp_le_length [OF x] by (simp add: bit_and_iff bit_not_iff)
qed

lemma leaf_flag_bits:
  assumes "valid_leaf_flags f"
  shows "bit f k \<longrightarrow> k \<in> {1, 2, 3, 4, 5}" "bit f 1 \<or> bit f 3" "bit f 2 \<longrightarrow> bit f 1" "unat f < 2 ^ 8"
proof -
  have "PTE_R OR PTE_W OR PTE_X OR PTE_U OR PTE_G = 62" by (simp add: pte_bits)
  with assms have z: "f AND NOT 62 = 0" unfolding valid_leaf_flags_def Let_def by metis
  have in62: "bit f k \<longrightarrow> bit (62 :: u64) k" for k using and_not_zero [OF z] by blast
  have b: "bit f k \<longrightarrow> k < 6 \<and> k \<noteq> 0" for k
  proof
    assume f: "bit f k"
    then have "\<not> 6 \<le> k" using in62 [of k] bits_above [of 62 6 k] by auto
    moreover have "k \<noteq> 0" using f in62 [of 0] by (cases "k = 0") simp_all
    ultimately show "k < 6 \<and> k \<noteq> 0" by simp
  qed
  have "j < 6 \<and> j \<noteq> 0 \<longrightarrow> j \<in> {1, 2, 3, 4, 5}" for j :: nat by auto
  then show "bit f k \<longrightarrow> k \<in> {1, 2, 3, 4, 5}" using b by blast
  have "f = f AND mask 6" using b by (intro bit_word_eqI) (auto simp: bit_simps)
  then have "f = take_bit 6 f" by (simp add: take_bit_eq_mask)
  then have "unat f = take_bit 6 (unat f)" by (simp add: unsigned_take_bit_eq [symmetric])
  then have "unat f < 2 ^ 6" using take_bit_nat_less_exp [of 6 "unat f"] by simp
  then show "unat f < 2 ^ 8" by simp
  show "bit f 1 \<or> bit f 3" "bit f 2 \<longrightarrow> bit f 1"
    using assms by (auto simp: valid_leaf_flags_def Let_def pte_simps)
qed

lemma leaf_pte_split:
  "leaf_pte p f = drop_bit 2 p OR (f OR 65 OR (if bit f 2 then 128 else 0))"
proof -
  have "f OR PTE_V OR PTE_A = f OR 65" by (simp add: pte_bits)
  moreover have "f OR 65 OR PTE_D = f OR 65 OR 128" by (simp add: pte_bits)
  moreover have "f AND PTE_W \<noteq> 0 \<longleftrightarrow> bit f 2" by (simp add: pte_simps)
  ultimately show ?thesis unfolding leaf_pte_def Let_def by (simp add: or.assoc)
qed

lemma unat_or_small: "unat (x :: u64) < 2 ^ n \<Longrightarrow> unat y < 2 ^ n \<Longrightarrow> unat (x OR y) < 2 ^ n"
proof -
  assume "unat x < 2 ^ n" "unat y < 2 ^ n"
  then have "take_bit n (unat x) = unat x" "take_bit n (unat y) = unat y" by (simp_all add: take_bit_nat_eq_self)
  then have "take_bit n (unat (x OR y)) = unat (x OR y)" by (simp add: unsigned_or_eq)
  then show ?thesis using take_bit_nat_less_exp [of n "unat (x OR y)"] by simp
qed

lemma leaf_hardware_small:
  assumes "valid_leaf_flags f"
  shows "unat (f OR 65 OR (if bit f 2 then 128 else 0)) < 2 ^ 8"
  using leaf_flag_bits(4) [OF assms] by (intro unat_or_small) simp_all

lemma pte_physical_leaf: "pte_target p \<Longrightarrow> valid_leaf_flags f \<Longrightarrow> pte_physical (leaf_pte p f) = p"
  unfolding leaf_pte_split using leaf_hardware_small [of f] by (intro pte_physical_or) simp_all

lemma leaf_pte_bits:
  assumes "pte_target p" "valid_leaf_flags f" "k < 10"
  shows "bit (leaf_pte p f) k \<longleftrightarrow> bit (f OR 65 OR (if bit f 2 then 128 else 0)) k"
  unfolding leaf_pte_split using drop_bit_small [OF assms(1,3)] by (simp add: bit_or_iff)

lemma leaf_pte_flags:
  assumes "pte_target p" "valid_leaf_flags f"
  shows "leaf_pte p f AND 0x3ff = f OR 65 OR (if bit f 2 then 128 else 0)"
proof -
  have "(0x3ff :: u64) = mask 10" by (simp add: mask_eq_exp_minus_1)
  moreover have "leaf_pte p f AND mask 10 = f OR 65 OR (if bit f 2 then 128 else 0)"
  proof (rule bit_word_eqI)
    fix k
    have "\<not> bit (f OR 65 OR (if bit f 2 then 128 else 0)) k" if "\<not> k < 10"
      using leaf_hardware_small [OF assms(2)] that by (intro bits_above [of _ 8]) simp_all
    then show "bit (leaf_pte p f AND mask 10) k = bit (f OR 65 OR (if bit f 2 then 128 else 0)) k"
      using leaf_pte_bits [OF assms, of k] by (cases "k < 10") (auto simp: bit_simps)
  qed
  ultimately show ?thesis by simp
qed

lemma leaf_pte_valid:
  assumes "pte_target p" "valid_leaf_flags f"
  shows "bit (leaf_pte p f) 0" "bit (leaf_pte p f) 1 \<or> bit (leaf_pte p f) 3" "\<not> is_table (leaf_pte p f)"
proof -
  show "bit (leaf_pte p f) 0" using leaf_pte_bits [OF assms, of 0] by (simp add: bit_or_iff)
  show "bit (leaf_pte p f) 1 \<or> bit (leaf_pte p f) 3"
    using leaf_pte_bits [OF assms, of 1] leaf_pte_bits [OF assms, of 3] leaf_flag_bits(2) [OF assms(2)]
    by (auto simp: bit_or_iff)
  then show "\<not> is_table (leaf_pte p f)" by (auto simp: is_table_bits)
qed

section \<open>The tree of tables\<close>

definition pte_at :: "mem \<Rightarrow> u64 \<Rightarrow> nat \<Rightarrow> u64" where
  "pte_at m page i = read64 m (entry_at (phys_to_virt page) i)"

fun node :: "mem \<Rightarrow> u64 \<Rightarrow> nat list \<Rightarrow> u64 option" where
  "node m r [] = Some r"
| "node m r (i # p) =
     (if i < 512 \<and> is_table (pte_at m r i) then node m (pte_physical (pte_at m r i)) p else None)"

definition tables :: "mem \<Rightarrow> u64 \<Rightarrow> u64 set" where
  "tables m r = {q. \<exists>p. length p \<le> 2 \<and> node m r p = Some q}"

definition tree_inv :: "mem \<Rightarrow> u64 \<Rightarrow> bool" where
  "tree_inv m r \<longleftrightarrow>
     (\<forall>p q. length p \<le> 2 \<and> node m r p = Some q \<longrightarrow> valid_page q) \<and>
     (\<forall>p p' q. length p \<le> 2 \<and> length p' \<le> 2 \<and> node m r p = Some q \<and> node m r p' = Some q \<longrightarrow> p = p') \<and>
     (\<forall>p q i. length p < 2 \<and> node m r p = Some q \<and> i < 512 \<and> bit (pte_at m q i) 0 \<longrightarrow> is_table (pte_at m q i))"

definition lookup :: "mem \<Rightarrow> u64 \<Rightarrow> nat list \<Rightarrow> nat \<Rightarrow> u64 option" where
  "lookup m r p i =
     (case node m r p of
        None \<Rightarrow> None
      | Some t \<Rightarrow> if i < 512 \<and> bit (pte_at m t i) 0 then Some (pte_at m t i) else None)"

lemma tree_invD:
  assumes "tree_inv m r" "node m r p = Some q" "length p \<le> 2"
  shows "valid_page q" "node m r p' = Some q \<Longrightarrow> length p' \<le> 2 \<Longrightarrow> p' = p"
    and "length p < 2 \<Longrightarrow> i < 512 \<Longrightarrow> bit (pte_at m q i) 0 \<Longrightarrow> is_table (pte_at m q i)"
  using assms by (auto simp: tree_inv_def)

lemma tree_invI:
  assumes "\<And>p q. length p \<le> 2 \<Longrightarrow> node m r p = Some q \<Longrightarrow> valid_page q"
    and "\<And>p p' q. length p \<le> 2 \<Longrightarrow> length p' \<le> 2 \<Longrightarrow> node m r p = Some q \<Longrightarrow>
      node m r p' = Some q \<Longrightarrow> p = p'"
    and "\<And>p q i. length p < 2 \<Longrightarrow> node m r p = Some q \<Longrightarrow> i < 512 \<Longrightarrow> bit (pte_at m q i) 0 \<Longrightarrow>
      is_table (pte_at m q i)"
  shows "tree_inv m r"
  unfolding tree_inv_def using assms by blast

lemma node_append: "node m r (p @ p') = Option.bind (node m r p) (\<lambda>q. node m q p')"
  by (induction p arbitrary: r) auto

lemma node_snoc:
  "node m r (p @ [i]) = Option.bind (node m r p)
     (\<lambda>q. if i < 512 \<and> is_table (pte_at m q i) then Some (pte_physical (pte_at m q i)) else None)"
  by (simp add: node_append cong: if_cong)

lemma entry_offset: "i < 512 \<Longrightarrow> 8 * i + 8 \<le> (4096 :: nat)"
  by simp

lemma entry_disj:
  assumes "valid_page q" "valid_page q'" "i < 512" "j < 512" "(q, i) \<noteq> (q', j)"
  shows "disj (entry_at (phys_to_virt q) i) 8 (entry_at (phys_to_virt q') j) 8"
proof (cases "q = q'")
  case True
  then have "8 * i + 8 \<le> 8 * j \<or> 8 * j + 8 \<le> 8 * i" using assms(5) by auto
  then show ?thesis unfolding entry_at_def True using assms(3,4) by (intro disj_offset) simp_all
next
  case False
  then show ?thesis
    unfolding entry_at_def using assms entry_offset by (intro disj_pages) (simp_all add: valid_page_def)
qed

lemma pte_at_write:
  assumes "valid_page q" "valid_page q'" "i < 512" "j < 512"
  shows "pte_at (write64 m (entry_at (phys_to_virt q) i) v) q' j =
    (if q' = q \<and> j = i then v else pte_at m q' j)"
  using entry_disj [OF assms(2,1,4,3)] by (auto simp: pte_at_def read64_disj)

lemma outside_entry:
  assumes "valid_page q" "valid_page q'" "q \<noteq> q'" "i < 512" "k < 8"
  shows "outside_page q (entry_at (phys_to_virt q') i + of_nat k)"
proof -
  have "entry_at (phys_to_virt q') i + of_nat k = phys_to_virt q' + of_nat (8 * i + k)"
    by (simp add: entry_at_def algebra_simps)
  moreover have "8 * i + k < 4096" using assms(4,5) by simp
  ultimately have "\<not> outside_page q' (entry_at (phys_to_virt q') i + of_nat k)"
    unfolding outside_page_def by blast
  then show ?thesis using outside_other_page [of q' q] assms(1-3) by blast
qed

lemma pte_at_frame:
  assumes "valid_page q" "valid_page q'" "q \<noteq> q'" "i < 512"
    and "\<And>a. outside_page q a \<Longrightarrow> m' a = m a"
  shows "pte_at m' q' i = pte_at m q' i"
  unfolding pte_at_def by (rule read64_cong) (simp add: assms outside_entry)

lemma zero_bytes_outside: "outside_page q a \<Longrightarrow> zero_bytes m (phys_to_virt q) 4096 a = m a"
  unfolding zero_bytes_def outside_page_def by (rule write_bytes_outside) simp

lemma pte_at_zero:
  assumes "valid_page q" "valid_page q'" "i < 512"
  shows "pte_at (zero_bytes m (phys_to_virt q) 4096) q' i = (if q' = q then 0 else pte_at m q' i)"
proof (cases "q' = q")
  case True
  then show ?thesis
    unfolding pte_at_def entry_at_def using assms(3) entry_offset
    by (simp add: read64_zero_bytes del: of_nat_mult)
next
  case False
  then have "q \<noteq> q'" by simp
  with assms have "pte_at (zero_bytes m (phys_to_virt q) 4096) q' i = pte_at m q' i"
    by (intro pte_at_frame zero_bytes_outside)
  with False show ?thesis by simp
qed

section \<open>Changing one entry\<close>

text \<open>\<open>m'\<close> differs from \<open>m\<close>, as far as the tree below \<open>r\<close> goes, only at and below entry \<open>i\<close> of the
  table at path \<open>p\<close>.\<close>

definition agree_off :: "mem \<Rightarrow> mem \<Rightarrow> u64 \<Rightarrow> nat list \<Rightarrow> nat \<Rightarrow> bool" where
  "agree_off m m' r p i \<longleftrightarrow>
     (\<forall>ps j q. length ps \<le> 2 \<and> node m r ps = Some q \<and> j < 512 \<and> \<not> prefix (p @ [i]) (ps @ [j]) \<longrightarrow>
        pte_at m' q j = pte_at m q j)"

lemma agree_offD:
  "agree_off m m' r p i \<Longrightarrow> node m r ps = Some q \<Longrightarrow> length ps \<le> 2 \<Longrightarrow> j < 512 \<Longrightarrow>
   \<not> prefix (p @ [i]) (ps @ [j]) \<Longrightarrow> pte_at m' q j = pte_at m q j"
  unfolding agree_off_def by blast

lemma node_agree:
  assumes "agree_off m m' r p i"
  shows "length p' \<le> 2 \<Longrightarrow> \<not> prefix (p @ [i]) p' \<Longrightarrow> node m' r p' = node m r p'"
proof (induction p' rule: rev_induct)
  case (snoc j ps)
  then have eq: "node m' r ps = node m r ps" by simp
  show ?case
  proof (cases "node m r ps")
    case (Some q)
    then have "pte_at m' q j = pte_at m q j" if "j < 512"
      using snoc.prems that by (intro agree_offD [OF assms Some]) simp_all
    then show ?thesis using Some eq by (auto simp: node_snoc)
  qed (simp add: eq node_snoc)
qed simp

lemma lookup_agree:
  assumes "agree_off m m' r p i" "length p' \<le> 2" "\<not> prefix (p @ [i]) (p' @ [j])"
  shows "lookup m' r p' j = lookup m r p' j"
proof -
  have "node m' r p' = node m r p'" using assms by (intro node_agree) auto
  moreover have "pte_at m' q j = pte_at m q j" if "node m r p' = Some q" "j < 512" for q
    using assms that unfolding agree_off_def by blast
  ultimately show ?thesis by (auto simp: lookup_def split: option.split)
qed

lemma agree_write:
  assumes "tree_inv m r" "node m r p = Some q" "length p \<le> 2" "i < 512"
  shows "agree_off m (write64 m (entry_at (phys_to_virt q) i) v) r p i"
  unfolding agree_off_def
proof (intro allI impI)
  fix ps j q'
  assume a: "length ps \<le> 2 \<and> node m r ps = Some q' \<and> j < 512 \<and> \<not> prefix (p @ [i]) (ps @ [j])"
  then have "\<not> (q' = q \<and> j = i)" using tree_invD(2) [OF assms(1-3), of ps] by auto
  then show "pte_at (write64 m (entry_at (phys_to_virt q) i) v) q' j = pte_at m q' j"
    using a assms tree_invD(1) by (subst pte_at_write) auto
qed

lemma prefix_same_length: "length p = length p' \<Longrightarrow> prefix (p @ [i]) (p' @ [j]) \<longleftrightarrow> p = p' \<and> i = j"
  by (auto dest: prefix_length_le)

lemma prefix_longer: "length p' \<le> length p \<Longrightarrow> \<not> prefix (p @ [i]) p'"
  by (auto dest: prefix_length_le)

lemma tree_inv_agree:
  assumes "tree_inv m r" "agree_off m m' r p i" "length p = 2"
  shows "tree_inv m' r" "tables m' r = tables m r"
proof -
  have eq: "node m' r p' = node m r p'" if "length p' \<le> 2" for p'
    using that assms(2,3) by (intro node_agree prefix_longer) auto
  have pte: "pte_at m' q j = pte_at m q j" if "length ps < 2" "node m r ps = Some q" "j < 512" for ps q j
  proof -
    have "\<not> prefix (p @ [i]) (ps @ [j])" using that(1) assms(3) by (intro prefix_longer) simp
    then show ?thesis using that by (intro agree_offD [OF assms(2)]) simp_all
  qed
  show "tree_inv m' r"
  proof (rule tree_invI)
    fix p q i assume "length p < 2" "node m' r p = Some q" "i < 512" "bit (pte_at m' q i) 0"
    then show "is_table (pte_at m' q i)" using eq [of p] pte [of p q i] tree_invD(3) [OF assms(1)] by simp
  qed (use eq tree_invD(1,2) [OF assms(1)] in auto)
  show "tables m' r = tables m r" using eq by (auto simp: tables_def)
qed

lemma set_leaf:
  assumes "tree_inv m r" "node m r p = Some t" "length p = 2" "i < 512"
    and m'_def: "m' = write64 m (entry_at (phys_to_virt t) i) v"
  shows "tree_inv m' r" "tables m' r = tables m r"
    and "length p' = 2 \<Longrightarrow> lookup m' r p' j =
      (if p' = p \<and> j = i then if bit v 0 then Some v else None else lookup m r p' j)"
proof -
  have ag: "agree_off m m' r p i" unfolding m'_def using assms(1-4) by (intro agree_write) simp_all
  from tree_inv_agree [OF assms(1) ag assms(3)]
  show "tree_inv m' r" "tables m' r = tables m r" by simp_all
  assume p': "length p' = 2"
  have "node m' r p = Some t" using node_agree [OF ag, of p] assms(2,3) prefix_longer [of p p] by simp
  moreover have "pte_at m' t i = v" unfolding m'_def
    using assms(1-4) tree_invD(1) by (subst pte_at_write) auto
  ultimately have "lookup m' r p i = (if bit v 0 then Some v else None)"
    using assms(4) by (simp add: lookup_def)
  then show "lookup m' r p' j =
      (if p' = p \<and> j = i then if bit v 0 then Some v else None else lookup m r p' j)"
    using lookup_agree [OF ag, of p' j] p' assms(3) prefix_same_length [of p p' i j] by auto
qed

lemma node_stop:
  assumes "node m r p = Some q" "i < 512 \<Longrightarrow> \<not> is_table (pte_at m q i)"
  shows "node m r (p @ i # p') = None"
  using assms by (auto simp: node_append)

lemma attach_table:
  assumes inv: "tree_inv m r" and q: "node m r p = Some q" "length p < 2" "i < 512"
    and free: "\<not> bit (pte_at m q i) 0" and f: "valid_page f" "f \<notin> tables m r"
    and m'_def: "m' = write64 (zero_bytes m (phys_to_virt f) 4096) (entry_at (phys_to_virt q) i) (make_table_pte f)"
  shows "agree_off m m' r p i"
    and "length p' \<le> 2 \<Longrightarrow> node m' r p' = (if p' = p @ [i] then Some f else node m r p')"
    and "j < 512 \<Longrightarrow> pte_at m' f j = 0"
proof -
  have vq: "valid_page q" using tree_invD(1) [OF inv q(1)] q(2) by simp
  have pte: "pte_at m' q' j = (if q' = q \<and> j = i then make_table_pte f else if q' = f then 0 else pte_at m q' j)"
    if "valid_page q'" "j < 512" for q' j
    unfolding m'_def using that vq f(1) q(3) by (simp add: pte_at_write pte_at_zero)
  have nf: "q \<noteq> f" using f(2) q by (force simp: tables_def)
  show ag: "agree_off m m' r p i" unfolding agree_off_def
  proof (intro allI impI)
    fix ps j q'
    assume a: "length ps \<le> 2 \<and> node m r ps = Some q' \<and> j < 512 \<and> \<not> prefix (p @ [i]) (ps @ [j])"
    have "\<not> (q' = q \<and> j = i)" using a tree_invD(2) [OF inv q(1), of ps] q(2) by auto
    moreover have "q' \<noteq> f" using a f(2) by (auto simp: tables_def)
    ultimately show "pte_at m' q' j = pte_at m q' j" using a tree_invD(1) [OF inv] pte by auto
  qed
  show z: "pte_at m' f j = 0" if "j < 512" for j using pte [OF f(1) that] nf by simp
  show "node m' r p' = (if p' = p @ [i] then Some f else node m r p')" if "length p' \<le> 2"
  proof (cases "prefix (p @ [i]) p'")
    case True
    then obtain p'' where p': "p' = p @ i # p''" by (auto simp: prefix_def)
    have "node m' r p = Some q" using node_agree [OF ag, of p] q prefix_longer [of p p] by simp
    then have "node m' r p' = node m' f p''"
      unfolding p' using q(3) pte [OF vq q(3)] f(1) by (simp add: node_append is_table_make pte_physical_table)
    moreover have "node m' f p'' = (if p'' = [] then Some f else None)"
      using z by (cases p'') (auto simp: is_table_bits)
    moreover have "node m r p' = None"
      unfolding p' using free by (intro node_stop [OF q(1)]) (simp add: is_table_bits)
    ultimately show ?thesis using p' by auto
  next
    case False
    then show ?thesis using node_agree [OF ag that] by auto
  qed
qed

lemma tables_iff: "q \<in> tables m r \<longleftrightarrow> (\<exists>p. length p \<le> 2 \<and> node m r p = Some q)"
  by (simp add: tables_def)

lemma attach_inv:
  assumes inv: "tree_inv m r" and q: "node m r p = Some q" "length p < 2" "i < 512"
    and free: "\<not> bit (pte_at m q i) 0" and f: "valid_page f" "f \<notin> tables m r"
    and m'_def: "m' = write64 (zero_bytes m (phys_to_virt f) 4096) (entry_at (phys_to_virt q) i) (make_table_pte f)"
  shows "tree_inv m' r" "tables m' r = insert f (tables m r)"
    and "length p' = 2 \<Longrightarrow> lookup m' r p' j = lookup m r p' j"
proof -
  note at = attach_table [OF assms]
  have old: "node m r (p @ [i]) = None"
    using free by (intro node_stop [OF q(1)]) (simp add: is_table_bits)
  have no_prefix: "\<not> prefix (p @ [i]) p'" if "node m r p' = Some x" for p' x
  proof
    assume "prefix (p @ [i]) p'"
    then obtain c where "p' = p @ i # c" by (auto simp: prefix_def)
    then show False using that node_stop [OF q(1), of i c] free by (simp add: is_table_bits)
  qed
  show "tables m' r = insert f (tables m r)"
  proof (rule set_eqI)
    fix x
    have "x \<in> tables m' r \<longleftrightarrow> (\<exists>p'. length p' \<le> 2 \<and> (if p' = p @ [i] then Some f else node m r p') = Some x)"
      by (simp only: tables_iff at(2) cong: conj_cong)
    also have "\<dots> \<longleftrightarrow> x = f \<or> x \<in> tables m r"
    proof
      have "length (p @ [i]) \<le> 2" using q(2) by simp
      moreover assume "x = f \<or> x \<in> tables m r"
      ultimately obtain p' where "length p' \<le> 2" "p' = p @ [i] \<and> x = f \<or> node m r p' = Some x"
        unfolding tables_iff by blast
      then show "\<exists>p'. length p' \<le> 2 \<and> (if p' = p @ [i] then Some f else node m r p') = Some x"
        using old by (intro exI [of _ p']) auto
    qed (auto simp: tables_iff split: if_splits)
    finally show "x \<in> tables m' r \<longleftrightarrow> x \<in> insert f (tables m r)" by simp
  qed
  show "lookup m' r p' j = lookup m r p' j" if p': "length p' = 2"
  proof (cases "p' = p @ [i]")
    case True
    then show ?thesis using at(2) [of p'] at(3) old p' by (auto simp: lookup_def)
  next
    case False
    have "pte_at m' x j = pte_at m x j" if "node m r p' = Some x" "j < 512" for x
    proof -
      have "\<not> prefix (p @ [i]) (p' @ [j])" using no_prefix [OF that(1)] p' q(2) by auto
      then show ?thesis using that p' by (intro agree_offD [OF at(1)]) simp_all
    qed
    then show ?thesis using at(2) [of p'] p' False by (auto simp: lookup_def split: option.split)
  qed
  show "tree_inv m' r"
  proof (rule tree_invI)
    fix p' x assume "length p' \<le> 2" "node m' r p' = Some x"
    then show "valid_page x" using at(2) f(1) tree_invD(1) [OF inv] by (auto split: if_splits)
  next
    fix p' p'' x assume "length p' \<le> 2" "length p'' \<le> 2" "node m' r p' = Some x" "node m' r p'' = Some x"
    then show "p' = p''" using at(2) f(2) tree_invD(2) [OF inv] by (auto simp: tables_iff split: if_splits)
  next
    fix p' x j assume a: "length p' < 2" "node m' r p' = Some x" "j < 512" "bit (pte_at m' x j) 0"
    show "is_table (pte_at m' x j)"
    proof (cases "p' = p @ [i]")
      case True
      then show ?thesis using a at(2) [of p'] at(3) [of j] by simp
    next
      case False
      then have x: "node m r p' = Some x" using a at(2) [of p'] by simp
      show ?thesis
      proof (cases "p' = p \<and> j = i")
        case True
        have "valid_page q" using tree_invD(1) [OF inv q(1)] q(2) by simp
        then have "pte_at m' q i = make_table_pte f"
          unfolding m'_def using q(3) by (simp add: pte_at_write)
        then show ?thesis using True x q(1) f(1) is_table_make by simp
      next
        case pj: False
        have "\<not> prefix (p @ [i]) (p' @ [j])"
          using pj no_prefix [OF x] by auto
        then have "pte_at m' x j = pte_at m x j" using a x by (intro agree_offD [OF at(1)]) simp_all
        then show ?thesis using tree_invD(3) [OF inv x] a by simp
      qed
    qed
  qed
qed

lemma detach_table:
  assumes inv: "tree_inv m r" and q: "node m r p = Some q" "length p < 2" "i < 512"
    and f: "node m r (p @ [i]) = Some f" and fr: "\<forall>a. outside_page f a \<longrightarrow> m1 a = m a"
    and m'_def: "m' = write64 m1 (entry_at (phys_to_virt q) i) 0"
  shows "agree_off m m' r p i"
    and "length p' \<le> 2 \<Longrightarrow> node m' r p' = (if prefix (p @ [i]) p' then None else node m r p')"
    and "pte_at m' q i = 0"
proof -
  have vq: "valid_page q" using tree_invD(1) [OF inv q(1)] q(2) by simp
  have vf: "valid_page f" using tree_invD(1) [OF inv f] q(2) by simp
  have pte: "pte_at m' q' j = (if q' = q \<and> j = i then 0 else pte_at m q' j)"
    if "valid_page q'" "q' \<noteq> f" "j < 512" for q' j
  proof -
    have "pte_at m1 q' j = pte_at m q' j" using vf that fr by (intro pte_at_frame [of f]) auto
    then show ?thesis unfolding m'_def using that vq q(3) by (simp add: pte_at_write)
  qed
  show ag: "agree_off m m' r p i" unfolding agree_off_def
  proof (intro allI impI)
    fix ps j q'
    assume a: "length ps \<le> 2 \<and> node m r ps = Some q' \<and> j < 512 \<and> \<not> prefix (p @ [i]) (ps @ [j])"
    have "\<not> (q' = q \<and> j = i)" using a tree_invD(2) [OF inv q(1), of ps] q(2) by auto
    moreover have "q' \<noteq> f" using a tree_invD(2) [OF inv f, of ps] q(2) by auto
    ultimately show "pte_at m' q' j = pte_at m q' j" using a tree_invD(1) [OF inv] pte by auto
  qed
  have nf: "q \<noteq> f" using tree_invD(2) [OF inv f, of p] q by auto
  then show z: "pte_at m' q i = 0" using pte [OF vq _ q(3)] by simp
  show "node m' r p' = (if prefix (p @ [i]) p' then None else node m r p')" if "length p' \<le> 2"
  proof (cases "prefix (p @ [i]) p'")
    case True
    then obtain p'' where p': "p' = p @ i # p''" by (auto simp: prefix_def)
    have "node m' r p = Some q" using node_agree [OF ag, of p] q prefix_longer [of p p] by simp
    then have "node m' r p' = None" unfolding p' by (rule node_stop) (simp add: z is_table_bits)
    then show ?thesis using True by simp
  qed (simp add: node_agree [OF ag that])
qed

lemma detach_inv:
  assumes inv: "tree_inv m r" and q: "node m r p = Some q" "length p < 2" "i < 512"
    and f: "node m r (p @ [i]) = Some f" and fr: "\<forall>a. outside_page f a \<longrightarrow> m1 a = m a"
    and m'_def: "m' = write64 m1 (entry_at (phys_to_virt q) i) 0"
    and empty: "\<And>j. j < 512 \<Longrightarrow> \<not> bit (pte_at m f j) 0"
  shows "tree_inv m' r" "tables m' r = tables m r - {f}"
    and "length p' = 2 \<Longrightarrow> lookup m' r p' j = lookup m r p' j"
    and "length p' \<le> 2 \<Longrightarrow> node m' r p' = (if p' = p @ [i] then None else node m r p')"
proof -
  note de = detach_table [OF assms(1-7)]
  have below: "node m r p' = None" if pre: "prefix (p @ [i]) p'" and ne: "p' \<noteq> p @ [i]" for p'
  proof -
    obtain d where d: "p' = (p @ [i]) @ d" using pre unfolding prefix_def by blast
    then obtain j c where "d = j # c" using ne by (cases d) auto
    with d have "p' = (p @ [i]) @ j # c" by simp
    then show ?thesis using node_stop [OF f, of j c] empty [of j] by (simp add: is_table_bits)
  qed
  show nd: "node m' r p' = (if p' = p @ [i] then None else node m r p')" if "length p' \<le> 2" for p'
    using de(2) [OF that] below [of p'] by auto
  show "tables m' r = tables m r - {f}"
  proof (rule set_eqI)
    fix x
    have "x \<in> tables m' r \<longleftrightarrow> (\<exists>p'. length p' \<le> 2 \<and> p' \<noteq> p @ [i] \<and> node m r p' = Some x)"
      by (simp only: tables_iff nd cong: conj_cong) (auto split: if_splits)
    also have "\<dots> \<longleftrightarrow> x \<in> tables m r \<and> x \<noteq> f"
    proof
      assume "\<exists>p'. length p' \<le> 2 \<and> p' \<noteq> p @ [i] \<and> node m r p' = Some x"
      then obtain p' where "length p' \<le> 2" "p' \<noteq> p @ [i]" "node m r p' = Some x" by blast
      moreover have "length (p @ [i]) \<le> 2" using q(2) by simp
      ultimately show "x \<in> tables m r \<and> x \<noteq> f" using tree_invD(2) [OF inv f, of p'] unfolding tables_iff by blast
    next
      assume "x \<in> tables m r \<and> x \<noteq> f"
      then show "\<exists>p'. length p' \<le> 2 \<and> p' \<noteq> p @ [i] \<and> node m r p' = Some x" using f by (force simp: tables_iff)
    qed
    finally show "x \<in> tables m' r \<longleftrightarrow> x \<in> tables m r - {f}" by simp
  qed
  show "lookup m' r p' j = lookup m r p' j" if p': "length p' = 2"
  proof (cases "prefix (p @ [i]) p'")
    case True
    then have "node m' r p' = None" using de(2) [of p'] p' by simp
    moreover have "node m r p' = None \<or> node m r p' = Some f" using below [OF True] f by blast
    ultimately show ?thesis using empty by (auto simp: lookup_def)
  next
    case False
    then have "\<not> prefix (p @ [i]) (p' @ [j])" using p' q(2) by auto
    then show ?thesis using p' by (intro lookup_agree [OF de(1)]) simp_all
  qed
  show "tree_inv m' r"
  proof (rule tree_invI)
    fix p' x assume "length p' \<le> 2" "node m' r p' = Some x"
    then show "valid_page x" using nd tree_invD(1) [OF inv] by (auto split: if_splits)
  next
    fix p' p'' x assume "length p' \<le> 2" "length p'' \<le> 2" "node m' r p' = Some x" "node m' r p'' = Some x"
    then have "node m r p'' = Some x" "length p'' \<le> 2" "node m r p' = Some x" "length p' \<le> 2"
      using nd [of p'] nd [of p''] by (auto split: if_splits)
    then show "p' = p''" by (rule tree_invD(2) [OF inv])
  next
    fix p' x j assume a: "length p' < 2" "node m' r p' = Some x" "j < 512" "bit (pte_at m' x j) 0"
    then have x: "node m r p' = Some x" "\<not> prefix (p @ [i]) p'" using de(2) [of p'] by (auto split: if_splits)
    have "\<not> (p' = p \<and> j = i)" using a(4) x(1) q(1) de(3) by auto
    then have "\<not> prefix (p @ [i]) (p' @ [j])" using x(2) by auto
    then have "pte_at m' x j = pte_at m x j" using a x by (intro agree_offD [OF de(1)]) simp_all
    then show "is_table (pte_at m' x j)" using tree_invD(3) [OF inv x(1)] a by simp
  qed
qed

section \<open>Trees without empty tables\<close>

definition trimmed_but :: "mem \<Rightarrow> u64 \<Rightarrow> nat list set \<Rightarrow> bool" where
  "trimmed_but m r P \<longleftrightarrow>
     (\<forall>p q. p \<noteq> [] \<and> length p \<le> 2 \<and> p \<notin> P \<and> node m r p = Some q \<longrightarrow> \<not> table_empty m (phys_to_virt q))"

abbreviation trimmed :: "mem \<Rightarrow> u64 \<Rightarrow> bool" where
  "trimmed m r \<equiv> trimmed_but m r {}"

lemma table_empty_iff: "table_empty m (phys_to_virt q) \<longleftrightarrow> (\<forall>i<512. \<not> bit (pte_at m q i) 0)"
  by (auto simp: table_empty_def pte_at_def pte_simps)

lemma trimmedD:
  "trimmed_but m r P \<Longrightarrow> p \<noteq> [] \<Longrightarrow> length p \<le> 2 \<Longrightarrow> p \<notin> P \<Longrightarrow> node m r p = Some q \<Longrightarrow>
   \<exists>i<512. bit (pte_at m q i) 0"
  by (auto simp: trimmed_but_def table_empty_iff)

lemma trimmedI:
  "(\<And>p q. p \<noteq> [] \<Longrightarrow> length p \<le> 2 \<Longrightarrow> p \<notin> P \<Longrightarrow> node m r p = Some q \<Longrightarrow> \<exists>i<512. bit (pte_at m q i) 0) \<Longrightarrow>
   trimmed_but m r P"
  by (fastforce simp: trimmed_but_def table_empty_iff)

lemma trimmed_mono: "trimmed_but m r P \<Longrightarrow> P \<subseteq> Q \<Longrightarrow> trimmed_but m r Q"
  by (auto simp: trimmed_but_def)

lemma trimmed_remove:
  "trimmed_but m r (insert p P) \<Longrightarrow> node m r p = Some q \<Longrightarrow> i < 512 \<Longrightarrow> bit (pte_at m q i) 0 \<Longrightarrow> trimmed_but m r P"
  by (fastforce simp: trimmed_but_def table_empty_iff)

lemma trimmed_nonempty:
  "trimmed_but m r (insert p P) \<Longrightarrow> (\<And>q. node m r p = Some q \<Longrightarrow> \<not> table_empty m (phys_to_virt q)) \<Longrightarrow> trimmed_but m r P"
  by (fastforce simp: trimmed_but_def)

lemma trimmed_root: "trimmed_but m r (insert [] P) \<longleftrightarrow> trimmed_but m r P"
  by (auto simp: trimmed_but_def)

lemma trimmed_attach:
  assumes inv: "tree_inv m r" and q: "node m r p = Some q" "length p < 2" "i < 512"
    and free: "\<not> bit (pte_at m q i) 0" and f: "valid_page f" "f \<notin> tables m r"
    and m'_def: "m' = write64 (zero_bytes m (phys_to_virt f) 4096) (entry_at (phys_to_virt q) i) (make_table_pte f)"
    and tr: "trimmed_but m r (insert p P)"
  shows "trimmed_but m' r (insert (p @ [i]) P)"
proof (rule trimmedI)
  note at = attach_table [OF assms(1-8)]
  fix p' x assume p': "p' \<noteq> []" "length p' \<le> 2" "p' \<notin> insert (p @ [i]) P" "node m' r p' = Some x"
  then have x: "node m r p' = Some x" using at(2) [of p'] by auto
  show "\<exists>j<512. bit (pte_at m' x j) 0"
  proof (cases "p' = p")
    case True
    have "valid_page q" using tree_invD(1) [OF inv q(1)] q(2) by simp
    then have "pte_at m' q i = make_table_pte f" unfolding m'_def using q(3) by (simp add: pte_at_write)
    then show ?thesis using True x q is_table_make [OF f(1)] by (auto simp: is_table_bits)
  next
    case False
    then obtain j where j: "j < 512" "bit (pte_at m x j) 0" using trimmedD [OF tr p'(1,2) _ x] p'(3) by auto
    have "node m r (p @ i # c) = None" for c
      using free by (intro node_stop [OF q(1)]) (simp add: is_table_bits)
    then have "\<not> prefix (p @ [i]) p'" using x by (auto simp: prefix_def)
    then have "\<not> prefix (p @ [i]) (p' @ [j])" using False by auto
    then have "pte_at m' x j = pte_at m x j" using j x p'(2) by (intro agree_offD [OF at(1)]) simp_all
    then show ?thesis using j by auto
  qed
qed

lemma trimmed_set_leaf:
  assumes inv: "tree_inv m r" and q: "node m r p = Some q" "length p = 2" "i < 512"
    and m'_def: "m' = write64 m (entry_at (phys_to_virt q) i) v"
    and tr: "trimmed_but m r (insert p P)"
  shows "trimmed_but m' r (if bit v 0 then P else insert p P)"
proof (rule trimmedI)
  have ag: "agree_off m m' r p i" unfolding m'_def using inv q by (intro agree_write) simp_all
  fix p' x assume p': "p' \<noteq> []" "length p' \<le> 2" "p' \<notin> (if bit v 0 then P else insert p P)" "node m' r p' = Some x"
  then have x: "node m r p' = Some x" using node_agree [OF ag p'(2)] prefix_longer [of p' p i] q(2) by simp
  show "\<exists>j<512. bit (pte_at m' x j) 0"
  proof (cases "p' = p")
    case True
    have "valid_page q" using tree_invD(1) [OF inv q(1)] q(2) by simp
    then have "pte_at m' q i = v" unfolding m'_def using q(3) by (simp add: pte_at_write)
    then show ?thesis using True x q p'(3) by (auto split: if_splits)
  next
    case False
    then obtain j where j: "j < 512" "bit (pte_at m x j) 0"
      using trimmedD [OF tr p'(1,2) _ x] p'(3) by (auto split: if_splits)
    have "\<not> prefix (p @ [i]) (p' @ [j])" using False p'(2) q(2) prefix_longer [of p' p i] by auto
    then have "pte_at m' x j = pte_at m x j" using j x p'(2) by (intro agree_offD [OF ag]) simp_all
    then show ?thesis using j by auto
  qed
qed

lemma node_set_leaf:
  assumes "tree_inv m r" "node m r p = Some q" "length p = 2" "i < 512" "length p' \<le> 2"
  shows "node (write64 m (entry_at (phys_to_virt q) i) v) r p' = node m r p'"
proof -
  have "agree_off m (write64 m (entry_at (phys_to_virt q) i) v) r p i"
    using assms by (intro agree_write) simp_all
  moreover have "\<not> prefix (p @ [i]) p'" by (rule prefix_longer) (simp add: assms)
  ultimately show ?thesis using assms(5) by (intro node_agree)
qed

lemma trimmed_detach:
  assumes inv: "tree_inv m r" and q: "node m r p = Some q" "length p < 2" "i < 512"
    and f: "node m r (p @ [i]) = Some f" and fr: "\<forall>a. outside_page f a \<longrightarrow> m1 a = m a"
    and m'_def: "m' = write64 m1 (entry_at (phys_to_virt q) i) 0"
    and tr: "trimmed_but m r (insert (p @ [i]) P)"
  shows "trimmed_but m' r (insert p P)"
proof (rule trimmedI)
  note de = detach_table [OF assms(1-7)]
  fix p' x assume p': "p' \<noteq> []" "length p' \<le> 2" "p' \<notin> insert p P" "node m' r p' = Some x"
  then have x: "node m r p' = Some x" "\<not> prefix (p @ [i]) p'" using de(2) [of p'] by (auto split: if_splits)
  then have "p' \<noteq> p @ [i]" by auto
  then obtain j where j: "j < 512" "bit (pte_at m x j) 0" using trimmedD [OF tr p'(1,2) _ x(1)] p'(3) by auto
  have "\<not> prefix (p @ [i]) (p' @ [j])" using x(2) p'(3) by auto
  then have "pte_at m' x j = pte_at m x j" using j x p'(2) by (intro agree_offD [OF de(1)]) simp_all
  then show "\<exists>j<512. bit (pte_at m' x j) 0" using j by auto
qed

end
