(* ===== verification/Vm_Map.thy ===== *)
theory Vm_Map
  imports Page_Table
begin

text \<open>
  \<open>walk\<close> and \<open>vm_map\<close> of \<^verbatim>\<open>src/mm/vm.c\<close> as an update of the partial function \<open>translation\<close> from
  addresses to leaf entries, together with the free list: which pages become tables, what
  is written, and when the walk runs out of pages.
\<close>

section \<open>The invariant of a page table\<close>

definition vm_inv :: "'a kstate_scheme \<Rightarrow> u64 \<Rightarrow> u64 list \<Rightarrow> bool" where
  "vm_inv s r xs \<longleftrightarrow> page_inv s xs \<and> tree_inv (kmem s) r \<and> tables (kmem s) r \<inter> set xs = {}"

definition unchanged :: "u64 set \<Rightarrow> mem \<Rightarrow> mem \<Rightarrow> bool" where
  "unchanged S m m' \<longleftrightarrow> (\<forall>a. (\<forall>q\<in>S. outside_page q a) \<longrightarrow> m' a = m a)"

text \<open>What adding \<open>n\<close> tables from the free list does: the tree grows, no translation changes.\<close>

definition vm_ext :: "'a kstate_scheme \<Rightarrow> 'a kstate_scheme \<Rightarrow> u64 \<Rightarrow> u64 list \<Rightarrow> nat \<Rightarrow> bool" where
  "vm_ext s s' r xs n \<longleftrightarrow> n \<le> length xs \<and> vm_inv s' r (drop n xs) \<and>
     tables (kmem s') r = tables (kmem s) r \<union> set (take n xs) \<and>
     (\<forall>p q. length p \<le> 2 \<and> node (kmem s) r p = Some q \<longrightarrow> node (kmem s') r p = Some q) \<and>
     (\<forall>p j. length p = 2 \<longrightarrow> lookup (kmem s') r p j = lookup (kmem s) r p j) \<and>
     unchanged (tables (kmem s') r) (kmem s) (kmem s')"

lemma vm_ext_refl: "vm_inv s r xs \<Longrightarrow> vm_ext s s r xs 0"
  by (simp add: vm_ext_def unchanged_def)

lemma vm_ext_trans:
  assumes a: "vm_ext s s1 r xs n" and b: "vm_ext s1 s2 r (drop n xs) k"
  shows "vm_ext s s2 r xs (n + k)"
proof -
  have n: "n \<le> length xs" and t1: "tables (kmem s1) r = tables (kmem s) r \<union> set (take n xs)"
    and u1: "unchanged (tables (kmem s1) r) (kmem s) (kmem s1)"
    using a unfolding vm_ext_def by blast+
  have k: "k \<le> length (drop n xs)" and t2: "tables (kmem s2) r = tables (kmem s1) r \<union> set (take k (drop n xs))"
    and u2: "unchanged (tables (kmem s2) r) (kmem s1) (kmem s2)"
    using b unfolding vm_ext_def by blast+
  have "tables (kmem s2) r = tables (kmem s) r \<union> set (take (n + k) xs)"
    by (simp add: t1 t2 take_add Un_assoc)
  moreover have "unchanged (tables (kmem s2) r) (kmem s) (kmem s2)"
    using u1 u2 t2 by (simp add: unchanged_def)
  moreover have "n + k \<le> length xs" using n k by simp
  ultimately show ?thesis using a b by (simp add: vm_ext_def add.commute)
qed

lemma write_entry_outside:
  assumes "outside_page q a" "i < 512"
  shows "write64 m (entry_at (phys_to_virt q) i) v a = m a"
proof -
  have "a \<noteq> entry_at (phys_to_virt q) i + of_nat j" if "j < 8" for j
  proof -
    have "8 * i + j < 4096" using assms(2) that by simp
    then have "a \<noteq> phys_to_virt q + of_nat (8 * i + j)" using assms(1) unfolding outside_page_def by blast
    then show ?thesis by (simp add: entry_at_def algebra_simps)
  qed
  then show ?thesis unfolding write64_def by (intro write_bytes_outside) simp
qed

lemma page_inv_unchanged:
  assumes inv: "page_inv s xs" and t: "free_list t = free_list s" "free_pages t = free_pages s"
    and S: "\<forall>q\<in>S. valid_page q" "S \<inter> set xs = {}" and u: "unchanged S (kmem s) (kmem t)"
  shows "page_inv t xs"
proof (rule page_inv_frame [OF inv t])
  fix a assume "\<exists>x\<in>set xs. \<not> outside_page x a"
  then obtain x where x: "x \<in> set xs" "\<not> outside_page x a" by blast
  have "outside_page q a" if "q \<in> S" for q
    using outside_other_page [of x q a] x that S palloc.inv_valid [OF inv] by blast
  then show "kmem t a = kmem s a" using u by (simp add: unchanged_def)
qed

lemma attach_state:
  assumes inv: "vm_inv s r (x # xs)"
    and q: "node (kmem s) r p = Some q" "length p < 2" "i < 512" "\<not> bit (pte_at (kmem s) q i) 0"
    and t: "page_inv t xs" "kmem t = kmem s"
    and s': "s' = t\<lparr>kmem := write64 (zero_bytes (kmem t) (phys_to_virt x) 4096)
                 (entry_at (phys_to_virt q) i) (make_table_pte x)\<rparr>"
  shows "vm_ext s s' r (x # xs) 1" "node (kmem s') r (p @ [i]) = Some x"
proof -
  have tree: "tree_inv (kmem s) r" and x: "valid_page x" "x \<notin> tables (kmem s) r" "x \<notin> set xs"
    using inv palloc.inv_valid [of s "x # xs"] by (auto simp: vm_inv_def)
  have m': "kmem s' = write64 (zero_bytes (kmem s) (phys_to_virt x) 4096)
              (entry_at (phys_to_virt q) i) (make_table_pte x)"
    by (simp add: s' t(2))
  note at = attach_table [OF tree q x(1,2) m'] and ai = attach_inv [OF tree q x(1,2) m']
  have qt: "q \<in> tables (kmem s) r" using q by (force simp: tables_iff)
  have "node (kmem s) r (p @ [i]) = None"
    using q(4) by (intro node_stop [OF q(1)]) (simp add: is_table_bits)
  then have old: "node (kmem s') r p' = Some q'" if "length p' \<le> 2 \<and> node (kmem s) r p' = Some q'" for p' q'
    using at(2) [of p'] that by auto
  have u: "unchanged {q, x} (kmem s) (kmem s')"
    unfolding m' unchanged_def using q(3) by (simp add: write_entry_outside zero_bytes_outside)
  have tabs: "\<forall>q\<in>tables (kmem s) r. valid_page q" using tree_invD(1) [OF tree] by (auto simp: tables_iff)
  have "page_inv s' xs"
  proof (rule page_inv_unchanged [OF t(1), of s' "{q, x}"])
    show "\<forall>q\<in>{q, x}. valid_page q" "{q, x} \<inter> set xs = {}"
      using x qt tabs inv by (auto simp: vm_inv_def)
  qed (use u t in \<open>simp_all add: s'\<close>)
  moreover have "unchanged (tables (kmem s') r) (kmem s) (kmem s')"
    using u ai(2) qt by (simp add: unchanged_def)
  ultimately show "vm_ext s s' r (x # xs) 1"
    using inv ai old x by (simp add: vm_ext_def vm_inv_def)
  show "node (kmem s') r (p @ [i]) = Some x" using at(2) [of "p @ [i]"] q(2) by simp
qed

section \<open>The walk\<close>

primrec walk_path :: "u64 \<Rightarrow> nat \<Rightarrow> nat list" where
  "walk_path a 0 = []"
| "walk_path a (Suc level) = vpn_index a (Suc level) # walk_path a level"

lemma length_walk_path [simp]: "length (walk_path a level) = level"
  by (induction level) simp_all

lemma vpn_index_less [simp]: "vpn_index a level < 512"
proof -
  have "(0x1ff :: u64) = mask 9" by (simp add: mask_eq_exp_minus_1)
  then have "vpn_index a level = take_bit 9 (unat (drop_bit (12 + level * 9) a))"
    unfolding vpn_index_def by (simp only: unsigned_take_bit_eq flip: take_bit_eq_mask)
  then show ?thesis using take_bit_nat_less_exp [of 9] by simp
qed

lemma entry_nonzero: "valid_page q \<Longrightarrow> i < 512 \<Longrightarrow> entry_at (phys_to_virt q) i \<noteq> 0"
proof
  assume q: "valid_page q" and i: "i < 512" and z: "entry_at (phys_to_virt q) i = 0"
  have "unat (phys_to_virt q + of_nat (8 * i)) = unat (phys_to_virt q) + 8 * i"
    using q i by (intro unat_page_offset) (simp_all add: valid_page_def)
  then have "unat (phys_to_virt q) = 0" using z by (simp add: entry_at_def)
  then show False using valid_page_virt [OF q] by (simp add: unat_eq_0)
qed

lemma walk_found:
  assumes "node (kmem s) r p = Some q" "length p + level = 2"
    and "node (kmem s) r (p @ walk_path a level) = Some t"
  shows "walk_levels level (phys_to_virt q) a create s = (entry_at (phys_to_virt t) (vpn_index a 0), s)"
  using assms
proof (induction level arbitrary: p q)
  case (Suc level)
  let ?i = "vpn_index a (Suc level)"
  have "node (kmem s) r ((p @ [?i]) @ walk_path a level) = Some t" using Suc.prems(3) by simp
  moreover from this obtain q' where q': "node (kmem s) r (p @ [?i]) = Some q'"
    unfolding node_append [of _ _ "p @ [?i]"] by (cases "node (kmem s) r (p @ [?i])") simp_all
  ultimately have "walk_levels level (phys_to_virt q') a create s = (entry_at (phys_to_virt t) (vpn_index a 0), s)"
    using Suc.prems(2) by (intro Suc.IH [OF q']) simp_all
  moreover have "is_table (pte_at (kmem s) q ?i)" "q' = pte_physical (pte_at (kmem s) q ?i)"
    using q' Suc.prems(1) by (auto simp: node_snoc split: if_splits)
  ultimately show ?case by (auto simp: pte_at_def is_table_def Let_def)
qed (simp add: node_append)

lemma walk_missing:
  assumes "tree_inv (kmem s) r" "node (kmem s) r p = Some q" "length p + level = 2"
    and "node (kmem s) r (p @ walk_path a level) = None"
  shows "walk_levels level (phys_to_virt q) a False s = (0, s)"
  using assms
proof (induction level arbitrary: p q)
  case (Suc level)
  let ?i = "vpn_index a (Suc level)" and ?e = "pte_at (kmem s) q (vpn_index a (Suc level))"
  show ?case
  proof (cases "bit ?e 0")
    case True
    then have tab: "is_table ?e" using Suc.prems by (intro tree_invD(3) [OF Suc.prems(1,2)]) simp_all
    then have "node (kmem s) r (p @ [?i]) = Some (pte_physical ?e)" using Suc.prems(2) by (simp add: node_snoc)
    then have "walk_levels level (phys_to_virt (pte_physical ?e)) a False s = (0, s)"
      using Suc.prems by (intro Suc.IH [of "p @ [?i]"]) simp_all
    then show ?thesis using tab by (auto simp: pte_at_def is_table_def Let_def)
  next
    case False
    then show ?thesis by (simp add: pte_at_def pte_simps Let_def)
  qed
qed (simp add: node_append)

text \<open>One step of a creating walk: the next table exists, or there is no page left for it, or it is
  attached.\<close>

lemma walk_step_cases:
  assumes inv: "vm_inv s r xs" and q: "node (kmem s) r p = Some q" "length p < 2"
  obtains (found) q' where "is_table (pte_at (kmem s) q (vpn_index a (Suc level)))"
      "node (kmem s) r (p @ [vpn_index a (Suc level)]) = Some q'"
      "walk_levels (Suc level) (phys_to_virt q) a True s = walk_levels level (phys_to_virt q') a True s"
  | (full) "xs = []" "walk_levels (Suc level) (phys_to_virt q) a True s = (0, s)"
  | (attached) x ys s1 where "xs = x # ys" "\<not> bit (pte_at (kmem s) q (vpn_index a (Suc level))) 0"
      "valid_page x" "x \<notin> tables (kmem s) r"
      "kmem s1 = write64 (zero_bytes (kmem s) (phys_to_virt x) 4096)
        (entry_at (phys_to_virt q) (vpn_index a (Suc level))) (make_table_pte x)"
      "vm_ext s s1 r (x # ys) 1" "node (kmem s1) r (p @ [vpn_index a (Suc level)]) = Some x"
      "walk_levels (Suc level) (phys_to_virt q) a True s = walk_levels level (phys_to_virt x) a True s1"
proof -
  let ?i = "vpn_index a (Suc level)" and ?e = "pte_at (kmem s) q (vpn_index a (Suc level))"
  have tree: "tree_inv (kmem s) r" and pages: "page_inv s xs" using inv by (simp_all add: vm_inv_def)
  have vq: "valid_page q" using tree_invD(1) [OF tree q(1)] q(2) by simp
  show thesis
  proof (cases "bit ?e 0")
    case True
    then have tab: "is_table ?e" using q(2) by (intro tree_invD(3) [OF tree q(1)]) simp_all
    moreover have "node (kmem s) r (p @ [?i]) = Some (pte_physical ?e)" using q(1) tab by (simp add: node_snoc)
    moreover have "walk_levels (Suc level) (phys_to_virt q) a True s = walk_levels level (phys_to_virt (pte_physical ?e)) a True s"
      using tab by (simp add: pte_at_def is_table_def Let_def)
    ultimately show thesis by (rule found)
  next
    case False
    from pages show thesis
    proof (cases rule: palloc.alloc_cases)
      case none
      then show thesis using False by (intro full) (simp_all add: pte_at_def pte_simps Let_def)
    next
      case (some x ys t)
      define s1 where "s1 = t\<lparr>kmem := write64 (zero_bytes (kmem t) (phys_to_virt x) 4096)
                 (entry_at (phys_to_virt q) ?i) (make_table_pte x)\<rparr>"
      have x: "valid_page x" "x \<notin> tables (kmem s) r"
        using palloc.inv_valid [OF pages] some(1) inv by (auto simp: vm_inv_def)
      have "vm_ext s s1 r (x # ys) 1" "node (kmem s1) r (p @ [?i]) = Some x"
        using attach_state [OF _ q vpn_index_less False some(4,5) s1_def] inv some(1) by simp_all
      moreover have "walk_levels (Suc level) (phys_to_virt q) a True s = walk_levels level (phys_to_virt x) a True s1"
        using False some(2,3) x by (simp add: pte_at_def pte_simps Let_def s1_def pte_physical_table)
      ultimately show thesis using some(1,5) False x by (intro attached [of x ys s1]) (simp_all add: s1_def)
    qed
  qed
qed

lemma walk_create:
  assumes "vm_inv s r xs" "node (kmem s) r p = Some q" "length p + level = 2"
  shows "\<exists>e s' n. walk_levels level (phys_to_virt q) a True s = (e, s') \<and> vm_ext s s' r xs n \<and> n \<le> level \<and>
    (if e = 0 then n < level \<and> n = length xs
     else \<exists>t. node (kmem s') r (p @ walk_path a level) = Some t \<and> e = entry_at (phys_to_virt t) (vpn_index a 0))"
  using assms
proof (induction level arbitrary: p q s xs)
  case 0
  have "valid_page q" using 0 tree_invD(1) by (auto simp: vm_inv_def)
  then have "entry_at (phys_to_virt q) (vpn_index a 0) \<noteq> 0" by (rule entry_nonzero) simp
  then show ?case using 0 vm_ext_refl by (intro exI [of _ "entry_at (phys_to_virt q) (vpn_index a 0)"]) fastforce
next
  case (Suc level)
  let ?i = "vpn_index a (Suc level)"
  have len: "length p < 2" "length (p @ [?i]) + level = 2" using Suc.prems(3) by simp_all
  from Suc.prems(1,2) len(1) show ?case
  proof (cases rule: walk_step_cases [where a = a and level = level])
    case (found q')
    then show ?thesis using Suc.IH [OF Suc.prems(1) found(2) len(2)] by (fastforce intro: less_SucI)
  next
    case full
    then show ?thesis using Suc.prems(1) vm_ext_refl by (intro exI [of _ 0] exI [of _ s]) simp
  next
    case (attached x ys s1)
    have "vm_inv s1 r ys" using attached(6) by (simp add: vm_ext_def)
    then show ?thesis
      using Suc.IH [OF _ attached(7) len(2), of ys] vm_ext_trans [OF attached(6)] attached(1,8)
      by (fastforce split: if_splits)
  qed
qed

section \<open>The operations as updates of a partial function\<close>

text \<open>\<open>translation s r a\<close> is the valid leaf entry for address \<open>a\<close>, if there is one. Two addresses are
  in the same page when their nine-bit indices agree at all three levels.\<close>

definition translation :: "'a kstate_scheme \<Rightarrow> u64 \<Rightarrow> u64 \<Rightarrow> u64 option" where
  "translation s r a = lookup (kmem s) r (walk_path a 2) (vpn_index a 0)"

definition same_page :: "u64 \<Rightarrow> u64 \<Rightarrow> bool" where
  "same_page a b \<longleftrightarrow> (\<forall>level<3. vpn_index a level = vpn_index b level)"

lemma same_page_path:
  "same_page a b \<longleftrightarrow> walk_path a 2 = walk_path b 2 \<and> vpn_index a 0 = vpn_index b 0"
  by (auto simp: same_page_def numeral_2_eq_2 numeral_3_eq_3 less_Suc_eq)

lemma walk_root: "walk_levels 2 (root_pointer t) a create s = walk_levels 2 (phys_to_virt (root t)) a create s"
  by (simp add: root_pointer_def)

lemma set_translation:
  assumes inv: "vm_inv s r xs" and t: "node (kmem s) r (walk_path a 2) = Some t"
    and s': "s' = s\<lparr>kmem := write64 (kmem s) (entry_at (phys_to_virt t) (vpn_index a 0)) v\<rparr>"
  shows "vm_inv s' r xs" "tables (kmem s') r = tables (kmem s) r"
    and "translation s' r b = (if same_page b a then if bit v 0 then Some v else None else translation s r b)"
    and "unchanged (tables (kmem s) r) (kmem s) (kmem s')"
proof -
  have tree: "tree_inv (kmem s) r" using inv by (simp add: vm_inv_def)
  have m': "kmem s' = write64 (kmem s) (entry_at (phys_to_virt t) (vpn_index a 0)) v" by (simp add: s')
  note sl = set_leaf [OF tree t length_walk_path vpn_index_less m']
  show tab: "tables (kmem s') r = tables (kmem s) r" by (rule sl(2))
  have tt: "t \<in> tables (kmem s) r" using t by (force simp: tables_iff)
  show u: "unchanged (tables (kmem s) r) (kmem s) (kmem s')"
    unfolding unchanged_def m' using tt by (simp add: write_entry_outside)
  have "page_inv s' xs"
    using inv tree_invD(1) [OF tree]
    by (intro page_inv_unchanged [of s xs s' "tables (kmem s) r", OF _ _ _ _ _ u]) (auto simp: s' vm_inv_def tables_iff)
  then show "vm_inv s' r xs" using inv sl(1) tab by (simp add: vm_inv_def)
  show "translation s' r b = (if same_page b a then if bit v 0 then Some v else None else translation s r b)"
    using sl(3) [of "walk_path b 2" "vpn_index b 0"] by (simp add: translation_def same_page_path)
qed

lemma ext_translation: "vm_ext s s' r xs n \<Longrightarrow> translation s' r = translation s r"
  by (rule ext) (simp add: vm_ext_def translation_def)

lemma root_valid: "vm_inv s r xs \<Longrightarrow> valid_page r \<and> r \<noteq> 0"
  using tree_invD(1) [of "kmem s" r "[]" r] by (auto simp: vm_inv_def valid_page_def)

lemma aligned_mask: "page_aligned a \<longleftrightarrow> a AND PAGE_MASK = 0"
  by (simp add: page_aligned_def)

lemma lookup_Some:
  "lookup m r p i = Some e \<longleftrightarrow> (\<exists>t. node m r p = Some t \<and> i < 512 \<and> e = pte_at m t i \<and> bit e 0)"
  by (auto simp: lookup_def split: option.splits)

lemma walk_lookup:
  assumes inv: "vm_inv s (root t) xs" and can: "canonical a"
  shows "node (kmem s) (root t) (walk_path a 2) = Some l \<Longrightarrow>
      walk (Some t) a create s = (entry_at (phys_to_virt l) (vpn_index a 0), s)"
    and "node (kmem s) (root t) (walk_path a 2) = None \<Longrightarrow> walk (Some t) a False s = (0, s)"
proof -
  have r: "root t \<noteq> 0" using root_valid [OF inv] by simp
  have nd: "node (kmem s) (root t) [] = Some (root t)" by simp
  show "walk (Some t) a create s = (entry_at (phys_to_virt l) (vpn_index a 0), s)"
    if "node (kmem s) (root t) (walk_path a 2) = Some l"
    using walk_found [OF nd, of 2 a l create] that r can by (simp add: walk_def walk_root)
  show "walk (Some t) a False s = (0, s)" if "node (kmem s) (root t) (walk_path a 2) = None"
    using walk_missing [OF _ nd, of 2 a] inv that r can by (simp add: walk_def walk_root vm_inv_def)
qed

definition map_outcome ::
  "'a kstate_scheme \<Rightarrow> u64 \<Rightarrow> u64 list \<Rightarrow> u64 \<Rightarrow> u64 \<Rightarrow> bool \<Rightarrow> 'a kstate_scheme \<Rightarrow> bool" where
  "map_outcome s r xs a pte ok s' \<longleftrightarrow> (\<exists>n\<le>2. n \<le> length xs \<and> vm_inv s' r (drop n xs) \<and>
     tables (kmem s') r = tables (kmem s) r \<union> set (take n xs) \<and>
     (\<forall>b. translation s' r b = (if ok \<and> same_page b a then Some pte else translation s r b)) \<and>
     unchanged (tables (kmem s') r) (kmem s) (kmem s') \<and>
     (\<forall>p q. length p \<le> 2 \<and> node (kmem s) r p = Some q \<longrightarrow> node (kmem s') r p = Some q) \<and>
     (ok \<longrightarrow> translation s r a = None) \<and>
     (\<not> ok \<longrightarrow> translation s r a \<noteq> None \<and> s' = s \<or> n < 2 \<and> n = length xs))"

lemma vm_map_outcome:
  assumes inv: "vm_inv s (root t) xs" and a: "canonical a" "page_aligned a"
    and p: "pte_target p" "valid_leaf_flags f"
  shows "map_outcome s (root t) xs a (leaf_pte p f) (fst (vm_map (Some t) a p f s)) (snd (vm_map (Some t) a p f s))"
proof -
  let ?r = "root t"
  have r: "?r \<noteq> 0" using root_valid [OF inv] by simp
  have al: "a AND PAGE_MASK = 0" "p AND PAGE_MASK = 0" using a(2) p(1) by (simp_all add: aligned_mask pte_target_def)
  obtain e s1 n where w: "walk_levels 2 (phys_to_virt ?r) a True s = (e, s1)" and ext: "vm_ext s s1 ?r xs n"
    and n2: "n \<le> 2" and out: "if e = 0 then n < 2 \<and> n = length xs
      else \<exists>l. node (kmem s1) ?r (walk_path a 2) = Some l \<and> e = entry_at (phys_to_virt l) (vpn_index a 0)"
    using walk_create [OF inv, of "[]" ?r 2 a] by (metis add_0 append_Nil list.size(3) node.simps(1))
  have walk: "walk (Some t) a True s = (e, s1)" using w r a(1) by (simp add: walk_def walk_root)
  have inv1: "vm_inv s1 ?r (drop n xs)" and n: "n \<le> length xs" and tr: "translation s1 ?r = translation s ?r"
    and tab: "tables (kmem s1) ?r = tables (kmem s) ?r \<union> set (take n xs)"
    and un: "unchanged (tables (kmem s1) ?r) (kmem s) (kmem s1)"
    and old: "\<forall>p q. length p \<le> 2 \<and> node (kmem s) ?r p = Some q \<longrightarrow> node (kmem s1) ?r p = Some q"
    using ext ext_translation [OF ext] unfolding vm_ext_def by blast+
  show ?thesis
  proof (cases "translation s ?r a")
    case (Some pte)
    then obtain l where l: "node (kmem s) ?r (walk_path a 2) = Some l" and v: "bit (pte_at (kmem s) l (vpn_index a 0)) 0"
      by (auto simp: translation_def lookup_Some)
    have "vm_map (Some t) a p f s = (False, s)"
      using walk_lookup(1) [OF inv a(1) l, of True] al p(2) v by (simp add: vm_map_def pte_at_def pte_simps)
    then show ?thesis using inv Some unfolding map_outcome_def by (intro exI [of _ 0]) (simp add: unchanged_def)
  next
    case None
    show ?thesis
    proof (cases "e = 0")
      case True
      then have "vm_map (Some t) a p f s = (False, s1)" using walk al p(2) by (simp add: vm_map_def)
      then show ?thesis using True out inv1 n tr tab un old unfolding map_outcome_def by (intro exI [of _ n]) auto
    next
      case False
      then obtain l where l: "node (kmem s1) ?r (walk_path a 2) = Some l"
        and e: "e = entry_at (phys_to_virt l) (vpn_index a 0)" using out by auto
      define s' where "s' = s1\<lparr>kmem := write64 (kmem s1) (entry_at (phys_to_virt l) (vpn_index a 0)) (leaf_pte p f)\<rparr>"
      have "translation s1 ?r a = None" by (simp add: tr None)
      then have "\<not> bit (read64 (kmem s1) e) 0" using l by (auto simp: translation_def lookup_def e pte_at_def split: if_splits)
      then have "vm_map (Some t) a p f s = (True, s')"
        using False walk al p(2) by (simp add: vm_map_def s'_def pte_simps flip: e)
      moreover have "node (kmem s') ?r p' = node (kmem s1) ?r p'" if "length p' \<le> 2" for p'
        using inv1 that node_set_leaf [OF _ l, of "vpn_index a 0" p' "leaf_pte p f"] by (simp add: s'_def vm_inv_def)
      ultimately show ?thesis
        using set_translation [OF inv1 l s'_def] leaf_pte_valid(1) [OF p] n n2 tab un None tr old
        unfolding map_outcome_def by (intro exI [of _ n]) (auto simp: unchanged_def)
    qed
  qed
qed

end
