(* ===== verification/Vm_Unmap.thy ===== *)
theory Vm_Unmap
  imports Vm_Map
begin

text \<open>
  \<open>vm_query\<close>, \<open>vm_protect\<close> and \<open>vm_unmap\<close> of \<^verbatim>\<open>src/mm/vm.c\<close>: reading, replacing and removing one
  translation. Removing gives empty tables back to the page allocator (\<open>vm_shrunk\<close>).
\<close>

lemma vm_query_translation:
  assumes inv: "vm_inv s (root t) xs" and can: "canonical a"
  shows "vm_query (Some t) a s =
    (case translation s (root t) a of
       None \<Rightarrow> None
     | Some pte \<Rightarrow> if bit pte 1 \<or> bit pte 3
                    then Some (pte_physical pte OR (a AND PAGE_MASK), pte AND 0x3ff) else None)"
proof (cases "node (kmem s) (root t) (walk_path a 2)")
  case None
  then show ?thesis using walk_lookup(2) [OF inv can] by (simp add: vm_query_def translation_def lookup_def)
next
  case (Some l)
  have "valid_page l" using inv Some tree_invD(1) by (force simp: vm_inv_def)
  then have "entry_at (phys_to_virt l) (vpn_index a 0) \<noteq> 0" by (rule entry_nonzero) simp
  then show ?thesis
    using walk_lookup(1) [OF inv can Some] Some
    by (simp add: vm_query_def translation_def lookup_def pte_at_def pte_simps Let_def)
qed

lemma pte_physical_target: "pte_target (pte_physical e)"
proof -
  have "pte_physical e AND mask 12 = 0"
    by (rule bit_word_eqI) (auto simp: pte_physical_def PPN_MASK_bits bit_simps)
  then have "page_aligned (pte_physical e)" by (simp add: page_aligned_def PAGE_MASK_mask)
  moreover have "take_bit 56 (pte_physical e) = pte_physical e"
    by (rule bit_word_eqI) (auto simp: pte_physical_def PPN_MASK_bits bit_simps)
  then have "take_bit 56 (unat (pte_physical e)) = unat (pte_physical e)" by (simp flip: unsigned_take_bit_eq)
  then have "unat (pte_physical e) < 2 ^ 56" using take_bit_nat_less_exp [of 56 "unat (pte_physical e)"] by simp
  ultimately show ?thesis by (simp add: pte_target_def)
qed

lemma vm_protect_outcome:
  assumes inv: "vm_inv s (root t) xs" and a: "canonical a" "page_aligned a" and f: "valid_leaf_flags f"
    and res: "vm_protect (Some t) a f s = (ok, s')"
  shows "ok \<longleftrightarrow> (\<exists>e. translation s (root t) a = Some e \<and> (bit e 1 \<or> bit e 3))"
    and "\<not> ok \<Longrightarrow> s' = s"
    and "ok \<Longrightarrow> vm_inv s' (root t) xs \<and> tables (kmem s') (root t) = tables (kmem s) (root t) \<and>
      unchanged (tables (kmem s) (root t)) (kmem s) (kmem s') \<and>
      translation s' (root t) b = (if same_page b a
        then Some (leaf_pte (pte_physical (the (translation s (root t) a))) f) else translation s (root t) b)"
proof -
  let ?r = "root t"
  have al: "a AND PAGE_MASK = 0" using a(2) by (simp add: aligned_mask)
  have "(ok \<longleftrightarrow> (\<exists>e. translation s (root t) a = Some e \<and> (bit e 1 \<or> bit e 3))) \<and> (\<not> ok \<longrightarrow> s' = s) \<and>
    (ok \<longrightarrow> vm_inv s' (root t) xs \<and> tables (kmem s') (root t) = tables (kmem s) (root t) \<and>
      unchanged (tables (kmem s) (root t)) (kmem s) (kmem s') \<and>
      translation s' (root t) b = (if same_page b a
        then Some (leaf_pte (pte_physical (the (translation s (root t) a))) f) else translation s (root t) b))"
  proof (cases "node (kmem s) ?r (walk_path a 2)")
    case None
    then have "vm_protect (Some t) a f s = (False, s)"
      using walk_lookup(2) [OF inv a(1)] by (simp add: vm_protect_def)
    then show ?thesis using res None by (simp add: translation_def lookup_def)
  next
    case (Some l)
    define e where "e = pte_at (kmem s) l (vpn_index a 0)"
    have "valid_page l" using inv Some tree_invD(1) by (force simp: vm_inv_def)
    then have "entry_at (phys_to_virt l) (vpn_index a 0) \<noteq> 0" by (rule entry_nonzero) simp
    moreover define s1 where "s1 = s\<lparr>kmem := write64 (kmem s) (entry_at (phys_to_virt l) (vpn_index a 0))
        (leaf_pte (pte_physical e) f)\<rparr>"
    ultimately have "vm_protect (Some t) a f s = (if bit e 0 \<and> (bit e 1 \<or> bit e 3) then (True, s1) else (False, s))"
      using walk_lookup(1) [OF inv a(1) Some] al f by (simp add: vm_protect_def s1_def e_def pte_at_def pte_simps)
    moreover have "translation s ?r a = (if bit e 0 then Some e else None)"
      using Some by (simp add: translation_def lookup_def e_def)
    ultimately show ?thesis
      using res set_translation(1,2,4) [OF inv Some s1_def] set_translation(3) [OF inv Some s1_def, of b] leaf_pte_valid(1) [OF pte_physical_target f, of e]
      by (auto split: if_splits)
  qed
  then show "ok \<longleftrightarrow> (\<exists>e. translation s (root t) a = Some e \<and> (bit e 1 \<or> bit e 3))"
    and "\<not> ok \<Longrightarrow> s' = s"
    and "ok \<Longrightarrow> vm_inv s' (root t) xs \<and> tables (kmem s') (root t) = tables (kmem s) (root t) \<and>
      unchanged (tables (kmem s) (root t)) (kmem s) (kmem s') \<and>
      translation s' (root t) b = (if same_page b a
        then Some (leaf_pte (pte_physical (the (translation s (root t) a))) f) else translation s (root t) b)"
    by blast+
qed

section \<open>Removing empty tables\<close>

lemma detach_state:
  assumes inv: "vm_inv s r xs" and q: "node (kmem s) r p = Some q" "length p < 2" "i < 512"
    and f: "node (kmem s) r (p @ [i]) = Some f" and em: "table_empty (kmem s) (phys_to_virt f)"
    and s': "s' = page_free f s\<lparr>kmem := write64 (kmem (page_free f s)) (entry_at (phys_to_virt q) i) 0\<rparr>"
  shows "vm_inv s' r (f # xs)" "tables (kmem s') r = tables (kmem s) r - {f}"
    and "translation s' r = translation s r" "unchanged (tables (kmem s) r) (kmem s) (kmem s')"
    and "length p' \<le> 2 \<Longrightarrow> node (kmem s') r p' = (if p' = p @ [i] then None else node (kmem s) r p')"
    and "trimmed_but (kmem s) r (insert (p @ [i]) P) \<Longrightarrow> trimmed_but (kmem s') r (insert p P)"
    and "agree_off (kmem s) (kmem s') r p i"
proof -
  have tree: "tree_inv (kmem s) r" and pg: "page_inv s xs" using inv by (simp_all add: vm_inv_def)
  have vf: "valid_page f" using tree_invD(1) [OF tree f] q(2) by simp
  have ft: "f \<in> tables (kmem s) r" "q \<in> tables (kmem s) r" using f q by (force simp: tables_iff)+
  have fr: "\<forall>a. outside_page f a \<longrightarrow> kmem (page_free f s) a = kmem s a" using palloc.release_contents [OF vf] by blast
  have m': "kmem s' = write64 (kmem (page_free f s)) (entry_at (phys_to_virt q) i) 0" by (simp add: s')
  have emp: "\<And>j. j < 512 \<Longrightarrow> \<not> bit (pte_at (kmem s) f j) 0" using em by (simp add: table_empty_iff)
  note di = detach_inv [OF tree q f fr m' emp]
  show "agree_off (kmem s) (kmem s') r p i" by (rule detach_table(1) [OF tree q f fr m'])
  show "trimmed_but (kmem s') r (insert p P)" if "trimmed_but (kmem s) r (insert (p @ [i]) P)"
    using that by (rule trimmed_detach [OF tree q f fr m'])
  show tab: "tables (kmem s') r = tables (kmem s) r - {f}" by (rule di(2))
  show "translation s' r = translation s r" by (rule ext) (simp add: translation_def di(3))
  show "unchanged (tables (kmem s) r) (kmem s) (kmem s')"
    unfolding unchanged_def m' using ft fr q(3) by (simp add: write_entry_outside)
  show "node (kmem s') r p' = (if p' = p @ [i] then None else node (kmem s) r p')" if "length p' \<le> 2"
    using di(4) that by simp
  have nx: "f \<notin> set xs" "q \<notin> set xs" using inv ft by (auto simp: vm_inv_def)
  have qf: "q \<noteq> f" using tree_invD(2) [OF tree f, of p] q by auto
  have pf: "page_inv (page_free f s) (f # xs)" using pg vf nx(1) by (rule palloc.release_inv)
  have "unchanged {q} (kmem (page_free f s)) (kmem s')"
    unfolding unchanged_def m' using q(3) by (simp add: write_entry_outside)
  then have "page_inv s' (f # xs)"
    using pf nx qf tree_invD(1) [OF tree q(1)] q(2) by (intro page_inv_unchanged [OF pf]) (auto simp: s')
  then show "vm_inv s' r (f # xs)" using di(1) tab inv by (auto simp: vm_inv_def)
qed

text \<open>The state after a leaf was cleared and, possibly, empty tables given back.\<close>

definition vm_shrunk :: "'a kstate_scheme \<Rightarrow> 'a kstate_scheme \<Rightarrow> u64 \<Rightarrow> u64 list \<Rightarrow> u64 list \<Rightarrow> bool" where
  "vm_shrunk s s' r xs ys \<longleftrightarrow> vm_inv s' r (ys @ xs) \<and>
     tables (kmem s') r = tables (kmem s) r - set ys \<and> set ys \<subseteq> tables (kmem s) r \<and>
     unchanged (tables (kmem s) r) (kmem s) (kmem s') \<and>
     (\<forall>p q. length p \<le> 2 \<and> node (kmem s') r p = Some q \<longrightarrow> node (kmem s) r p = Some q)"

lemma vm_shrunk_detach:
  assumes sh: "vm_shrunk s s1 r xs ys" and q: "node (kmem s1) r p = Some q" "length p < 2" "i < 512"
    and f: "node (kmem s1) r (p @ [i]) = Some f" and em: "table_empty (kmem s1) (phys_to_virt f)"
    and s': "s' = page_free f s1\<lparr>kmem := write64 (kmem (page_free f s1)) (entry_at (phys_to_virt q) i) 0\<rparr>"
  shows "vm_shrunk s s' r xs (f # ys)" "translation s' r = translation s1 r"
    and "length p' \<le> 2 \<Longrightarrow> node (kmem s') r p' = (if p' = p @ [i] then None else node (kmem s1) r p')"
    and "trimmed_but (kmem s1) r (insert (p @ [i]) P) \<Longrightarrow> trimmed_but (kmem s') r (insert p P)"
    and "agree_off (kmem s1) (kmem s') r p i"
proof -
  have inv: "vm_inv s1 r (ys @ xs)" using sh by (simp add: vm_shrunk_def)
  note ds = detach_state [OF inv q f em s']
  show "translation s' r = translation s1 r" by (rule ds(3))
  show "length p' \<le> 2 \<Longrightarrow> node (kmem s') r p' = (if p' = p @ [i] then None else node (kmem s1) r p')" by (rule ds(5))
  show "trimmed_but (kmem s1) r (insert (p @ [i]) P) \<Longrightarrow> trimmed_but (kmem s') r (insert p P)" by (rule ds(6))
  show "agree_off (kmem s1) (kmem s') r p i" by (rule ds(7))
  have "f \<in> tables (kmem s1) r" using f q(2) by (force simp: tables_iff)
  then have "f \<in> tables (kmem s) r" using sh by (auto simp: vm_shrunk_def)
  then show "vm_shrunk s s' r xs (f # ys)"
    using sh ds(1,2,4,5) unfolding vm_shrunk_def by (auto simp: unchanged_def split: if_splits)
qed

lemma descend_node:
  assumes "node m r p = Some q" "i < 512"
  shows "descend m (phys_to_virt q) i = map_option phys_to_virt (node m r (p @ [i]))"
  using assms by (simp add: descend_def Let_def node_snoc is_table_def pte_at_def)

definition leaf_at :: "'a kstate_scheme \<Rightarrow> u64 \<Rightarrow> u64 \<Rightarrow> bool" where
  "leaf_at s r a \<longleftrightarrow> (\<exists>e. translation s r a = Some e \<and> (bit e 1 \<or> bit e 3))"

lemma walk_path_2: "walk_path a 2 = [vpn_index a 2, vpn_index a 1]"
  by (simp add: numeral_2_eq_2)

lemma clear_leaf_shrunk:
  assumes inv: "vm_inv s r xs" and l: "node (kmem s) r (walk_path a 2) = Some l"
    and s0: "s0 = s\<lparr>kmem := write64 (kmem s) (entry_at (phys_to_virt l) (vpn_index a 0)) 0\<rparr>"
  shows "vm_shrunk s s0 r xs []" "translation s0 r b = (if same_page b a then None else translation s r b)"
    and "length p \<le> 2 \<Longrightarrow> node (kmem s0) r p = node (kmem s) r p"
    and "trimmed_but (kmem s) r P \<Longrightarrow> trimmed_but (kmem s0) r (insert (walk_path a 2) P)"
proof -
  have tree: "tree_inv (kmem s) r" using inv by (simp add: vm_inv_def)
  have m0: "kmem s0 = write64 (kmem s) (entry_at (phys_to_virt l) (vpn_index a 0)) 0" by (simp add: s0)
  show nd: "node (kmem s0) r p = node (kmem s) r p" if "length p \<le> 2" for p
    using that unfolding m0 by (intro node_set_leaf [OF tree l]) simp_all
  show "trimmed_but (kmem s0) r (insert (walk_path a 2) P)" if "trimmed_but (kmem s) r P"
    using trimmed_set_leaf [OF tree l length_walk_path vpn_index_less m0, of P] trimmed_mono [OF that, of "insert (walk_path a 2) P"]
    by auto
  note st = set_translation [OF inv l s0]
  show "translation s0 r b = (if same_page b a then None else translation s r b)" using st(3) [of b] by simp
  show "vm_shrunk s s0 r xs []" using st(1,2,4) nd by (auto simp: vm_shrunk_def)
qed

lemma unmap_leaf_test: "e AND (PTE_V OR PTE_R OR PTE_X) = PTE_V \<longleftrightarrow> bit e 0 \<and> \<not> bit e 1 \<and> \<not> bit e 3"
proof -
  have b: "bit (PTE_V OR PTE_R OR PTE_X) k \<longleftrightarrow> k = 0 \<or> k = 1 \<or> k = 3" "bit PTE_V k \<longleftrightarrow> k = 0" for k
    unfolding pte_bits bit_or_iff bit_push_one by auto
  show ?thesis
  proof
    assume eq: "e AND (PTE_V OR PTE_R OR PTE_X) = PTE_V"
    have "bit (e AND (PTE_V OR PTE_R OR PTE_X)) k \<longleftrightarrow> k = 0" for k unfolding eq by (rule b(2))
    then show "bit e 0 \<and> \<not> bit e 1 \<and> \<not> bit e 3"
      unfolding bit_and_iff b by (metis zero_neq_numeral zero_neq_one)
  next
    assume "bit e 0 \<and> \<not> bit e 1 \<and> \<not> bit e 3"
    then show "e AND (PTE_V OR PTE_R OR PTE_X) = PTE_V" by (intro bit_word_eqI) (auto simp: bit_and_iff b)
  qed
qed

definition unmap_tail :: "u64 \<Rightarrow> u64 \<Rightarrow> u64 \<Rightarrow> u64 \<Rightarrow> 'a kstate_scheme \<Rightarrow> bool \<times> 'a kstate_scheme" where
  "unmap_tail a level2 level1 level0 s =
     (let s = s\<lparr>kmem := write64 (kmem s) (entry_at level0 (vpn_index a 0)) 0\<rparr> in
      if \<not> table_empty (kmem s) level0 then (True, s)
      else
        let s = page_free (virt_to_phys level0) s;
            s = s\<lparr>kmem := write64 (kmem s) (entry_at level1 (vpn_index a 1)) 0\<rparr> in
        if \<not> table_empty (kmem s) level1 then (True, s)
        else
          let s = page_free (virt_to_phys level1) s
          in (True, s\<lparr>kmem := write64 (kmem s) (entry_at level2 (vpn_index a 2)) 0\<rparr>))"

lemma unmap_tail_outcome:
  assumes inv: "vm_inv s r xs" and l1: "node (kmem s) r [vpn_index a 2] = Some l1"
    and l0: "node (kmem s) r [vpn_index a 2, vpn_index a 1] = Some l0"
  shows "\<exists>s' ys. unmap_tail a (phys_to_virt r) (phys_to_virt l1) (phys_to_virt l0) s = (True, s') \<and>
    vm_shrunk s s' r xs ys \<and> (\<forall>b. translation s' r b = (if same_page b a then None else translation s r b)) \<and>
    (\<forall>P. trimmed_but (kmem s) r P \<longrightarrow> trimmed_but (kmem s') r P)"
proof -
  let ?i2 = "vpn_index a 2" and ?i1 = "vpn_index a 1" and ?i0 = "vpn_index a 0"
  define s0 where "s0 = s\<lparr>kmem := write64 (kmem s) (entry_at (phys_to_virt l0) ?i0) 0\<rparr>"
  define s1 where "s1 = page_free l0 s0\<lparr>kmem := write64 (kmem (page_free l0 s0)) (entry_at (phys_to_virt l1) ?i1) 0\<rparr>"
  define s2 where "s2 = page_free l1 s1\<lparr>kmem := write64 (kmem (page_free l1 s1)) (entry_at (phys_to_virt r) ?i2) 0\<rparr>"
  have c: "unmap_tail a (phys_to_virt r) (phys_to_virt l1) (phys_to_virt l0) s =
      (True, if \<not> table_empty (kmem s0) (phys_to_virt l0) then s0
             else if \<not> table_empty (kmem s1) (phys_to_virt l1) then s1 else s2)"
    by (simp add: unmap_tail_def Let_def s0_def s1_def s2_def)
  note c0 = clear_leaf_shrunk [OF inv l0 [folded walk_path_2] s0_def]
  have n0: "node (kmem s0) r ([?i2] @ [?i1]) = Some l0" "node (kmem s0) r [?i2] = Some l1"
    using c0(3) [of "[?i2, ?i1]"] c0(3) [of "[?i2]"] l0 l1 by simp_all
  show ?thesis
  proof (cases "table_empty (kmem s0) (phys_to_virt l0)")
    case False
    then have "trimmed_but (kmem s0) r P" if "trimmed_but (kmem s) r P" for P
      using trimmed_nonempty [OF c0(4) [OF that, unfolded walk_path_2]] n0(1) by simp
    then show ?thesis using False c c0(1,2) by auto
  next
    case em0: True
    note c1 = vm_shrunk_detach [OF c0(1) n0(2) _ vpn_index_less n0(1) em0 s1_def]
    have tr1: "trimmed_but (kmem s1) r (insert [?i2] P)" if "trimmed_but (kmem s) r P" for P
      using c0(4) [OF that] c1(4) by (simp add: walk_path_2)
    show ?thesis
    proof (cases "table_empty (kmem s1) (phys_to_virt l1)")
      case False
      then have "trimmed_but (kmem s1) r P" if "trimmed_but (kmem s) r P" for P
        using trimmed_nonempty [OF tr1 [OF that]] c1(3) [of "[?i2]"] n0(2) by simp
      then show ?thesis using False c em0 c1(1,2) c0(2) by auto
    next
      case em1: True
      have n1: "node (kmem s1) r ([] @ [?i2]) = Some l1" using c1(3) [of "[?i2]"] n0(2) by simp
      have "vm_shrunk s s1 r xs [l0]" using c1(1) by simp
      note c2 = vm_shrunk_detach [OF this _ _ vpn_index_less n1 em1 s2_def]
      have "trimmed_but (kmem s2) r P" if "trimmed_but (kmem s) r P" for P
        using c2(4) tr1 [OF that] trimmed_root by simp
      then show ?thesis using c em0 em1 c2(1,2) c1(2) c0(2) by auto
    qed
  qed
qed

lemma vm_unmap_tail:
  assumes inv: "vm_inv s (root t) xs" and a: "canonical a" "page_aligned a"
  shows "vm_unmap (Some t) a s =
    (case node (kmem s) (root t) [vpn_index a 2] of
       None \<Rightarrow> (False, s)
     | Some l1 \<Rightarrow> (case node (kmem s) (root t) [vpn_index a 2, vpn_index a 1] of
         None \<Rightarrow> (False, s)
       | Some l0 \<Rightarrow> if leaf_at s (root t) a
                     then unmap_tail a (root_pointer t) (phys_to_virt l1) (phys_to_virt l0) s else (False, s)))"
proof -
  let ?r = "root t" and ?i2 = "vpn_index a 2" and ?i1 = "vpn_index a 1" and ?i0 = "vpn_index a 0"
  have r: "?r \<noteq> 0" using root_valid [OF inv] by simp
  have al: "a AND PAGE_MASK = 0" using a(2) by (simp add: aligned_mask)
  have d2: "descend (kmem s) (root_pointer t) ?i2 = map_option phys_to_virt (node (kmem s) ?r [?i2])"
    unfolding root_pointer_def using descend_node [of "kmem s" ?r "[]" ?r ?i2] by simp
  show ?thesis
  proof (cases "node (kmem s) ?r [?i2]")
    case None
    then show ?thesis using d2 r al a(1) by (simp add: vm_unmap_def Let_def)
  next
    case l1: (Some l1)
    have d1: "descend (kmem s) (phys_to_virt l1) ?i1 = map_option phys_to_virt (node (kmem s) ?r [?i2, ?i1])"
      using descend_node [OF l1, of ?i1] by simp
    show ?thesis
    proof (cases "node (kmem s) ?r [?i2, ?i1]")
      case None
      then show ?thesis using d1 d2 l1 r al a(1) by (simp add: vm_unmap_def Let_def)
    next
      case l0: (Some l0)
      let ?e = "read64 (kmem s) (entry_at (phys_to_virt l0) ?i0)"
      have "leaf_at s ?r a \<longleftrightarrow> bit ?e 0 \<and> (bit ?e 1 \<or> bit ?e 3)"
        using l0 by (simp add: leaf_at_def translation_def walk_path_2 lookup_def pte_at_def)
      then show ?thesis
        using d1 d2 l0 l1 r al a(1)
        by (auto simp: vm_unmap_def unmap_tail_def Let_def unmap_leaf_test pte_simps)
    qed
  qed
qed

lemma vm_unmap_outcome:
  assumes inv: "vm_inv s (root t) xs" and a: "canonical a" "page_aligned a"
  shows "\<not> leaf_at s (root t) a \<Longrightarrow> vm_unmap (Some t) a s = (False, s)"
    and "leaf_at s (root t) a \<Longrightarrow> \<exists>s' ys. vm_unmap (Some t) a s = (True, s') \<and> vm_shrunk s s' (root t) xs ys \<and>
      (\<forall>b. translation s' (root t) b = (if same_page b a then None else translation s (root t) b)) \<and>
      (\<forall>P. trimmed_but (kmem s) (root t) P \<longrightarrow> trimmed_but (kmem s') (root t) P)"
proof -
  show "vm_unmap (Some t) a s = (False, s)" if "\<not> leaf_at s (root t) a"
    using that vm_unmap_tail [OF assms] by (simp split: option.split)
  assume lf: "leaf_at s (root t) a"
  then obtain l0 where l0: "node (kmem s) (root t) [vpn_index a 2, vpn_index a 1] = Some l0"
    by (auto simp: leaf_at_def translation_def walk_path_2 lookup_Some)
  then obtain l1 where l1: "node (kmem s) (root t) [vpn_index a 2] = Some l1"
    by (auto split: if_splits)
  show "\<exists>s' ys. vm_unmap (Some t) a s = (True, s') \<and> vm_shrunk s s' (root t) xs ys \<and>
      (\<forall>b. translation s' (root t) b = (if same_page b a then None else translation s (root t) b)) \<and>
      (\<forall>P. trimmed_but (kmem s) (root t) P \<longrightarrow> trimmed_but (kmem s') (root t) P)"
    using unmap_tail_outcome [OF inv l1 l0] vm_unmap_tail [OF assms] l0 l1 lf by (simp add: root_pointer_def)
qed

end
