(* ===== verification/Vm_Reclaim.thy ===== *)
theory Vm_Reclaim
  imports Vm_Unmap
begin

text \<open>
  Empty branches. A successful \<open>vm_map\<close> and any \<open>vm_unmap\<close> leave no table empty; a \<open>vm_map\<close> that
  runs out of pages may. \<open>vm_prune_user\<close> (\<^verbatim>\<open>src/mm/vm.c\<close>) removes the empty tables of the lower half.
\<close>

lemma walk_create_new:
  assumes "vm_inv s r xs" "node (kmem s) r p = Some q" "length p + level = 2"
    and "walk_levels level (phys_to_virt q) a True s = (e, s')"
  shows "(\<forall>p' x. length p' \<le> 2 \<and> node (kmem s') r p' = Some x \<longrightarrow>
      node (kmem s) r p' = Some x \<or> prefix p' (p @ walk_path a level)) \<and>
    (trimmed_but (kmem s) r (insert p P) \<longrightarrow> e \<noteq> 0 \<longrightarrow> trimmed_but (kmem s') r (insert (p @ walk_path a level) P)) \<and>
    (trimmed_but (kmem s) r (insert p P) \<longrightarrow> trimmed_but (kmem s') r (P \<union> {p'. prefix p' (p @ walk_path a level)}))"
  using assms
proof (induction level arbitrary: p q s xs)
  case 0
  then show ?case by (auto elim: trimmed_mono)
next
  case (Suc level)
  let ?i = "vpn_index a (Suc level)"
  have len: "length p < 2" "length (p @ [?i]) + level = 2" using Suc.prems(3) by simp_all
  from Suc.prems(1,2) len(1) show ?case
  proof (cases rule: walk_step_cases [where a = a and level = level])
    case (found q')
    have "trimmed_but (kmem s) r (insert (p @ [?i]) P)" if "trimmed_but (kmem s) r (insert p P)"
      using trimmed_remove [OF that Suc.prems(2), of ?i] found(1)
      by (auto simp: is_table_bits elim: trimmed_mono)
    then show ?thesis using Suc.IH [OF Suc.prems(1) found(2) len(2)] Suc.prems(4) found(3) by auto
  next
    case full
    then show ?thesis using Suc.prems(4) by (auto elim: trimmed_mono)
  next
    case (attached x ys s1)
    have tree: "tree_inv (kmem s) r" using Suc.prems(1) by (simp add: vm_inv_def)
    have inv1: "vm_inv s1 r ys" using attached(6) by (simp add: vm_ext_def)
    note at = attach_table(2) [OF tree Suc.prems(2) len(1) vpn_index_less attached(2-5)]
      and tr = trimmed_attach [OF tree Suc.prems(2) len(1) vpn_index_less attached(2-5)]
    have new: "node (kmem s) r p' = Some y \<or> prefix p' ((p @ [?i]) @ walk_path a level)"
      if "length p' \<le> 2" "node (kmem s1) r p' = Some y" for p' y
      using at [OF that(1)] that(2) by (auto split: if_splits)
    have "walk_levels level (phys_to_virt x) a True s1 = (e, s')" using Suc.prems(4) unfolding attached(8) .
    note ih = Suc.IH [OF inv1 attached(7) len(2) this]
    have path: "p @ walk_path a (Suc level) = (p @ [?i]) @ walk_path a level" by simp
    show ?thesis unfolding path using ih new tr by blast
  qed
qed

lemma vm_map_trimmed:
  assumes inv: "vm_inv s (root t) xs" and a: "canonical a" "page_aligned a"
    and p: "pte_target p" "valid_leaf_flags f" and res: "vm_map (Some t) a p f s = (ok, s')"
  shows "trimmed_but (kmem s) (root t) P \<Longrightarrow> ok \<Longrightarrow> trimmed_but (kmem s') (root t) P"
    and "trimmed_but (kmem s) (root t) P \<Longrightarrow>
      trimmed_but (kmem s') (root t) (P \<union> {p'. p' \<noteq> [] \<and> prefix p' (walk_path a 2)})"
    and "length p' \<le> 2 \<Longrightarrow> node (kmem s') (root t) p' = Some x \<Longrightarrow>
      node (kmem s) (root t) p' = Some x \<or> p' \<noteq> [] \<and> prefix p' (walk_path a 2)"
proof -
  let ?r = "root t"
  have r: "?r \<noteq> 0" using root_valid [OF inv] by simp
  have al: "a AND PAGE_MASK = 0" "p AND PAGE_MASK = 0" using a(2) p(1) by (simp_all add: aligned_mask pte_target_def)
  obtain e s1 where w: "walk_levels 2 (phys_to_virt ?r) a True s = (e, s1)" by fastforce
  have nd: "node (kmem s) ?r [] = Some ?r" "length ([] :: nat list) + 2 = 2" by simp_all
  obtain n where ext: "vm_ext s s1 ?r xs n" and out: "e \<noteq> 0 \<Longrightarrow>
      \<exists>l. node (kmem s1) ?r (walk_path a 2) = Some l \<and> e = entry_at (phys_to_virt l) (vpn_index a 0)"
    using walk_create [OF inv nd, of a] w by (auto split: if_splits)
  have tree1: "tree_inv (kmem s1) ?r" using ext by (simp add: vm_ext_def vm_inv_def)
  note new = walk_create_new [OF inv nd w]
  have map: "vm_map (Some t) a p f s = (if e = 0 \<or> bit (read64 (kmem s1) e) 0 then (False, s1)
      else (True, s1\<lparr>kmem := write64 (kmem s1) e (leaf_pte p f)\<rparr>))"
    using w r a(1) al p(2) by (simp add: vm_map_def walk_def walk_root pte_simps)
  have sub: "trimmed_but m ?r (P \<union> {p'. prefix p' ([] @ walk_path a 2)}) \<Longrightarrow>
      trimmed_but m ?r (P \<union> {p'. p' \<noteq> [] \<and> prefix p' (walk_path a 2)})" for m
    by (auto simp: trimmed_but_def)
  have up: "trimmed_but (kmem s) ?r P \<Longrightarrow> trimmed_but (kmem s) ?r (insert [] P)" by (auto elim: trimmed_mono)
  have "(trimmed_but (kmem s) ?r P \<longrightarrow> ok \<longrightarrow> trimmed_but (kmem s') ?r P) \<and>
    (trimmed_but (kmem s) ?r P \<longrightarrow> trimmed_but (kmem s') ?r (P \<union> {p'. p' \<noteq> [] \<and> prefix p' (walk_path a 2)})) \<and>
    (length p' \<le> 2 \<longrightarrow> node (kmem s') ?r p' = Some x \<longrightarrow>
      node (kmem s) ?r p' = Some x \<or> p' \<noteq> [] \<and> prefix p' (walk_path a 2))"
  proof (cases ok)
    case False
    then have "s' = s1" using res map by (auto split: if_splits)
    moreover have "node (kmem s) ?r p' = Some x \<or> p' \<noteq> [] \<and> prefix p' (walk_path a 2)"
      if "length p' \<le> 2" "node (kmem s1) ?r p' = Some x"
      using new that by (cases "p' = []") auto
    ultimately show ?thesis using new sub up False by blast
  next
    case True
    then obtain l where e: "e \<noteq> 0" "e = entry_at (phys_to_virt l) (vpn_index a 0)"
      and l: "node (kmem s1) ?r (walk_path a 2) = Some l"
      and s': "kmem s' = write64 (kmem s1) (entry_at (phys_to_virt l) (vpn_index a 0)) (leaf_pte p f)"
      using res map out by (auto split: if_splits)
    have "trimmed_but (kmem s') ?r P" if "trimmed_but (kmem s) ?r P"
      using trimmed_set_leaf [OF tree1 l length_walk_path vpn_index_less s', of P] new up [OF that] e(1)
        leaf_pte_valid(1) [OF p] by simp
    moreover have "node (kmem s) ?r p' = Some x \<or> p' \<noteq> [] \<and> prefix p' (walk_path a 2)"
      if "length p' \<le> 2" "node (kmem s') ?r p' = Some x"
      using new that node_set_leaf [OF tree1 l, of "vpn_index a 0" p' "leaf_pte p f"] by (cases "p' = []") (auto simp: s')
    ultimately show ?thesis using True by (auto elim: trimmed_mono)
  qed
  then show "trimmed_but (kmem s) (root t) P \<Longrightarrow> ok \<Longrightarrow> trimmed_but (kmem s') (root t) P"
    and "trimmed_but (kmem s) (root t) P \<Longrightarrow>
      trimmed_but (kmem s') (root t) (P \<union> {p'. p' \<noteq> [] \<and> prefix p' (walk_path a 2)})"
    and "length p' \<le> 2 \<Longrightarrow> node (kmem s') (root t) p' = Some x \<Longrightarrow>
      node (kmem s) (root t) p' = Some x \<or> p' \<noteq> [] \<and> prefix p' (walk_path a 2)"
    by blast+
qed

section \<open>Pruning\<close>

definition changed_below :: "mem \<Rightarrow> mem \<Rightarrow> u64 \<Rightarrow> nat list \<Rightarrow> bool" where
  "changed_below m m' r p \<longleftrightarrow>
     (\<forall>p'. length p' \<le> 2 \<and> \<not> strict_prefix p p' \<longrightarrow> node m' r p' = node m r p') \<and>
     (\<forall>p' x j. length p' \<le> 2 \<and> \<not> prefix p p' \<and> node m r p' = Some x \<and> j < 512 \<longrightarrow> pte_at m' x j = pte_at m x j)"

lemma changed_below_refl: "changed_below m m r p"
  by (simp add: changed_below_def)

lemma changed_below_trans:
  "changed_below m m' r p \<Longrightarrow> changed_below m' m'' r p \<Longrightarrow> changed_below m m'' r p"
  unfolding changed_below_def by (metis strict_prefix_def)

lemma prefix_strict: "prefix (p @ [i]) p' \<Longrightarrow> strict_prefix p p'"
  by (auto simp: prefix_def strict_prefix_def)

lemma agree_changed_below:
  assumes "agree_off m m' r p i"
  shows "changed_below m m' r p"
  unfolding changed_below_def
proof (intro conjI allI impI)
  show "node m' r p' = node m r p'" if "length p' \<le> 2 \<and> \<not> strict_prefix p p'" for p'
    using that prefix_strict [of p i p'] by (intro node_agree [OF assms]) blast+
  show "pte_at m' x j = pte_at m x j"
    if "length p' \<le> 2 \<and> \<not> prefix p p' \<and> node m r p' = Some x \<and> j < 512" for p' x j
  proof -
    have "\<not> prefix (p @ [i]) (p' @ [j])" using that by (auto dest: append_prefixD)
    then show ?thesis using that by (intro agree_offD [OF assms]) auto
  qed
qed

lemma changed_below_agree: "changed_below m m' r (p @ [i]) \<Longrightarrow> agree_off m m' r p i"
  unfolding changed_below_def agree_off_def prefix_snoc by blast

lemma agree_trans:
  assumes "agree_off m m' r p i" "agree_off m' m'' r p i"
  shows "agree_off m m'' r p i"
  unfolding agree_off_def
proof (intro allI impI)
  fix ps j q
  assume a: "length ps \<le> 2 \<and> node m r ps = Some q \<and> j < 512 \<and> \<not> prefix (p @ [i]) (ps @ [j])"
  then have "node m' r ps = Some q" using node_agree [OF assms(1), of ps] by auto
  then show "pte_at m'' q j = pte_at m q j"
    using a agree_offD [OF assms(1), of ps q j] agree_offD [OF assms(2), of ps q j] by simp
qed

lemma trimmed_agree:
  assumes ag: "agree_off m m' r p i" and ne: "j \<noteq> i" and tr: "trimmed_but m r {p'. \<not> prefix (p @ [j]) p'}"
  shows "trimmed_but m' r {p'. \<not> prefix (p @ [j]) p'}"
proof (rule trimmedI)
  fix p' x assume p': "p' \<noteq> []" "length p' \<le> 2" "p' \<notin> {p'. \<not> prefix (p @ [j]) p'}" "node m' r p' = Some x"
  have np: "\<not> prefix (p @ [i]) (p' @ [k])" for k
    using p'(3) ne by (auto simp: prefix_def)
  then have x: "node m r p' = Some x" using node_agree [OF ag p'(2)] p'(4) by auto
  then obtain k where "k < 512" "bit (pte_at m x k) 0" using trimmedD [OF tr p'(1-3)] by blast
  then show "\<exists>k<512. bit (pte_at m' x k) 0" using agree_offD [OF ag x p'(2) _ np] by auto
qed

definition prune_entry :: "nat \<Rightarrow> u64 \<Rightarrow> nat \<Rightarrow> 'a kstate_scheme \<Rightarrow> 'a kstate_scheme" where
  "prune_entry level entries i s =
     (let entry = read64 (kmem s) (entry_at entries i) in
      if is_table entry then
        let (empty, s) = prune_level level (pte_physical entry) s in
        if empty then
          let s = page_free (pte_physical entry) s
          in s\<lparr>kmem := write64 (kmem s) (entry_at entries i) 0\<rparr>
        else s
      else s)"

lemma prune_level_entries:
  "prune_level (Suc level) q s =
     (table_empty (kmem (fold (prune_entry level (phys_to_virt q)) [0..<512] s)) (phys_to_virt q),
      fold (prune_entry level (phys_to_virt q)) [0..<512] s)"
  by (simp add: prune_entry_def [abs_def] Let_def)

text \<open>What pruning promises at a table: the states reached so far, and nothing empty below \<open>p\<close>.\<close>

definition prune_outcome ::
  "'a kstate_scheme \<Rightarrow> u64 \<Rightarrow> u64 list \<Rightarrow> nat list \<Rightarrow> 'a kstate_scheme \<Rightarrow> 'a kstate_scheme \<Rightarrow> bool" where
  "prune_outcome s0 r xs p s s' \<longleftrightarrow> (\<exists>ys. vm_shrunk s0 s' r xs ys) \<and> translation s' r = translation s r \<and>
     changed_below (kmem s) (kmem s') r p"

definition prune_ok :: "'a kstate_scheme \<Rightarrow> u64 \<Rightarrow> u64 list \<Rightarrow> nat \<Rightarrow> bool" where
  "prune_ok s0 r xs level \<longleftrightarrow> (\<forall>p q s ys. vm_shrunk s0 s r xs ys \<and> node (kmem s) r p = Some q \<and> length p + level = 2 \<longrightarrow>
     (\<exists>s'. prune_level level q s = (table_empty (kmem s') (phys_to_virt q), s') \<and> prune_outcome s0 r xs p s s' \<and>
        trimmed_but (kmem s') r {p'. \<not> strict_prefix p p'}))"

lemma prune_okD:
  assumes "prune_ok s0 r xs level" "vm_shrunk s0 s r xs ys" "node (kmem s) r p = Some q" "length p + level = 2"
  obtains s' ys' where "prune_level level q s = (table_empty (kmem s') (phys_to_virt q), s')"
    "vm_shrunk s0 s' r xs ys'" "translation s' r = translation s r" "changed_below (kmem s) (kmem s') r p"
    "trimmed_but (kmem s') r {p'. \<not> strict_prefix p p'}"
  using assms unfolding prune_ok_def prune_outcome_def by blast

lemma trimmed_child:
  assumes "trimmed_but m r {p'. \<not> strict_prefix (p @ [i]) p'}"
    and "\<And>c. node m r (p @ [i]) = Some c \<Longrightarrow> \<not> table_empty m (phys_to_virt c)"
  shows "trimmed_but m r {p'. \<not> prefix (p @ [i]) p'}"
  using assms unfolding trimmed_but_def strict_prefix_def by blast

lemma prune_entry_outcome:
  assumes ok: "prune_ok s0 r xs level" and sh: "vm_shrunk s0 s r xs ys" and q: "node (kmem s) r p = Some q"
    and len: "length p + Suc level = 2" and i: "i < 512"
    and s'_def: "s' = prune_entry level (phys_to_virt q) i s"
  shows "\<exists>ys'. vm_shrunk s0 s' r xs ys'"
    and "translation s' r = translation s r" "agree_off (kmem s) (kmem s') r p i"
    and "trimmed_but (kmem s') r {p'. \<not> prefix (p @ [i]) p'}"
proof -
  let ?e = "pte_at (kmem s) q i"
  have "(\<exists>ys'. vm_shrunk s0 s' r xs ys') \<and> translation s' r = translation s r \<and>
    agree_off (kmem s) (kmem s') r p i \<and> trimmed_but (kmem s') r {p'. \<not> prefix (p @ [i]) p'}"
  proof (cases "is_table ?e")
    case False
    then have "s' = s" by (simp add: s'_def prune_entry_def pte_at_def Let_def)
    moreover have "trimmed_but (kmem s) r {p'. \<not> prefix (p @ [i]) p'}"
    proof (rule trimmedI)
      fix p' x assume "p' \<notin> {p'. \<not> prefix (p @ [i]) p'}" "node (kmem s) r p' = Some x"
      then show "\<exists>i<512. bit (pte_at (kmem s) x i) 0" using node_stop [OF q, of i] False by (auto simp: prefix_def)
    qed
    ultimately show ?thesis using sh by (auto simp: agree_off_def)
  next
    case True
    let ?c = "pte_physical ?e"
    have c: "node (kmem s) r (p @ [i]) = Some ?c" using q True i by (simp add: node_snoc)
    obtain s1 ys1 where s1: "prune_level level ?c s = (table_empty (kmem s1) (phys_to_virt ?c), s1)"
      "vm_shrunk s0 s1 r xs ys1" "translation s1 r = translation s r" "changed_below (kmem s) (kmem s1) r (p @ [i])"
      "trimmed_but (kmem s1) r {p'. \<not> strict_prefix (p @ [i]) p'}"
      using len by (elim prune_okD [OF ok sh c, rotated]) simp
    have ag: "agree_off (kmem s) (kmem s1) r p i" using s1(4) by (rule changed_below_agree)
    have c1: "node (kmem s1) r (p @ [i]) = Some ?c" "node (kmem s1) r p = Some q"
      using s1(4) c q len unfolding changed_below_def by (auto simp: strict_prefix_def dest: prefix_length_le)
    show ?thesis
    proof (cases "table_empty (kmem s1) (phys_to_virt ?c)")
      case False
      then have "s' = s1" using True s1(1) by (simp add: s'_def prune_entry_def pte_at_def Let_def)
      then show ?thesis using s1 ag c1(1) False trimmed_child [OF s1(5)] by auto
    next
      case em: True
      then have s': "s' = page_free ?c s1\<lparr>kmem := write64 (kmem (page_free ?c s1)) (entry_at (phys_to_virt q) i) 0\<rparr>"
        using True s1(1) by (simp add: s'_def prune_entry_def pte_at_def Let_def)
      have len': "length p < 2" using len by simp
      note d = vm_shrunk_detach [OF s1(2) c1(2) len' i c1(1) em s']
      have "node (kmem s') r p' = None" if pre: "prefix (p @ [i]) p'" and "length p' \<le> 2" for p'
      proof (cases "p' = p @ [i]")
        case False
        obtain e where e: "p' = (p @ [i]) @ e" using pre unfolding prefix_def by blast
        then obtain j c' where "e = j # c'" using False by (cases e) auto
        then have "node (kmem s1) r p' = None"
          using e node_stop [OF c1(1), of j c'] em by (simp add: table_empty_iff is_table_bits)
        then show ?thesis using d(3) [OF that(2)] False by simp
      qed (use d(3) [OF that(2)] in simp)
      then have "trimmed_but (kmem s') r {p'. \<not> prefix (p @ [i]) p'}" by (auto simp: trimmed_but_def)
      then show ?thesis using d(1,2,5) s1(3) agree_trans [OF ag d(5)] by auto
    qed
  qed
  then show "\<exists>ys'. vm_shrunk s0 s' r xs ys'"
    and "translation s' r = translation s r" "agree_off (kmem s) (kmem s') r p i"
    and "trimmed_but (kmem s') r {p'. \<not> prefix (p @ [i]) p'}" by blast+
qed

lemma prune_entries_outcome:
  assumes ok: "prune_ok s0 r xs level" and sh: "vm_shrunk s0 s r xs ys" and q: "node (kmem s) r p = Some q"
    and len: "length p + Suc level = 2"
  shows "k \<le> 512 \<Longrightarrow> prune_outcome s0 r xs p s (fold (prune_entry level (phys_to_virt q)) [0..<k] s) \<and>
    (\<forall>i<k. trimmed_but (kmem (fold (prune_entry level (phys_to_virt q)) [0..<k] s)) r {p'. \<not> prefix (p @ [i]) p'}) \<and>
    (\<forall>i. trimmed_but (kmem s) r {p'. \<not> prefix (p @ [i]) p'} \<longrightarrow>
       trimmed_but (kmem (fold (prune_entry level (phys_to_virt q)) [0..<k] s)) r {p'. \<not> prefix (p @ [i]) p'})"
proof (induction k)
  case 0
  then show ?case using sh by (auto simp: prune_outcome_def changed_below_refl)
next
  case (Suc k)
  let ?s = "fold (prune_entry level (phys_to_virt q)) [0..<k] s"
  define s' where "s' = prune_entry level (phys_to_virt q) k ?s"
  obtain ys' where sh': "vm_shrunk s0 ?s r xs ys'" and tr: "translation ?s r = translation s r"
    and ch: "changed_below (kmem s) (kmem ?s) r p" and fin: "\<forall>i<k. trimmed_but (kmem ?s) r {p'. \<not> prefix (p @ [i]) p'}"
    and keep: "\<forall>i. trimmed_but (kmem s) r {p'. \<not> prefix (p @ [i]) p'} \<longrightarrow> trimmed_but (kmem ?s) r {p'. \<not> prefix (p @ [i]) p'}"
    using Suc by (auto simp: prune_outcome_def)
  have q': "node (kmem ?s) r p = Some q" using ch q len by (simp add: changed_below_def)
  note e = prune_entry_outcome [OF ok sh' q' len _ s'_def]
  have "trimmed_but (kmem s') r {p'. \<not> prefix (p @ [i]) p'}" if "i < Suc k" for i
    using e(3,4) fin trimmed_agree [of "kmem ?s" "kmem s'" r p k i] that Suc.prems by (cases "i = k") auto
  moreover have "trimmed_but (kmem s') r {p'. \<not> prefix (p @ [i]) p'}"
    if "trimmed_but (kmem s) r {p'. \<not> prefix (p @ [i]) p'}" for i
    using e(3,4) keep trimmed_agree [of "kmem ?s" "kmem s'" r p k i] that Suc.prems by (cases "i = k") auto
  moreover have "prune_outcome s0 r xs p s s'"
    unfolding prune_outcome_def using e(1-3) tr ch Suc.prems agree_changed_below changed_below_trans by fastforce
  moreover have "fold (prune_entry level (phys_to_virt q)) [0..<Suc k] s = s'" by (simp add: s'_def)
  ultimately show ?case by simp
qed

lemma prune_ok_all: "prune_ok s0 r xs level"
proof (induction level)
  case 0
  have "trimmed_but m r {p'. \<not> strict_prefix p p'}" if "length p = 2" for m p
    using that by (auto simp: trimmed_but_def strict_prefix_def prefix_def)
  then show ?case by (auto simp: prune_ok_def prune_outcome_def changed_below_refl)
next
  case (Suc level)
  show ?case unfolding prune_ok_def
  proof (intro allI impI)
    fix p q and s :: "'a kstate_scheme" and ys
    assume a: "vm_shrunk s0 s r xs ys \<and> node (kmem s) r p = Some q \<and> length p + Suc level = 2"
    let ?s' = "fold (prune_entry level (phys_to_virt q)) [0..<512] s"
    have out: "prune_outcome s0 r xs p s ?s'"
      and tr: "\<forall>i<512. trimmed_but (kmem ?s') r {p'. \<not> prefix (p @ [i]) p'}"
      using prune_entries_outcome [OF Suc, of s ys p q 512] a by simp_all
    have "trimmed_but (kmem ?s') r {p'. \<not> strict_prefix p p'}"
    proof (rule trimmedI)
      fix p' x assume p': "p' \<noteq> []" "length p' \<le> 2" "p' \<notin> {p'. \<not> strict_prefix p p'}" "node (kmem ?s') r p' = Some x"
      then obtain i c where ic: "p' = p @ i # c" by (auto elim: strict_prefixE')
      have "node (kmem ?s') r p = Some q" using out a by (simp add: prune_outcome_def changed_below_def)
      then have "i < 512" using p'(4) node_stop [of "kmem ?s'" r p q i c] ic by auto
      then have "trimmed_but (kmem ?s') r {p'. \<not> prefix (p @ [i]) p'}" using tr by blast
      then show "\<exists>j<512. bit (pte_at (kmem ?s') x j) 0"
        using p'(1,2,4) ic by (elim trimmedD) (auto simp: prefix_def)
    qed
    then show "\<exists>s'. prune_level (Suc level) q s = (table_empty (kmem s') (phys_to_virt q), s') \<and>
        prune_outcome s0 r xs p s s' \<and> trimmed_but (kmem s') r {p'. \<not> strict_prefix p p'}"
      using out prune_level_entries [of level q s] by blast
  qed
qed

lemma vm_prune_user_outcome:
  assumes inv: "vm_inv s (root t) xs" and s': "s' = vm_prune_user t s"
  shows "\<exists>ys. vm_shrunk s s' (root t) xs ys" "translation s' (root t) = translation s (root t)"
    and "trimmed_but (kmem s) (root t) {p. hd p < 256} \<Longrightarrow> trimmed (kmem s') (root t)"
proof -
  let ?r = "root t"
  have r: "?r \<noteq> 0" using root_valid [OF inv] by simp
  have eq: "s' = fold (prune_entry (Suc 0) (phys_to_virt ?r)) [0..<256] s"
    using r unfolding s' vm_prune_user_def root_pointer_def prune_entry_def [abs_def] Let_def One_nat_def
    by (simp only: if_False)
  have sh: "vm_shrunk s s ?r xs []" using inv by (simp add: vm_shrunk_def unchanged_def)
  note out = prune_entries_outcome [OF prune_ok_all sh, of "[]" ?r "Suc 0" 256, simplified, folded eq]
  show "\<exists>ys. vm_shrunk s s' ?r xs ys" "translation s' ?r = translation s ?r"
    using out by (simp_all add: prune_outcome_def)
  assume tr: "trimmed_but (kmem s) ?r {p. hd p < 256}"
  show "trimmed (kmem s') ?r"
  proof (rule trimmedI)
    fix p q assume p: "p \<noteq> []" "length p \<le> 2" "node (kmem s') ?r p = Some q"
    obtain i c where ic: "p = i # c" using p(1) by (cases p) auto
    have "trimmed_but (kmem s') ?r {p'. \<not> prefix [i] p'}"
    proof (cases "i < 256")
      case False
      then have "trimmed_but (kmem s) ?r {p'. \<not> prefix [i] p'}"
        using tr by (elim trimmed_mono) (auto simp: prefix_def)
      then show ?thesis using out by blast
    qed (use out in blast)
    then show "\<exists>j<512. bit (pte_at (kmem s') q j) 0" using p ic by (elim trimmedD) auto
  qed
qed

end
