(* ===== verification/Vm_Laws.thy ===== *)
theory Vm_Laws
  imports Vm_Reclaim
begin

text \<open>
  In a tree without empty tables the translations determine which tables exist
  (\<open>same_tables\<close>). Hence mapping and unmapping, or a failed mapping followed by pruning,
  end with the same tables and the same free pages as before.
\<close>

section \<open>Tables are determined by translations\<close>

lemma vpn_index_div: "vpn_index a level = unat a div 2 ^ (12 + level * 9) mod 512"
proof -
  have "(0x1ff :: u64) = mask 9" by (simp add: mask_eq_exp_minus_1)
  then have "vpn_index a level = take_bit 9 (unat (drop_bit (12 + level * 9) a))"
    unfolding vpn_index_def by (simp only: unsigned_take_bit_eq flip: take_bit_eq_mask)
  also have "\<dots> = take_bit 9 (drop_bit (12 + level * 9) (unat a))" 
    using take_bit_nat_eq_self [OF unat_u64 [of a]] by (simp add: unsigned_drop_bit_eq)
  finally show ?thesis by (simp add: take_bit_eq_mod drop_bit_eq_div)
qed

lemma vpn_surj:
  assumes "i < 512" "j < 512" "k < 512"
  obtains a where "walk_path a 2 = [i, j]" "vpn_index a 0 = k"
proof -
  define n where "n = 4096 * (k + 512 * (j + 512 * i))"
  have "n < 2 ^ 64" using assms by (simp add: n_def)
  then have u: "unat (of_nat n :: u64) = n" by (rule unat_of_nat_small)
  have d0: "n div 2 ^ 12 = k + 512 * (j + 512 * i)" by (simp add: n_def)
  have "n div 2 ^ 21 = n div 2 ^ 12 div 2 ^ 9" by (simp add: div_mult2_eq [symmetric])
  also have "\<dots> = j + 512 * i" unfolding d0 using assms(3) by simp
  finally have d1: "n div 2 ^ 21 = j + 512 * i" .
  have "n div 2 ^ 30 = n div 2 ^ 21 div 2 ^ 9" by (simp add: div_mult2_eq [symmetric])
  also have "\<dots> = i" unfolding d1 using assms(2) by simp
  finally have d2: "n div 2 ^ 30 = i" .
  have m: "(x + 512 * y) mod 512 = x" if "x < 512" for x y :: nat using that by simp
  have "vpn_index (of_nat n) 0 = n div 2 ^ 12 mod 512" "vpn_index (of_nat n) 1 = n div 2 ^ 21 mod 512"
    "vpn_index (of_nat n) 2 = n div 2 ^ 30 mod 512" unfolding vpn_index_div u by simp_all
  then have "vpn_index (of_nat n) 0 = k" "vpn_index (of_nat n) 1 = j" "vpn_index (of_nat n) 2 = i"
    unfolding d0 d1 d2 m [OF assms(3)] m [OF assms(2)] using assms(1) by simp_all
  then show thesis using that [of "of_nat n"] by (simp add: walk_path_2)
qed

lemma leaf_below:
  assumes inv: "tree_inv m r" and tr: "trimmed_but m r X" and p: "node m r p = Some q" "p \<noteq> []" "length p \<le> 2"
    and X: "\<And>p'. prefix p p' \<Longrightarrow> p' \<notin> X"
  obtains i j k where "prefix p [i, j]" "lookup m r [i, j] k \<noteq> None" "i < 512" "j < 512" "k < 512"
proof -
  have leaf: "\<exists>i j k. p' = [i, j] \<and> i < 512 \<and> j < 512 \<and> k < 512 \<and> lookup m r p' k \<noteq> None"
    if nd: "node m r p' = Some x" and len: "length p' = 2" and pre: "prefix p p'" for p' x
  proof -
    obtain i j where ij: "p' = [i, j]" using len by (auto simp: numeral_2_eq_2 length_Suc_conv)
    obtain k where "k < 512" "bit (pte_at m x k) 0" using trimmedD [OF tr _ _ X [OF pre] nd] ij by auto
    moreover have "i < 512" "j < 512" using nd ij by (auto split: if_splits)
    ultimately show ?thesis using nd ij by (auto simp: lookup_def)
  qed
  show thesis
  proof (cases "length p = 2")
    case True
    then show thesis using leaf [OF p(1)] that by blast
  next
    case False
    with p(2,3) have l1: "length p = 1" by (cases p; cases "tl p") auto
    obtain i where i: "i < 512" "bit (pte_at m q i) 0" using trimmedD [OF tr p(2,3) X p(1)] by auto
    then have "is_table (pte_at m q i)" using l1 by (intro tree_invD(3) [OF inv p(1)]) simp_all
    then have "node m r (p @ [i]) = Some (pte_physical (pte_at m q i))" using p(1) i by (simp add: node_snoc)
    then obtain a b k where "p @ [i] = [a, b]" "a < 512" "b < 512" "k < 512" "lookup m r (p @ [i]) k \<noteq> None"
      using leaf [of "p @ [i]"] l1 by auto
    moreover from this(1) have "prefix p [a, b]" by (metis prefixI)
    ultimately show thesis using that [of a b k] by simp
  qed
qed

lemma node_of_lookup:
  assumes "lookup m r p' k \<noteq> None" "prefix p p'"
  shows "\<exists>q. node m r p = Some q"
proof -
  obtain c where "p' = p @ c" using assms(2) by (auto simp: prefix_def)
  then show ?thesis using assms(1) by (cases "node m r p") (auto simp: lookup_def node_append)
qed

lemma lookup_translation:
  assumes "translation s r = translation s' r" "i < 512" "j < 512" "k < 512"
  shows "lookup (kmem s) r [i, j] k = lookup (kmem s') r [i, j] k"
proof -
  obtain a where "walk_path a 2 = [i, j]" "vpn_index a 0 = k" using vpn_surj [OF assms(2-4)] by blast
  then show ?thesis using fun_cong [OF assms(1), of a] by (simp add: translation_def)
qed

text \<open>Two trees with the same translations, neither with an empty table, occupy the same pages as soon
  as their tables agree wherever both have one.\<close>

lemma same_tables:
  fixes s s' :: "'a kstate_scheme"
  assumes inv: "tree_inv (kmem s) r" "tree_inv (kmem s') r"
    and tr: "trimmed (kmem s) r" "trimmed (kmem s') r"
    and eq: "translation s r = translation s' r"
    and both: "\<And>p q q'. length p \<le> 2 \<Longrightarrow> node (kmem s) r p = Some q \<Longrightarrow> node (kmem s') r p = Some q' \<Longrightarrow> q = q'"
  shows "tables (kmem s) r = tables (kmem s') r"
proof -
  have "node (kmem s'') r p \<noteq> None"
    if a: "tree_inv (kmem s') r" "trimmed (kmem s') r" "translation s' r = translation s'' r"
      "node (kmem s') r p = Some q" "length p \<le> 2" for s' s'' :: "'a kstate_scheme" and p q
  proof (cases "p = []")
    case False
    obtain i j k where l: "prefix p [i, j]" "lookup (kmem s') r [i, j] k \<noteq> None" "i < 512" "j < 512" "k < 512"
      by (rule leaf_below [OF a(1,2,4) False a(5)]) (simp, blast intro: that)
    then have "lookup (kmem s'') r [i, j] k \<noteq> None" using lookup_translation [OF a(3)] by simp
    then show ?thesis using node_of_lookup [OF _ l(1)] by blast
  qed simp
  note ex = this
  have "node (kmem s) r p = node (kmem s') r p" if len: "length p \<le> 2" for p
  proof (cases "node (kmem s) r p")
    case None
    then show ?thesis using ex [OF inv(2) tr(2) eq [symmetric] _ len] by (cases "node (kmem s') r p") auto
  next
    case (Some q)
    then show ?thesis using ex [OF inv(1) tr(1) eq Some len] both [OF len Some] by auto
  qed
  then show ?thesis by (simp add: tables_def cong: conj_cong)
qed

lemma shrunk_nodes:
  "vm_shrunk s s' r xs ys \<Longrightarrow> length p \<le> 2 \<Longrightarrow> node (kmem s') r p = Some q \<Longrightarrow> node (kmem s) r p = Some q"
  unfolding vm_shrunk_def by blast

lemma free_set:
  assumes inv: "vm_inv s r xs" and t1: "tables (kmem s1) r = tables (kmem s) r \<union> set (take n xs)"
    and sh: "vm_shrunk s1 s2 r (drop n xs) ys" and t2: "tables (kmem s2) r = tables (kmem s) r"
  shows "set (ys @ drop n xs) = set xs"
proof -
  have xs: "set xs = set (take n xs) \<union> set (drop n xs)" by (metis append_take_drop_id set_append)
  have disj: "tables (kmem s) r \<inter> (set (take n xs) \<union> set (drop n xs)) = {}"
    using inv by (simp only: vm_inv_def xs [symmetric])
  have sub: "set ys \<subseteq> tables (kmem s) r \<union> set (take n xs)"
    using sh t1 by (simp add: vm_shrunk_def)
  have eq: "tables (kmem s) r = tables (kmem s) r \<union> set (take n xs) - set ys"
    using sh t1 t2 by (simp add: vm_shrunk_def)
  have "set ys = set (take n xs)" using disj sub eq by blast
  then show ?thesis using xs by simp
qed

lemma lower_half_index: "a < 2 ^ 38 \<Longrightarrow> vpn_index a 2 < 256"
proof -
  assume "a < 2 ^ 38"
  then have "unat a < 2 ^ 38" by (simp add: word_less_nat_alt)
  then have "unat a div 2 ^ 30 < 256" by (simp add: less_mult_imp_div_less)
  then show ?thesis unfolding vpn_index_div using mod_less_eq_dividend [of "unat a div 2 ^ 30" 512] by simp
qed

lemma vm_map_obtain:
  assumes inv: "vm_inv s (root t) xs" and a: "canonical a" "page_aligned a"
    and p: "pte_target p" "valid_leaf_flags f" and res: "vm_map (Some t) a p f s = (ok, s1)"
  obtains n where "n \<le> 2" "n \<le> length xs" "vm_inv s1 (root t) (drop n xs)"
    "tables (kmem s1) (root t) = tables (kmem s) (root t) \<union> set (take n xs)"
    "translation s1 (root t) = (\<lambda>b. if ok \<and> same_page b a then Some (leaf_pte p f) else translation s (root t) b)"
    "unchanged (tables (kmem s1) (root t)) (kmem s) (kmem s1)"
    "\<And>p q. length p \<le> 2 \<Longrightarrow> node (kmem s) (root t) p = Some q \<Longrightarrow> node (kmem s1) (root t) p = Some q"
    "ok \<Longrightarrow> translation s (root t) a = None"
    "\<not> ok \<Longrightarrow> translation s (root t) a \<noteq> None \<and> s1 = s \<or> n < 2 \<and> n = length xs"
proof -
  have "map_outcome s (root t) xs a (leaf_pte p f) ok s1"
    using vm_map_outcome [OF inv a p] res by simp
  then obtain n where "n \<le> 2" "n \<le> length xs" "vm_inv s1 (root t) (drop n xs)"
    "tables (kmem s1) (root t) = tables (kmem s) (root t) \<union> set (take n xs)"
    "\<forall>b. translation s1 (root t) b = (if ok \<and> same_page b a then Some (leaf_pte p f) else translation s (root t) b)"
    "unchanged (tables (kmem s1) (root t)) (kmem s) (kmem s1)"
    "\<forall>p q. length p \<le> 2 \<and> node (kmem s) (root t) p = Some q \<longrightarrow> node (kmem s1) (root t) p = Some q"
    "ok \<longrightarrow> translation s (root t) a = None"
    "\<not> ok \<longrightarrow> translation s (root t) a \<noteq> None \<and> s1 = s \<or> n < 2 \<and> n = length xs"
    unfolding map_outcome_def by blast
  then show thesis by (intro that [of n]) (auto intro!: ext)
qed

lemma failed_map_pruned:
  assumes inv: "vm_inv s (root t) xs" and tr: "trimmed (kmem s) (root t)"
    and a: "canonical a" "page_aligned a" "a < 2 ^ 38" and p: "pte_target p" "valid_leaf_flags f"
    and res: "vm_map (Some t) a p f s = (False, s1)" and s2: "s2 = vm_prune_user t s1"
  shows "\<exists>zs. vm_inv s2 (root t) zs \<and> set zs = set xs" "translation s2 (root t) = translation s (root t)"
    and "trimmed (kmem s2) (root t)" "tables (kmem s2) (root t) = tables (kmem s) (root t)"
proof -
  let ?r = "root t"
  obtain n where inv1: "vm_inv s1 ?r (drop n xs)" and t1: "tables (kmem s1) ?r = tables (kmem s) ?r \<union> set (take n xs)"
    and tr1: "translation s1 ?r = translation s ?r"
    and old: "\<And>p q. length p \<le> 2 \<Longrightarrow> node (kmem s) ?r p = Some q \<Longrightarrow> node (kmem s1) ?r p = Some q"
    by (rule vm_map_obtain [OF inv a(1,2) p res]) auto
  note mt = vm_map_trimmed [OF inv a(1,2) p res]
  have pre: "hd p' < 256" if "p' \<noteq> []" "prefix p' (walk_path a 2)" for p'
    using that lower_half_index [OF a(3)] by (cases p') (auto simp: walk_path_2)
  have "trimmed_but (kmem s1) ?r {p. hd p < 256}"
    using mt(2) [OF tr] by (rule trimmed_mono) (auto dest: pre)
  note pr = vm_prune_user_outcome(1,2) [OF inv1 s2] vm_prune_user_outcome(3) [OF inv1 s2 this]
  show "trimmed (kmem s2) ?r" by (rule pr(3))
  show tr2: "translation s2 ?r = translation s ?r" using pr(2) tr1 by simp
  obtain ys where sh: "vm_shrunk s1 s2 ?r (drop n xs) ys" using pr(1) by blast
  show tab: "tables (kmem s2) ?r = tables (kmem s) ?r"
  proof (rule same_tables [OF _ _ pr(3) tr tr2])
    show "tree_inv (kmem s2) ?r" "tree_inv (kmem s) ?r" using sh inv by (simp_all add: vm_shrunk_def vm_inv_def)
    fix p' q q' assume l: "length p' \<le> 2" "node (kmem s2) ?r p' = Some q" "node (kmem s) ?r p' = Some q'"
    then show "q = q'" using shrunk_nodes [OF sh, of p' q] old [of p' q'] by simp
  qed
  show "\<exists>zs. vm_inv s2 ?r zs \<and> set zs = set xs"
    using sh free_set [OF inv t1 sh tab] by (auto simp: vm_shrunk_def)
qed

lemma map_unmap:
  assumes inv: "vm_inv s (root t) xs" and tr: "trimmed (kmem s) (root t)"
    and a: "canonical a" "page_aligned a" and p: "pte_target p" "valid_leaf_flags f"
    and res: "vm_map (Some t) a p f s = (True, s1)"
  shows "\<exists>s2 zs. vm_unmap (Some t) a s1 = (True, s2) \<and> vm_inv s2 (root t) zs \<and> set zs = set xs \<and>
    translation s2 (root t) = translation s (root t) \<and> trimmed (kmem s2) (root t)"
proof -
  let ?r = "root t"
  obtain n where inv1: "vm_inv s1 ?r (drop n xs)" and t1: "tables (kmem s1) ?r = tables (kmem s) ?r \<union> set (take n xs)"
    and tr1: "translation s1 ?r = (\<lambda>b. if same_page b a then Some (leaf_pte p f) else translation s ?r b)"
    and old: "\<And>p q. length p \<le> 2 \<Longrightarrow> node (kmem s) ?r p = Some q \<Longrightarrow> node (kmem s1) ?r p = Some q"
    and none: "translation s ?r a = None"
    by (rule vm_map_obtain [OF inv a p res]) auto
  have trim1: "trimmed (kmem s1) ?r" using vm_map_trimmed(1) [OF inv a p res tr] by simp
  have "leaf_at s1 ?r a" using tr1 leaf_pte_valid(2) [OF p] by (simp add: leaf_at_def same_page_def)
  then obtain s2 ys where un: "vm_unmap (Some t) a s1 = (True, s2)" and sh: "vm_shrunk s1 s2 ?r (drop n xs) ys"
    and tr2: "\<forall>b. translation s2 ?r b = (if same_page b a then None else translation s1 ?r b)"
    and trim2: "trimmed (kmem s2) ?r"
    using vm_unmap_outcome(2) [OF inv1 a] trim1 by blast
  have tr12: "translation s2 ?r = translation s ?r"
    using tr2 tr1 none by (auto simp: translation_def same_page_path intro!: ext)
  have tab: "tables (kmem s2) ?r = tables (kmem s) ?r"
  proof (rule same_tables [OF _ _ trim2 tr tr12])
    show "tree_inv (kmem s2) ?r" "tree_inv (kmem s) ?r" using sh inv by (simp_all add: vm_shrunk_def vm_inv_def)
    fix p' q q' assume "length p' \<le> 2" "node (kmem s2) ?r p' = Some q" "node (kmem s) ?r p' = Some q'"
    then show "q = q'" using shrunk_nodes [OF sh, of p' q] old [of p' q'] by simp
  qed
  show ?thesis using un sh free_set [OF inv t1 sh tab] tr12 trim2 by (auto simp: vm_shrunk_def)
qed

end
