(* ===== verification/Vm_Destroy.thy ===== *)
theory Vm_Destroy
  imports Vm_Laws
begin

text \<open>
  \<open>vm_destroy\<close> and \<open>vm_destroy_user\<close> of \<^verbatim>\<open>src/mm/vm.c\<close> return every table of the tree, or of its
  lower half and the root, to the page allocator exactly once.
\<close>

section \<open>Destroying a tree\<close>

definition subtree :: "mem \<Rightarrow> u64 \<Rightarrow> nat \<Rightarrow> nat \<Rightarrow> u64 set" where
  "subtree m q d n = {x. \<exists>i p. i < n \<and> length p < d \<and> node m q (i # p) = Some x}"

definition tree_ok :: "mem \<Rightarrow> u64 \<Rightarrow> nat \<Rightarrow> nat \<Rightarrow> bool" where
  "tree_ok m q d n \<longleftrightarrow> valid_page q \<and> q \<notin> subtree m q d n \<and> (\<forall>x\<in>subtree m q d n. valid_page x) \<and>
     (\<forall>i j p p' x. i < n \<and> j < n \<and> length p < d \<and> length p' < d \<and> node m q (i # p) = Some x \<and>
        node m q (j # p') = Some x \<longrightarrow> i # p = j # p')"

lemma pte_at_unchanged:
  assumes "unchanged S m m'" "\<forall>x\<in>S. valid_page x" "valid_page q" "q \<notin> S" "i < 512"
  shows "pte_at m' q i = pte_at m q i"
proof -
  have "m' (entry_at (phys_to_virt q) i + of_nat k) = m (entry_at (phys_to_virt q) i + of_nat k)" if "k < 8" for k
  proof -
    have "outside_page x (entry_at (phys_to_virt q) i + of_nat k)" if "x \<in> S" for x
      using assms that \<open>k < 8\<close> by (intro outside_entry) auto
    then show ?thesis using assms(1) by (simp add: unchanged_def)
  qed
  then show ?thesis unfolding pte_at_def by (intro read64_cong) simp
qed

lemma node_unchanged:
  assumes "unchanged S m m'" "\<forall>x\<in>S. valid_page x"
    and "\<And>p x. length p < length p' \<Longrightarrow> node m c p = Some x \<Longrightarrow> valid_page x \<and> x \<notin> S"
  shows "node m' c p' = node m c p'"
  using assms(3)
proof (induction p' rule: rev_induct)
  case (snoc i p)
  have "pte_at m' q i = pte_at m q i" if "node m c p = Some q" "i < 512" for q
    using snoc.prems [of p q] that by (intro pte_at_unchanged [OF assms(1,2)]) simp_all
  moreover have "node m' c p = node m c p" by (rule snoc.IH) (rule snoc.prems, simp_all)
  ultimately show ?case by (cases "node m c p") (auto simp: node_snoc)
qed simp

lemma unchanged_trans: "unchanged S m m' \<Longrightarrow> unchanged T m' m'' \<Longrightarrow> unchanged (S \<union> T) m m''"
  by (simp add: unchanged_def)

lemma unchanged_mono: "unchanged S m m' \<Longrightarrow> S \<subseteq> T \<Longrightarrow> unchanged T m m'"
  by (auto simp: unchanged_def)

definition destroy_entry :: "nat \<Rightarrow> u64 \<Rightarrow> nat \<Rightarrow> 'a kstate_scheme \<Rightarrow> 'a kstate_scheme" where
  "destroy_entry level entries i s =
     (let entry = read64 (kmem s) (entry_at entries i) in
      if is_table entry then destroy_level level (pte_physical entry) s else s)"

definition released :: "u64 set \<Rightarrow> u64 list \<Rightarrow> 'a kstate_scheme \<Rightarrow> 'a kstate_scheme \<Rightarrow> bool" where
  "released S xs s s' \<longleftrightarrow> (\<exists>ys. page_inv s' (ys @ xs) \<and> set ys = S) \<and> unchanged S (kmem s) (kmem s')"

lemma path_cases:
  "(\<exists>p. length p < Suc d \<and> node m c p = Some x) \<longleftrightarrow> x = c \<or> x \<in> subtree m c d 512"
proof
  assume "\<exists>p. length p < Suc d \<and> node m c p = Some x"
  then obtain p where p: "length p < Suc d" "node m c p = Some x" by blast
  show "x = c \<or> x \<in> subtree m c d 512"
  proof (cases p)
    case (Cons i p')
    then have "i < 512" using p(2) by (auto split: if_splits)
    moreover have "length p' < d" using p(1) Cons by simp
    ultimately show ?thesis using p(2) Cons unfolding subtree_def by blast
  qed (use p in simp)
next
  assume "x = c \<or> x \<in> subtree m c d 512"
  then consider "x = c" | i p where "length p < d" "node m c (i # p) = Some x" unfolding subtree_def by blast
  then show "\<exists>p. length p < Suc d \<and> node m c p = Some x"
  proof cases
    case 1
    then show ?thesis by (intro exI [of _ "[]"]) simp
  next
    case (2 i p)
    then show ?thesis by (intro exI [of _ "i # p"]) simp
  qed
qed

lemma subtree_Suc:
  "subtree m q (Suc d) (Suc n) = subtree m q (Suc d) n \<union>
     (if n < 512 \<and> is_table (pte_at m q n)
      then insert (pte_physical (pte_at m q n)) (subtree m (pte_physical (pte_at m q n)) d 512) else {})"
proof (rule set_eqI)
  fix x
  have "x \<in> subtree m q (Suc d) (Suc n) \<longleftrightarrow>
      x \<in> subtree m q (Suc d) n \<or> (\<exists>p. length p < Suc d \<and> node m q (n # p) = Some x)"
    unfolding subtree_def less_Suc_eq [of _ n] by blast
  also have "(\<exists>p. length p < Suc d \<and> node m q (n # p) = Some x) \<longleftrightarrow>
      n < 512 \<and> is_table (pte_at m q n) \<and>
      (\<exists>p. length p < Suc d \<and> node m (pte_physical (pte_at m q n)) p = Some x)"
    by auto
  finally show "x \<in> subtree m q (Suc d) (Suc n) \<longleftrightarrow> x \<in> subtree m q (Suc d) n \<union>
     (if n < 512 \<and> is_table (pte_at m q n)
      then insert (pte_physical (pte_at m q n)) (subtree m (pte_physical (pte_at m q n)) d 512) else {})"
    unfolding path_cases by auto
qed

lemma subtree_mono: "k \<le> n \<Longrightarrow> subtree m q d k \<subseteq> subtree m q d n"
  unfolding subtree_def using less_le_trans by blast

lemma subtree_cong:
  assumes "\<And>p. length p \<le> d \<Longrightarrow> node m' c p = node m c p"
  shows "subtree m' c d n = subtree m c d n" "tree_ok m' c d n = tree_ok m c d n"
proof -
  have nd: "length p < d \<Longrightarrow> node m' c (i # p) = node m c (i # p)" for i p
    using assms [of "i # p"] by simp
  show st: "subtree m' c d n = subtree m c d n" unfolding subtree_def using nd by metis
  show "tree_ok m' c d n = tree_ok m c d n" unfolding tree_ok_def st
    by (simp only: nd cong: conj_cong)
qed

lemma subtreeD:
  assumes "x \<in> insert c (subtree m c d 512)" "is_table (pte_at m q k)" "k < 512" "c = pte_physical (pte_at m q k)"
  obtains p where "length p < Suc d" "node m q (k # p) = Some x"
proof -
  have "\<exists>p. length p < Suc d \<and> node m c p = Some x" using assms(1) unfolding path_cases by blast
  then show thesis using that assms(2-4) by auto
qed

lemma tree_ok_child:
  assumes ok: "tree_ok m q (Suc d) n" and k: "k < n" "k < 512" "is_table (pte_at m q k)"
    and c: "c = pte_physical (pte_at m q k)"
  shows "tree_ok m c d 512" "insert c (subtree m c d 512) \<inter> subtree m q (Suc d) k = {}"
    and "insert c (subtree m c d 512) \<subseteq> subtree m q (Suc d) n"
proof -
  have inj: "i # p = j # p'" if "i < n" "j < n" "length p < Suc d" "length p' < Suc d"
    "node m q (i # p) = Some x" "node m q (j # p') = Some x" for i j p p' x
    using ok that unfolding tree_ok_def by blast
  have down: "node m q (k # p) = node m c p" for p using k c by simp
  show sub: "insert c (subtree m c d 512) \<subseteq> subtree m q (Suc d) n"
  proof
    fix x assume "x \<in> insert c (subtree m c d 512)"
    then obtain p where "length p < Suc d" "node m q (k # p) = Some x" using subtreeD [of x c m d q k] k(2,3) c by blast
    then show "x \<in> subtree m q (Suc d) n" using k(1) unfolding subtree_def by blast
  qed
  show "insert c (subtree m c d 512) \<inter> subtree m q (Suc d) k = {}"
  proof (rule equals0I)
    fix x assume x: "x \<in> insert c (subtree m c d 512) \<inter> subtree m q (Suc d) k"
    then obtain p where p: "length p < Suc d" "node m q (k # p) = Some x" using subtreeD [of x c m d q k] k(2,3) c by blast
    obtain i p' where "i < k" "length p' < Suc d" "node m q (i # p') = Some x" using x unfolding subtree_def by blast
    then show False using inj [of i k p' p x] p k(1) by simp
  qed
  have "c \<notin> subtree m c d 512"
  proof
    assume "c \<in> subtree m c d 512"
    then obtain i p where "length p < d" "node m c (i # p) = Some c" unfolding subtree_def by blast
    then have "node m q (k # i # p) = Some c" "length (i # p) < Suc d" using down [of "i # p"] by simp_all
    moreover have "node m q (k # []) = Some c" using down [of "[]"] by simp
    ultimately show False using inj [of k k "i # p" "[]" c] k(1) by simp
  qed
  moreover have "\<forall>x\<in>subtree m q (Suc d) n. valid_page x" using ok by (simp add: tree_ok_def)
  moreover have "i # p = j # p'" if "length p < d" "length p' < d"
    "node m c (i # p) = Some x" "node m c (j # p') = Some x" for i j p p' x
    using inj [of k k "i # p" "j # p'" x] that k(1) down [of "i # p"] down [of "j # p'"] by simp
  ultimately show "tree_ok m c d 512" using sub unfolding tree_ok_def by blast
qed

lemma page_free_released:
  assumes "page_inv s xs" "valid_page q" "q \<notin> set xs"
  shows "released {q} xs s (page_free q s)"
proof -
  have "page_inv (page_free q s) ([q] @ xs)" using palloc.release_inv [OF assms] by simp
  moreover have "unchanged {q} (kmem s) (kmem (page_free q s))"
    unfolding unchanged_def by (simp add: palloc.release_contents [OF assms(2)])
  ultimately show ?thesis unfolding released_def by (metis list.set(1) list.set(2))
qed

lemma released_trans:
  assumes "released S xs s s1" "\<And>ys. page_inv s1 (ys @ xs) \<Longrightarrow> set ys = S \<Longrightarrow> released T (ys @ xs) s1 s2"
  shows "released (S \<union> T) xs s s2"
proof -
  obtain ys where ys: "page_inv s1 (ys @ xs)" "set ys = S" and u: "unchanged S (kmem s) (kmem s1)"
    using assms(1) by (auto simp: released_def)
  from assms(2) [OF ys] obtain zs where zs: "page_inv s2 (zs @ ys @ xs)" "set zs = T"
    and u2: "unchanged T (kmem s1) (kmem s2)" by (auto simp: released_def)
  have "page_inv s2 ((zs @ ys) @ xs)" "set (zs @ ys) = S \<union> T" using zs ys by auto
  then show ?thesis unfolding released_def using unchanged_trans [OF u u2] by blast
qed

lemma destroy_entries:
  fixes s :: "'a kstate_scheme"
  assumes IH: "\<And>q xs (s :: 'a kstate_scheme). page_inv s xs \<Longrightarrow> tree_ok (kmem s) q level 512 \<Longrightarrow>
      insert q (subtree (kmem s) q level 512) \<inter> set xs = {} \<Longrightarrow>
      released (insert q (subtree (kmem s) q level 512)) xs s (destroy_level level q s)"
    and inv: "page_inv s xs" and ok: "tree_ok (kmem s) q (Suc level) n" and n: "n \<le> 512"
    and dis: "subtree (kmem s) q (Suc level) n \<inter> set xs = {}"
  shows "k \<le> n \<Longrightarrow> released (subtree (kmem s) q (Suc level) k) xs s (fold (destroy_entry level (phys_to_virt q)) [0..<k] s)"
proof (induction k)
  case 0
  have "subtree (kmem s) q (Suc level) 0 = {}" by (simp add: subtree_def)
  then show ?case using inv by (simp add: released_def unchanged_def)
next
  case (Suc k)
  let ?S = "subtree (kmem s) q (Suc level) k" and ?c = "pte_physical (pte_at (kmem s) q k)"
  define s1 where "s1 = fold (destroy_entry level (phys_to_virt q)) [0..<k] s"
  have rel: "released ?S xs s s1" using Suc by (simp add: s1_def)
  have subS: "?S \<subseteq> subtree (kmem s) q (Suc level) n" using Suc.prems by (intro subtree_mono) simp
  have vS: "\<forall>x\<in>?S. valid_page x" "valid_page q" "q \<notin> ?S" using ok subS unfolding tree_ok_def by blast+
  have u: "unchanged ?S (kmem s) (kmem s1)" using rel by (simp add: released_def)
  have k: "k < n" "k < 512" using Suc.prems n by simp_all
  have pte: "pte_at (kmem s1) q k = pte_at (kmem s) q k" using pte_at_unchanged [OF u vS k(2)] .
  have step: "fold (destroy_entry level (phys_to_virt q)) [0..<Suc k] s = destroy_entry level (phys_to_virt q) k s1"
    by (simp add: s1_def)
  show ?case
  proof (cases "is_table (pte_at (kmem s) q k)")
    case False
    then have "destroy_entry level (phys_to_virt q) k s1 = s1" using pte by (simp add: destroy_entry_def pte_at_def Let_def)
    then show ?thesis using rel False step by (simp add: subtree_Suc)
  next
    case True
    let ?T = "insert ?c (subtree (kmem s) ?c level 512)"
    note child = tree_ok_child [OF ok k True refl]
    have eqn: "node (kmem s1) ?c p = node (kmem s) ?c p" if "length p \<le> level" for p
    proof (rule node_unchanged [OF u vS(1)])
      fix p' x assume "length p' < length p" "node (kmem s) ?c p' = Some x"
      then have "x \<in> ?T" using that path_cases [of level "kmem s" ?c x] by force
      then show "valid_page x \<and> x \<notin> ?S" using child ok unfolding tree_ok_def by blast
    qed
    have cong: "subtree (kmem s1) ?c level 512 = subtree (kmem s) ?c level 512"
      "tree_ok (kmem s1) ?c level 512 = tree_ok (kmem s) ?c level 512"
      using subtree_cong [of level "kmem s1" ?c "kmem s" 512] eqn by blast+
    have "released ?T (ys @ xs) s1 (destroy_level level ?c s1)" if "page_inv s1 (ys @ xs)" "set ys = ?S" for ys
      using IH [OF that(1), of ?c, unfolded cong] child dis that(2) by auto
    then have "released (?S \<union> ?T) xs s (destroy_level level ?c s1)" by (rule released_trans [OF rel])
    moreover have "destroy_entry level (phys_to_virt q) k s1 = destroy_level level ?c s1"
      using True pte by (simp add: destroy_entry_def pte_at_def Let_def)
    ultimately show ?thesis using True k(2) step by (simp add: subtree_Suc)
  qed
qed

lemma destroy_level_Suc:
  "destroy_level (Suc level) q s = page_free q (fold (destroy_entry level (phys_to_virt q)) [0..<512] s)"
  by (simp add: destroy_entry_def [abs_def] Let_def)

lemma destroy_table:
  assumes rel: "released S xs s s1" and q: "valid_page q" "q \<notin> S" "q \<notin> set xs"
  shows "released (insert q S) xs s (page_free q s1)"
proof -
  have "released (S \<union> {q}) xs s (page_free q s1)"
    using q by (intro released_trans [OF rel] page_free_released) simp_all
  then show ?thesis by simp
qed

lemma destroy_level_released:
  fixes s :: "'a kstate_scheme"
  assumes "page_inv s xs" "tree_ok (kmem s) q level 512" "insert q (subtree (kmem s) q level 512) \<inter> set xs = {}"
  shows "released (insert q (subtree (kmem s) q level 512)) xs s (destroy_level level q s)"
  using assms
proof (induction level arbitrary: q xs s)
  case 0
  have "subtree (kmem s) q 0 512 = {}" by (simp add: subtree_def)
  then show ?case using 0 page_free_released by (simp add: tree_ok_def)
next
  case (Suc level)
  have "released (subtree (kmem s) q (Suc level) 512) xs s (fold (destroy_entry level (phys_to_virt q)) [0..<512] s)"
    using Suc.prems by (intro destroy_entries [OF Suc.IH]) auto
  then show ?case
    unfolding destroy_level_Suc using Suc.prems by (intro destroy_table) (auto simp: tree_ok_def)
qed

lemma tree_inv_ok:
  assumes "tree_inv m r"
  shows "tree_ok m r 2 n"
proof -
  have len: "length (i # p) \<le> 2" if "length p < 2" for i :: nat and p using that by simp
  have "i # p = j # p'" if "length p < 2" "length p' < 2" "node m r (i # p) = Some x" "node m r (j # p') = Some x" for i j p p' x
    using tree_invD(2) [OF assms that(4) len [OF that(2)] that(3) len [OF that(1)]] .
  moreover have "valid_page x" if "length p < 2" "node m r (i # p) = Some x" for i p x
    using tree_invD(1) [OF assms that(2) len [OF that(1)]] .
  moreover have "valid_page r" using tree_invD(1) [OF assms, of "[]" r] by simp
  moreover have "node m r (i # p) \<noteq> Some r" if "length p < 2" for i p
    using tree_invD(2) [OF assms _ _ _ len [OF that], of "[]" r i] by auto
  ultimately show ?thesis unfolding tree_ok_def subtree_def by blast
qed

definition private_tables :: "mem \<Rightarrow> u64 \<Rightarrow> u64 set" where
  "private_tables m r = {q. \<exists>p. length p \<le> 2 \<and> node m r p = Some q \<and> (p = [] \<or> hd p < 256)}"

lemma private_tables_subtree: "private_tables m r = insert r (subtree m r 2 256)"
proof (rule set_eqI)
  fix x
  have "(\<exists>p. length p \<le> 2 \<and> node m r p = Some x \<and> (p = [] \<or> hd p < 256)) \<longleftrightarrow>
      x = r \<or> (\<exists>i p. i < 256 \<and> length p < 2 \<and> node m r (i # p) = Some x)" (is "?L \<longleftrightarrow> ?R")
  proof
    assume ?L
    then obtain p where "length p \<le> 2" "node m r p = Some x" "p = [] \<or> hd p < 256" by blast
    then show ?R by (cases p) fastforce+
  next
    assume ?R
    then show ?L
    proof
      assume "x = r" then show ?L by (intro exI [of _ "[]"]) simp
    next
      assume "\<exists>i p. i < 256 \<and> length p < 2 \<and> node m r (i # p) = Some x"
      then obtain i p where "i < 256" "length p < 2" "node m r (i # p) = Some x" by blast
      then show ?L by (intro exI [of _ "i # p"]) simp
    qed
  qed
  then show "x \<in> private_tables m r \<longleftrightarrow> x \<in> insert r (subtree m r 2 256)"
    by (simp add: private_tables_def subtree_def)
qed

lemma tables_subtree: "tables m r = insert r (subtree m r 2 512)"
proof (rule set_eqI)
  fix x
  show "x \<in> tables m r \<longleftrightarrow> x \<in> insert r (subtree m r 2 512)"
    using path_cases [of 2 m r x, unfolded less_Suc_eq_le] by (simp add: tables_iff)
qed

lemma vm_destroy_released:
  assumes inv: "vm_inv s (root t) xs"
  shows "fst (vm_destroy (Some t) s) = Some (t\<lparr>root := 0\<rparr>)"
    and "released (tables (kmem s) (root t)) xs s (snd (vm_destroy (Some t) s))"
proof -
  have r: "root t \<noteq> 0" using root_valid [OF inv] by simp
  then show "fst (vm_destroy (Some t) s) = Some (t\<lparr>root := 0\<rparr>)" by (simp add: vm_destroy_def)
  have "released (tables (kmem s) (root t)) xs s (destroy_level 2 (root t) s)"
    using inv unfolding tables_subtree vm_inv_def by (intro destroy_level_released tree_inv_ok) auto
  then show "released (tables (kmem s) (root t)) xs s (snd (vm_destroy (Some t) s))"
    using r by (simp add: vm_destroy_def)
qed

lemma vm_destroy_user_released:
  assumes inv: "vm_inv s (root t) xs"
  shows "fst (vm_destroy_user (Some t) s) = Some (t\<lparr>root := 0\<rparr>)"
    and "released (private_tables (kmem s) (root t)) xs s (snd (vm_destroy_user (Some t) s))"
proof -
  let ?r = "root t" and ?s1 = "fold (destroy_entry 1 (phys_to_virt (root t))) [0..<256] s"
  have r: "?r \<noteq> 0" using root_valid [OF inv] by simp
  have eq: "vm_destroy_user (Some t) s = (Some (t\<lparr>root := 0\<rparr>), page_free ?r ?s1)"
    using r unfolding vm_destroy_user_def destroy_entry_def [abs_def] Let_def root_pointer_def by simp
  then show "fst (vm_destroy_user (Some t) s) = Some (t\<lparr>root := 0\<rparr>)" by simp
  have tree: "tree_inv (kmem s) ?r" and dis: "tables (kmem s) ?r \<inter> set xs = {}" and pg: "page_inv s xs"
    using inv by (simp_all add: vm_inv_def)
  have ok: "tree_ok (kmem s) ?r (Suc 1) 256" using tree_inv_ok [OF tree, of 256] by (simp add: numeral_2_eq_2)
  have sub: "insert ?r (subtree (kmem s) ?r (Suc 1) 256) \<subseteq> tables (kmem s) ?r"
    unfolding tables_subtree using subtree_mono [of 256 512 "kmem s" ?r 2] by (auto simp: numeral_2_eq_2)
  have "released (subtree (kmem s) ?r (Suc 1) 256) xs s ?s1"
    using pg ok sub dis by (intro destroy_entries [OF destroy_level_released, where n = 256]) auto
  then have "released (insert ?r (subtree (kmem s) ?r (Suc 1) 256)) xs s (page_free ?r ?s1)"
    using ok sub dis by (intro destroy_table) (auto simp: tree_ok_def)
  then show "released (private_tables (kmem s) ?r) xs s (snd (vm_destroy_user (Some t) s))"
    unfolding eq private_tables_subtree by (simp add: numeral_2_eq_2)
qed

end
