(* ===== verification/Vm_Contract.thy ===== *)
theory Vm_Contract
  imports Vm_Destroy
begin

text \<open>
  What a page table promises its clients: \<open>vm_create\<close> and \<open>vm_create_user\<close>, the interface
  \<open>page_mapper\<close> (map, unmap and query as operations on a partial function) and its
  interpretation on the model of \<^verbatim>\<open>src/mm/vm.c\<close>, and the properties stated in terms of what
  \<open>vm_query\<close> answers and which pages are free.
\<close>

section \<open>Creating tables\<close>

lemma empty_root:
  assumes "valid_page r" "\<And>i. i < 512 \<Longrightarrow> pte_at m r i = 0"
  shows "node m r p = (if p = [] then Some r else None)" "tree_inv m r" "tables m r = {r}" "trimmed m r"
proof -
  show nd: "node m r p = (if p = [] then Some r else None)" for p
    using assms(2) by (cases p) (auto simp: is_table_bits)
  show "tree_inv m r" using assms by (intro tree_invI) (auto simp: nd split: if_splits)
  show "tables m r = {r}" by (auto simp: tables_iff nd intro: exI [of _ "[]"] split: if_splits)
  show "trimmed m r" by (auto simp: trimmed_but_def nd)
qed

lemma zero_root: "valid_page r \<Longrightarrow> i < 512 \<Longrightarrow> pte_at (zero_bytes m (phys_to_virt r) 4096) r i = 0"
  by (simp add: pte_at_zero)

lemma vm_create_fails: "page_inv s [] \<Longrightarrow> vm_create (Some t) s = (False, Some (t\<lparr>root := 0\<rparr>), s)"
  by (simp add: vm_create_def page_alloc_empty)

lemma vm_create_works:
  assumes "page_inv s (x # xs)"
  obtains s' where "vm_create (Some t) s = (True, Some (t\<lparr>root := x\<rparr>), s')" "vm_inv s' x xs"
    "trimmed (kmem s') x" "translation s' x = (\<lambda>_. None)" "tables (kmem s') x = {x}" "unchanged {x} (kmem s) (kmem s')"
    "page_inv s' xs" "kmem s' = zero_bytes (kmem s) (phys_to_virt x) 4096"
proof -
  obtain u where u: "page_alloc s = (x, u)" "page_inv u xs" "kmem u = kmem s"
    using page_alloc_cons [OF assms] palloc.alloc_contents [of s] by (metis prod.collapse fst_conv)
  have v: "valid_page x" "x \<notin> set xs" using palloc.inv_valid [OF assms] by auto
  define s' where "s' = u\<lparr>kmem := zero_bytes (kmem u) (phys_to_virt x) 4096\<rparr>"
  have res: "vm_create (Some t) s = (True, Some (t\<lparr>root := x\<rparr>), s')"
    using u(1) v by (auto simp: vm_create_def s'_def valid_page_def Let_def)
  have un: "unchanged {x} (kmem s) (kmem s')" by (simp add: unchanged_def s'_def u(3) zero_bytes_outside)
  have pg: "page_inv s' xs"
    using v un by (intro page_inv_unchanged [OF u(2), of s' "{x}"]) (simp_all add: s'_def u(3))
  have z: "\<And>i. i < 512 \<Longrightarrow> pte_at (kmem s') x i = 0" using v by (simp add: s'_def zero_root)
  note e = empty_root [OF v(1) z]
  have "node (kmem s') x (walk_path a 2) = None" for a
    using e(1) [of "walk_path a 2"] by (simp add: walk_path_2 del: node.simps)
  then have tr: "translation s' x = (\<lambda>_. None)" by (intro ext) (simp add: translation_def lookup_def)
  have "vm_inv s' x xs" using pg e(2,3) v(2) by (simp add: vm_inv_def)
  moreover have "kmem s' = zero_bytes (kmem s) (phys_to_virt x) 4096" by (simp add: s'_def u(3))
  ultimately show thesis using that res tr e(3,4) un pg by blast
qed

lemma read64_copy:
  assumes "x + 8 \<le> n" "n \<le> 2 ^ 64"
  shows "read64 (write_bytes m b (read_bytes m' a n)) (b + of_nat x) = read64 m' (a + of_nat x)"
proof -
  have "write_bytes m b (read_bytes m' a n) (b + of_nat x + of_nat i) = m' (a + of_nat x + of_nat i)" if "i < 8" for i
  proof -
    have u: "unat (of_nat (x + i) :: u64) = x + i" using assms that by (intro unat_of_nat_small) simp
    have "b + of_nat x + of_nat i - b = (of_nat (x + i) :: u64)" by simp
    moreover have xi: "x + i < n" using assms that by simp
    ultimately have "write_bytes m b (read_bytes m' a n) (b + of_nat x + of_nat i) = read_bytes m' a n ! (x + i)"
      using u by (simp add: write_bytes_def del: of_nat_add)
    also have "\<dots> = m' (a + of_nat (x + i))" using xi by (rule nth_read_bytes)
    finally show ?thesis by (simp add: add.assoc)
  qed
  then show ?thesis unfolding read64_def read_bytes_def by (intro arg_cong [where f = of_le_bytes] map_cong) simp_all
qed

lemma entry_at_add: "entry_at e (256 + i) = entry_at e 256 + of_nat (8 * i)"
  by (simp add: entry_at_def algebra_simps)

lemma pte_at_copy:
  assumes "valid_page r" "valid_page k" "i < 512"
  shows "pte_at (write_bytes m (entry_at (phys_to_virt r) 256) (read_bytes m' (entry_at (phys_to_virt k) 256) (256 * 8))) r i =
    (if i < 256 then pte_at m r i else pte_at m' k i)"
proof (cases "i < 256")
  case True
  have "disj (phys_to_virt r + of_nat (8 * i)) 8 (phys_to_virt r + of_nat (8 * 256)) (256 * 8)"
    using True by (intro disj_offset) simp_all
  then show ?thesis using True by (simp add: pte_at_def entry_at_def read64_def read_write_disj)
next
  case False
  then obtain j where j: "i = 256 + j" using le_Suc_ex [of 256 i] by auto
  then have "8 * j + 8 \<le> 256 * 8" using assms(3) by simp
  then show ?thesis unfolding pte_at_def j entry_at_add by (subst read64_copy) simp_all
qed

lemma copy_half_unchanged:
  "unchanged {x} m (write_bytes m (entry_at (phys_to_virt x) 256) (read_bytes m' b (256 * 8)))"
  unfolding unchanged_def
proof (intro allI impI)
  fix a assume out: "\<forall>q\<in>{x}. outside_page q a"
  have "a \<noteq> entry_at (phys_to_virt x) 256 + of_nat j" if "j < 256 * 8" for j
  proof -
    have "8 * 256 + j < 4096" using that by simp
    then have "a \<noteq> phys_to_virt x + of_nat (8 * 256 + j)" using out unfolding outside_page_def by blast
    then show ?thesis by (simp add: entry_at_def algebra_simps)
  qed
  then show "write_bytes m (entry_at (phys_to_virt x) 256) (read_bytes m' b (256 * 8)) a = m a"
    by (intro write_bytes_outside) simp
qed

text \<open>A user table shares every table of the kernel's upper half and owns only its root. \<open>x\<close> is the
  new root, \<open>k\<close> the kernel's.\<close>

lemma shared_half_nodes:
  assumes k: "tree_inv m k" "x \<notin> tables m k" and x: "valid_page x" and un: "unchanged {x} m m'"
    and pte: "\<forall>i<512. pte_at m' x i = (if i < 256 then 0 else pte_at m k i)"
  shows "length p < 2 \<Longrightarrow> node m' x (i # p) = (if i < 256 then None else node m k (i # p))"
    and "q \<in> tables m k \<Longrightarrow> i < 512 \<Longrightarrow> pte_at m' q i = pte_at m q i"
proof -
  have vx: "\<forall>y\<in>{x}. valid_page y" using x by simp
  show "pte_at m' q i = pte_at m q i" if "q \<in> tables m k" "i < 512" for q i
    using that k tree_invD(1) [OF k(1)] by (intro pte_at_unchanged [OF un vx]) (auto simp: tables_iff)
  show "node m' x (i # p) = (if i < 256 then None else node m k (i # p))" if "length p < 2"
  proof (cases "i < 512 \<and> \<not> i < 256 \<and> is_table (pte_at m k i)")
    case True
    let ?c = "pte_physical (pte_at m k i)"
    have "node m' ?c p = node m ?c p"
    proof (rule node_unchanged [OF un vx])
      fix p' y assume "length p' < length p" "node m ?c p' = Some y"
      then have "node m k (i # p') = Some y" "length (i # p') \<le> 2" using True that by simp_all
      then show "valid_page y \<and> y \<notin> {x}" using tree_invD(1) [OF k(1)] k(2) unfolding tables_iff by blast
    qed
    then show ?thesis using True pte by simp
  qed (auto simp: pte is_table_bits)
qed

lemma shared_half:
  assumes k: "tree_inv m k" "x \<notin> tables m k" and x: "valid_page x" and un: "unchanged {x} m m'"
    and pte: "\<forall>i<512. pte_at m' x i = (if i < 256 then 0 else pte_at m k i)"
  shows "p \<noteq> [] \<Longrightarrow> length p \<le> 2 \<Longrightarrow> node m' x p = (if hd p < 256 then None else node m k p)"
    and "tree_inv m' x" "trimmed m k \<Longrightarrow> trimmed m' x"
proof -
  note half = shared_half_nodes [OF assms]
  show nd: "node m' x p = (if hd p < 256 then None else node m k p)" if "p \<noteq> []" "length p \<le> 2" for p
    using that half(1) [of "tl p" "hd p"] by (cases p) (auto simp del: node.simps)
  have up: "node m k p = Some q \<and> q \<in> tables m k" if "node m' x p = Some q" "p \<noteq> []" "length p \<le> 2" for p q
    using that nd [of p] unfolding tables_iff by (auto split: if_splits)
  show "tree_inv m' x"
  proof (rule tree_invI)
    show "valid_page q" if "length p \<le> 2" "node m' x p = Some q" for p q
      using up [OF that(2) _ that(1)] that x tree_invD(1) [OF k(1)] by (cases "p = []") auto
    fix p p' q assume a: "length p \<le> 2" "length p' \<le> 2" "node m' x p = Some q" "node m' x p' = Some q"
    show "p = p'"
      using up [OF a(3) _ a(1)] up [OF a(4) _ a(2)] a k(2) tree_invD(2) [OF k(1), of p' q p]
      by (cases "p = []"; cases "p' = []") auto
  next
    fix p q i assume a: "length p < 2" "node m' x p = Some q" "i < 512" "bit (pte_at m' q i) 0"
    show "is_table (pte_at m' q i)"
    proof (cases "p = []")
      case True
      then show ?thesis using a pte tree_invD(3) [OF k(1), of "[]" k i] by (auto split: if_splits)
    next
      case False
      then have q: "node m k p = Some q" "q \<in> tables m k" using up [OF a(2)] a(1) by simp_all
      then show ?thesis using tree_invD(3) [OF k(1) q(1)] half(2) [OF q(2) a(3)] a by simp
    qed
  qed
  show "trimmed m' x" if "trimmed m k"
  proof (rule trimmedI)
    fix p q assume p: "p \<noteq> []" "length p \<le> 2" "node m' x p = Some q"
    then show "\<exists>i<512. bit (pte_at m' q i) 0"
      using trimmedD [OF that p(1,2)] up [OF p(3,1,2)] half(2) by fastforce
  qed
qed

lemma vm_create_user_works:
  assumes pg: "page_inv s (x # xs)" and k: "tree_inv (kmem s) (root k)" "tables (kmem s) (root k) \<inter> set (x # xs) = {}"
    and tr: "trimmed (kmem s) (root k)"
  obtains s' where "vm_create_user (Some t) (Some k) s = (True, Some (t\<lparr>root := x\<rparr>), s')"
    "vm_inv s' x xs" "trimmed (kmem s') x" "unchanged {x} (kmem s) (kmem s')" "private_tables (kmem s') x = {x}"
    "\<And>a. translation s' x a = (if vpn_index a 2 < 256 then None else translation s (root k) a)"
proof -
  obtain s1 where s1: "vm_create (Some t) s = (True, Some (t\<lparr>root := x\<rparr>), s1)" "page_inv s1 xs"
    "unchanged {x} (kmem s) (kmem s1)" "kmem s1 = zero_bytes (kmem s) (phys_to_virt x) 4096"
    by (rule vm_create_works [OF pg, of t])
  have v: "valid_page x" "x \<notin> set xs" using palloc.inv_valid [OF pg] by auto
  have vk: "valid_page (root k)" using tree_invD(1) [OF k(1), of "[]"] by simp
  have xk: "x \<notin> tables (kmem s) (root k)" using k(2) by auto
  have rk: "root k \<in> tables (kmem s) (root k)" unfolding tables_iff by (intro exI [of _ "[]"]) simp
  define s' where "s' = s1\<lparr>kmem := write_bytes (kmem s1) (entry_at (phys_to_virt x) 256)
      (read_bytes (kmem s1) (entry_at (phys_to_virt (root k)) 256) (256 * 8))\<rparr>"
  have res: "vm_create_user (Some t) (Some k) s = (True, Some (t\<lparr>root := x\<rparr>), s')"
    using s1(1) vk by (auto simp: vm_create_user_def root_pointer_def s'_def Let_def valid_page_def)
  have u1: "unchanged {x} (kmem s1) (kmem s')" 
    using copy_half_unchanged [of x "kmem s1" "kmem s1" "entry_at (phys_to_virt (root k)) 256"] by (simp add: s'_def)
  then have un: "unchanged {x} (kmem s) (kmem s')" using s1(3) by (simp add: unchanged_def)
  have vx: "\<forall>y\<in>{x}. valid_page y" using v by simp
  have "pte_at (kmem s') x i = (if i < 256 then 0 else pte_at (kmem s) (root k) i)" if "i < 512" for i
  proof -
    have "pte_at (kmem s1) (root k) i = pte_at (kmem s) (root k) i"
      using that xk vk rk by (intro pte_at_unchanged [OF s1(3) vx]) auto
    moreover have "pte_at (kmem s1) x i = 0" using zero_root [OF v(1) that] by (simp add: s1(4))
    ultimately show ?thesis using pte_at_copy [OF v(1) vk that] by (simp add: s'_def)
  qed
  then have pte: "\<forall>i<512. pte_at (kmem s') x i = (if i < 256 then 0 else pte_at (kmem s) (root k) i)" by blast
  note half = shared_half [OF k(1) xk v(1) un pte]
  have "tables (kmem s') x \<subseteq> insert x (tables (kmem s) (root k))"
    using half(1) by (fastforce simp: tables_iff split: if_splits)
  then have inv: "vm_inv s' x xs"
    using page_inv_unchanged [OF s1(2) _ _ vx _ u1] v(2) half(2) k(2) by (auto simp: vm_inv_def s'_def)
  have "p = []" if "length p \<le> 2" "node (kmem s') x p = Some q" "p = [] \<or> hd p < 256" for p q
    using half(1) [of p] that by (cases "p = []") auto
  then have "private_tables (kmem s') x \<subseteq> {x}" unfolding private_tables_def by fastforce
  then have "private_tables (kmem s') x = {x}" unfolding private_tables_subtree by blast
  moreover have "translation s' x a = (if vpn_index a 2 < 256 then None else translation s (root k) a)" for a
  proof -
    have nd: "node (kmem s') x (walk_path a 2) = (if vpn_index a 2 < 256 then None else node (kmem s) (root k) (walk_path a 2))"
      using half(1) [of "walk_path a 2"] by (simp add: walk_path_2 del: node.simps)
    have "pte_at (kmem s') q (vpn_index a 0) = pte_at (kmem s) q (vpn_index a 0)"
      if "node (kmem s) (root k) (walk_path a 2) = Some q" for q
      using that by (intro shared_half_nodes(2) [OF k(1) xk v(1) un pte]) (force simp: tables_iff)+
    then show ?thesis using nd by (simp add: translation_def lookup_def split: option.split)
  qed
  ultimately show thesis using that res inv half(3) [OF tr] un by blast
qed

section \<open>The interface of a page table\<close>

text \<open>\<open>hardware_flags f\<close> is what the hardware reads back for the requested flags \<open>f\<close>.\<close>

definition hardware_flags :: "u64 \<Rightarrow> u64" where
  "hardware_flags f = f OR PTE_V OR PTE_A OR (if f AND PTE_W \<noteq> 0 then PTE_D else 0)"

definition leaf_view :: "u64 \<Rightarrow> u64 option \<Rightarrow> (u64 \<times> u64) option" where
  "leaf_view a pte = Option.bind pte (\<lambda>e. if bit e 1 \<or> bit e 3
      then Some (pte_physical e OR (a AND PAGE_MASK), e AND 0x3ff) else None)"

lemma leaf_view_leaf:
  assumes "pte_target p" "valid_leaf_flags f"
  shows "leaf_view a (Some (leaf_pte p f)) = Some (p OR (a AND PAGE_MASK), hardware_flags f)"
proof -
  have "hardware_flags f = f OR 65 OR (if bit f 2 then 128 else 0)"
  proof -
    have w: "f AND PTE_W \<noteq> 0 \<longleftrightarrow> bit f 2" by (simp add: pte_simps)
    show ?thesis unfolding hardware_flags_def w by (simp add: pte_bits)
  qed
  then show ?thesis
    using leaf_pte_valid(2) [OF assms] leaf_pte_flags [OF assms] pte_physical_leaf [OF assms]
    by (auto simp: leaf_view_def)
qed

locale page_mapper =
  fixes inv :: "'s \<Rightarrow> u64 \<Rightarrow> u64 list \<Rightarrow> bool"
    and trans :: "'s \<Rightarrow> u64 \<Rightarrow> u64 \<Rightarrow> u64 option"
    and map_page :: "page_table option \<Rightarrow> u64 \<Rightarrow> u64 \<Rightarrow> u64 \<Rightarrow> 's \<Rightarrow> bool \<times> 's"
    and unmap_page :: "page_table option \<Rightarrow> u64 \<Rightarrow> 's \<Rightarrow> bool \<times> 's"
    and query :: "page_table option \<Rightarrow> u64 \<Rightarrow> 's \<Rightarrow> (u64 \<times> u64) option"
  assumes query_law: "inv s (root t) xs \<Longrightarrow> canonical a \<Longrightarrow> query (Some t) a s = leaf_view a (trans s (root t) a)"
    and map_law: "inv s (root t) xs \<Longrightarrow> canonical a \<Longrightarrow> page_aligned a \<Longrightarrow> pte_target p \<Longrightarrow> valid_leaf_flags f \<Longrightarrow>
      map_page (Some t) a p f s = (ok, s') \<Longrightarrow>
      \<exists>n\<le>2. n \<le> length xs \<and> inv s' (root t) (drop n xs) \<and>
        trans s' (root t) = (\<lambda>b. if ok \<and> same_page b a then Some (leaf_pte p f) else trans s (root t) b) \<and>
        (ok \<longrightarrow> trans s (root t) a = None) \<and>
        (\<not> ok \<longrightarrow> trans s (root t) a \<noteq> None \<and> s' = s \<or> n < 2 \<and> n = length xs)"
    and unmap_law: "inv s (root t) xs \<Longrightarrow> canonical a \<Longrightarrow> page_aligned a \<Longrightarrow> unmap_page (Some t) a s = (ok, s') \<Longrightarrow>
      (ok \<longleftrightarrow> leaf_view a (trans s (root t) a) \<noteq> None) \<and> (\<not> ok \<longrightarrow> s' = s) \<and>
      (ok \<longrightarrow> (\<exists>ys. inv s' (root t) (ys @ xs)) \<and>
        trans s' (root t) = (\<lambda>b. if same_page b a then None else trans s (root t) b))"
begin

lemma map_query:
  assumes "inv s (root t) xs" "canonical a" "page_aligned a" "pte_target p" "valid_leaf_flags f"
    and "map_page (Some t) a p f s = (ok, s')" "canonical b"
  shows "query (Some t) b s' = (if ok \<and> same_page b a then Some (p OR (b AND PAGE_MASK), hardware_flags f)
     else query (Some t) b s)"
proof -
  obtain n where "inv s' (root t) (drop n xs)"
    "trans s' (root t) = (\<lambda>b. if ok \<and> same_page b a then Some (leaf_pte p f) else trans s (root t) b)"
    using map_law [OF assms(1-6)] by blast
  then show ?thesis using query_law assms by (simp add: leaf_view_leaf)
qed

lemma unmap_query:
  assumes "inv s (root t) xs" "canonical a" "page_aligned a" "unmap_page (Some t) a s = (ok, s')" "canonical b"
  shows "ok \<longleftrightarrow> query (Some t) a s \<noteq> None"
    and "query (Some t) b s' = (if ok \<and> same_page b a then None else query (Some t) b s)"
proof -
  note law = unmap_law [OF assms(1-4)]
  show "ok \<longleftrightarrow> query (Some t) a s \<noteq> None" using law query_law [OF assms(1,2)] by simp
  show "query (Some t) b s' = (if ok \<and> same_page b a then None else query (Some t) b s)"
  proof (cases ok)
    case True
    then obtain ys where "inv s' (root t) (ys @ xs)"
      "trans s' (root t) = (\<lambda>b. if same_page b a then None else trans s (root t) b)" using law by blast
    then show ?thesis using query_law assms(1,5) True by (simp add: leaf_view_def)
  qed (use law in simp)
qed

lemma map_succeeds:
  assumes "inv s (root t) xs" "canonical a" "page_aligned a" "pte_target p" "valid_leaf_flags f"
    and "trans s (root t) a = None" "2 \<le> length xs"
  shows "fst (map_page (Some t) a p f s)"
proof -
  obtain ok s' where res: "map_page (Some t) a p f s = (ok, s')" by fastforce
  have ok using map_law [OF assms(1-5) res] assms(6,7) by auto
  then show ?thesis using res by simp
qed

end

lemma vm_query_view:
  "vm_inv s (root t) xs \<Longrightarrow> canonical a \<Longrightarrow> vm_query (Some t) a s = leaf_view a (translation s (root t) a)"
  by (simp add: vm_query_translation leaf_view_def split: option.split)

lemma leaf_at_view: "leaf_at s r a \<longleftrightarrow> leaf_view a (translation s r a) \<noteq> None"
  by (cases "translation s r a") (auto simp: leaf_at_def leaf_view_def)

interpretation vm: page_mapper vm_inv translation vm_map vm_unmap vm_query
proof unfold_locales
  fix s :: "'a kstate_scheme" and t :: page_table and xs a p f ok s'
  assume a: "vm_inv s (root t) xs" "canonical a" "page_aligned a" "pte_target p" "valid_leaf_flags f"
    "vm_map (Some t) a p f s = (ok, s')"
  show "\<exists>n\<le>2. n \<le> length xs \<and> vm_inv s' (root t) (drop n xs) \<and>
        translation s' (root t) = (\<lambda>b. if ok \<and> same_page b a then Some (leaf_pte p f) else translation s (root t) b) \<and>
        (ok \<longrightarrow> translation s (root t) a = None) \<and>
        (\<not> ok \<longrightarrow> translation s (root t) a \<noteq> None \<and> s' = s \<or> n < 2 \<and> n = length xs)"
    by (rule vm_map_obtain [OF a]) blast
next
  fix s :: "'a kstate_scheme" and t :: page_table and xs a ok s'
  assume a: "vm_inv s (root t) xs" "canonical a" "page_aligned a" and res: "vm_unmap (Some t) a s = (ok, s')"
  show "(ok \<longleftrightarrow> leaf_view a (translation s (root t) a) \<noteq> None) \<and> (\<not> ok \<longrightarrow> s' = s) \<and>
      (ok \<longrightarrow> (\<exists>ys. vm_inv s' (root t) (ys @ xs)) \<and>
        translation s' (root t) = (\<lambda>b. if same_page b a then None else translation s (root t) b))"
    unfolding leaf_at_view [symmetric]
    using vm_unmap_outcome [OF a] res by (cases "leaf_at s (root t) a") (auto simp: vm_shrunk_def intro!: ext)
qed (simp add: vm_query_view)

section \<open>Properties\<close>

text \<open>Three free pages and a table made of the first; the state the witnesses below start from.\<close>

definition three_pages :: kstate where
  "three_pages = page_free 0x80003000 (page_free 0x80002000 (page_free 0x80001000 blank_state))"

definition empty_table :: page_table where
  "empty_table = \<lparr>root = 0x80003000\<rparr>"

definition table_state :: kstate where
  "table_state = snd (snd (vm_create (Some \<lparr>root = 0\<rparr>) three_pages))"

lemma three_pages_inv: "page_inv three_pages [0x80003000, 0x80002000, 0x80001000]"
proof -
  have v: "valid_page 0x80001000" "valid_page 0x80002000" "valid_page 0x80003000"
    by (simp_all add: valid_page_def page_aligned_def PAGE_MASK_def PAGE_SIZE_def)
  have "page_inv blank_state []" by (simp add: blank_state_def page_inv_def)
  then show ?thesis unfolding three_pages_def using v by (intro palloc.release_inv) simp_all
qed

lemma table_state_inv:
  "vm_inv table_state (root empty_table) [0x80002000, 0x80001000]" "trimmed (kmem table_state) (root empty_table)"
  "translation table_state (root empty_table) = (\<lambda>_. None)"
proof -
  obtain s' where s': "vm_create (Some \<lparr>root = 0\<rparr>) three_pages = (True, Some (\<lparr>root = 0\<rparr>\<lparr>root := 0x80003000\<rparr>), s')"
    "vm_inv s' 0x80003000 [0x80002000, 0x80001000]" "trimmed (kmem s') 0x80003000" "translation s' 0x80003000 = (\<lambda>_. None)"
    by (rule vm_create_works [OF three_pages_inv])
  then show "vm_inv table_state (root empty_table) [0x80002000, 0x80001000]" "trimmed (kmem table_state) (root empty_table)"
    "translation table_state (root empty_table) = (\<lambda>_. None)"
    by (simp_all add: table_state_def empty_table_def)
qed

lemma witness_args:
  "canonical 0x40001000" "page_aligned 0x40001000" "pte_target 0x90000000" "valid_leaf_flags (PTE_R OR PTE_W OR PTE_U)"
  by (simp_all add: canonical_def page_aligned_def PAGE_MASK_def PAGE_SIZE_def pte_target_def valid_leaf_flags_def pte_bits)



text \<open>A table with one page mapped, for the witnesses of the operations that need one.\<close>

definition mapped_state :: kstate where
  "mapped_state = snd (vm_map (Some empty_table) 0x40001000 0x90000000 (PTE_R OR PTE_W OR PTE_U) table_state)"

lemma mapped_state_inv:
  "vm_map (Some empty_table) 0x40001000 0x90000000 (PTE_R OR PTE_W OR PTE_U) table_state = (True, mapped_state)"
  "\<exists>xs. vm_inv mapped_state (root empty_table) xs"
  "translation mapped_state (root empty_table) 0x40001000 = Some (leaf_pte 0x90000000 (PTE_R OR PTE_W OR PTE_U))"
proof -
  have "fst (vm_map (Some empty_table) 0x40001000 0x90000000 (PTE_R OR PTE_W OR PTE_U) table_state)"
    using table_state_inv(3) by (intro vm.map_succeeds [OF table_state_inv(1) witness_args]) simp_all
  then show res: "vm_map (Some empty_table) 0x40001000 0x90000000 (PTE_R OR PTE_W OR PTE_U) table_state = (True, mapped_state)"
    by (metis mapped_state_def prod.collapse)
  show "\<exists>xs. vm_inv mapped_state (root empty_table) xs"
    and "translation mapped_state (root empty_table) 0x40001000 = Some (leaf_pte 0x90000000 (PTE_R OR PTE_W OR PTE_U))"
    using vm.map_law [OF table_state_inv(1) witness_args res] by (auto simp: same_page_def)
qed



text \<open>
  \<open>vm_protect\<close> succeeds exactly when \<open>vm_query\<close> finds a mapping. It keeps the frame and replaces
  the flags of that page, touches no other page and no free page; when it fails nothing changes.
\<close>

theorem vm_protect_correct:
  assumes "vm_inv s (root t) xs" "canonical a" "page_aligned a" "valid_leaf_flags f"
    and "vm_protect (Some t) a f s = (ok, s')"
  shows "(ok \<longleftrightarrow> vm_query (Some t) a s \<noteq> None) \<and> (\<not> ok \<longrightarrow> s' = s) \<and> vm_inv s' (root t) xs \<and>
    (\<forall>b. canonical b \<longrightarrow> vm_query (Some t) b s' =
      (if ok \<and> same_page b a
       then map_option (\<lambda>(physical, _). (physical, hardware_flags f)) (vm_query (Some t) b s)
       else vm_query (Some t) b s))"
proof -
  let ?r = "root t"
  have view: "leaf_at s ?r a \<longleftrightarrow> vm_query (Some t) a s \<noteq> None"
    using vm_query_view [OF assms(1,2)] by (simp add: leaf_at_view)
  note out = vm_protect_outcome [OF assms]
  show ?thesis
  proof (cases ok)
    case False
    then show ?thesis using out(1,2) view assms(1) by (auto simp: leaf_at_def)
  next
    case True
    then obtain e where e: "translation s ?r a = Some e" "bit e 1 \<or> bit e 3" using out(1) by blast
    have inv: "vm_inv s' ?r xs" using out(3) True by blast
    have tr: "translation s' ?r b = (if same_page b a then Some (leaf_pte (pte_physical e) f) else translation s ?r b)" for b
      using out(3) [OF True, of b] e(1) by simp
    have "vm_query (Some t) b s' = (if same_page b a
        then map_option (\<lambda>(physical, _). (physical, hardware_flags f)) (vm_query (Some t) b s)
        else vm_query (Some t) b s)" if "canonical b" for b
    proof (cases "same_page b a")
      case same: True
      then have "translation s ?r b = Some e" using e(1) by (simp add: translation_def same_page_path)
      then have "vm_query (Some t) b s = Some (pte_physical e OR (b AND PAGE_MASK), e AND 0x3ff)"
        using vm_query_view [OF assms(1) that] e(2) by (simp add: leaf_view_def)
      then show ?thesis
        using vm_query_view [OF inv that] tr [of b] same leaf_view_leaf [OF pte_physical_target assms(4)] by simp
    qed (use vm_query_view [OF inv that] vm_query_view [OF assms(1) that] tr [of b] in simp)
    then show ?thesis using True inv view e by (auto simp: leaf_at_def)
  qed
qed

theorem vm_protect_correct_witness:
  "\<exists>s'. vm_protect (Some empty_table) 0x40001000 (PTE_R OR PTE_U) mapped_state = (True, s') \<and>
     vm_query (Some empty_table) 0x40001004 s' = Some (0x90000004, 0x53)"
proof -
  obtain xs where inv: "vm_inv mapped_state (root empty_table) xs" using mapped_state_inv(2) by blast
  obtain ok s' where res: "vm_protect (Some empty_table) 0x40001000 (PTE_R OR PTE_U) mapped_state = (ok, s')" by fastforce
  have f: "valid_leaf_flags (PTE_R OR PTE_U)" by (simp add: valid_leaf_flags_def pte_bits)
  have same: "same_page 0x40001004 0x40001000" by (auto simp: same_page_def vpn_index_def numeral_3_eq_3 less_Suc_eq)
  have can: "canonical 0x40001004" by (simp add: canonical_def)
  have tr: "translation mapped_state (root empty_table) 0x40001004 = Some (leaf_pte 0x90000000 (PTE_R OR PTE_W OR PTE_U))"
    using mapped_state_inv(3) same by (simp add: translation_def same_page_path)
  have q: "vm_query (Some empty_table) 0x40001000 mapped_state \<noteq> None"
    using vm_query_view [OF inv witness_args(1)] mapped_state_inv(3) leaf_view_leaf [OF witness_args(3,4)] by simp
  have "vm_query (Some empty_table) 0x40001004 mapped_state = Some (0x90000004, hardware_flags (PTE_R OR PTE_W OR PTE_U))"
    using vm_query_view [OF inv can] tr leaf_view_leaf [OF witness_args(3,4)] by (simp add: PAGE_MASK_def PAGE_SIZE_def)
  moreover have "hardware_flags (PTE_R OR PTE_U) = 0x53" by (simp add: hardware_flags_def pte_bits)
  ultimately show ?thesis
    using vm_protect_correct [OF inv witness_args(1,2) f res] q res same can by auto
qed

text \<open>
  C25. Mapping a page and unmapping it again leaves no trace: starting from a table with no empty
  branches, the second operation succeeds, every translation is what it was, and the set of free
  pages is exactly what it was (the intermediate tables that \<open>vm_map\<close> took are given back).
\<close>

theorem vm_map_unmap_neutral:
  assumes "vm_inv s (root t) xs" "trimmed (kmem s) (root t)" "canonical a" "page_aligned a"
    and "pte_target p" "valid_leaf_flags f" "vm_map (Some t) a p f s = (True, s1)"
  shows "\<exists>s2 zs. vm_unmap (Some t) a s1 = (True, s2) \<and> vm_inv s2 (root t) zs \<and> set zs = set xs \<and>
    translation s2 (root t) = translation s (root t) \<and> trimmed (kmem s2) (root t)"
  using assms by (rule map_unmap)

theorem vm_map_unmap_neutral_witness:
  "\<exists>s2 zs. vm_unmap (Some empty_table) 0x40001000 mapped_state = (True, s2) \<and> vm_inv s2 (root empty_table) zs \<and>
     set zs = {0x80002000, 0x80001000} \<and> trimmed (kmem s2) (root empty_table)"
  using vm_map_unmap_neutral [OF table_state_inv(1,2) witness_args mapped_state_inv(1)] by auto

text \<open>A table and one spare page: too few to map anything.\<close>

definition poor_state :: kstate where
  "poor_state = snd (snd (vm_create (Some \<lparr>root = 0\<rparr>) (page_free 0x80003000 (page_free 0x80002000 blank_state))))"

lemma poor_state_inv:
  "vm_inv poor_state (root empty_table) [0x80002000]" "trimmed (kmem poor_state) (root empty_table)"
  "tables (kmem poor_state) (root empty_table) = {root empty_table}"
proof -
  have v: "valid_page 0x80002000" "valid_page 0x80003000"
    by (simp_all add: valid_page_def page_aligned_def PAGE_MASK_def PAGE_SIZE_def)
  have "page_inv blank_state []" by (simp add: blank_state_def page_inv_def)
  then have "page_inv (page_free 0x80003000 (page_free 0x80002000 blank_state)) [0x80003000, 0x80002000]"
    using v by (intro palloc.release_inv) simp_all
  then obtain s' where "vm_create (Some \<lparr>root = 0\<rparr>) (page_free 0x80003000 (page_free 0x80002000 blank_state)) =
      (True, Some (\<lparr>root = 0\<rparr>\<lparr>root := 0x80003000\<rparr>), s')"
    "vm_inv s' 0x80003000 [0x80002000]" "trimmed (kmem s') 0x80003000" "tables (kmem s') 0x80003000 = {0x80003000}"
    by (rule vm_create_works [where t = "\<lparr>root = 0\<rparr>"])
  then show "vm_inv poor_state (root empty_table) [0x80002000]" "trimmed (kmem poor_state) (root empty_table)"
    "tables (kmem poor_state) (root empty_table) = {root empty_table}"
    by (simp_all add: poor_state_def empty_table_def)
qed

lemma map_needs_two_pages:
  assumes inv: "vm_inv s (root t) xs" and tab: "tables (kmem s) (root t) = {root t}" and few: "length xs < 2"
    and a: "canonical a" "page_aligned a" and p: "pte_target p" "valid_leaf_flags f"
  shows "\<exists>s1. vm_map (Some t) a p f s = (False, s1)"
proof -
  obtain ok s1 where res: "vm_map (Some t) a p f s = (ok, s1)" by fastforce
  have "\<not> ok"
  proof
    assume ok
    let ?r = "root t"
    obtain n where inv1: "vm_inv s1 ?r (drop n xs)" and tab1: "tables (kmem s1) ?r = insert ?r (set (take n xs))"
      and tr: "translation s1 ?r a = Some (leaf_pte p f)"
      by (rule vm_map_obtain [OF inv a p res]) (use \<open>ok\<close> tab in \<open>auto simp: same_page_def\<close>)
    then obtain l0 where l0: "node (kmem s1) ?r [vpn_index a 2, vpn_index a 1] = Some l0"
      by (auto simp: translation_def walk_path_2 lookup_Some simp del: node.simps)
    then obtain l1 where l1: "node (kmem s1) ?r [vpn_index a 2] = Some l1" by (auto split: if_splits)
    have tree: "tree_inv (kmem s1) ?r" using inv1 by (simp add: vm_inv_def)
    have "length (take n xs) \<le> 1" using few by simp
    then obtain y where "set (take n xs) \<subseteq> {y}" by (cases "take n xs") auto
    moreover have "l0 \<in> tables (kmem s1) ?r" "l1 \<in> tables (kmem s1) ?r"
      using l0 l1 unfolding tables_iff by (force intro: exI [of _ "[vpn_index a 2, vpn_index a 1]"] exI [of _ "[vpn_index a 2]"])+
    moreover have "l0 \<noteq> ?r" "l1 \<noteq> ?r" "l0 \<noteq> l1"
      using tree_invD(2) [OF tree l0, of "[]"] tree_invD(2) [OF tree l1, of "[]"] tree_invD(2) [OF tree l0, of "[vpn_index a 2]"] l1
      by auto
    ultimately show False using tab1 by auto
  qed
  then show ?thesis using res by auto
qed

text \<open>
  C3. A \<open>vm_map\<close> in the lower half that fails part-way, followed by \<open>vm_prune_user\<close>, is
  resource-neutral: the tables the failed walk had already attached are found and freed, so the set
  of free pages, all translations, and the pages that hold tables are exactly those before the
  attempt, and again no table is empty.
\<close>

theorem vm_failed_map_neutral:
  assumes "vm_inv s (root t) xs" "trimmed (kmem s) (root t)" "canonical a" "page_aligned a" "a < 2 ^ 38"
    and "pte_target p" "valid_leaf_flags f" "vm_map (Some t) a p f s = (False, s1)"
  shows "\<exists>zs. vm_inv (vm_prune_user t s1) (root t) zs \<and> set zs = set xs \<and>
    translation (vm_prune_user t s1) (root t) = translation s (root t) \<and>
    tables (kmem (vm_prune_user t s1)) (root t) = tables (kmem s) (root t) \<and>
    trimmed (kmem (vm_prune_user t s1)) (root t)"
  using failed_map_pruned [OF assms refl] by auto

theorem vm_failed_map_neutral_witness:
  "\<exists>s1 zs. vm_map (Some empty_table) 0x40001000 0x90000000 (PTE_R OR PTE_W OR PTE_U) poor_state = (False, s1) \<and>
     vm_inv (vm_prune_user empty_table s1) (root empty_table) zs \<and> set zs = {0x80002000} \<and>
     tables (kmem (vm_prune_user empty_table s1)) (root empty_table) = {root empty_table}"
proof -
  obtain s1 where res: "vm_map (Some empty_table) 0x40001000 0x90000000 (PTE_R OR PTE_W OR PTE_U) poor_state = (False, s1)"
    using map_needs_two_pages [OF poor_state_inv(1,3) _ witness_args] by auto
  have low: "(0x40001000 :: u64) < 2 ^ 38" by simp
  show ?thesis
    using vm_failed_map_neutral [OF poor_state_inv(1,2) witness_args(1,2) low witness_args(3,4) res] res poor_state_inv(3)
    by auto
qed

text \<open>
  C26. \<open>vm_destroy_user\<close> gives back exactly the pages that hold private tables, each once: the root and
  the tables reached through its first 256 entries. Nothing outside those pages is written, so the
  kernel tables shared through the upper half survive, and the structure no longer names a root.
\<close>

theorem vm_destroy_user_exact:
  assumes "vm_inv s (root t) xs"
  shows "\<exists>s' ys. vm_destroy_user (Some t) s = (Some (t\<lparr>root := 0\<rparr>), s') \<and> page_inv s' (ys @ xs) \<and>
    set ys = private_tables (kmem s) (root t) \<and> unchanged (private_tables (kmem s) (root t)) (kmem s) (kmem s')"
  using vm_destroy_user_released [OF assms] by (auto simp: released_def prod_eq_iff)

theorem vm_destroy_user_exact_witness:
  "\<exists>s' ys. vm_destroy_user (Some empty_table) mapped_state = (Some (empty_table\<lparr>root := 0\<rparr>), s') \<and>
     (\<exists>xs. page_inv s' (ys @ xs)) \<and> root empty_table \<in> set ys"
proof -
  obtain xs where inv: "vm_inv mapped_state (root empty_table) xs" using mapped_state_inv(2) by blast
  have "root empty_table \<in> private_tables (kmem mapped_state) (root empty_table)"
    unfolding private_tables_subtree by blast
  then show ?thesis using vm_destroy_user_exact [OF inv] by auto
qed

text \<open>
  C27. \<open>vm_create_user\<close> builds, from one free page, a table whose lower half is empty and whose upper
  half translates exactly as the kernel's table does, through the kernel's own tables: the only
  table it owns, and the only page it writes, is the new root.
\<close>

theorem vm_create_user_shares:
  assumes "page_inv s (x # xs)" "tree_inv (kmem s) (root k)" "tables (kmem s) (root k) \<inter> set (x # xs) = {}"
    and "trimmed (kmem s) (root k)"
  shows "\<exists>s'. vm_create_user (Some t) (Some k) s = (True, Some (t\<lparr>root := x\<rparr>), s') \<and> vm_inv s' x xs \<and>
    private_tables (kmem s') x = {x} \<and> unchanged {x} (kmem s) (kmem s') \<and> trimmed (kmem s') x \<and>
    (\<forall>a. translation s' x a = (if vpn_index a 2 < 256 then None else translation s (root k) a))"
  by (rule vm_create_user_works [OF assms]) blast

theorem vm_create_user_shares_witness:
  "\<exists>s'. vm_create_user (Some \<lparr>root = 0\<rparr>) (Some empty_table) table_state = (True, Some \<lparr>root = 0x80002000\<rparr>, s') \<and>
     vm_inv s' 0x80002000 [0x80001000] \<and> translation s' 0x80002000 0x40001000 = None"
proof -
  have inv: "page_inv table_state [0x80002000, 0x80001000]" "tree_inv (kmem table_state) (root empty_table)"
    "tables (kmem table_state) (root empty_table) \<inter> set [0x80002000, 0x80001000] = {}"
    using table_state_inv(1) by (simp_all add: vm_inv_def)
  have "vpn_index 0x40001000 2 < 256" by (simp add: vpn_index_def)
  then show ?thesis
    using vm_create_user_shares [OF inv table_state_inv(2), of "\<lparr>root = 0\<rparr>"] by fastforce
qed



end
