(* ===== verification/Vm_Kernel.thy ===== *)
theory Vm_Kernel
  imports Vm_Contract
begin

text \<open>
  The kernel's own table, \<open>vm_build_kernel\<close> of \<^verbatim>\<open>src/mm/vm.c\<close>: it terminates, maps exactly the pages of
  RAM and of the devices at their direct-map addresses, leaves out the boot stack's guard
  page, never maps a page writable and executable, and releases everything when it fails.
\<close>

section \<open>Pages of the direct map\<close>

lemma same_page_number: "same_page a b \<longleftrightarrow> unat a div 4096 mod 2 ^ 27 = unat b div 4096 mod 2 ^ 27"
proof -
  have digits: "x mod 2 ^ 27 = x mod 512 + 512 * (x div 512 mod 512 + 512 * (x div 512 div 512 mod 512))" for x :: nat
  proof -
    have "x mod (512 * (512 * 512)) = 512 * (x div 512 mod (512 * 512)) + x mod 512" by (rule mod_mult2_eq)
    also have "x div 512 mod (512 * 512) = 512 * (x div 512 div 512 mod 512) + x div 512 mod 512" by (rule mod_mult2_eq)
    finally show ?thesis by simp
  qed
  have ix: "vpn_index a 0 = unat a div 4096 mod 512" "vpn_index a 1 = unat a div 4096 div 512 mod 512"
    "vpn_index a 2 = unat a div 4096 div 512 div 512 mod 512" for a
    unfolding vpn_index_div by (simp_all add: div_mult2_eq [symmetric])
  have "same_page a b \<longleftrightarrow> (vpn_index a 0 = vpn_index b 0 \<and> vpn_index a 1 = vpn_index b 1 \<and> vpn_index a 2 = vpn_index b 2)"
    by (auto simp: same_page_def numeral_3_eq_3 numeral_2_eq_2 less_Suc_eq)
  moreover have "x + 512 * (y + 512 * z) = x' + 512 * (y' + 512 * z') \<longleftrightarrow> x = x' \<and> y = y' \<and> z = z'"
    if "x < 512" "x' < 512" "y < 512" "y' < 512" for x y z x' y' z' :: nat
  proof
    assume eq: "x + 512 * (y + 512 * z) = x' + 512 * (y' + 512 * z')"
    have "x = x'" using arg_cong [OF eq, of "\<lambda>n. n mod 512"] that by (simp only: mod_mult_self2 mod_less)
    moreover from this have eq2: "y + 512 * z = y' + 512 * z'" using eq by simp
    have "y = y'" using arg_cong [OF eq2, of "\<lambda>n. n mod 512"] that by (simp only: mod_mult_self2 mod_less)
    ultimately show "x = x' \<and> y = y' \<and> z = z'" using eq2 by simp
  qed simp
  ultimately show ?thesis unfolding ix digits [of "unat a div 4096"] digits [of "unat b div 4096"] by simp
qed

definition direct_page :: "u64 \<Rightarrow> bool" where
  "direct_page p \<longleftrightarrow> page_aligned p \<and> p < 2 ^ 38"

lemma unat_direct: "p < 2 ^ 38 \<Longrightarrow> unat (phys_to_virt p) = (2 ^ 64 - 2 ^ 38) + unat p"
proof -
  assume "p < 2 ^ 38"
  then have "unat p < 2 ^ 38" by (simp add: word_less_nat_alt)
  then show ?thesis by (simp add: phys_to_virt_def KERNEL_DIRECT_BASE_def unat_word_ariths)
qed

lemma canonical_direct: "p < 2 ^ 38 \<Longrightarrow> canonical (phys_to_virt p)"
proof -
  assume p: "p < 2 ^ 38"
  then have "unat p < 2 ^ 38" by (simp add: word_less_nat_alt)
  moreover have "unat (drop_bit 39 (phys_to_virt p)) = ((2 ^ 64 - 2 ^ 38) + unat p) div 2 ^ 39"
    unfolding unat_drop_bit_eq unat_direct [OF p] by (simp only: drop_bit_eq_div)
  ultimately have "unat (drop_bit 39 (phys_to_virt p)) = 0x1ffffff" by simp
  then show ?thesis by (simp add: canonical_def Let_def word_unat_eq_iff)
qed

lemma direct_page_inject:
  assumes "direct_page p" "direct_page q" "same_page (phys_to_virt p) (phys_to_virt q)"
  shows "p = q"
proof -
  have num: "unat (phys_to_virt x) div 4096 mod 2 ^ 27 = 2 ^ 26 + unat x div 4096" if "direct_page x" for x
  proof -
    have x: "x < 2 ^ 38" using that by (simp add: direct_page_def)
    then have "unat x < 2 ^ 38" by (simp add: word_less_nat_alt)
    then have lt: "unat x div 4096 < 2 ^ 26" by (simp add: less_mult_imp_div_less)
    have "unat (phys_to_virt x) = unat x + 4096 * (2 ^ 52 - 2 ^ 26)" using unat_direct [OF x] by simp
    then have "unat (phys_to_virt x) div 4096 = unat x div 4096 + (2 ^ 52 - 2 ^ 26)" by simp
    also have "\<dots> = (2 ^ 26 + unat x div 4096) + 2 ^ 27 * (2 ^ 25 - 1)" by simp
    finally have "unat (phys_to_virt x) div 4096 mod 2 ^ 27 = (2 ^ 26 + unat x div 4096) mod 2 ^ 27"
      by (simp only: mod_mult_self2)
    also have "\<dots> = 2 ^ 26 + unat x div 4096" using lt by (intro mod_less) simp
    finally show ?thesis .
  qed
  have "unat p div 4096 = unat q div 4096" using assms(3) num [OF assms(1)] num [OF assms(2)] by (simp add: same_page_number)
  moreover have "unat p = 4096 * (unat p div 4096)" "unat q = 4096 * (unat q div 4096)"
    using assms(1,2) by (simp_all add: direct_page_def page_aligned_iff_dvd)
  ultimately show ?thesis by (simp add: word_unat_eq_iff)
qed

lemma direct_page_args:
  assumes "direct_page p"
  shows "canonical (phys_to_virt p)" "page_aligned (phys_to_virt p)" "pte_target p"
  using assms canonical_direct [of p] by (simp_all add: direct_page_def pte_target_def word_less_nat_alt)

section \<open>Mapping ranges\<close>

definition page_flags :: "kernel_image \<Rightarrow> bool \<Rightarrow> u64 \<Rightarrow> u64" where
  "page_flags img ram p = (if ram then kernel_page_flags img p else PTE_R OR PTE_W OR PTE_G)"

lemma page_flags_cases:
  "page_flags img ram p \<in> {PTE_R OR PTE_X OR PTE_G, PTE_R OR PTE_G, PTE_R OR PTE_W OR PTE_G}"
  by (simp add: page_flags_def kernel_page_flags_def Let_def)

lemma page_flags_valid: "valid_leaf_flags (page_flags img ram p)"
  using page_flags_cases [of img ram p] by (auto simp: valid_leaf_flags_def pte_bits)

text \<open>\<open>D\<close> is a set of pages with their flags; \<open>s'\<close> translates as \<open>s\<close> does, plus \<open>D\<close>.\<close>

definition extended :: "'a kstate_scheme \<Rightarrow> 'a kstate_scheme \<Rightarrow> u64 \<Rightarrow> (u64 \<times> u64) set \<Rightarrow> bool" where
  "extended s s' r D \<longleftrightarrow>
     (\<forall>p f a. (p, f) \<in> D \<and> same_page a (phys_to_virt p) \<longrightarrow> translation s' r a = Some (leaf_pte p f)) \<and>
     (\<forall>a. (\<forall>p f. (p, f) \<in> D \<longrightarrow> \<not> same_page a (phys_to_virt p)) \<longrightarrow> translation s' r a = translation s r a)"

definition taken :: "'a kstate_scheme \<Rightarrow> 'a kstate_scheme \<Rightarrow> u64 \<Rightarrow> u64 list \<Rightarrow> bool" where
  "taken s s' r xs \<longleftrightarrow> (\<exists>n\<le>length xs. vm_inv s' r (drop n xs) \<and> tables (kmem s') r = tables (kmem s) r \<union> set (take n xs))"

lemma same_page_sym: "same_page a b \<longleftrightarrow> same_page b a" and same_page_trans: "same_page a b \<Longrightarrow> same_page b c \<Longrightarrow> same_page a c"
  by (auto simp: same_page_def)

lemma extended_insert:
  assumes ex: "extended s s1 r D" and new: "translation s1 r (phys_to_virt p) = None"
    and s2: "translation s2 r = (\<lambda>b. if same_page b (phys_to_virt p) then Some (leaf_pte p f) else translation s1 r b)"
  shows "extended s s2 r (insert (p, f) D)"
proof -
  have "\<not> same_page a (phys_to_virt p)" if "(q, g) \<in> D" "same_page a (phys_to_virt q)" for q g a
  proof
    assume "same_page a (phys_to_virt p)"
    then have "same_page (phys_to_virt p) (phys_to_virt q)" using that(2) same_page_sym same_page_trans by blast
    then show False using ex that(1) new by (simp add: extended_def)
  qed
  note apart = this
  show ?thesis unfolding extended_def
  proof (intro conjI allI impI)
    fix q g a assume "(q, g) \<in> insert (p, f) D \<and> same_page a (phys_to_virt q)"
    then show "translation s2 r a = Some (leaf_pte q g)" using apart [of q g a] ex by (auto simp: s2 extended_def)
  next
    fix a assume a: "\<forall>q g. (q, g) \<in> insert (p, f) D \<longrightarrow> \<not> same_page a (phys_to_virt q)"
    then have "translation s1 r a = translation s r a" using ex unfolding extended_def by blast
    then show "translation s2 r a = translation s r a" using a by (simp add: s2)
  qed
qed

lemma taken_map:
  assumes tk: "taken s s1 (root t) xs" and p: "direct_page p" and f: "valid_leaf_flags f"
    and res: "vm_map (Some t) (phys_to_virt p) p f s1 = (ok, s2)"
  shows "taken s s2 (root t) xs"
    and "ok \<Longrightarrow> translation s1 (root t) (phys_to_virt p) = None \<and> translation s2 (root t) =
      (\<lambda>b. if same_page b (phys_to_virt p) then Some (leaf_pte p f) else translation s1 (root t) b)"
    and "ok \<Longrightarrow> trimmed (kmem s1) (root t) \<Longrightarrow> trimmed (kmem s2) (root t)"
proof -
  obtain n where n: "n \<le> length xs" "vm_inv s1 (root t) (drop n xs)"
    "tables (kmem s1) (root t) = tables (kmem s) (root t) \<union> set (take n xs)" using tk by (auto simp: taken_def)
  note args = direct_page_args [OF p]
  obtain k where k: "k \<le> length (drop n xs)" "vm_inv s2 (root t) (drop k (drop n xs))"
    "tables (kmem s2) (root t) = tables (kmem s1) (root t) \<union> set (take k (drop n xs))"
    and tr: "ok \<Longrightarrow> translation s1 (root t) (phys_to_virt p) = None \<and> translation s2 (root t) =
      (\<lambda>b. if same_page b (phys_to_virt p) then Some (leaf_pte p f) else translation s1 (root t) b)"
    by (rule vm_map_obtain [OF n(2) args f res]) auto
  show "ok \<Longrightarrow> translation s1 (root t) (phys_to_virt p) = None \<and> translation s2 (root t) =
      (\<lambda>b. if same_page b (phys_to_virt p) then Some (leaf_pte p f) else translation s1 (root t) b)" by (rule tr)
  have "n + k \<le> length xs" using n(1) k(1) by simp
  moreover have "tables (kmem s2) (root t) = tables (kmem s) (root t) \<union> set (take (n + k) xs)"
    using n(3) k(3) by (simp add: take_add Un_assoc)
  ultimately show "taken s s2 (root t) xs" using k(2) unfolding taken_def by (auto simp: add.commute)
  show "trimmed (kmem s2) (root t)" if ok "trimmed (kmem s1) (root t)"
    using vm_map_trimmed(1) [OF n(2) args f res that(2,1)] .
qed

definition built :: "'a kstate_scheme \<Rightarrow> 'a kstate_scheme \<Rightarrow> u64 \<Rightarrow> u64 list \<Rightarrow> (u64 \<times> u64) set \<Rightarrow> bool" where
  "built s s' r xs D \<longleftrightarrow> taken s s' r xs \<and> extended s s' r D \<and> trimmed (kmem s') r"

definition seq_entries :: "kernel_image \<Rightarrow> bool \<Rightarrow> u64 set \<Rightarrow> (u64 \<times> u64) set" where
  "seq_entries img ram P = {(p, page_flags img ram p) |p. p \<in> P \<and> phys_to_virt p \<noteq> boot_stack_guard img}"

lemma map_pages_returns:
  assumes "unat e = unat b + 4096 * k" "\<forall>p\<in>set (page_seq b k). direct_page p" "built s s1 (root t) xs D"
  shows "\<exists>ok s'. map_pages img (Some t) ram b e s1 = Some (ok, s') \<and> taken s s' (root t) xs \<and>
    (ok \<longrightarrow> built s s' (root t) xs (D \<union> seq_entries img ram (set (page_seq b k))))"
  using assms
proof (induction k arbitrary: b s1 D)
  case 0
  then have "\<not> b < e" by (simp add: word_less_nat_alt)
  then show ?case using "0.prems"(3) by (subst map_pages.simps) (auto simp: built_def seq_entries_def)
next
  case (Suc k)
  have lt: "b < e" using Suc.prems(1) by (simp add: word_less_nat_alt)
  have n: "unat (b + PAGE_SIZE) = unat b + 4096"
    using Suc.prems(1) unat_u64 [of e] by (intro unat_next_page) simp
  have e: "unat e = unat (b + PAGE_SIZE) + 4096 * k" using Suc.prems(1) n by simp
  have dp: "direct_page b" "\<forall>p\<in>set (page_seq (b + PAGE_SIZE) k). direct_page p" using Suc.prems(2) by simp_all
  let ?f = "page_flags img ram b"
  have v: "KERNEL_DIRECT_BASE + b = phys_to_virt b" by (simp add: phys_to_virt_def)
  show ?case
  proof (cases "phys_to_virt b = boot_stack_guard img")
    case True
    then have "map_pages img (Some t) ram b e s1 = map_pages img (Some t) ram (b + PAGE_SIZE) e s1"
      using lt by (subst map_pages.simps) (simp add: v Let_def)
    moreover have "seq_entries img ram (set (page_seq b (Suc k))) = seq_entries img ram (set (page_seq (b + PAGE_SIZE) k))"
      using True by (auto simp: seq_entries_def)
    ultimately show ?thesis using Suc.IH [OF e dp(2) Suc.prems(3)] by simp
  next
    case False
    obtain ok1 s2 where res: "vm_map (Some t) (phys_to_virt b) b ?f s1 = (ok1, s2)" by fastforce
    have step: "map_pages img (Some t) ram b e s1 =
        (if ok1 then map_pages img (Some t) ram (b + PAGE_SIZE) e s2 else Some (False, s2))"
      using lt False res by (subst map_pages.simps) (simp add: v Let_def page_flags_def)
    have tk: "taken s s1 (root t) xs" using Suc.prems(3) by (simp add: built_def)
    note tm = taken_map [OF tk dp(1) page_flags_valid res]
    have ins: "seq_entries img ram (set (page_seq b (Suc k))) = insert (b, ?f) (seq_entries img ram (set (page_seq (b + PAGE_SIZE) k)))"
      using False by (auto simp: seq_entries_def)
    show ?thesis
    proof (cases ok1)
      case True
      then have "built s s2 (root t) xs (insert (b, ?f) D)"
        using tm Suc.prems(3) extended_insert [of s s1 "root t" D b s2 ?f] by (simp add: built_def)
      from Suc.IH [OF e dp(2) this] show ?thesis using True step ins by simp
    qed (use step tm(1) in auto)
  qed
qed

text \<open>The pages a range covers, rounded outwards.\<close>

definition covers :: "physical_range \<Rightarrow> u64 \<Rightarrow> bool" where
  "covers r p \<longleftrightarrow> page_aligned p \<and> unat (rbase r) < unat p + 4096 \<and> unat p < unat (rbase r) + unat (rsize r)"

definition low_range :: "physical_range \<Rightarrow> bool" where
  "low_range r \<longleftrightarrow> unat (rbase r) + unat (rsize r) \<le> 2 ^ 38"

lemma covered_pages:
  assumes "low_range r"
  defines "b \<equiv> rbase r AND NOT PAGE_MASK" and "e \<equiv> (rbase r + rsize r + PAGE_MASK) AND NOT PAGE_MASK"
  shows "\<exists>k. unat e = unat b + 4096 * k \<and> (\<forall>p. p \<in> set (page_seq b k) \<longleftrightarrow> covers r p)"
proof -
  define v where "v = unat (rbase r)"
  define w where "w = unat (rbase r) + unat (rsize r)"
  have vw: "v \<le> w" "w \<le> 2 ^ 38" using assms(1) by (simp_all add: v_def w_def low_range_def)
  have re: "unat (rbase r + rsize r) = w" using vw by (simp add: w_def unat_word_ariths)
  have "unat (rbase r + rsize r + PAGE_MASK) = w + 4095" using vw re by (simp add: unat_word_ariths unat_PAGE_MASK)
  then have ue: "unat e = 4096 * ((w + 4095) div 4096)" unfolding e_def by (simp add: unat_and_not_PAGE_MASK)
  have ub: "unat b = 4096 * (v div 4096)" unfolding b_def by (simp add: unat_and_not_PAGE_MASK v_def)
  let ?k = "(w + 4095) div 4096 - v div 4096"
  have le: "v div 4096 \<le> (w + 4095) div 4096" using vw(1) by (simp add: div_le_mono)
  have k: "unat e = unat b + 4096 * ?k" unfolding ue ub using le by (simp add: diff_mult_distrib2)
  have cov: "covers r p \<longleftrightarrow> (\<exists>a. unat p = 4096 * a \<and> v div 4096 \<le> a \<and> a < (w + 4095) div 4096)" for p
  proof -
    have "covers r p \<longleftrightarrow> (\<exists>a. unat p = 4096 * a \<and> v < 4096 * a + 4096 \<and> 4096 * a < w)"
      by (auto simp: covers_def page_aligned_iff_dvd v_def w_def dvd_def)
    moreover have "v < 4096 * a + 4096 \<longleftrightarrow> v div 4096 \<le> a" "4096 * a < w \<longleftrightarrow> a < (w + 4095) div 4096" for a by linarith+
    ultimately show ?thesis by simp
  qed
  have "p \<in> set (page_seq b ?k) \<longleftrightarrow> covers r p" for p
  proof -
    have "p \<in> set (page_seq b ?k) \<longleftrightarrow> (\<exists>i<?k. unat p = unat b + 4096 * i)"
      by (rule set_page_seq) (use k unat_u64 [of e] in simp)
    also have "\<dots> \<longleftrightarrow> (\<exists>a. unat p = 4096 * a \<and> v div 4096 \<le> a \<and> a < (w + 4095) div 4096)"
      unfolding ub by (rule shift_multiples)
    finally show ?thesis by (simp add: cov)
  qed
  then show ?thesis using k by blast
qed

lemma covers_direct: "low_range r \<Longrightarrow> covers r p \<Longrightarrow> direct_page p"
  by (auto simp: low_range_def covers_def direct_page_def word_less_nat_alt)

lemma map_physical_range_returns:
  assumes low: "low_range r" and b: "built s s1 (root t) xs D"
  shows "\<exists>ok s'. map_physical_range img (Some t) ram r s1 = Some (ok, s') \<and> taken s s' (root t) xs \<and>
    (ok \<longrightarrow> built s s' (root t) xs (D \<union> seq_entries img ram {p. covers r p}))"
proof -
  have "unat (- 1 - rsize r) = 2 ^ 64 - 1 - unat (rsize r)"
    using unat_u64 [of "rsize r"] by (simp add: unat_sub_if_size word_size unsigned_minus_1_eq_mask mask_eq_exp_minus_1)
  then have g1: "\<not> rbase r > - 1 - rsize r" using low by (simp add: word_less_nat_alt low_range_def)
  have "unat (rbase r + rsize r) = unat (rbase r) + unat (rsize r)"
    using low by (simp add: low_range_def unat_word_ariths)
  moreover have "unat (- 1 - PAGE_MASK) = 2 ^ 64 - 4096" by (simp add: PAGE_MASK_def PAGE_SIZE_def)
  ultimately have g2: "\<not> rbase r + rsize r > - 1 - PAGE_MASK" using low by (simp add: word_less_nat_alt low_range_def)
  obtain k where k: "unat ((rbase r + rsize r + PAGE_MASK) AND NOT PAGE_MASK) = unat (rbase r AND NOT PAGE_MASK) + 4096 * k"
    "\<And>p. p \<in> set (page_seq (rbase r AND NOT PAGE_MASK) k) \<longleftrightarrow> covers r p" using covered_pages [OF low] by blast
  have pages: "set (page_seq (rbase r AND NOT PAGE_MASK) k) = {p. covers r p}" using k(2) by auto
  have "\<forall>p\<in>set (page_seq (rbase r AND NOT PAGE_MASK) k). direct_page p" using k(2) covers_direct [OF low] by blast
  from map_pages_returns [OF k(1) this b, of img ram] show ?thesis
    using g1 g2 by (simp add: map_physical_range_def Let_def pages)
qed

definition range_entries :: "kernel_image \<Rightarrow> (bool \<times> physical_range) list \<Rightarrow> (u64 \<times> u64) set" where
  "range_entries img rs = (\<Union>(ram, r)\<in>set rs. seq_entries img ram {p. covers r p})"

lemma map_ranges_returns:
  assumes "\<forall>(ram, r)\<in>set rs. low_range r" "built s s1 (root t) xs D"
  shows "\<exists>ok s'. map_ranges img (Some t) rs s1 = Some (ok, s') \<and> taken s s' (root t) xs \<and>
    (ok \<longrightarrow> built s s' (root t) xs (D \<union> range_entries img rs))"
  using assms
proof (induction rs arbitrary: s1 D)
  case Nil
  then show ?case by (auto simp: built_def range_entries_def)
next
  case (Cons x rs)
  obtain ram r where x: "x = (ram, r)" by fastforce
  have "low_range r" using Cons.prems(1) x by simp
  from map_physical_range_returns [OF this Cons.prems(2), of img ram]
  obtain ok s2 where step: "map_physical_range img (Some t) ram r s1 = Some (ok, s2)" "taken s s2 (root t) xs"
    "ok \<longrightarrow> built s s2 (root t) xs (D \<union> seq_entries img ram {p. covers r p})" by blast
  show ?case
  proof (cases ok)
    case True
    moreover have "D \<union> range_entries img (x # rs) = (D \<union> seq_entries img ram {p. covers r p}) \<union> range_entries img rs"
      by (auto simp: range_entries_def x)
    ultimately show ?thesis using Cons.IH [of s2] Cons.prems(1) step x by simp
  qed (use step x in auto)
qed

section \<open>The kernel's table\<close>

text \<open>What the kernel's table should translate: entry \<open>leaf_pte p f\<close> at the direct-map address of every
  page \<open>p\<close> of a RAM or device range but the guard page, and nothing else.\<close>

definition kernel_map :: "kernel_image \<Rightarrow> boot_info \<Rightarrow> (u64 \<Rightarrow> u64 option) \<Rightarrow> bool" where
  "kernel_map img info tr \<longleftrightarrow> (\<forall>a e. tr a = Some e \<longleftrightarrow>
     (\<exists>ram r p. (ram, r) \<in> set (kernel_ranges info) \<and> covers r p \<and> phys_to_virt p \<noteq> boot_stack_guard img \<and>
        same_page a (phys_to_virt p) \<and> e = leaf_pte p (page_flags img ram p)))"

lemma extended_kernel_map:
  assumes "extended s s' r (range_entries img (kernel_ranges info))" "translation s r = (\<lambda>_. None)"
  shows "kernel_map img info (translation s' r)"
proof -
  let ?D = "range_entries img (kernel_ranges info)"
  have D: "(p, f) \<in> ?D \<longleftrightarrow> (\<exists>ram r. (ram, r) \<in> set (kernel_ranges info) \<and> covers r p \<and>
      phys_to_virt p \<noteq> boot_stack_guard img \<and> f = page_flags img ram p)" for p f
    by (auto simp: range_entries_def seq_entries_def)
  have "translation s' r a = Some e \<longleftrightarrow> (\<exists>p f. (p, f) \<in> ?D \<and> same_page a (phys_to_virt p) \<and> e = leaf_pte p f)" for a e
  proof (cases "\<exists>p f. (p, f) \<in> ?D \<and> same_page a (phys_to_virt p)")
    case True
    have hit: "translation s' r a = Some (leaf_pte p f)" if "(p, f) \<in> ?D" "same_page a (phys_to_virt p)" for p f
      using assms(1) that unfolding extended_def by blast
    obtain p f where "(p, f) \<in> ?D" "same_page a (phys_to_virt p)" using True by blast
    then show ?thesis using hit by (metis option.inject)
  next
    case False
    then have "translation s' r a = translation s r a" using assms(1) unfolding extended_def by blast
    then show ?thesis using False assms(2) by auto
  qed
  then show ?thesis unfolding kernel_map_def D by blast
qed

lemma taken_all:
  assumes "taken s s' r xs" "tables (kmem s) r = {r}" "r \<notin> set xs"
  obtains zs where "vm_inv s' r zs" "set zs \<union> tables (kmem s') r = insert r (set xs)"
proof -
  obtain n where n: "vm_inv s' r (drop n xs)" "tables (kmem s') r = insert r (set (take n xs))"
    using assms(1,2) by (auto simp: taken_def)
  have "set xs = set (take n xs) \<union> set (drop n xs)" by (metis append_take_drop_id set_append)
  then show thesis using that [OF n(1)] n(2) by auto
qed

lemma vm_build_kernel_returns:
  assumes "page_inv s xs" "\<forall>(ram, r)\<in>set (kernel_ranges info). low_range r"
  shows "\<exists>ok t' s' zs. vm_build_kernel img (Some t) (Some info) s = Some (ok, Some t', s') \<and> page_inv s' zs \<and>
    (ok \<longrightarrow> vm_inv s' (root t') zs \<and> set zs \<union> tables (kmem s') (root t') = set xs \<and>
      trimmed (kmem s') (root t') \<and> kernel_map img info (translation s' (root t'))) \<and>
    (\<not> ok \<longrightarrow> root t' = 0 \<and> set zs = set xs)"
proof (cases xs)
  case Nil
  then show ?thesis using assms(1) vm_create_fails [of s t] by (auto simp: vm_build_kernel_def)
next
  case (Cons x ys)
  then have pg: "page_inv s (x # ys)" using assms(1) by simp
  obtain s1 where s1: "vm_create (Some t) s = (True, Some (t\<lparr>root := x\<rparr>), s1)" "vm_inv s1 x ys" "trimmed (kmem s1) x"
    "translation s1 x = (\<lambda>_. None)" "tables (kmem s1) x = {x}" by (rule vm_create_works [OF pg, of t])
  let ?t = "t\<lparr>root := x\<rparr>" and ?rs = "kernel_ranges info"
  have nx: "x \<notin> set ys" using palloc.inv_valid [OF pg] by simp
  have "taken s1 s1 (root ?t) ys" using s1(2) by (auto simp: taken_def intro: exI [of _ 0])
  then have "built s1 s1 (root ?t) ys {}" using s1(3) by (simp add: built_def extended_def)
  from map_ranges_returns [OF assms(2) this, of img]
  obtain ok s2 where s2: "map_ranges img (Some ?t) ?rs s1 = Some (ok, s2)" "taken s1 s2 x ys"
    "ok \<longrightarrow> built s1 s2 x ys (range_entries img ?rs)" by auto
  obtain zs where zs: "vm_inv s2 x zs" "set zs \<union> tables (kmem s2) x = insert x (set ys)"
    by (rule taken_all [OF s2(2) s1(5) nx])
  show ?thesis
  proof (cases ok)
    case True
    then have "kernel_map img info (translation s2 x)" "trimmed (kmem s2) x"
      using s2(3) extended_kernel_map [OF _ s1(4)] by (simp_all add: built_def)
    moreover have "vm_build_kernel img (Some t) (Some info) s = Some (True, Some ?t, s2)"
      using s1(1) s2(1) True by (simp add: vm_build_kernel_def)
    ultimately show ?thesis using zs Cons by (auto simp: vm_inv_def)
  next
    case False
    have inv: "vm_inv s2 (root ?t) zs" using zs(1) by simp
    obtain s3 where s3: "vm_destroy (Some ?t) s2 = (Some (?t\<lparr>root := 0\<rparr>), s3)"
      using vm_destroy_released(1) [OF inv] by (metis prod.collapse)
    obtain ws where ws: "page_inv s3 (ws @ zs)" "set ws = tables (kmem s2) x"
      using vm_destroy_released(2) [OF inv] s3 by (auto simp: released_def)
    have "vm_build_kernel img (Some t) (Some info) s = Some (False, Some (?t\<lparr>root := 0\<rparr>), s3)"
      using s1(1) s2(1) s3 False by (simp add: vm_build_kernel_def)
    moreover have "set (ws @ zs) = set xs" using ws(2) zs(2) Cons by auto
    ultimately show ?thesis using ws(1) by (intro exI [of _ False] exI [of _ "?t\<lparr>root := 0\<rparr>"]) auto
  qed
qed


text \<open>The board of the witnesses: no RAM to map, only the test finisher's page.\<close>

definition bare_board :: boot_info where
  "bare_board = small_board\<lparr>memory := [], uart_present := False, plic_present := False\<rparr>"

definition tiny_image :: kernel_image where
  "tiny_image = \<lparr>text_start = phys_to_virt 0x80000000, text_end = phys_to_virt 0x80000400,
     rodata_start = phys_to_virt 0x80001000, rodata_end = phys_to_virt 0x80001400, boot_stack_guard = phys_to_virt 0x80002000\<rparr>"

lemma bare_ranges: "kernel_ranges bare_board = [(False, \<lparr>rbase = 0x100000, rsize = PAGE_SIZE\<rparr>)]"
  by (simp add: kernel_ranges_def bare_board_def small_board_def)

lemma bare_low: "\<forall>(ram, r)\<in>set (kernel_ranges bare_board). low_range r"
  by (simp add: bare_ranges low_range_def PAGE_SIZE_def)

lemma finisher_page: "direct_page 0x100000" "phys_to_virt 0x100000 \<noteq> boot_stack_guard tiny_image"
  by (simp_all add: direct_page_def page_aligned_def PAGE_MASK_def PAGE_SIZE_def tiny_image_def)

lemma bare_build:
  obtains s' where "vm_build_kernel tiny_image (Some \<lparr>root = 0\<rparr>) (Some bare_board) three_pages = Some (True, Some empty_table, s')"
    "vm_map (Some empty_table) (phys_to_virt 0x100000) 0x100000 (PTE_R OR PTE_W OR PTE_G) table_state = (True, s')"
proof -
  let ?f = "PTE_R OR PTE_W OR PTE_G"
  have f: "valid_leaf_flags ?f" by (simp add: valid_leaf_flags_def pte_bits)
  have create: "vm_create (Some \<lparr>root = 0\<rparr>) three_pages = (True, Some empty_table, table_state)"
    by (rule vm_create_works [OF three_pages_inv, of "\<lparr>root = 0\<rparr>"]) (simp add: table_state_def empty_table_def)
  have "fst (vm_map (Some empty_table) (phys_to_virt 0x100000) 0x100000 ?f table_state)"
    using table_state_inv(3)
    by (intro vm.map_succeeds [OF table_state_inv(1) direct_page_args [OF finisher_page(1)] f]) simp_all
  then obtain s' where s': "vm_map (Some empty_table) (phys_to_virt 0x100000) 0x100000 ?f table_state = (True, s')"
    by (metis prod.collapse)
  have "map_pages tiny_image (Some empty_table) False (0x100000 + PAGE_SIZE) 0x101000 s' = Some (True, s')"
    by (subst map_pages.simps) (simp add: PAGE_SIZE_def)
  then have "map_pages tiny_image (Some empty_table) False 0x100000 0x101000 table_state = Some (True, s')"
    using s' finisher_page(2) by (subst map_pages.simps) (simp add: Let_def phys_to_virt_def)
  then have "map_ranges tiny_image (Some empty_table) (kernel_ranges bare_board) table_state = Some (True, s')"
    by (simp add: bare_ranges map_physical_range_def Let_def PAGE_MASK_def PAGE_SIZE_def)
  then show thesis using that [OF _ s'] create by (simp add: vm_build_kernel_def)
qed


text \<open>
  C28. The kernel's table respects W^X and the user boundary: whatever \<open>vm_query\<close> finds in it is not
  both writable and executable, is global, is not accessible to user mode, and is the direct
  mapping (the offset of the page in the direct map is its physical address).
\<close>

theorem vm_build_kernel_protects:
  assumes "page_inv s xs" "\<forall>(ram, r)\<in>set (kernel_ranges info). low_range r"
    and "vm_build_kernel img (Some t) (Some info) s = Some (True, Some t', s')" "canonical a"
    and "vm_query (Some t') a s' = Some (physical, flags)"
  shows "(flags AND PTE_W = 0 \<or> flags AND PTE_X = 0) \<and> flags AND PTE_U = 0 \<and> flags AND PTE_G \<noteq> 0 \<and>
    (\<exists>p. direct_page p \<and> same_page a (phys_to_virt p) \<and> physical = p OR (a AND PAGE_MASK))"
proof -
  obtain zs where inv: "vm_inv s' (root t') zs" and km: "kernel_map img info (translation s' (root t'))"
    using vm_build_kernel_returns [OF assms(1,2), of img t] assms(3) by auto
  obtain e where e: "translation s' (root t') a = Some e"
    using assms(5) vm_query_view [OF inv assms(4)] by (cases "translation s' (root t') a") (auto simp: leaf_view_def)
  then obtain ram r p where p: "(ram, r) \<in> set (kernel_ranges info)" "covers r p" "same_page a (phys_to_virt p)"
    "e = leaf_pte p (page_flags img ram p)" using km by (auto simp: kernel_map_def)
  have dp: "direct_page p" using p(1,2) assms(2) covers_direct by blast
  have "vm_query (Some t') a s' = Some (p OR (a AND PAGE_MASK), hardware_flags (page_flags img ram p))"
    using vm_query_view [OF inv assms(4)] e p(4) leaf_view_leaf [OF direct_page_args(3) [OF dp] page_flags_valid] by simp
  moreover have "(hardware_flags f AND PTE_W = 0 \<or> hardware_flags f AND PTE_X = 0) \<and> hardware_flags f AND PTE_U = 0 \<and>
      hardware_flags f AND PTE_G \<noteq> 0" if "f \<in> {PTE_R OR PTE_X OR PTE_G, PTE_R OR PTE_G, PTE_R OR PTE_W OR PTE_G}" for f
    using that by (auto simp: hardware_flags_def pte_bits)
  ultimately show ?thesis using assms(5) page_flags_cases [of img ram p] dp p(3) by auto
qed

theorem vm_build_kernel_protects_witness:
  "\<exists>s' flags. vm_build_kernel tiny_image (Some \<lparr>root = 0\<rparr>) (Some bare_board) three_pages = Some (True, Some empty_table, s') \<and>
     vm_query (Some empty_table) (phys_to_virt 0x100000) s' = Some (0x100000, flags) \<and>
     (flags AND PTE_W = 0 \<or> flags AND PTE_X = 0) \<and> flags AND PTE_U = 0"
proof -
  obtain s' where s': "vm_build_kernel tiny_image (Some \<lparr>root = 0\<rparr>) (Some bare_board) three_pages = Some (True, Some empty_table, s')"
    and map: "vm_map (Some empty_table) (phys_to_virt 0x100000) 0x100000 (PTE_R OR PTE_W OR PTE_G) table_state = (True, s')"
    by (rule bare_build)
  have f: "valid_leaf_flags (PTE_R OR PTE_W OR PTE_G)" by (simp add: valid_leaf_flags_def pte_bits)
  note args = direct_page_args [OF finisher_page(1)]
  have "phys_to_virt 0x100000 AND PAGE_MASK = 0" using args(2) by (simp add: page_aligned_def)
  then have q: "vm_query (Some empty_table) (phys_to_virt 0x100000) s' = Some (0x100000, hardware_flags (PTE_R OR PTE_W OR PTE_G))"
    using vm.map_query [OF table_state_inv(1) args f map args(1)] by (simp add: same_page_def)
  then show ?thesis
    using s' vm_build_kernel_protects [OF three_pages_inv bare_low s' args(1) q] by blast
qed

end
