(* ===== verification/Dtb.thy ===== *)
theory Dtb
  imports Boot_Info "HOL-Library.Monad_Syntax"
begin

text \<open>
  The device-tree parser, \<^verbatim>\<open>src/platform/dtb.c\<close>. The blob is the list of bytes readable at its
  address, and every read of it is checked: \<open>None\<close> as the result of a function is a read outside the
  bytes the code was given, so that returning \<open>Some\<close> is memory safety. A borrowed pointer with its
  length is the slice of bytes it stands for, \<open>NULL\<close> is \<open>None\<close>; a read through it is checked
  against the slice. Offsets and lengths are natural numbers: the header check bounds them all by
  \<open>FDT_MAX_SIZE\<close>, far below the width of \<^verbatim>\<open>size_t\<close>. Addresses are 64-bit words.

  A function that returns \<^verbatim>\<open>enum dtb_error\<close> and fills an output only on success has a sum as its
  result; one that updates the output as it goes returns the error with the updated output.
\<close>

datatype dtb_error = DTB_OK | DTB_ERR_ARGUMENT | DTB_ERR_MAGIC | DTB_ERR_VERSION | DTB_ERR_BOUNDS
  | DTB_ERR_STRUCTURE | DTB_ERR_PROPERTY | DTB_ERR_UNSUPPORTED | DTB_ERR_CAPACITY

definition FDT_MAGIC :: u32 where "FDT_MAGIC = 0xd00dfeed"
definition FDT_BEGIN_NODE :: u32 where "FDT_BEGIN_NODE = 1"
definition FDT_END_NODE :: u32 where "FDT_END_NODE = 2"
definition FDT_PROP :: u32 where "FDT_PROP = 3"
definition FDT_NOP :: u32 where "FDT_NOP = 4"
definition FDT_END :: u32 where "FDT_END = 9"
definition FDT_HEADER_SIZE :: nat where "FDT_HEADER_SIZE = 40"
definition FDT_SUPPORTED_VERSION :: u32 where "FDT_SUPPORTED_VERSION = 17"
definition FDT_MAX_SIZE :: nat where "FDT_MAX_SIZE = 16 * 1024 * 1024"
definition FDT_MAX_DEPTH :: nat where "FDT_MAX_DEPTH = 32"

lemmas fdt_tokens = FDT_BEGIN_NODE_def FDT_END_NODE_def FDT_PROP_def FDT_NOP_def FDT_END_def

record fdt_view =
  blob :: bytes
  total_size :: nat
  structure_offset :: nat
  structure_block :: bytes
  strings_offset :: nat
  strings_block :: bytes
  reservation_offset :: nat

record dt_node =
  nd_name :: bytes
  address_cells :: u32
  size_cells :: u32
  nd_ranges :: bytes
  nd_reg :: "bytes option"
  nd_compatible :: bytes
  device_type :: "bytes option"
  nd_status :: "bytes option"
  nd_interrupts :: "bytes option"
  nd_source_count :: "bytes option"
  ranges_present :: bool
  reserved_memory :: bool
  nd_cpus :: bool

section \<open>Reading bytes\<close>

definition byte_at :: "bytes \<Rightarrow> nat \<Rightarrow> u8 option" where
  "byte_at p i = (if i < length p then Some (p ! i) else None)"

definition bytes_at :: "bytes \<Rightarrow> nat \<Rightarrow> nat \<Rightarrow> bytes option" where
  "bytes_at p offset n = (if offset + n \<le> length p then Some (take n (drop offset p)) else None)"

definition read_be32 :: "bytes \<Rightarrow> nat \<Rightarrow> u32 option" where
  "read_be32 p i = do {
     a \<leftarrow> byte_at p i; b \<leftarrow> byte_at p (i + 1); c \<leftarrow> byte_at p (i + 2); d \<leftarrow> byte_at p (i + 3);
     Some (push_bit 24 (ucast a) OR push_bit 16 (ucast b) OR push_bit 8 (ucast c) OR ucast d) }"

definition read_be64 :: "bytes \<Rightarrow> nat \<Rightarrow> u64 option" where
  "read_be64 p i = do {
     high \<leftarrow> read_be32 p i; low \<leftarrow> read_be32 p (i + 4);
     Some (push_bit 32 (ucast high) OR ucast low) }"

definition range_within :: "nat \<Rightarrow> nat \<Rightarrow> nat \<Rightarrow> bool" where
  "range_within whole offset n \<longleftrightarrow> offset \<le> whole \<and> n \<le> whole - offset"

definition add_overflows_u64 :: "u64 \<Rightarrow> u64 \<Rightarrow> bool" where
  "add_overflows_u64 left right \<longleftrightarrow> left > - 1 - right"

definition regions_overlap :: "nat \<Rightarrow> nat \<Rightarrow> nat \<Rightarrow> nat \<Rightarrow> bool" where
  "regions_overlap first_offset first_size second_offset second_size \<longleftrightarrow>
     first_offset < second_offset + second_size \<and> second_offset < first_offset + first_size"

text \<open>The loops that look for a NUL: the first index from \<open>i\<close> on with a zero byte, or the length.\<close>

function scan_nul :: "bytes \<Rightarrow> nat \<Rightarrow> nat" where
  "scan_nul p i = (if i < length p \<and> p ! i \<noteq> 0 then scan_nul p (i + 1) else i)"
  by auto
termination by (relation "measure (\<lambda>(p, i). length p - i)") auto

declare scan_nul.simps [simp del]

text \<open>\<^verbatim>\<open>memcmp\<close> of a literal's bytes against the bytes at an offset, compared with zero.\<close>

definition memcmp_at :: "bytes \<Rightarrow> nat \<Rightarrow> bytes \<Rightarrow> bool option" where
  "memcmp_at p offset s = map_option (\<lambda>b. b = s) (bytes_at p offset (length s))"

definition bytes_equal_string :: "bytes \<Rightarrow> bytes \<Rightarrow> bool option" where
  "bytes_equal_string p s =
     (if length p = length s + 1 then do {
        z \<leftarrow> byte_at p (length s);
        if z = 0 then memcmp_at p 0 s else Some False }
      else Some False)"

definition name_equal :: "dt_node \<Rightarrow> bytes \<Rightarrow> bool option" where
  "name_equal n s = (if length (nd_name n) = length s then memcmp_at (nd_name n) 0 s else Some False)"

function compatible_from :: "bytes \<Rightarrow> bytes \<Rightarrow> nat \<Rightarrow> bool option" where
  "compatible_from p wanted offset =
     (if offset < length p then
        let stop = scan_nul p offset in
        if stop = length p then Some False
        else do {
          same \<leftarrow> if stop - offset = length wanted then memcmp_at p offset wanted else Some False;
          if same then Some True else compatible_from p wanted (stop + 1) }
      else Some False)"
  by auto

lemma scan_nul_ge: "i \<le> scan_nul p i"
proof (induction p i rule: scan_nul.induct)
  case (1 p i)
  then show ?case by (subst scan_nul.simps) auto
qed

lemma scan_nul_le: "i \<le> length p \<Longrightarrow> scan_nul p i \<le> length p"
proof (induction p i rule: scan_nul.induct)
  case (1 p i)
  then show ?case by (subst scan_nul.simps) auto
qed

termination compatible_from
proof (relation "measure (\<lambda>(p, wanted, i). length p - i)", goal_cases)
  case (2 p wanted offset stop same)
  then show ?case using scan_nul_ge [of offset p] by simp
qed simp

declare compatible_from.simps [simp del]

definition compatible_has :: "dt_node \<Rightarrow> bytes \<Rightarrow> bool option" where
  "compatible_has n wanted = compatible_from (nd_compatible n) wanted 0"

definition node_enabled :: "dt_node \<Rightarrow> bool option" where
  "node_enabled n =
     (case nd_status n of
        None \<Rightarrow> Some True
      | Some p \<Rightarrow> do {
          okay \<leftarrow> bytes_equal_string p (cstr ''okay'');
          if okay then Some True else bytes_equal_string p (cstr ''ok'') })"

section \<open>Cells and addresses\<close>

fun cells_value :: "bytes \<Rightarrow> nat \<Rightarrow> nat \<Rightarrow> u64 \<Rightarrow> u64 option" where
  "cells_value p offset 0 v = Some v"
| "cells_value p offset (Suc n) v = do {
     c \<leftarrow> read_be32 p offset;
     cells_value p (offset + 4) n (push_bit 32 v OR ucast c) }"

definition decode_cells :: "bytes \<Rightarrow> nat \<Rightarrow> u32 \<Rightarrow> (dtb_error + u64) option" where
  "decode_cells p offset cells =
     (if cells > 2 then Some (Inl DTB_ERR_UNSUPPORTED)
      else map_option Inr (cells_value p offset (unat cells) 0))"

text \<open>Go on with the value of a sum, or leave with its error.\<close>

definition and_then :: "('e + 'a) option \<Rightarrow> ('a \<Rightarrow> ('e + 'b) option) \<Rightarrow> ('e + 'b) option" where
  "and_then m f = (case m of None \<Rightarrow> None | Some (Inl e) \<Rightarrow> Some (Inl e) | Some (Inr v) \<Rightarrow> f v)"

text \<open>Go on while the error is \<open>DTB_OK\<close>, with the output as it stands.\<close>

definition while_ok :: "(dtb_error \<times> 'a) option \<Rightarrow> ('a \<Rightarrow> (dtb_error \<times> 'a) option) \<Rightarrow> (dtb_error \<times> 'a) option" where
  "while_ok m f = (case m of None \<Rightarrow> None | Some (e, x) \<Rightarrow> if e \<noteq> DTB_OK then Some (e, x) else f x)"

definition entry_offsets :: "nat \<Rightarrow> nat \<Rightarrow> nat list" where
  "entry_offsets whole step = map (\<lambda>i. i * step) [0..<whole div step]"

fun match_ranges :: "dt_node \<Rightarrow> dt_node \<Rightarrow> u64 \<Rightarrow> u64 \<Rightarrow> nat list \<Rightarrow> (dtb_error + u64) option" where
  "match_ranges bus parent n address [] = Some (Inl DTB_ERR_PROPERTY)"
| "match_ranges bus parent n address (offset # offsets) =
     and_then (decode_cells (nd_ranges bus) offset (address_cells bus)) (\<lambda>child_address.
     let offset = offset + unat (address_cells bus) * 4 in
     and_then (decode_cells (nd_ranges bus) offset (address_cells parent)) (\<lambda>parent_address.
     let offset = offset + unat (address_cells parent) * 4 in
     and_then (decode_cells (nd_ranges bus) offset (size_cells bus)) (\<lambda>range_size.
     if address \<ge> child_address \<and> n \<le> range_size \<and> address - child_address \<le> range_size - n then
       let displacement = address - child_address in
       if add_overflows_u64 parent_address displacement then Some (Inl DTB_ERR_PROPERTY)
       else Some (Inr (parent_address + displacement))
     else match_ranges bus parent n address offsets)))"

definition translate_bus :: "dt_node \<Rightarrow> dt_node \<Rightarrow> u64 \<Rightarrow> u64 \<Rightarrow> (dtb_error + u64) option" where
  "translate_bus bus parent n address =
     (if \<not> ranges_present bus then Some (Inl DTB_ERR_UNSUPPORTED)
      else if length (nd_ranges bus) = 0 then Some (Inr address)
      else if address_cells bus > 2 \<or> address_cells parent > 2 \<or> size_cells bus > 2 then Some (Inl DTB_ERR_UNSUPPORTED)
      else let entry_cells = unat (address_cells bus) + unat (address_cells parent) + unat (size_cells bus);
               entry_size = entry_cells * 4
        in if entry_size = 0 \<or> length (nd_ranges bus) mod entry_size \<noteq> 0 then Some (Inl DTB_ERR_PROPERTY)
           else match_ranges bus parent n address (entry_offsets (length (nd_ranges bus)) entry_size))"

fun translate_from :: "dt_node list \<Rightarrow> nat \<Rightarrow> u64 \<Rightarrow> u64 \<Rightarrow> (dtb_error + u64) option" where
  "translate_from nodes 0 n address = Some (Inr address)"
| "translate_from nodes (Suc bus_depth) n address =
     and_then (translate_bus (nodes ! Suc bus_depth) (nodes ! bus_depth) n address)
       (\<lambda>address. translate_from nodes bus_depth n address)"

definition translate_address :: "dt_node list \<Rightarrow> nat \<Rightarrow> u64 \<Rightarrow> u64 \<Rightarrow> (dtb_error + u64) option" where
  "translate_address nodes depth n address = translate_from nodes (depth - 1) n address"

definition add_range :: "physical_range list \<Rightarrow> nat \<Rightarrow> u64 \<Rightarrow> u64 \<Rightarrow> dtb_error \<times> physical_range list" where
  "add_range ranges capacity b n =
     (if n = 0 then (DTB_OK, ranges)
      else if add_overflows_u64 b n then (DTB_ERR_PROPERTY, ranges)
      else if length ranges = capacity then (DTB_ERR_CAPACITY, ranges)
      else (DTB_OK, ranges @ [\<lparr>rbase = b, rsize = n\<rparr>]))"

fun reg_tuples :: "dt_node list \<Rightarrow> nat \<Rightarrow> dt_node \<Rightarrow> bytes \<Rightarrow> nat \<Rightarrow> nat list \<Rightarrow> physical_range list \<Rightarrow>
    (dtb_error \<times> physical_range list) option" where
  "reg_tuples nodes depth parent reg capacity [] ranges = Some (DTB_OK, ranges)"
| "reg_tuples nodes depth parent reg capacity (offset # offsets) ranges = do {
     tuple \<leftarrow> and_then (decode_cells reg offset (address_cells parent)) (\<lambda>address.
       and_then (decode_cells reg (offset + unat (address_cells parent) * 4) (size_cells parent)) (\<lambda>n.
       and_then (translate_address nodes depth n address) (\<lambda>address. Some (Inr (address, n)))));
     case tuple of
       Inl e \<Rightarrow> Some (e, ranges)
     | Inr (address, n) \<Rightarrow>
         while_ok (Some (add_range ranges capacity address n))
           (reg_tuples nodes depth parent reg capacity offsets) }"

definition parse_reg :: "dt_node list \<Rightarrow> nat \<Rightarrow> nat \<Rightarrow> physical_range list \<Rightarrow> (dtb_error \<times> physical_range list) option" where
  "parse_reg nodes depth capacity ranges =
     (case nd_reg (nodes ! depth) of
        None \<Rightarrow> Some (DTB_ERR_PROPERTY, ranges)
      | Some reg \<Rightarrow>
          if depth = 0 then Some (DTB_ERR_STRUCTURE, ranges)
          else let parent = nodes ! (depth - 1) in
            if address_cells parent > 2 \<or> size_cells parent > 2 then Some (DTB_ERR_UNSUPPORTED, ranges)
            else let tuple_cells = unat (address_cells parent) + unat (size_cells parent);
                     tuple_size = tuple_cells * 4
              in if tuple_size = 0 \<or> length reg = 0 \<or> length reg mod tuple_size \<noteq> 0
                 then Some (DTB_ERR_PROPERTY, ranges)
                 else reg_tuples nodes depth parent reg capacity (entry_offsets (length reg) tuple_size) ranges)"

text \<open>The array of one entry that a single-window device passes: \<open>range\<close> with a count from zero.\<close>

definition parse_first_reg :: "dt_node list \<Rightarrow> nat \<Rightarrow> physical_range \<Rightarrow> (dtb_error \<times> physical_range) option" where
  "parse_first_reg nodes depth range0 = do {
     (e, ranges) \<leftarrow> parse_reg nodes depth 1 [];
     let window = (case ranges of [] \<Rightarrow> range0 | r # _ \<Rightarrow> r);
     if e \<noteq> DTB_OK then Some (e, window)
     else Some (if length ranges = 1 then DTB_OK else DTB_ERR_PROPERTY, window) }"

section \<open>What a finished node contributes\<close>

definition finish_memory :: "dt_node list \<Rightarrow> nat \<Rightarrow> bool \<Rightarrow> boot_info \<Rightarrow> (dtb_error \<times> boot_info) option" where
  "finish_memory nodes depth enabled info =
     (case (enabled, device_type (nodes ! depth)) of
        (True, Some p) \<Rightarrow> do {
          is_memory \<leftarrow> bytes_equal_string p (cstr ''memory'');
          if is_memory then do {
            (e, ranges) \<leftarrow> parse_reg nodes depth BOOT_MAX_MEMORY_RANGES (memory info);
            Some (e, info\<lparr>memory := ranges\<rparr>) }
          else Some (DTB_OK, info) }
      | _ \<Rightarrow> Some (DTB_OK, info))"

definition finish_reserved :: "dt_node list \<Rightarrow> nat \<Rightarrow> bool \<Rightarrow> boot_info \<Rightarrow> (dtb_error \<times> boot_info) option" where
  "finish_reserved nodes depth enabled info =
     (if enabled \<and> depth > 0 \<and> reserved_memory (nodes ! (depth - 1)) \<and> nd_reg (nodes ! depth) \<noteq> None
      then do {
        (e, ranges) \<leftarrow> parse_reg nodes depth BOOT_MAX_RESERVED_RANGES (reserved info);
        Some (e, info\<lparr>reserved := ranges\<rparr>) }
      else Some (DTB_OK, info))"

text \<open>The optional single-cell interrupt number of a device; the old value when there is none.\<close>

definition node_irq :: "dt_node \<Rightarrow> u32 \<Rightarrow> (dtb_error + u32) option" where
  "node_irq n old =
     (case nd_interrupts n of
        None \<Rightarrow> Some (Inr old)
      | Some p \<Rightarrow> if length p \<noteq> 4 then Some (Inl DTB_ERR_UNSUPPORTED) else map_option Inr (read_be32 p 0))"

definition finish_uart :: "dt_node list \<Rightarrow> nat \<Rightarrow> boot_info \<Rightarrow> (dtb_error \<times> boot_info) option" where
  "finish_uart nodes depth info = do {
     ns \<leftarrow> compatible_has (nodes ! depth) (cstr ''ns16550a'');
     is_uart \<leftarrow> if ns then Some True else compatible_has (nodes ! depth) (cstr ''sifive,uart0'');
     if \<not> is_uart then Some (DTB_OK, info)
     else if uart_present info then Some (DTB_ERR_CAPACITY, info)
     else do {
       (e, window) \<leftarrow> parse_first_reg nodes depth (uart info);
       let info = info\<lparr>uart := window\<rparr>;
       if e \<noteq> DTB_OK then Some (e, info)
       else do {
         irq \<leftarrow> node_irq (nodes ! depth) (uart_irq info);
         case irq of
           Inl e \<Rightarrow> Some (e, info)
         | Inr irq \<Rightarrow> Some (DTB_OK, info\<lparr>uart_irq := irq, uart_present := True\<rparr>) } } }"

definition finish_plic :: "dt_node list \<Rightarrow> nat \<Rightarrow> boot_info \<Rightarrow> (dtb_error \<times> boot_info) option" where
  "finish_plic nodes depth info = do {
     sifive \<leftarrow> compatible_has (nodes ! depth) (cstr ''sifive,plic-1.0.0'');
     is_plic \<leftarrow> if sifive then Some True else compatible_has (nodes ! depth) (cstr ''riscv,plic0'');
     if \<not> is_plic then Some (DTB_OK, info)
     else if plic_present info then Some (DTB_ERR_CAPACITY, info)
     else do {
       (e, window) \<leftarrow> parse_first_reg nodes depth (plic info);
       let info = info\<lparr>plic := window\<rparr>;
       if e \<noteq> DTB_OK then Some (e, info)
       else case nd_source_count (nodes ! depth) of
           None \<Rightarrow> Some (DTB_OK, info\<lparr>plic_present := True\<rparr>)
         | Some p \<Rightarrow>
             if length p \<noteq> 4 then Some (DTB_ERR_PROPERTY, info)
             else do {
               count \<leftarrow> read_be32 p 0;
               Some (DTB_OK, info\<lparr>plic_source_count := count, plic_present := True\<rparr>) } } }"

definition finish_virtio :: "dt_node list \<Rightarrow> nat \<Rightarrow> boot_info \<Rightarrow> (dtb_error \<times> boot_info) option" where
  "finish_virtio nodes depth info = do {
     is_virtio \<leftarrow> compatible_has (nodes ! depth) (cstr ''virtio,mmio'');
     if \<not> is_virtio then Some (DTB_OK, info)
     else if length (virtio info) = BOOT_MAX_VIRTIO_DEVICES then Some (DTB_ERR_CAPACITY, info)
     else do {
       (e, window) \<leftarrow> parse_first_reg nodes depth \<lparr>rbase = 0, rsize = 0\<rparr>;
       if e \<noteq> DTB_OK then Some (e, info)
       else do {
         irq \<leftarrow> node_irq (nodes ! depth) 0;
         case irq of
           Inl e \<Rightarrow> Some (e, info)
         | Inr irq \<Rightarrow> Some (DTB_OK, info\<lparr>virtio := virtio info @ [window], virtio_irqs := virtio_irqs info @ [irq]\<rparr>) } } }"

definition finish_node :: "dt_node list \<Rightarrow> nat \<Rightarrow> boot_info \<Rightarrow> (dtb_error \<times> boot_info) option" where
  "finish_node nodes depth info = do {
     enabled \<leftarrow> node_enabled (nodes ! depth);
     while_ok (finish_memory nodes depth enabled info) (\<lambda>info.
     while_ok (finish_reserved nodes depth enabled info) (\<lambda>info.
     if \<not> enabled then Some (DTB_OK, info)
     else while_ok (finish_uart nodes depth info) (\<lambda>info.
          while_ok (finish_plic nodes depth info) (\<lambda>info.
          finish_virtio nodes depth info)))) }"

section \<open>The header and the reservation table\<close>

definition validate_header :: "bytes \<Rightarrow> (dtb_error + fdt_view) option" where
  "validate_header p = do {
     magic \<leftarrow> read_be32 p 0;
     if magic \<noteq> FDT_MAGIC then Some (Inl DTB_ERR_MAGIC)
     else do {
       whole \<leftarrow> read_be32 p 4;
       structure_offset \<leftarrow> read_be32 p 8;
       strings_offset \<leftarrow> read_be32 p 12;
       reservation_offset \<leftarrow> read_be32 p 16;
       version \<leftarrow> read_be32 p 20;
       last_compatible_version \<leftarrow> read_be32 p 24;
       strings_size \<leftarrow> read_be32 p 32;
       structure_size \<leftarrow> read_be32 p 36;
       let whole = unat whole;
       let structure_offset = unat structure_offset;
       let strings_offset = unat strings_offset;
       let reservation_offset = unat reservation_offset;
       let strings_size = unat strings_size;
       let structure_size = unat structure_size;
       if version < FDT_SUPPORTED_VERSION \<or> last_compatible_version > FDT_SUPPORTED_VERSION
       then Some (Inl DTB_ERR_VERSION)
       else if whole < FDT_HEADER_SIZE \<or> whole > FDT_MAX_SIZE then Some (Inl DTB_ERR_BOUNDS)
       else if structure_offset < FDT_HEADER_SIZE \<or> strings_offset < FDT_HEADER_SIZE \<or>
         reservation_offset < FDT_HEADER_SIZE \<or>
         structure_offset mod 4 \<noteq> 0 \<or> reservation_offset mod 8 \<noteq> 0 \<or>
         \<not> range_within whole structure_offset structure_size \<or>
         \<not> range_within whole strings_offset strings_size \<or>
         \<not> range_within whole reservation_offset 16 \<or>
         regions_overlap structure_offset structure_size strings_offset strings_size
       then Some (Inl DTB_ERR_BOUNDS)
       else do {
         structure_bytes \<leftarrow> bytes_at p structure_offset structure_size;
         strings_bytes \<leftarrow> bytes_at p strings_offset strings_size;
         Some (Inr \<lparr>blob = p, total_size = whole,
           structure_offset = structure_offset, structure_block = structure_bytes,
           strings_offset = strings_offset, strings_block = strings_bytes,
           reservation_offset = reservation_offset\<rparr>) } } }"

function parse_reservations_from :: "fdt_view \<Rightarrow> nat \<Rightarrow> boot_info \<Rightarrow> (dtb_error \<times> boot_info) option" where
  "parse_reservations_from view offset info =
     (if \<not> range_within (total_size view) offset 16 \<or>
        regions_overlap offset 16 (structure_offset view) (length (structure_block view)) \<or>
        regions_overlap offset 16 (strings_offset view) (length (strings_block view))
      then Some (DTB_ERR_BOUNDS, info)
      else do {
        address \<leftarrow> read_be64 (blob view) offset;
        n \<leftarrow> read_be64 (blob view) (offset + 8);
        if address = 0 \<and> n = 0 then Some (DTB_OK, info)
        else let (e, ranges) = add_range (reserved info) BOOT_MAX_RESERVED_RANGES address n;
                 info = info\<lparr>reserved := ranges\<rparr>
          in if e \<noteq> DTB_OK then Some (e, info) else parse_reservations_from view (offset + 16) info })"
  by auto
termination
  by (relation "measure (\<lambda>(view, offset, info). total_size view - offset)") (auto simp: range_within_def)

declare parse_reservations_from.simps [simp del]

definition parse_reservations :: "fdt_view \<Rightarrow> boot_info \<Rightarrow> (dtb_error \<times> boot_info) option" where
  "parse_reservations view info = parse_reservations_from view (reservation_offset view) info"

section \<open>The structure block\<close>

text \<open>
  A property name is the pointer into the strings block, that is the rest of the block from its
  offset on; the check that a NUL follows is what lets \<open>string_equal\<close> stop inside it. The literal
  carries its own NUL.
\<close>

abbreviation clit :: "string \<Rightarrow> bytes" where "clit s \<equiv> map of_char s @ [0]"

definition property_name :: "fdt_view \<Rightarrow> u32 \<Rightarrow> dtb_error + bytes" where
  "property_name view offset =
     (if unat offset \<ge> length (strings_block view) then Inl DTB_ERR_BOUNDS
      else if scan_nul (strings_block view) (unat offset) < length (strings_block view)
      then Inr (drop (unat offset) (strings_block view))
      else Inl DTB_ERR_BOUNDS)"

fun string_equal :: "bytes \<Rightarrow> bytes \<Rightarrow> bool option" where
  "string_equal (l # left) (r # right) = (if l \<noteq> 0 \<and> l = r then string_equal left right else Some (l = r))"
| "string_equal _ _ = None"

definition one_cell :: "bytes \<Rightarrow> (dtb_error + u32) option" where
  "one_cell v = (if length v \<noteq> 4 then Some (Inl DTB_ERR_PROPERTY) else map_option Inr (read_be32 v 0))"

definition record_property :: "dt_node \<Rightarrow> bytes \<Rightarrow> bytes \<Rightarrow> boot_info \<Rightarrow> (dtb_error + dt_node \<times> boot_info) option" where
  "record_property n name v info = do {
     b \<leftarrow> string_equal name (clit ''#address-cells'');
     if b then and_then (one_cell v) (\<lambda>c. Some (Inr (n\<lparr>address_cells := c\<rparr>, info))) else do {
     b \<leftarrow> string_equal name (clit ''#size-cells'');
     if b then and_then (one_cell v) (\<lambda>c. Some (Inr (n\<lparr>size_cells := c\<rparr>, info))) else do {
     b \<leftarrow> string_equal name (clit ''ranges'');
     if b then Some (Inr (n\<lparr>nd_ranges := v, ranges_present := True\<rparr>, info)) else do {
     b \<leftarrow> string_equal name (clit ''reg'');
     if b then Some (Inr (n\<lparr>nd_reg := Some v\<rparr>, info)) else do {
     b \<leftarrow> string_equal name (clit ''compatible'');
     if b then Some (Inr (n\<lparr>nd_compatible := v\<rparr>, info)) else do {
     b \<leftarrow> string_equal name (clit ''device_type'');
     if b then Some (Inr (n\<lparr>device_type := Some v\<rparr>, info)) else do {
     b \<leftarrow> string_equal name (clit ''status'');
     if b then Some (Inr (n\<lparr>nd_status := Some v\<rparr>, info)) else do {
     b \<leftarrow> string_equal name (clit ''interrupts'');
     if b then Some (Inr (n\<lparr>nd_interrupts := Some v\<rparr>, info)) else do {
     b \<leftarrow> string_equal name (clit ''riscv,ndev'');
     if b then Some (Inr (n\<lparr>nd_source_count := Some v\<rparr>, info)) else do {
     b \<leftarrow> if nd_cpus n then string_equal name (clit ''timebase-frequency'') else Some False;
     if b then and_then (one_cell v) (\<lambda>c. Some (Inr (n, info\<lparr>timebase_frequency := ucast c\<rparr>)))
     else Some (Inr (n, info)) }}}}}}}}}}"

definition align4 :: "nat \<Rightarrow> nat" where
  "align4 offset = (offset + 3) div 4 * 4"

definition blank_node :: "bytes \<Rightarrow> dt_node" where
  "blank_node name = \<lparr>nd_name = name, address_cells = 2, size_cells = 1, nd_ranges = [], nd_reg = None,
     nd_compatible = [], device_type = None, nd_status = None, nd_interrupts = None,
     nd_source_count = None, ranges_present = False, reserved_memory = False, nd_cpus = False\<rparr>"

definition open_node :: "nat \<Rightarrow> bytes \<Rightarrow> dt_node option" where
  "open_node depth name = do {
     let n = blank_node name;
     r \<leftarrow> if depth = 1 then name_equal n (cstr ''reserved-memory'') else Some False;
     c \<leftarrow> if depth = 1 then name_equal n (cstr ''cpus'') else Some False;
     Some (n\<lparr>reserved_memory := r, nd_cpus := c\<rparr>) }"

text \<open>
  The state of the walk: the offset in the block, the nodes from the root to the current one (the
  entries \<open>0..depth\<close> of the stack array, so that \<open>depth\<close> is one less than their number), whether the
  root was seen, and the boot information. A token either ends the walk or moves it on.
\<close>

type_synonym walk_state = "nat \<times> dt_node list \<times> bool \<times> boot_info"

definition begin_node :: "fdt_view \<Rightarrow> walk_state \<Rightarrow> (dtb_error \<times> boot_info + walk_state) option" where
  "begin_node view w =
     (case w of (offset, nodes, saw_root, info) \<Rightarrow>
        if length nodes = FDT_MAX_DEPTH then Some (Inl (DTB_ERR_CAPACITY, info))
        else let name_start = offset; offset = scan_nul (structure_block view) offset in
          if offset = length (structure_block view) then Some (Inl (DTB_ERR_BOUNDS, info))
          else do {
            name \<leftarrow> bytes_at (structure_block view) name_start (offset - name_start);
            n \<leftarrow> open_node (length nodes) name;
            let offset = align4 (offset + 1);
            if length nodes = 0 then
              if saw_root \<or> length name \<noteq> 0 then Some (Inl (DTB_ERR_STRUCTURE, info))
              else Some (Inr (offset, nodes @ [n], True, info))
            else Some (Inr (offset, nodes @ [n], saw_root, info)) })"

definition end_node :: "fdt_view \<Rightarrow> walk_state \<Rightarrow> (dtb_error \<times> boot_info + walk_state) option" where
  "end_node view w =
     (case w of (offset, nodes, saw_root, info) \<Rightarrow>
        if nodes = [] then Some (Inl (DTB_ERR_STRUCTURE, info))
        else do {
          (e, info) \<leftarrow> finish_node nodes (length nodes - 1) info;
          if e \<noteq> DTB_OK then Some (Inl (e, info))
          else Some (Inr (offset, butlast nodes, saw_root, info)) })"

definition parse_property :: "fdt_view \<Rightarrow> walk_state \<Rightarrow> (dtb_error \<times> boot_info + walk_state) option" where
  "parse_property view w =
     (case w of (offset, nodes, saw_root, info) \<Rightarrow>
        if nodes = [] \<or> \<not> range_within (length (structure_block view)) offset 8
        then Some (Inl (DTB_ERR_STRUCTURE, info))
        else do {
          n \<leftarrow> read_be32 (structure_block view) offset;
          name_offset \<leftarrow> read_be32 (structure_block view) (offset + 4);
          let n = unat n;
          let offset = offset + 8;
          if \<not> range_within (length (structure_block view)) offset n then Some (Inl (DTB_ERR_BOUNDS, info))
          else case property_name view name_offset of
              Inl e \<Rightarrow> Some (Inl (e, info))
            | Inr name \<Rightarrow> do {
                v \<leftarrow> bytes_at (structure_block view) offset n;
                r \<leftarrow> record_property (last nodes) name v info;
                case r of
                  Inl e \<Rightarrow> Some (Inl (e, info))
                | Inr (tip, info) \<Rightarrow>
                    Some (Inr (align4 (offset + n), butlast nodes @ [tip], saw_root, info)) } })"

definition parse_token :: "fdt_view \<Rightarrow> u32 \<Rightarrow> walk_state \<Rightarrow> (dtb_error \<times> boot_info + walk_state) option" where
  "parse_token view token w =
     (case w of (offset, nodes, saw_root, info) \<Rightarrow>
        if token = FDT_BEGIN_NODE then begin_node view w
        else if token = FDT_END_NODE then end_node view w
        else if token = FDT_PROP then parse_property view w
        else if token = FDT_NOP then Some (Inr w)
        else if token = FDT_END
        then Some (Inl (if saw_root \<and> nodes = [] then DTB_OK else DTB_ERR_STRUCTURE, info))
        else Some (Inl (DTB_ERR_STRUCTURE, info)))"

lemma align4_ge: "n \<le> align4 n"
  by (simp add: align4_def)

lemma begin_node_offset:
  assumes "begin_node view (offset, nodes, saw_root, info) = Some (Inr (offset', rest))"
  shows "offset \<le> offset'"
proof -
  have "offset' = align4 (scan_nul (structure_block view) offset + 1)"
    using assms by (auto simp: begin_node_def Let_def bind_eq_Some_conv split: if_splits)
  then show ?thesis
    using scan_nul_ge [of offset "structure_block view"] align4_ge [of "scan_nul (structure_block view) offset + 1"] by linarith
qed

lemma parse_property_offset:
  assumes "parse_property view (offset, nodes, saw_root, info) = Some (Inr (offset', rest))"
  shows "offset \<le> offset'"
proof -
  obtain n where "offset' = align4 (offset + 8 + n)"
    using assms by (auto simp: parse_property_def Let_def bind_eq_Some_conv split: if_split_asm sum.split_asm prod.split_asm)
      (metis obj_sumE prod.exhaust)
  then show ?thesis using align4_ge [of "offset + 8 + n"] by linarith
qed

lemma parse_token_offset:
  assumes "parse_token view token (offset, nodes, saw_root, info) = Some (Inr (offset', rest))"
  shows "offset \<le> offset'"
  using assms begin_node_offset parse_property_offset
  by (auto simp: parse_token_def end_node_def bind_eq_Some_conv split: if_splits prod.splits)

function parse_walk :: "fdt_view \<Rightarrow> walk_state \<Rightarrow> (dtb_error \<times> boot_info) option" where
  "parse_walk view w =
     (case w of (offset, nodes, saw_root, info) \<Rightarrow>
        if range_within (length (structure_block view)) offset 4 then do {
          token \<leftarrow> read_be32 (structure_block view) offset;
          r \<leftarrow> parse_token view token (offset + 4, nodes, saw_root, info);
          case r of
            Inl result \<Rightarrow> Some result
          | Inr w \<Rightarrow> parse_walk view w }
        else Some (DTB_ERR_STRUCTURE, info))"
  by auto
termination
proof (relation "measure (\<lambda>(view, w). length (structure_block view) - fst w)", goal_cases)
  case (2 view w offset rest nodes rest' saw_root info token r w')
  then show ?case using parse_token_offset by (cases w') (fastforce simp: range_within_def)
qed simp

declare parse_walk.simps [simp del]

definition parse_structure :: "fdt_view \<Rightarrow> boot_info \<Rightarrow> (dtb_error \<times> boot_info) option" where
  "parse_structure view info = parse_walk view (0, [], False, info)"

definition empty_info :: boot_info where
  "empty_info = \<lparr>memory = [], reserved = [], uart = \<lparr>rbase = 0, rsize = 0\<rparr>, uart_irq = 0,
     plic = \<lparr>rbase = 0, rsize = 0\<rparr>, plic_source_count = 0, virtio = [], virtio_irqs = [],
     timebase_frequency = 0, dtb_base = 0, dtb_size = 0, uart_present = False, plic_present = False\<rparr>"

text \<open>The blob is its address with the bytes readable there; \<open>None\<close> is \<open>NULL\<close>, for both pointers.\<close>

definition dtb_parse :: "(u64 \<times> bytes) option \<Rightarrow> boot_info option \<Rightarrow> (dtb_error \<times> boot_info option) option" where
  "dtb_parse fdt output =
     (case output of
        None \<Rightarrow> Some (DTB_ERR_ARGUMENT, None)
      | Some _ \<Rightarrow>
          let info = empty_info in
          case fdt of
            None \<Rightarrow> Some (DTB_ERR_ARGUMENT, Some info)
          | Some (address, p) \<Rightarrow> do {
              header \<leftarrow> validate_header p;
              case header of
                Inl e \<Rightarrow> Some (e, Some info)
              | Inr view \<Rightarrow> do {
                  let info = info\<lparr>dtb_base := address, dtb_size := of_nat (total_size view)\<rparr>;
                  (e, info) \<leftarrow> while_ok (parse_reservations view info) (parse_structure view);
                  Some (e, Some info) } })"

fun dtb_error_string :: "dtb_error \<Rightarrow> string" where
  "dtb_error_string DTB_OK = ''ok''"
| "dtb_error_string DTB_ERR_ARGUMENT = ''invalid argument''"
| "dtb_error_string DTB_ERR_MAGIC = ''bad magic''"
| "dtb_error_string DTB_ERR_VERSION = ''unsupported version''"
| "dtb_error_string DTB_ERR_BOUNDS = ''out of bounds''"
| "dtb_error_string DTB_ERR_STRUCTURE = ''malformed structure''"
| "dtb_error_string DTB_ERR_PROPERTY = ''malformed property''"
| "dtb_error_string DTB_ERR_UNSUPPORTED = ''unsupported encoding''"
| "dtb_error_string DTB_ERR_CAPACITY = ''boot info capacity exceeded''"

end
