(* ===== verification/Dtb_Safe.thy ===== *)
theory Dtb_Safe
  imports Dtb
begin

text \<open>
  The device-tree parser on arbitrary input: it always returns, it never reads outside the bytes
  it was given, and what it leaves in the boot information respects the bounds of the arrays.
\<close>

named_theorems dtb_safe \<open>conditions under which a function of the parser reads in bounds\<close>

definition in_bounds :: "'a option \<Rightarrow> bool" where "in_bounds m \<longleftrightarrow> m \<noteq> None"

lemma in_bounds_Some [simp]: "in_bounds (Some x)" "\<not> in_bounds None"
  by (simp_all add: in_bounds_def)

lemma in_bounds_map [simp]: "in_bounds (map_option f m) = in_bounds m"
  by (simp add: in_bounds_def)

lemma in_bounds_if [simp]: "in_bounds (if b then x else y) \<longleftrightarrow> (if b then in_bounds x else in_bounds y)"
  by simp

lemma bind_SomeE:
  assumes "Option.bind m f = Some y"
  obtains x where "m = Some x" "f x = Some y"
  using assms by (cases m) auto

lemma bind_safe: "in_bounds (Option.bind m f) \<longleftrightarrow> in_bounds m \<and> (\<forall>x. m = Some x \<longrightarrow> in_bounds (f x))"
  by (cases m) (auto simp: in_bounds_def)

lemma and_then_safe: "in_bounds (and_then m f) \<longleftrightarrow> in_bounds m \<and> (\<forall>x. m = Some (Inr x) \<longrightarrow> in_bounds (f x))"
  by (auto simp: in_bounds_def and_then_def split: option.splits sum.splits)

lemma while_ok_safe: "in_bounds (while_ok m f) \<longleftrightarrow> in_bounds m \<and> (\<forall>x. m = Some (DTB_OK, x) \<longrightarrow> in_bounds (f x))"
  by (auto simp: in_bounds_def while_ok_def split: option.splits)

lemmas dtb_binds = bind_safe and_then_safe while_ok_safe

section \<open>Reads in bounds\<close>

lemma range_within_iff: "range_within whole offset n \<longleftrightarrow> offset + n \<le> whole"
  by (auto simp: range_within_def)

lemma read_be32_safe [dtb_safe]: "i + 4 \<le> length p \<Longrightarrow> in_bounds (read_be32 p i)"
  by (simp add: read_be32_def byte_at_def)

lemma read_be64_safe [dtb_safe]: "i + 8 \<le> length p \<Longrightarrow> in_bounds (read_be64 p i)"
  unfolding read_be64_def bind_safe by (simp add: dtb_safe)

lemma memcmp_at_safe [dtb_safe]: "offset + length s \<le> length p \<Longrightarrow> in_bounds (memcmp_at p offset s)"
  by (simp add: memcmp_at_def bytes_at_def)

lemma byte_at_safe [dtb_safe]: "i < length p \<Longrightarrow> in_bounds (byte_at p i)"
  by (simp add: byte_at_def)

lemma bytes_equal_string_safe [dtb_safe]: "in_bounds (bytes_equal_string p s)"
  by (simp add: bytes_equal_string_def bind_safe dtb_safe)

lemma name_equal_safe [dtb_safe]: "in_bounds (name_equal n s)"
  by (simp add: name_equal_def dtb_safe)

lemma compatible_from_safe: "in_bounds (compatible_from p wanted offset)"
proof (induction p wanted offset rule: compatible_from.induct)
  case (1 p wanted offset)
  show ?case
  proof (cases "offset < length p \<and> scan_nul p offset \<noteq> length p")
    case True
    then have le: "scan_nul p offset \<le> length p" by (simp add: scan_nul_le)
    let ?same = "if scan_nul p offset - offset = length wanted then memcmp_at p offset wanted else Some False"
    have "in_bounds ?same"
      using scan_nul_ge [of offset p] le by (auto intro!: memcmp_at_safe)
    then obtain same where "?same = Some same" unfolding in_bounds_def by blast
    then show ?thesis using 1 True by (subst compatible_from.simps) (simp add: Let_def)
  next
    case False
    then show ?thesis by (subst compatible_from.simps) (simp add: Let_def)
  qed
qed

lemma compatible_has_safe [dtb_safe]: "in_bounds (compatible_has n wanted)"
  by (simp add: compatible_has_def compatible_from_safe)

lemma node_enabled_safe [dtb_safe]: "in_bounds (node_enabled n)"
  unfolding node_enabled_def by (auto simp: bind_safe dtb_safe split: option.split)

lemma cells_value_safe [dtb_safe]: "offset + 4 * n \<le> length p \<Longrightarrow> in_bounds (cells_value p offset n v)"
proof (induction n arbitrary: offset v)
  case (Suc n)
  then show ?case by (simp add: bind_safe dtb_safe)
qed simp

lemma decode_cells_safe [dtb_safe]: "offset + unat cells * 4 \<le> length p \<Longrightarrow> in_bounds (decode_cells p offset cells)"
  using cells_value_safe [of offset "unat cells" p 0] by (simp add: decode_cells_def mult.commute)

lemma entry_offsets_bound:
  assumes "offset \<in> set (entry_offsets whole step)" "0 < step"
  shows "offset + step \<le> whole"
proof -
  obtain i where i: "i < whole div step" "offset = i * step"
    using assms(1) by (auto simp: entry_offsets_def)
  have "Suc i * step \<le> whole div step * step" using i(1) by (intro mult_le_mono1) simp
  also have "\<dots> \<le> whole" by (rule div_times_less_eq_dividend)
  finally show ?thesis using i(2) by (simp add: add.commute)
qed

lemma match_ranges_safe:
  assumes "\<And>offset. offset \<in> set offsets \<Longrightarrow>
      offset + (unat (address_cells bus) + unat (address_cells parent) + unat (size_cells bus)) * 4 \<le> length (nd_ranges bus)"
  shows "in_bounds (match_ranges bus parent n address offsets)"
  using assms
proof (induction offsets)
  case (Cons offset offsets)
  have "offset + (unat (address_cells bus) + unat (address_cells parent) + unat (size_cells bus)) * 4 \<le> length (nd_ranges bus)"
    using Cons.prems by simp
  moreover have "in_bounds (match_ranges bus parent n address offsets)" using Cons by simp
  ultimately show ?case by (auto simp: and_then_safe Let_def add_overflows_u64_def intro!: decode_cells_safe)
qed simp

lemma translate_bus_safe [dtb_safe]: "in_bounds (translate_bus bus parent n address)"
proof -
  let ?step = "(unat (address_cells bus) + unat (address_cells parent) + unat (size_cells bus)) * 4"
  have "in_bounds (match_ranges bus parent n address (entry_offsets (length (nd_ranges bus)) ?step))" if "?step \<noteq> 0"
    using that entry_offsets_bound by (intro match_ranges_safe) fastforce
  then show ?thesis by (simp add: translate_bus_def Let_def)
qed

lemma translate_from_safe [dtb_safe]: "in_bounds (translate_from nodes d n address)"
  by (induction d arbitrary: address) (simp_all add: and_then_safe dtb_safe)

lemma reg_tuples_safe:
  assumes "\<And>offset. offset \<in> set offsets \<Longrightarrow> offset + (unat (address_cells parent) + unat (size_cells parent)) * 4 \<le> length reg"
  shows "in_bounds (reg_tuples nodes depth parent reg capacity offsets ranges)"
  using assms
proof (induction offsets arbitrary: ranges)
  case (Cons offset offsets)
  have "offset + (unat (address_cells parent) + unat (size_cells parent)) * 4 \<le> length reg" using Cons.prems by simp
  moreover have "in_bounds (reg_tuples nodes depth parent reg capacity offsets ranges)" for ranges using Cons by simp
  ultimately show ?case
    by (auto simp: bind_safe and_then_safe while_ok_safe translate_address_def dtb_safe split: sum.split intro!: decode_cells_safe)
qed simp

lemma parse_reg_safe [dtb_safe]: "in_bounds (parse_reg nodes depth capacity ranges)"
proof (cases "nd_reg (nodes ! depth)")
  case (Some reg)
  let ?parent = "nodes ! (depth - 1)"
  let ?step = "(unat (address_cells ?parent) + unat (size_cells ?parent)) * 4"
  have "in_bounds (reg_tuples nodes depth ?parent reg capacity (entry_offsets (length reg) ?step) ranges)" if "?step \<noteq> 0"
    using that entry_offsets_bound by (intro reg_tuples_safe) fastforce
  then show ?thesis using Some by (simp add: parse_reg_def Let_def)
qed (simp add: parse_reg_def)

lemma parse_first_reg_safe [dtb_safe]: "in_bounds (parse_first_reg nodes depth r)"
  by (simp add: parse_first_reg_def bind_safe dtb_safe Let_def split_beta)

lemma node_irq_safe [dtb_safe]: "in_bounds (node_irq n old)"
  using read_be32_safe [of 0] by (auto simp: node_irq_def split: option.split)

lemma finish_node_safe [dtb_safe]: "in_bounds (finish_node nodes depth info)"
proof -
  have "in_bounds (finish_memory nodes depth enabled info)" for enabled info
    unfolding finish_memory_def by (auto simp: bind_safe dtb_safe split: option.split bool.split)
  moreover have "in_bounds (finish_reserved nodes depth enabled info)" for enabled info
    unfolding finish_reserved_def by (auto simp: bind_safe dtb_safe)
  moreover have "in_bounds (finish_uart nodes depth info)" for info
    unfolding finish_uart_def by (auto simp: bind_safe dtb_safe Let_def split: sum.split)
  moreover have "in_bounds (finish_plic nodes depth info)" for info
    unfolding finish_plic_def by (auto simp: bind_safe dtb_safe Let_def split: option.split)
  moreover have "in_bounds (finish_virtio nodes depth info)" for info
    unfolding finish_virtio_def by (auto simp: bind_safe dtb_safe split: sum.split)
  ultimately show ?thesis
    unfolding finish_node_def by (simp add: bind_safe while_ok_safe dtb_safe)
qed

section \<open>The header, the reservations and the walk\<close>

text \<open>
  What the caller has to provide: the header, and as many bytes as its size field declares.
\<close>

definition fdt_readable :: "bytes \<Rightarrow> bool" where
  "fdt_readable p \<longleftrightarrow> FDT_HEADER_SIZE \<le> length p \<and>
     (case read_be32 p 4 of None \<Rightarrow> False | Some n \<Rightarrow> unat n \<le> length p)"

definition view_ok :: "fdt_view \<Rightarrow> bool" where
  "view_ok view \<longleftrightarrow> total_size view \<le> length (blob view) \<and> total_size view \<le> FDT_MAX_SIZE"

lemma validate_header_safe:
  assumes "fdt_readable p"
  shows "in_bounds (validate_header p)"
proof -
  have len: "40 \<le> length p" using assms by (simp add: fdt_readable_def FDT_HEADER_SIZE_def)
  have "in_bounds (bytes_at p offset n)" if "range_within whole offset n" "whole \<le> length p" for whole offset n
    using that by (simp add: range_within_iff bytes_at_def)
  moreover have "unat whole \<le> length p" if "read_be32 p 4 = Some whole" for whole
    using assms that by (simp add: fdt_readable_def)
  ultimately show ?thesis using len
    unfolding validate_header_def by (auto simp: bind_safe dtb_safe Let_def)
qed

lemma validate_header_view:
  assumes "fdt_readable p" "validate_header p = Some (Inr view)"
  shows "view_ok view"
  using assms
  by (auto simp: validate_header_def fdt_readable_def view_ok_def bind_eq_Some_conv Let_def split: if_split_asm)

lemma parse_reservations_safe:
  assumes "view_ok view"
  shows "in_bounds (parse_reservations_from view offset info)"
  using assms
proof (induction view offset info rule: parse_reservations_from.induct)
  case (1 view offset info)
  show ?case
    using 1 by (subst parse_reservations_from.simps)
      (auto simp: bind_safe dtb_safe Let_def range_within_def view_ok_def split: prod.split)
qed

lemma string_equal_safe [dtb_safe]: "0 \<in> set left \<Longrightarrow> 0 \<in> set right \<Longrightarrow> in_bounds (string_equal left right)"
  by (induction left right rule: string_equal.induct) auto

lemma one_cell_safe [dtb_safe]: "in_bounds (one_cell v)"
  by (simp add: one_cell_def dtb_safe)

lemma record_property_safe [dtb_safe]:
  assumes "0 \<in> set name"
  shows "in_bounds (record_property n name v info)"
  unfolding record_property_def using assms by (simp add: bind_safe and_then_safe dtb_safe)

lemma scan_nul_nth: "scan_nul p i < length p \<Longrightarrow> p ! scan_nul p i = 0"
proof (induction p i rule: scan_nul.induct)
  case (1 p i)
  then show ?case by (subst scan_nul.simps, subst (asm) scan_nul.simps) (auto split: if_splits)
qed

lemma property_name_nul:
  assumes "property_name view offset = Inr name"
  shows "0 \<in> set name"
proof -
  let ?s = "strings_block view" and ?o = "unat offset"
  let ?i = "scan_nul ?s ?o"
  have i: "?i < length ?s" "name = drop ?o ?s" using assms by (auto simp: property_name_def split: if_splits)
  then have "name ! (?i - ?o) = 0" "?i - ?o < length name"
    using scan_nul_nth [OF i(1)] scan_nul_ge [of ?o ?s] by simp_all
  then show ?thesis by (metis nth_mem)
qed

lemma begin_node_safe: "offset \<le> length (structure_block view) \<Longrightarrow> in_bounds (begin_node view (offset, nodes, saw_root, info))"
  using scan_nul_ge [of offset "structure_block view"] scan_nul_le [of offset "structure_block view"]
  by (auto simp: begin_node_def bind_safe bytes_at_def open_node_def dtb_safe Let_def)

lemma parse_property_safe: "in_bounds (parse_property view (offset, nodes, saw_root, info))"
  using property_name_nul
  by (auto simp: parse_property_def bind_safe range_within_def bytes_at_def dtb_safe Let_def split: sum.split)

lemma parse_token_safe:
  "offset \<le> length (structure_block view) \<Longrightarrow> in_bounds (parse_token view token (offset, nodes, saw_root, info))"
  using begin_node_safe parse_property_safe
  by (auto simp: parse_token_def end_node_def bind_safe dtb_safe)

lemma parse_walk_safe: "in_bounds (parse_walk view w)"
proof (induction view w rule: parse_walk.induct)
  case (1 view w)
  obtain offset nodes saw_root info where w: "w = (offset, nodes, saw_root, info)" by (cases w)
  show ?case
  proof (cases "range_within (length (structure_block view)) offset 4")
    case True
    then have "offset + 4 \<le> length (structure_block view)" by (simp add: range_within_iff)
    then show ?thesis using 1 [OF w [symmetric] refl refl True] w True parse_token_safe
      by (subst parse_walk.simps) (auto simp: bind_safe dtb_safe split: sum.split)
  next
    case False
    then show ?thesis using w by (subst parse_walk.simps) simp
  qed
qed

section \<open>Bounds of the boot information\<close>

text \<open>
  A recorded range is not empty and its end is an address; an array holds at most its capacity.
\<close>

definition range_ok :: "physical_range \<Rightarrow> bool" where
  "range_ok r \<longleftrightarrow> rsize r \<noteq> 0 \<and> unat (rbase r) + unat (rsize r) < 2 ^ 64"

definition ranges_ok :: "nat \<Rightarrow> physical_range list \<Rightarrow> bool" where
  "ranges_ok capacity rs \<longleftrightarrow> length rs \<le> capacity \<and> list_all range_ok rs"

definition info_ok :: "boot_info \<Rightarrow> bool" where
  "info_ok info \<longleftrightarrow> ranges_ok BOOT_MAX_MEMORY_RANGES (memory info) \<and>
     ranges_ok BOOT_MAX_RESERVED_RANGES (reserved info) \<and>
     ranges_ok BOOT_MAX_VIRTIO_DEVICES (virtio info) \<and> length (virtio_irqs info) = length (virtio info) \<and>
     (uart_present info \<longrightarrow> range_ok (uart info)) \<and> (plic_present info \<longrightarrow> range_ok (plic info))"

lemma add_overflows_iff: "add_overflows_u64 b n \<longleftrightarrow> 2 ^ 64 \<le> unat b + unat n"
proof -
  have "unat (- 1 - n) = 2 ^ 64 - 1 - unat n"
    by (subst unat_sub) (simp_all add: unsigned_minus_1_eq_mask mask_eq_exp_minus_1)
  moreover have "unat n < 2 ^ 64" by (rule unat_u64)
  ultimately show ?thesis by (auto simp: add_overflows_u64_def word_less_nat_alt)
qed

lemma add_range_ok:
  assumes "ranges_ok capacity rs" "add_range rs capacity b n = (e, rs')"
  shows "ranges_ok capacity rs'"
  using assms by (auto simp: add_range_def ranges_ok_def range_ok_def add_overflows_iff split: if_splits)

lemma reg_tuples_ok:
  assumes "reg_tuples nodes depth parent reg capacity offsets rs = Some (e, rs')" "ranges_ok capacity rs"
  shows "ranges_ok capacity rs'"
  using assms
proof (induction offsets arbitrary: rs)
  case (Cons offset offsets)
  show ?case using Cons.prems add_range_ok [OF Cons.prems(2)] Cons.IH
    by (auto simp: while_ok_def elim!: bind_SomeE split: sum.split_asm if_split_asm prod.split_asm)
qed simp

lemma parse_reg_ok:
  assumes "parse_reg nodes depth capacity rs = Some (e, rs')" "ranges_ok capacity rs"
  shows "ranges_ok capacity rs'"
  using assms reg_tuples_ok by (auto simp: parse_reg_def Let_def split: option.split_asm if_split_asm)

lemma parse_first_reg_ok:
  assumes "parse_first_reg nodes depth r = Some (DTB_OK, r')"
  shows "range_ok r'"
proof -
  have rs: "parse_reg nodes depth 1 [] = Some (DTB_OK, [r'])"
    using assms by (auto simp: parse_first_reg_def Let_def elim!: bind_SomeE split: if_split_asm list.split_asm)
  have "ranges_ok 1 []" by (simp add: ranges_ok_def)
  from parse_reg_ok [OF rs this] show ?thesis by (simp add: ranges_ok_def)
qed

lemma info_ok_updates:
  assumes "info_ok info"
  shows "\<not> uart_present info \<Longrightarrow> info_ok (info\<lparr>uart := w\<rparr>)" "\<not> plic_present info \<Longrightarrow> info_ok (info\<lparr>plic := w\<rparr>)"
    and "range_ok w \<Longrightarrow> info_ok (info\<lparr>uart := w, uart_irq := irq, uart_present := True\<rparr>)"
    and "range_ok w \<Longrightarrow> info_ok (info\<lparr>plic := w, plic_present := True\<rparr>)"
    and "range_ok w \<Longrightarrow> info_ok (info\<lparr>plic := w, plic_source_count := n, plic_present := True\<rparr>)"
    and "range_ok w \<Longrightarrow> length (virtio info) \<noteq> BOOT_MAX_VIRTIO_DEVICES \<Longrightarrow>
      info_ok (info\<lparr>virtio := virtio info @ [w], virtio_irqs := virtio_irqs info @ [irq]\<rparr>)"
  using assms by (auto simp: info_ok_def ranges_ok_def)

lemma finish_parts_ok:
  assumes "info_ok info"
  shows "finish_memory nodes depth enabled info = Some (e, info') \<Longrightarrow> info_ok info'"
    and "finish_reserved nodes depth enabled info = Some (e, info') \<Longrightarrow> info_ok info'"
    and "finish_uart nodes depth info = Some (e, info') \<Longrightarrow> info_ok info'"
    and "finish_plic nodes depth info = Some (e, info') \<Longrightarrow> info_ok info'"
    and "finish_virtio nodes depth info = Some (e, info') \<Longrightarrow> info_ok info'"
proof -
  note ok = assms [unfolded info_ok_def]
  show "info_ok info'" if "finish_memory nodes depth enabled info = Some (e, info')"
    using that ok parse_reg_ok [of nodes depth BOOT_MAX_MEMORY_RANGES "memory info"]
    by (auto simp: finish_memory_def info_ok_def elim!: bind_SomeE split: option.split_asm bool.split_asm if_split_asm)
  show "info_ok info'" if "finish_reserved nodes depth enabled info = Some (e, info')"
    using that ok parse_reg_ok [of nodes depth BOOT_MAX_RESERVED_RANGES "reserved info"]
    by (auto simp: finish_reserved_def info_ok_def elim!: bind_SomeE split: if_split_asm)
  show "info_ok info'" if "finish_uart nodes depth info = Some (e, info')"
    using that assms by (auto simp: finish_uart_def Let_def info_ok_updates elim!: bind_SomeE dest!: parse_first_reg_ok
        split: if_split_asm sum.split_asm)
  show "info_ok info'" if "finish_plic nodes depth info = Some (e, info')"
    using that assms by (auto simp: finish_plic_def Let_def info_ok_updates elim!: bind_SomeE dest!: parse_first_reg_ok
        split: if_split_asm option.split_asm)
  show "info_ok info'" if "finish_virtio nodes depth info = Some (e, info')"
    using that assms by (auto simp: finish_virtio_def info_ok_updates elim!: bind_SomeE dest!: parse_first_reg_ok
        split: if_split_asm sum.split_asm)
qed

lemma while_ok_keeps:
  assumes "while_ok m f = Some (e, y)"
    and "\<And>e x. m = Some (e, x) \<Longrightarrow> P x" "\<And>x. f x = Some (e, y) \<Longrightarrow> P x \<Longrightarrow> P y"
  shows "P y"
  using assms by (auto simp: while_ok_def split: option.split_asm if_split_asm)

lemma finish_node_ok:
  assumes "info_ok info" "finish_node nodes depth info = Some (e, info')"
  shows "info_ok info'"
proof -
  obtain enabled where run: "while_ok (finish_memory nodes depth enabled info) (\<lambda>info.
      while_ok (finish_reserved nodes depth enabled info) (\<lambda>info.
      if \<not> enabled then Some (DTB_OK, info)
      else while_ok (finish_uart nodes depth info) (\<lambda>info.
        while_ok (finish_plic nodes depth info) (finish_virtio nodes depth)))) = Some (e, info')"
    using assms(2) by (auto simp: finish_node_def elim!: bind_SomeE)
  have devices: "info_ok info'" if "info_ok i"
    "while_ok (finish_uart nodes depth i) (\<lambda>info. while_ok (finish_plic nodes depth info) (finish_virtio nodes depth)) = Some (e, info')" for i
    using that(2)
  proof (rule while_ok_keeps)
    show "info_ok j" if "finish_uart nodes depth i = Some (e', j)" for e' j using finish_parts_ok(3) \<open>info_ok i\<close> that .
    show "info_ok info'" if "while_ok (finish_plic nodes depth j) (finish_virtio nodes depth) = Some (e, info')" "info_ok j" for j
      using that(1) by (rule while_ok_keeps) (erule finish_parts_ok [OF that(2)], erule finish_parts_ok, assumption)
  qed
  show ?thesis using run
  proof (rule while_ok_keeps)
    show "info_ok j" if "finish_memory nodes depth enabled info = Some (e', j)" for e' j using finish_parts_ok(1) assms(1) that .
    show "info_ok info'" if "while_ok (finish_reserved nodes depth enabled j) (\<lambda>info. if \<not> enabled then Some (DTB_OK, info)
        else while_ok (finish_uart nodes depth info) (\<lambda>info. while_ok (finish_plic nodes depth info) (finish_virtio nodes depth))) =
        Some (e, info')" "info_ok j" for j
      using that(1)
      by (rule while_ok_keeps) (erule finish_parts_ok(2) [OF that(2)], use devices in \<open>auto split: if_split_asm\<close>)
  qed
qed

lemma parse_reservations_ok:
  assumes "info_ok info" "parse_reservations_from view offset info = Some (e, info')"
  shows "info_ok info'"
  using assms
proof (induction view offset info rule: parse_reservations_from.induct)
  case (1 view offset info)
  have "ranges_ok BOOT_MAX_RESERVED_RANGES rs" if "add_range (reserved info) BOOT_MAX_RESERVED_RANGES b n = (e, rs)" for b n e rs
    using add_range_ok [OF _ that] 1(2) by (simp add: info_ok_def)
  then have ok: "info_ok (info\<lparr>reserved := rs\<rparr>)" if "add_range (reserved info) BOOT_MAX_RESERVED_RANGES b n = (e, rs)" for b n e rs
    using that 1(2) by (simp add: info_ok_def)
  show ?case using 1(3)
    using 1(2) by (subst (asm) parse_reservations_from.simps)
      (auto simp: Let_def ok 1(1) elim!: bind_SomeE split: if_split_asm prod.split_asm)
qed

lemma record_property_ok:
  assumes "info_ok info" "record_property n name v info = Some (Inr (n', info'))"
  shows "info_ok info'"
proof -
  have "info_ok (info\<lparr>timebase_frequency := c\<rparr>)" for c using assms(1) by (simp add: info_ok_def)
  then show ?thesis using assms unfolding record_property_def and_then_def
    by (auto elim!: bind_SomeE split: if_split_asm option.split_asm sum.split_asm)
qed

lemma parse_token_ok:
  assumes "info_ok info" "parse_token view token (offset, nodes, saw_root, info) = Some r"
  shows "case r of Inl (e, info) \<Rightarrow> info_ok info | Inr (offset, nodes, saw_root, info) \<Rightarrow> info_ok info"
  using assms finish_node_ok [OF assms(1)] record_property_ok [OF assms(1)]
  by (auto simp: parse_token_def begin_node_def end_node_def parse_property_def Let_def
      elim!: bind_SomeE split: if_split_asm sum.split_asm prod.split_asm)

lemma parse_walk_ok:
  assumes "info_ok (snd (snd (snd w)))" "parse_walk view w = Some (e, info')"
  shows "info_ok info'"
  using assms
proof (induction view w rule: parse_walk.induct)
  case (1 view w)
  obtain offset nodes saw_root info where w: "w = (offset, nodes, saw_root, info)" by (cases w)
  have ok: "info_ok info" using 1(2) w by simp
  show ?case
  proof (cases "range_within (length (structure_block view)) offset 4")
    case True
    then obtain token r where step: "read_be32 (structure_block view) offset = Some token"
      "parse_token view token (offset + 4, nodes, saw_root, info) = Some r"
      "(case r of Inl result \<Rightarrow> Some result | Inr w \<Rightarrow> parse_walk view w) = Some (e, info')"
      using 1(3) w by (subst (asm) parse_walk.simps) (auto elim!: bind_SomeE)
    show ?thesis using 1(1) [OF w [symmetric] refl refl True step(1,2)] step(3) parse_token_ok [OF ok step(2)]
      by (auto split: sum.split_asm)
  next
    case False
    then show ?thesis using 1(3) w ok by (subst (asm) parse_walk.simps) simp
  qed
qed

lemma empty_info_ok: "info_ok (empty_info\<lparr>dtb_base := a, dtb_size := n\<rparr>)" "info_ok empty_info"
  by (simp_all add: info_ok_def empty_info_def ranges_ok_def)

text \<open>
  C21. The parser is memory safe on every input: given the header and as many readable bytes as its
  size field declares, whatever they hold, \<open>dtb_parse\<close> returns with an error code and the boot
  information, and no read leaves the blob, a block of it, or the value of the property it looks at.
\<close>

theorem dtb_parse_safe:
  assumes "fdt_readable p"
  shows "\<exists>e info. dtb_parse (Some (a, p)) (Some output) = Some (e, Some info)"
proof -
  have "in_bounds (while_ok (parse_reservations view info) (parse_structure view))" if "view_ok view" for view info
    using parse_reservations_safe [OF that] parse_walk_safe
    by (simp add: while_ok_safe parse_reservations_def parse_structure_def)
  then have "in_bounds (dtb_parse (Some (a, p)) (Some output))"
    using validate_header_safe [OF assms] validate_header_view [OF assms]
    by (auto simp: dtb_parse_def bind_safe Let_def split: sum.split)
  then show ?thesis
    by (auto simp: in_bounds_def dtb_parse_def Let_def elim!: bind_SomeE split: sum.split_asm)
qed

text \<open>A blob whose structure block opens a node and ends inside its name.\<close>

definition torn_blob :: bytes where
  "torn_blob = [0xd0, 0x0d, 0xfe, 0xed, 0, 0, 0, 64, 0, 0, 0, 56, 0, 0, 0, 64, 0, 0, 0, 40, 0, 0, 0, 17, 0, 0, 0, 16,
     0, 0, 0, 0, 0, 0, 0, 0, 0, 0, 0, 8] @ replicate 16 0 @ [0, 0, 0, 1, 97, 98, 99, 100]"

theorem dtb_parse_safe_witness:
  "fdt_readable torn_blob \<and>
   (\<exists>e info. dtb_parse (Some (0x1000, torn_blob)) (Some empty_info) = Some (e, Some info))"
proof -
  have r: "fdt_readable torn_blob" by code_simp
  show ?thesis using r dtb_parse_safe [OF r, of "0x1000" empty_info] by blast
qed

text \<open>
  C22. Whatever the device tree says and however parsing ends, the boot information stays within its
  arrays: at most 8 memory ranges, 16 reserved ranges and 16 virtio windows with one interrupt number
  each, and every recorded range (the UART's and the PLIC's once they are present) is non-empty and
  ends below \<open>2 ^ 64\<close>.
\<close>

theorem dtb_parse_bounds:
  assumes "dtb_parse (Some (a, p)) (Some output) = Some (e, Some info)"
  shows "info_ok info"
proof -
  have "info_ok j" if "while_ok (parse_reservations view i) (parse_structure view) = Some (e, j)" "info_ok i" for view i j
    using that(1)
  proof (rule while_ok_keeps)
    show "info_ok k" if "parse_reservations view i = Some (e', k)" for e' k
      using that parse_reservations_ok [OF \<open>info_ok i\<close>] by (simp add: parse_reservations_def)
    show "info_ok j" if "parse_structure view k = Some (e, j)" "info_ok k" for k
      using that parse_walk_ok [of "(0, [], False, k)"] by (simp add: parse_structure_def)
  qed
  then show ?thesis using assms empty_info_ok
    by (auto simp: dtb_parse_def Let_def elim!: bind_SomeE split: sum.split_asm)
qed

end
