(* ===== verification/Dtb_Tree.thy ===== *)
theory Dtb_Tree
  imports Dtb_Safe
begin

text \<open>
  The device tree as a tree, its flattening into a version 17 blob, and the meaning of a tree as
  boot information. The parser's walk over tokens with its stack of nodes computes exactly this
  recursive meaning on every flattened tree.
\<close>

datatype dt_tree = Dt_Node bytes "(bytes \<times> bytes) list" "dt_tree list"

section \<open>The meaning of a tree\<close>

fun visit_props :: "dt_node \<Rightarrow> (bytes \<times> bytes) list \<Rightarrow> boot_info \<Rightarrow>
    (dtb_error \<times> boot_info + dt_node \<times> boot_info) option" where
  "visit_props n [] info = Some (Inr (n, info))"
| "visit_props n ((name, v) # ps) info = do {
     r \<leftarrow> record_property n (name @ [0]) v info;
     case r of Inl e \<Rightarrow> Some (Inl (e, info)) | Inr (n, info) \<Rightarrow> visit_props n ps info }"

fun visit :: "dt_node list \<Rightarrow> dt_tree \<Rightarrow> boot_info \<Rightarrow> (dtb_error \<times> boot_info) option"
  and visit_kids :: "dt_node list \<Rightarrow> dt_tree list \<Rightarrow> boot_info \<Rightarrow> (dtb_error \<times> boot_info) option" where
  "visit nodes (Dt_Node name props kids) info =
     (if length nodes = FDT_MAX_DEPTH then Some (DTB_ERR_CAPACITY, info)
      else do {
        n \<leftarrow> open_node (length nodes) name;
        if nodes = [] \<and> name \<noteq> [] then Some (DTB_ERR_STRUCTURE, info)
        else do {
          r \<leftarrow> visit_props n props info;
          case r of
            Inl result \<Rightarrow> Some result
          | Inr (n, info) \<Rightarrow>
              while_ok (visit_kids (nodes @ [n]) kids info) (finish_node (nodes @ [n]) (length nodes)) } })"
| "visit_kids nodes [] info = Some (DTB_OK, info)"
| "visit_kids nodes (t # ts) info = while_ok (visit nodes t info) (visit_kids nodes ts)"

fun reserve_all :: "(u64 \<times> u64) list \<Rightarrow> boot_info \<Rightarrow> dtb_error \<times> boot_info" where
  "reserve_all [] info = (DTB_OK, info)"
| "reserve_all ((b, n) # rs) info =
     (let (e, ranges) = add_range (reserved info) BOOT_MAX_RESERVED_RANGES b n; info = info\<lparr>reserved := ranges\<rparr>
      in if e \<noteq> DTB_OK then (e, info) else reserve_all rs info)"

section \<open>Flattening\<close>

definition be32 :: "u32 \<Rightarrow> bytes" where
  "be32 w = [ucast (drop_bit 24 w), ucast (drop_bit 16 w), ucast (drop_bit 8 w), ucast w]"

definition be64 :: "u64 \<Rightarrow> bytes" where
  "be64 w = be32 (ucast (drop_bit 32 w)) @ be32 (ucast w)"

definition pad4 :: "bytes \<Rightarrow> bytes" where
  "pad4 bs = bs @ replicate (align4 (length bs) - length bs) 0"

fun string_offset :: "bytes list \<Rightarrow> bytes \<Rightarrow> nat" where
  "string_offset [] name = 0"
| "string_offset (s # ss) name = (if s = name then 0 else length s + 1 + string_offset ss name)"

definition string_table :: "bytes list \<Rightarrow> bytes" where
  "string_table ss = concat (map (\<lambda>s. s @ [0]) ss)"

fun prop_names :: "dt_tree \<Rightarrow> bytes list" where
  "prop_names (Dt_Node name props kids) = map fst props @ concat (map prop_names kids)"

definition flatten_prop :: "bytes list \<Rightarrow> bytes \<times> bytes \<Rightarrow> bytes" where
  "flatten_prop ss p = be32 FDT_PROP @ be32 (of_nat (length (snd p))) @ be32 (of_nat (string_offset ss (fst p))) @ pad4 (snd p)"

fun flatten :: "bytes list \<Rightarrow> dt_tree \<Rightarrow> bytes" where
  "flatten ss (Dt_Node name props kids) =
     be32 FDT_BEGIN_NODE @ pad4 (name @ [0]) @ concat (map (flatten_prop ss) props) @
     concat (map (flatten ss) kids) @ be32 FDT_END_NODE"

definition reservation_table :: "(u64 \<times> u64) list \<Rightarrow> bytes" where
  "reservation_table rs = concat (map (\<lambda>(b, n). be64 b @ be64 n) (rs @ [(0, 0)]))"

definition fdt_blob :: "(u64 \<times> u64) list \<Rightarrow> dt_tree \<Rightarrow> bytes" where
  "fdt_blob rs t =
     (let ss = prop_names t;
          reservations = reservation_table rs;
          structure = flatten ss t @ be32 FDT_END;
          strings = string_table ss;
          structure_at = 40 + length reservations;
          strings_at = structure_at + length structure
      in be32 FDT_MAGIC @ be32 (of_nat (strings_at + length strings)) @ be32 (of_nat structure_at) @
         be32 (of_nat strings_at) @ be32 40 @ be32 17 @ be32 16 @ be32 0 @ be32 (of_nat (length strings)) @
         be32 (of_nat (length structure)) @ reservations @ structure @ strings)"

text \<open>Names are C strings, and a reservation is not the end mark.\<close>

fun tree_ok :: "dt_tree \<Rightarrow> bool" where
  "tree_ok (Dt_Node name props kids) \<longleftrightarrow>
     0 \<notin> set name \<and> list_all (\<lambda>(name, v). 0 \<notin> set name) props \<and> list_all tree_ok kids"

section \<open>Bytes at an offset\<close>

definition found :: "bytes \<Rightarrow> nat \<Rightarrow> bytes \<Rightarrow> bool" where
  "found p offset bs \<longleftrightarrow> offset + length bs \<le> length p \<and> take (length bs) (drop offset p) = bs"

lemma found_append: "found p offset (xs @ ys) \<longleftrightarrow> found p offset xs \<and> found p (offset + length xs) ys"
proof -
  have "take (length xs + length ys) (drop offset p) = take (length xs) (drop offset p) @ take (length ys) (drop (offset + length xs) p)"
    by (simp add: take_add add.commute)
  then show ?thesis by (auto simp: found_def)
qed

lemma found_bound: "found p offset bs \<Longrightarrow> offset + length bs \<le> length p"
  by (simp add: found_def)

lemma found_nth: "found p offset bs \<Longrightarrow> i < length bs \<Longrightarrow> p ! (offset + i) = bs ! i"
proof -
  assume a: "found p offset bs" "i < length bs"
  then have "take (length bs) (drop offset p) ! i = bs ! i" "offset + i < length p" by (simp_all add: found_def)
  then show ?thesis using a(2) by simp
qed

lemma found_bytes_at: "found p offset bs \<Longrightarrow> bytes_at p offset (length bs) = Some bs"
  by (simp add: found_def bytes_at_def)

lemma length_be32 [simp]: "length (be32 w) = 4"
  by (simp add: be32_def)

lemma length_be64 [simp]: "length (be64 w) = 8"
  by (simp add: be64_def)

lemma be32_join:
  fixes w :: u32
  shows "push_bit 24 (ucast (ucast (drop_bit 24 w) :: u8)) OR push_bit 16 (ucast (ucast (drop_bit 16 w) :: u8)) OR
   push_bit 8 (ucast (ucast (drop_bit 8 w) :: u8)) OR ucast (ucast w :: u8) = w" (is "?x = w")
proof (rule bit_word_eqI)
  fix n :: nat
  assume "n < LENGTH(32)"
  then consider "n < 8" | "8 \<le> n" "n < 16" | "16 \<le> n" "n < 24" | "24 \<le> n" "n < 32" by fastforce
  then show "bit ?x n = bit w n"
    by cases (auto simp: bit_simps)
qed

lemma read_be32_found: "found p offset (be32 w) \<Longrightarrow> read_be32 p offset = Some w"
proof -
  assume f: "found p offset (be32 w)"
  have "p ! (offset + 0) = be32 w ! 0" "p ! (offset + 1) = be32 w ! 1" "p ! (offset + 2) = be32 w ! 2" "p ! (offset + 3) = be32 w ! 3"
    by (rule found_nth [OF f], simp)+
  then show ?thesis using found_bound [OF f] be32_join [of w]
    by (simp add: read_be32_def byte_at_def be32_def)
qed

lemma be64_join: "push_bit 32 (ucast (ucast (drop_bit 32 w) :: u32)) OR ucast (ucast w :: u32) = (w :: u64)"
  by (rule bit_word_eqI) (auto simp: bit_simps)

lemma read_be64_found: "found p offset (be64 w) \<Longrightarrow> read_be64 p offset = Some w"
  by (auto simp: read_be64_def be64_def found_append read_be32_found be64_join)

lemma scan_nul_found:
  assumes "found p offset (name @ [0])" "0 \<notin> set name"
  shows "scan_nul p offset = offset + length name"
  using assms
proof (induction name arbitrary: offset)
  case Nil
  then show ?case using found_nth [of p offset "[0]" 0] by (subst scan_nul.simps) simp
next
  case (Cons b name)
  have "p ! offset = b" "offset < length p"
    using found_nth [OF Cons.prems(1), of 0] found_bound [OF Cons.prems(1)] by simp_all
  moreover have "found p (Suc offset) (name @ [0])"
    using Cons.prems(1) found_append [of p offset "[b]" "name @ [0]"] by simp
  ultimately show ?case using Cons.IH [of "Suc offset"] Cons.prems(2) by (subst scan_nul.simps) simp
qed

section \<open>Alignment and the string table\<close>

lemma align4_add: "offset mod 4 = 0 \<Longrightarrow> align4 (offset + n) = offset + align4 n"
proof -
  assume "offset mod 4 = 0"
  then obtain k where k: "offset = 4 * k" by (metis mod_0_imp_dvd dvdE)
  have "(4 * k + n + 3) div 4 = k + (n + 3) div 4" by (simp add: add.assoc)
  then show ?thesis using k by (simp add: align4_def add_mult_distrib)
qed

lemma align4_mod [simp]: "align4 n mod 4 = 0"
  by (simp add: align4_def)

lemma length_pad4 [simp]: "length (pad4 bs) = align4 (length bs)"
  using align4_ge by (simp add: pad4_def)

lemma found_pad4: "found p offset (pad4 bs) \<Longrightarrow> found p offset bs"
  by (simp add: pad4_def found_append)

lemma string_table_at:
  assumes "name \<in> set ss"
  shows "\<exists>rest. drop (string_offset ss name) (string_table ss) = name @ 0 # rest"
  using assms
proof (induction ss)
  case (Cons s ss)
  then show ?case by (cases "s = name") (auto simp: string_table_def)
qed simp

lemma string_equal_prefix: "0 \<notin> set name \<Longrightarrow> string_equal (name @ 0 # rest) lit = string_equal (name @ [0]) lit"
proof (induction name arbitrary: lit)
  case Nil
  then show ?case by (cases lit) simp_all
next
  case (Cons b name)
  then show ?case by (cases lit) simp_all
qed

lemma record_property_prefix:
  assumes "0 \<notin> set name"
  shows "record_property n (name @ 0 # rest) v info = record_property n (name @ [0]) v info"
proof -
  have "string_equal (name @ 0 # rest) lit = string_equal (name @ [0]) lit" for lit
    using assms by (rule string_equal_prefix)
  then show ?thesis unfolding record_property_def by (simp only:)
qed

lemma unat_u32: "i < 2 ^ 32 \<Longrightarrow> unat (of_nat i :: u32) = i"
  by (simp add: unat_of_nat)

section \<open>The walk computes the meaning\<close>

definition strings_ok :: "fdt_view \<Rightarrow> bytes list \<Rightarrow> bool" where
  "strings_ok view ss \<longleftrightarrow> strings_block view = string_table ss \<and> length (string_table ss) < 2 ^ 32 \<and>
     length (structure_block view) < 2 ^ 32"

lemma property_name_found:
  assumes "strings_ok view ss" "name \<in> set ss" "0 \<notin> set name"
  shows "\<exists>rest. property_name view (of_nat (string_offset ss name)) = Inr (name @ 0 # rest)"
proof -
  obtain rest where rest: "drop (string_offset ss name) (string_table ss) = name @ 0 # rest"
    using string_table_at [OF assms(2)] by blast
  let ?o = "string_offset ss name" and ?p = "string_table ss"
  have len: "length ?p - ?o = length name + 1 + length rest" using arg_cong [OF rest, of length] by simp
  then have o: "?o < length ?p" by simp
  then have u: "unat (of_nat ?o :: u32) = ?o" using assms(1) by (intro unat_u32) (auto simp: strings_ok_def)
  have "found ?p ?o (name @ [0])" using rest len by (simp add: found_def)
  then have "scan_nul ?p ?o = ?o + length name" using assms(3) by (rule scan_nul_found)
  then show ?thesis using o len rest assms(1) u by (simp add: property_name_def strings_ok_def)
qed

lemma walk_token:
  assumes "found (structure_block view) offset (be32 token)"
  shows "parse_walk view (offset, nodes, saw_root, info) =
    (case parse_token view token (offset + 4, nodes, saw_root, info) of
       None \<Rightarrow> None | Some (Inl result) \<Rightarrow> Some result | Some (Inr w) \<Rightarrow> parse_walk view w)"
  using found_bound [OF assms] read_be32_found [OF assms]
  by (subst parse_walk.simps) (auto simp: range_within_iff split: option.split)

lemma length_flatten_prop: "length (flatten_prop ss p) = 12 + align4 (length (snd p))"
  by (simp add: flatten_prop_def)

lemma walk_prop:
  assumes "strings_ok view ss" "found (structure_block view) offset (flatten_prop ss (name, v))" "offset mod 4 = 0"
    and "name \<in> set ss" "0 \<notin> set name"
  shows "parse_walk view (offset, ns @ [n], saw_root, info) =
    (case record_property n (name @ [0]) v info of
       None \<Rightarrow> None
     | Some (Inl e) \<Rightarrow> Some (e, info)
     | Some (Inr (n, info)) \<Rightarrow> parse_walk view (offset + length (flatten_prop ss (name, v)), ns @ [n], saw_root, info))"
proof -
  let ?p = "structure_block view"
  have f: "found ?p offset (be32 FDT_PROP)" "found ?p (offset + 4) (be32 (of_nat (length v)))"
    "found ?p (offset + 8) (be32 (of_nat (string_offset ss name)))" "found ?p (offset + 12) (pad4 v)"
    using assms(2) by (auto simp: flatten_prop_def found_append add.commute)
  note v = found_pad4 [OF f(4)]
  have lv: "unat (of_nat (length v) :: u32) = length v"
    using found_bound [OF v] assms(1) by (intro unat_u32) (auto simp: strings_ok_def)
  obtain rest where pn: "property_name view (of_nat (string_offset ss name)) = Inr (name @ 0 # rest)"
    using property_name_found [OF assms(1,4,5)] by blast
  have al: "align4 (offset + 12 + length v) = offset + length (flatten_prop ss (name, v))"
    using align4_add [of "offset + 12" "length v"] assms(3) by (simp add: length_flatten_prop mod_add_left_eq [symmetric])
  have "parse_token view FDT_PROP (offset + 4, ns @ [n], saw_root, info) =
      (case record_property n (name @ [0]) v info of
         None \<Rightarrow> None
       | Some (Inl e) \<Rightarrow> Some (Inl (e, info))
       | Some (Inr (n, info)) \<Rightarrow> Some (Inr (offset + length (flatten_prop ss (name, v)), ns @ [n], saw_root, info)))"
    using found_bound [OF f(3)] found_bound [OF v] read_be32_found [OF f(2)] read_be32_found [OF f(3)]
      found_bytes_at [OF v] pn lv al record_property_prefix [OF assms(5), of n rest v info]
    by (simp add: parse_token_def parse_property_def fdt_tokens range_within_iff Let_def add.commute
        split: option.split sum.split)
  then show ?thesis unfolding walk_token [OF f(1)] by (simp split: option.split sum.split)
qed

lemma walk_props:
  assumes "strings_ok view ss" "found (structure_block view) offset (concat (map (flatten_prop ss) ps))" "offset mod 4 = 0"
    and "fst ` set ps \<subseteq> set ss" "list_all (\<lambda>(name, v). 0 \<notin> set name) ps"
  shows "parse_walk view (offset, ns @ [n], saw_root, info) =
    (case visit_props n ps info of
       None \<Rightarrow> None
     | Some (Inl result) \<Rightarrow> Some result
     | Some (Inr (n, info)) \<Rightarrow> parse_walk view (offset + length (concat (map (flatten_prop ss) ps)), ns @ [n], saw_root, info))"
  using assms(2-5)
proof (induction ps arbitrary: offset n info)
  case (Cons p ps)
  obtain name v where p: "p = (name, v)" by (cases p)
  have f: "found (structure_block view) offset (flatten_prop ss (name, v))"
    "found (structure_block view) (offset + length (flatten_prop ss p)) (concat (map (flatten_prop ss) ps))"
    using Cons.prems(1) p by (auto simp: found_append)
  have o: "(offset + length (flatten_prop ss p)) mod 4 = 0"
    using Cons.prems(2) by (simp add: length_flatten_prop mod_add_eq [symmetric])
  have nm: "name \<in> set ss" "0 \<notin> set name" using Cons.prems(3,4) p by auto
  have ih: "parse_walk view (offset + length (flatten_prop ss p), ns @ [n'], saw_root, info') =
    (case visit_props n' ps info' of None \<Rightarrow> None | Some (Inl result) \<Rightarrow> Some result
     | Some (Inr (n, info)) \<Rightarrow> parse_walk view (offset + length (flatten_prop ss p) + length (concat (map (flatten_prop ss) ps)), ns @ [n], saw_root, info))"
    for n' info' using Cons.prems(3,4) by (intro Cons.IH [OF f(2) o]) auto
  show ?case unfolding walk_prop [OF assms(1) f(1) Cons.prems(2) nm]
    using ih by (simp add: p add.assoc split: option.split sum.split)
qed simp

definition walk_on :: "fdt_view \<Rightarrow> nat \<Rightarrow> dt_node list \<Rightarrow> (dtb_error \<times> boot_info) option \<Rightarrow> (dtb_error \<times> boot_info) option" where
  "walk_on view offset nodes r =
     (case r of None \<Rightarrow> None
      | Some (e, info) \<Rightarrow> if e \<noteq> DTB_OK then Some (e, info) else parse_walk view (offset, nodes, True, info))"

lemma walk_on_while: "walk_on view offset nodes (while_ok m f) =
    (case m of None \<Rightarrow> None | Some (e, info) \<Rightarrow> if e \<noteq> DTB_OK then Some (e, info) else walk_on view offset nodes (f info))"
  by (auto simp: walk_on_def while_ok_def split: option.split)

lemma align4_dvd: "4 dvd align4 n"
  by (simp add: align4_def)

lemma length_flatten_prop_dvd: "4 dvd length (flatten_prop ss p)"
  by (simp add: length_flatten_prop align4_dvd)

lemma length_concat_dvd: "(\<And>x. x \<in> set xs \<Longrightarrow> k dvd length (f x)) \<Longrightarrow> k dvd length (concat (map f xs))"
  by (induction xs) simp_all

lemma length_flatten_dvd: "4 dvd length (flatten ss t)"
proof (induction t)
  case (Dt_Node name props kids)
  have "4 dvd length (concat (map (flatten ss) kids))" using Dt_Node by (intro length_concat_dvd)
  moreover have "4 dvd length (concat (map (flatten_prop ss) props))"
    by (intro length_concat_dvd) (rule length_flatten_prop_dvd)
  ultimately show ?case using align4_dvd [of "length name + 1"] by (simp del: length_concat)
qed

lemma found_begin:
  assumes "found p offset (be32 FDT_BEGIN_NODE @ pad4 (name @ [0]))"
  shows "found p offset (be32 FDT_BEGIN_NODE)" "found p (offset + 4) (name @ [0])" "found p (offset + 4) name"
proof -
  show "found p offset (be32 FDT_BEGIN_NODE)" using assms by (simp add: found_append)
  show f: "found p (offset + 4) (name @ [0])"
    by (rule found_pad4) (use assms in \<open>simp add: found_append\<close>)
  then show "found p (offset + 4) name" by (simp add: found_append)
qed

lemma walk_begin:
  assumes "found (structure_block view) offset (be32 FDT_BEGIN_NODE @ pad4 (name @ [0]))" "offset mod 4 = 0" "0 \<notin> set name"
    and "length nodes \<noteq> FDT_MAX_DEPTH" "open_node (length nodes) name = Some n" "saw_root \<longleftrightarrow> nodes \<noteq> []" "nodes = [] \<longrightarrow> name = []"
  shows "parse_walk view (offset, nodes, saw_root, info) =
    parse_walk view (offset + 4 + align4 (length name + 1), nodes @ [n], True, info)"
proof -
  note f = found_begin [OF assms(1)]
  have scan: "scan_nul (structure_block view) (offset + 4) = offset + 4 + length name" using scan_nul_found [OF f(2) assms(3)] .
  have al: "align4 (offset + 4 + length name + 1) = offset + 4 + align4 (length name + 1)"
    using align4_add [of "offset + 4" "length name + 1"] assms(2) by (simp add: mod_add_left_eq [symmetric])
  have "parse_token view FDT_BEGIN_NODE (offset + 4, nodes, saw_root, info) =
      Some (Inr (offset + 4 + align4 (length name + 1), nodes @ [n], True, info))"
    using found_bound [OF f(2)] found_bytes_at [OF f(3)] scan al assms(4-7)
    by (auto simp: parse_token_def begin_node_def Let_def)
  then show ?thesis unfolding walk_token [OF f(1)] by simp
qed

lemma walk_begin_fails:
  assumes "found (structure_block view) offset (be32 FDT_BEGIN_NODE @ pad4 (name @ [0]))" "0 \<notin> set name"
    and "saw_root \<longleftrightarrow> nodes \<noteq> []"
  shows "length nodes = FDT_MAX_DEPTH \<Longrightarrow> parse_walk view (offset, nodes, saw_root, info) = Some (DTB_ERR_CAPACITY, info)"
    and "nodes = [] \<Longrightarrow> name \<noteq> [] \<Longrightarrow> parse_walk view (offset, nodes, saw_root, info) = Some (DTB_ERR_STRUCTURE, info)"
proof -
  note f = found_begin [OF assms(1)]
  show "parse_walk view (offset, nodes, saw_root, info) = Some (DTB_ERR_CAPACITY, info)" if "length nodes = FDT_MAX_DEPTH"
    using that unfolding walk_token [OF f(1)] by (simp add: parse_token_def begin_node_def)
  show "parse_walk view (offset, nodes, saw_root, info) = Some (DTB_ERR_STRUCTURE, info)" if "nodes = []" "name \<noteq> []"
    using that found_bound [OF f(2)] found_bytes_at [OF f(3)] scan_nul_found [OF f(2) assms(2)] assms(3)
    unfolding walk_token [OF f(1)] by (simp add: parse_token_def begin_node_def Let_def open_node_def FDT_MAX_DEPTH_def)
qed

lemma walk_end:
  assumes "found (structure_block view) offset (be32 FDT_END_NODE)"
  shows "parse_walk view (offset, nodes @ [n], True, info) =
    walk_on view (offset + 4) nodes (finish_node (nodes @ [n]) (length nodes) info)"
  unfolding walk_token [OF assms] walk_on_def
  by (auto simp: parse_token_def end_node_def fdt_tokens split: option.split)

lemma mod_dvd_add: "offset mod 4 = 0 \<Longrightarrow> 4 dvd n \<Longrightarrow> (offset + n) mod (4 :: nat) = 0"
  by (simp add: mod_eq_0_iff_dvd)

lemma open_node_some: "\<exists>n. open_node depth name = Some n"
proof -
  have "in_bounds (open_node depth name)" by (simp add: open_node_def Let_def bind_safe dtb_safe)
  then show ?thesis by (auto simp: in_bounds_def)
qed

lemma record_property_error: "record_property n name v info \<noteq> Some (Inl DTB_OK)"
proof -
  have "one_cell v \<noteq> Some (Inl DTB_OK)" by (auto simp: one_cell_def)
  then show ?thesis
    unfolding record_property_def and_then_def
    by (auto elim!: bind_SomeE split: if_split_asm option.split_asm sum.split_asm)
qed

lemma visit_props_error: "visit_props n ps info \<noteq> Some (Inl (DTB_OK, info'))"
proof (induction n ps info rule: visit_props.induct)
  case (2 n name v ps info)
  then show ?case using record_property_error by (auto elim!: bind_SomeE split: sum.split_asm)
qed simp

lemma walk_tree:
  assumes ok: "strings_ok view ss"
  shows "found (structure_block view) offset (flatten ss t) \<Longrightarrow> offset mod 4 = 0 \<Longrightarrow> set (prop_names t) \<subseteq> set ss \<Longrightarrow>
    tree_ok t \<Longrightarrow> saw_root = (nodes \<noteq> []) \<Longrightarrow>
    parse_walk view (offset, nodes, saw_root, info) = walk_on view (offset + length (flatten ss t)) nodes (visit nodes t info)"
  and "found (structure_block view) offset (concat (map (flatten ss) ts)) \<Longrightarrow> offset mod 4 = 0 \<Longrightarrow>
    set (concat (map prop_names ts)) \<subseteq> set ss \<Longrightarrow> list_all tree_ok ts \<Longrightarrow> nodes \<noteq> [] \<Longrightarrow>
    parse_walk view (offset, nodes, True, info) =
      walk_on view (offset + length (concat (map (flatten ss) ts))) nodes (visit_kids nodes ts info)"
proof (induction nodes t info and nodes ts info arbitrary: offset saw_root and offset rule: visit_visit_kids.induct)
  case (1 nodes name props kids info)
  let ?b = "pad4 (name @ [0])" and ?ps = "concat (map (flatten_prop ss) props)" and ?ks = "concat (map (flatten ss) kids)"
  define o1 where "o1 = offset + 4 + align4 (length name + 1)"
  define o2 where "o2 = o1 + length ?ps"
  define o3 where "o3 = o2 + length ?ks"
  have stop: "offset + length (flatten ss (Dt_Node name props kids)) = o3 + 4"
    by (simp add: o1_def o2_def o3_def del: length_concat)
  have f: "found (structure_block view) offset (be32 FDT_BEGIN_NODE @ ?b)" "found (structure_block view) o1 ?ps"
    "found (structure_block view) o2 ?ks" "found (structure_block view) o3 (be32 FDT_END_NODE)"
    using 1(2) by (auto simp: found_append add.assoc o1_def o2_def o3_def simp del: length_concat)
  have nm: "0 \<notin> set name" "list_all (\<lambda>(name, v). 0 \<notin> set name) props" "list_all tree_ok kids" using 1(5) by simp_all
  have ss: "fst ` set props \<subseteq> set ss" "set (concat (map prop_names kids)) \<subseteq> set ss" using 1(4) by auto
  have o: "o1 mod 4 = 0" "o2 mod 4 = 0"
    using 1(3) align4_dvd length_concat_dvd [of props 4, OF length_flatten_prop_dvd]
    by (simp_all add: o1_def o2_def add.assoc mod_dvd_add del: length_concat)
  show ?case
  proof (cases "length nodes = FDT_MAX_DEPTH \<or> nodes = [] \<and> name \<noteq> []")
    case True
    then show ?thesis using open_node_some [of "length nodes" name] walk_begin_fails [OF f(1) nm(1) 1(6)]
      by (auto simp: walk_on_def)
  next
    case False
    obtain n where n: "open_node (length nodes) name = Some n" using open_node_some by blast
    have kids: "parse_walk view (o2, nodes @ [n'], True, info') = walk_on view o3 (nodes @ [n']) (visit_kids (nodes @ [n']) kids info')"
      if "visit_props n props info = Some (Inr (n', info'))" for n' info'
      unfolding o3_def using False n that f(3) o(2) ss(2) nm(3) by (intro 1(1)) auto
    have "parse_walk view (offset, nodes, saw_root, info) = parse_walk view (o1, nodes @ [n], True, info)"
      unfolding o1_def using False n 1(6) by (intro walk_begin [OF f(1) 1(3) nm(1)]) auto
    then show ?thesis
      unfolding walk_props [OF ok f(2) o(1) ss(1) nm(2)] stop o2_def [symmetric] using False n
      by (auto simp: kids walk_on_while walk_end [OF f(4)] walk_on_def [of _ _ "_ @ _"] walk_on_def [of _ _ _ "Some _"]
          walk_on_def [of _ _ _ None] visit_props_error split: option.split sum.split)
  qed
next
  case (2 nodes info)
  then show ?case by (simp add: walk_on_def)
next
  case (3 nodes t ts info)
  have f: "found (structure_block view) offset (flatten ss t)"
    "found (structure_block view) (offset + length (flatten ss t)) (concat (map (flatten ss) ts))"
    using 3(3) by (simp_all add: found_append)
  have o: "(offset + length (flatten ss t)) mod 4 = 0" using 3(4) length_flatten_dvd by (rule mod_dvd_add)
  have "parse_walk view (offset, nodes, True, info) = walk_on view (offset + length (flatten ss t)) nodes (visit nodes t info)"
    using 3(5-7) by (intro 3(1) [OF f(1) 3(4)]) auto
  then show ?case using 3(5-7) 3(2) [OF f(2) o]
    by (auto simp: walk_on_while walk_on_def while_ok_def add.assoc split: option.split simp del: length_concat)
qed

section \<open>The whole blob\<close>

lemma found_self: "found (xs @ ys @ zs) (length xs) ys"
  by (simp add: found_def)

lemma length_reservation_table: "length (reservation_table rs) = 16 * (length rs + 1)"
  by (induction rs) (simp_all add: reservation_table_def split_beta)

definition blob_view :: "(u64 \<times> u64) list \<Rightarrow> dt_tree \<Rightarrow> fdt_view" where
  "blob_view rs t =
     (let structure = flatten (prop_names t) t @ be32 FDT_END;
          structure_at = 40 + length (reservation_table rs)
      in \<lparr>blob = fdt_blob rs t, total_size = length (fdt_blob rs t),
          structure_offset = structure_at, structure_block = structure,
          strings_offset = structure_at + length structure, strings_block = string_table (prop_names t),
          reservation_offset = 40\<rparr>)"

lemma length_fdt_blob:
  "length (fdt_blob rs t) = 40 + length (reservation_table rs) + (length (flatten (prop_names t) t) + 4) + length (string_table (prop_names t))"
  by (simp add: fdt_blob_def Let_def)

lemma fdt_blob_header:
  assumes "length (fdt_blob rs t) \<le> FDT_MAX_SIZE"
  shows "validate_header (fdt_blob rs t) = Some (Inr (blob_view rs t))"
proof -
  let ?p = "fdt_blob rs t" and ?r = "reservation_table rs" and ?s = "flatten (prop_names t) t @ be32 FDT_END" and ?t = "string_table (prop_names t)"
  have small: "length ?p < 2 ^ 32" using assms by (simp add: FDT_MAX_SIZE_def)
  have u: "unat (of_nat n :: u32) = n" if "n \<le> length ?p" for n using that small by (intro unat_u32) simp
  have "found ?p 0 ?p" by (simp add: found_def)
  then have f: "found ?p 0 (be32 FDT_MAGIC @ be32 (of_nat (length ?p)) @ be32 (of_nat (40 + length ?r)) @
      be32 (of_nat (40 + length ?r + length ?s)) @ be32 40 @ be32 17 @ be32 16 @ be32 0 @ be32 (of_nat (length ?t)) @
      be32 (of_nat (length ?s)) @ ?r @ ?s @ ?t)"
    by (simp add: fdt_blob_def Let_def add.assoc)
  note words = f [unfolded found_append [of _ _ "be32 _"] length_be32 found_append [of _ _ "reservation_table _"] found_append [of _ _ ?s]]
  have blocks: "bytes_at ?p (40 + length ?r) (length ?s) = Some ?s" "bytes_at ?p (40 + length ?r + length ?s) (length ?t) = Some ?t"
    by (rule found_bytes_at, use words in simp)+
  have lens: "length ?r \<le> length ?p" "40 + length ?r \<le> length ?p" "40 + length ?r + length ?s \<le> length ?p" "length ?s \<le> length ?p" "length ?t \<le> length ?p"
    by (simp_all add: length_fdt_blob)
  have reads: "read_be32 ?p 0 = Some FDT_MAGIC" "read_be32 ?p 4 = Some (of_nat (length ?p))" "read_be32 ?p 8 = Some (of_nat (40 + length ?r))"
    "read_be32 ?p 12 = Some (of_nat (40 + length ?r + length ?s))" "read_be32 ?p 16 = Some 40" "read_be32 ?p 20 = Some 17"
    "read_be32 ?p 24 = Some 16" "read_be32 ?p 32 = Some (of_nat (length ?t))" "read_be32 ?p 36 = Some (of_nat (length ?s))"
    by (rule read_be32_found, use words in simp)+
  have m: "(40 + length ?r) mod 4 = 0" unfolding length_reservation_table by (simp add: mod_eq_0_iff_dvd)
  have within: "range_within (length ?p) (40 + length ?r) (length ?s)" "range_within (length ?p) (40 + length ?r + length ?s) (length ?t)"
    "range_within (length ?p) 40 16" "\<not> regions_overlap (40 + length ?r) (length ?s) (40 + length ?r + length ?s) (length ?t)"
    by (simp_all add: range_within_iff regions_overlap_def length_fdt_blob length_reservation_table)
  have whole: "\<not> length ?p < FDT_HEADER_SIZE" "\<not> FDT_MAX_SIZE < length ?p"
    using assms by (simp_all add: FDT_HEADER_SIZE_def length_fdt_blob)
  show ?thesis
    unfolding validate_header_def reads
    by (simp only: Option.bind.simps(2) u [OF lens(2)] u [OF lens(3)] u [OF lens(4)] u [OF lens(5)] u [OF order_refl] Let_def)
      (simp add: m within whole whole [unfolded FDT_HEADER_SIZE_def] blocks blob_view_def Let_def FDT_SUPPORTED_VERSION_def FDT_HEADER_SIZE_def del: length_append)
qed

lemma reservation_table_Cons: "reservation_table ((b, n) # rs) = be64 b @ be64 n @ reservation_table rs"
  by (simp add: reservation_table_def)

lemma reservations_found:
  assumes "found (blob view) offset (reservation_table rs)" "(0, 0) \<notin> set rs"
    and "offset + 16 * (length rs + 1) \<le> structure_offset view" "offset + 16 * (length rs + 1) \<le> strings_offset view"
    and "offset + 16 * (length rs + 1) \<le> total_size view"
  shows "parse_reservations_from view offset info = Some (reserve_all rs info)"
  using assms
proof (induction rs arbitrary: offset info)
  case Nil
  then have "found (blob view) offset (be64 0)" "found (blob view) (offset + 8) (be64 0)"
    by (simp_all add: reservation_table_def found_append)
  then show ?case using Nil(3-5) read_be64_found
    by (subst parse_reservations_from.simps) (simp add: range_within_iff regions_overlap_def)
next
  case (Cons r rs)
  obtain b n where r: "r = (b, n)" by (cases r)
  have f: "found (blob view) offset (be64 b)" "found (blob view) (offset + 8) (be64 n)"
    "found (blob view) (offset + 16) (reservation_table rs)"
    using Cons.prems(1) by (simp_all add: r reservation_table_Cons found_append add.assoc)
  have "parse_reservations_from view (offset + 16) i = Some (reserve_all rs i)" for i
    using Cons.prems by (intro Cons.IH [OF f(3)]) auto
  then show ?case using Cons.prems(2-5) read_be64_found [OF f(1)] read_be64_found [OF f(2)]
    by (subst parse_reservations_from.simps) (auto simp: r range_within_iff regions_overlap_def Let_def split_beta)
qed

lemma blob_reservations:
  assumes "(0, 0) \<notin> set rs"
  shows "parse_reservations (blob_view rs t) info = Some (reserve_all rs info)"
proof -
  have "found (fdt_blob rs t) 40 (reservation_table rs)"
    unfolding fdt_blob_def Let_def by (simp add: found_append found_def)
  then show ?thesis unfolding parse_reservations_def
    by (simp add: blob_view_def Let_def)
      (rule reservations_found, simp_all add: assms length_fdt_blob length_reservation_table)
qed

lemma blob_structure:
  assumes "length (fdt_blob rs t) \<le> FDT_MAX_SIZE" "tree_ok t"
  shows "parse_structure (blob_view rs t) info = visit [] t info"
proof -
  let ?ss = "prop_names t" and ?v = "blob_view rs t"
  have block: "structure_block ?v = flatten ?ss t @ be32 FDT_END" by (simp add: blob_view_def Let_def)
  have ok: "strings_ok ?v ?ss"
    using assms(1) by (simp add: strings_ok_def blob_view_def Let_def length_fdt_blob FDT_MAX_SIZE_def)
  have f: "found (structure_block ?v) 0 (flatten ?ss t)" "found (structure_block ?v) (length (flatten ?ss t)) (be32 FDT_END)"
    by (simp_all add: block found_def)
  have "parse_structure ?v info = walk_on ?v (length (flatten ?ss t)) [] (visit [] t info)"
    unfolding parse_structure_def using walk_tree(1) [OF ok f(1), of False "[]" info] assms(2) by simp
  moreover have "parse_walk ?v (length (flatten ?ss t), [], True, i) = Some (DTB_OK, i)" for i
    unfolding walk_token [OF f(2)] by (simp add: parse_token_def fdt_tokens)
  ultimately show ?thesis by (auto simp: walk_on_def split: option.split)
qed

lemma bind_output: "Option.bind m (\<lambda>(e, info). Some (e, Some info)) = map_option (apsnd Some) m"
  by (cases m) auto

lemma dtb_parse_blob:
  assumes "tree_ok t" "(0, 0) \<notin> set rs" "length (fdt_blob rs t) \<le> FDT_MAX_SIZE"
  shows "dtb_parse (Some (a, fdt_blob rs t)) (Some output) =
    map_option (apsnd Some) (while_ok
      (Some (reserve_all rs (empty_info\<lparr>dtb_base := a, dtb_size := of_nat (length (fdt_blob rs t))\<rparr>)))
      (visit [] t))"
proof -
  have s: "total_size (blob_view rs t) = length (fdt_blob rs t)" by (simp add: blob_view_def Let_def)
  have v: "parse_structure (blob_view rs t) = visit [] t" using blob_structure [OF assms(3,1)] by (rule ext)
  show ?thesis
    unfolding dtb_parse_def by (simp add: fdt_blob_header [OF assms(3)] Let_def blob_reservations [OF assms(2)] s v)
      (rule bind_output)
qed

text \<open>
  C20. The parser computes the meaning of the tree: on the version 17 blob that flattens any device
  tree and reservation list (C-string names, no early end mark, at most 16 MiB), walking the tokens
  with the stack of nodes gives the error and the boot information of the recursive definition,
  which reserves the listed ranges and then visits the nodes depth first, each with the
  properties of its ancestors.
\<close>

theorem dtb_parse_tree:
  assumes "tree_ok t" "(0, 0) \<notin> set rs" "length (fdt_blob rs t) \<le> FDT_MAX_SIZE"
  shows "dtb_parse (Some (a, fdt_blob rs t)) (Some output) =
    map_option (apsnd Some) (while_ok
      (Some (reserve_all rs (empty_info\<lparr>dtb_base := a, dtb_size := of_nat (length (fdt_blob rs t))\<rparr>)))
      (visit [] t))"
  using assms by (rule dtb_parse_blob)

text \<open>A board: memory behind the root's two address and two size cells, and a UART on a bus with its own cells.\<close>

definition board_tree :: dt_tree where
  "board_tree = Dt_Node [] [(cstr ''#address-cells'', be32 2), (cstr ''#size-cells'', be32 2)]
     [Dt_Node (cstr ''memory@80000000'') [(cstr ''device_type'', clit ''memory''), (cstr ''reg'', be64 0x80000000 @ be64 0x8000000)] [],
      Dt_Node (cstr ''soc'') [(cstr ''#address-cells'', be32 1), (cstr ''#size-cells'', be32 1),
          (cstr ''ranges'', be32 0 @ be64 0x10000000 @ be32 0x1000)]
        [Dt_Node (cstr ''serial@100'') [(cstr ''compatible'', clit ''ns16550a''), (cstr ''reg'', be32 0x100 @ be32 0x100),
           (cstr ''interrupts'', be32 10)] []]]"


lemma board_tree_ok:
  "tree_ok board_tree" "(0, 0) \<notin> set [(0x80000000 :: u64, 0x20000 :: u64)]"
  "length (fdt_blob [(0x80000000, 0x20000)] board_tree) \<le> FDT_MAX_SIZE"
  by (simp_all add: length_fdt_blob board_tree_def length_flatten_prop length_reservation_table string_table_def
      FDT_MAX_SIZE_def align4_def)

definition board_summary :: "dtb_error \<times> boot_info option \<Rightarrow> dtb_error \<times> (physical_range list \<times> physical_range list \<times> physical_range \<times> u32) option" where
  "board_summary r = (fst r, map_option (\<lambda>i. (memory i, reserved i, uart i, uart_irq i)) (snd r))"

lemma board_meaning:
  "map_option board_summary (map_option (apsnd Some) (while_ok
      (Some (reserve_all [(0x80000000, 0x20000)] (empty_info\<lparr>dtb_base := 0x87000000, dtb_size := n\<rparr>))) (visit [] board_tree))) =
   Some (DTB_OK, Some ([\<lparr>rbase = 0x80000000, rsize = 0x8000000\<rparr>], [\<lparr>rbase = 0x80000000, rsize = 0x20000\<rparr>],
     \<lparr>rbase = 0x10000100, rsize = 0x100\<rparr>, 10))"
  by code_simp

theorem dtb_parse_tree_witness:
  "tree_ok board_tree \<and>
   map_option board_summary (dtb_parse (Some (0x87000000, fdt_blob [(0x80000000, 0x20000)] board_tree)) (Some empty_info)) =
   Some (DTB_OK, Some ([\<lparr>rbase = 0x80000000, rsize = 0x8000000\<rparr>], [\<lparr>rbase = 0x80000000, rsize = 0x20000\<rparr>],
     \<lparr>rbase = 0x10000100, rsize = 0x100\<rparr>, 10))"
  unfolding dtb_parse_tree [OF board_tree_ok] using board_tree_ok(1) board_meaning by blast

lemma board_parsed:
  obtains info where "dtb_parse (Some (0x87000000, fdt_blob [(0x80000000, 0x20000)] board_tree)) (Some empty_info) = Some (DTB_OK, Some info)"
    "memory info = [\<lparr>rbase = 0x80000000, rsize = 0x8000000\<rparr>]" "uart info = \<lparr>rbase = 0x10000100, rsize = 0x100\<rparr>"
proof -
  let ?run = "dtb_parse (Some (0x87000000, fdt_blob [(0x80000000, 0x20000)] board_tree)) (Some empty_info)"
  have "map_option board_summary ?run = Some (DTB_OK, Some ([\<lparr>rbase = 0x80000000, rsize = 0x8000000\<rparr>],
      [\<lparr>rbase = 0x80000000, rsize = 0x20000\<rparr>], \<lparr>rbase = 0x10000100, rsize = 0x100\<rparr>, 10))"
    unfolding dtb_parse_blob [OF board_tree_ok] by (rule board_meaning)
  then show thesis using that by (cases ?run) (auto simp: board_summary_def)
qed

theorem dtb_parse_bounds_witness:
  "\<exists>info. dtb_parse (Some (0x87000000, fdt_blob [(0x80000000, 0x20000)] board_tree)) (Some empty_info) = Some (DTB_OK, Some info) \<and>
     memory info = [\<lparr>rbase = 0x80000000, rsize = 0x8000000\<rparr>] \<and> info_ok info"
proof -
  obtain info where run: "dtb_parse (Some (0x87000000, fdt_blob [(0x80000000, 0x20000)] board_tree)) (Some empty_info) = Some (DTB_OK, Some info)"
    and mem: "memory info = [\<lparr>rbase = 0x80000000, rsize = 0x8000000\<rparr>]"
    by (rule board_parsed)
  show ?thesis using run mem dtb_parse_bounds [OF run] by blast
qed

end
