(* ===== verification/Heap.thy ===== *)
theory Heap
  imports Page_Alloc Intrusive_List Runtime
begin

text \<open>
  The kernel heap, \<^verbatim>\<open>src/mm/heap.c\<close>: slabs of one page, each cut into objects of one of eight sizes.
  A slab's header is 32 bytes at the start of its page (magic, class, number of used objects, first
  free object, list link); free objects are chained through their first word. The state adds the
  heap's lock and the address of the static array of list heads to the kernel's memory. \<open>None\<close> is a
  call that never returns: the lock is held, or the list of slabs never comes back to its head.
\<close>

definition SLAB_MAGIC :: u32 where "SLAB_MAGIC = 0x534c4142"
definition CLASS_COUNT :: nat where "CLASS_COUNT = 8"

definition class_sizes :: "nat list" where
  "class_sizes = [16, 32, 64, 128, 256, 512, 1024, 2048]"

record hstate = kstate +
  heap_lock :: spinlock
  heap_classes :: u64

definition class_head :: "'a hstate_scheme \<Rightarrow> nat \<Rightarrow> u64" where
  "class_head s i = heap_classes s + of_nat (16 * i)"

text \<open>The fields of \<^verbatim>\<open>struct slab\<close> at their offsets.\<close>

definition slab_header_size :: nat where "slab_header_size = 32"

definition slab_magic :: "mem \<Rightarrow> u64 \<Rightarrow> u32" where "slab_magic m slab = read32 m slab"
definition slab_class :: "mem \<Rightarrow> u64 \<Rightarrow> u16" where "slab_class m slab = read16 m (slab + 4)"
definition slab_used :: "mem \<Rightarrow> u64 \<Rightarrow> u16" where "slab_used m slab = read16 m (slab + 6)"
definition slab_free :: "mem \<Rightarrow> u64 \<Rightarrow> u64" where "slab_free m slab = read64 m (slab + 8)"
definition slab_link :: "u64 \<Rightarrow> u64" where "slab_link slab = slab + 16"

definition set_magic :: "mem \<Rightarrow> u64 \<Rightarrow> u32 \<Rightarrow> mem" where "set_magic m slab v = write32 m slab v"
definition set_class :: "mem \<Rightarrow> u64 \<Rightarrow> u16 \<Rightarrow> mem" where "set_class m slab v = write16 m (slab + 4) v"
definition set_used :: "mem \<Rightarrow> u64 \<Rightarrow> u16 \<Rightarrow> mem" where "set_used m slab v = write16 m (slab + 6) v"
definition set_free :: "mem \<Rightarrow> u64 \<Rightarrow> u64 \<Rightarrow> mem" where "set_free m slab v = write64 m (slab + 8) v"

definition heap_init :: "'a hstate_scheme \<Rightarrow> 'a hstate_scheme" where
  "heap_init s =
     (let s = fold (\<lambda>i s. s\<lparr>kmem := list_init (kmem s) (class_head s i)\<rparr>) [0..<CLASS_COUNT] s
      in s\<lparr>heap_lock := spinlock_init\<rparr>)"

text \<open>
  The offsets of a slab's objects: from the header rounded up to the (power of two) size, in steps
  of the size, as long as the object ends inside the page.
\<close>

definition first_offset :: "nat \<Rightarrow> nat" where
  "first_offset n = unat ((of_nat slab_header_size + of_nat n - 1 :: u64) AND NOT (of_nat n - 1))"

definition object_offsets :: "nat \<Rightarrow> nat list" where
  "object_offsets n = map (\<lambda>k. first_offset n + k * n) [0..<(4096 - first_offset n) div n]"

fun carve :: "u64 \<Rightarrow> nat list \<Rightarrow> mem \<Rightarrow> mem" where
  "carve slab [] m = m"
| "carve slab (offset # offsets) m =
     (let object = slab + of_nat offset;
          m = write64 m object (slab_free m slab);
          m = set_free m slab object
      in carve slab offsets m)"

definition new_slab :: "nat \<Rightarrow> 'a hstate_scheme \<Rightarrow> u64 \<times> 'a hstate_scheme" where
  "new_slab class_index s =
     (let (physical, s) = page_alloc s in
      if physical = 0 then (0, s)
      else let slab = phys_to_virt physical;
               m = memset slab 0 slab_header_size (kmem s);
               m = set_magic m slab SLAB_MAGIC;
               m = set_class m slab (of_nat class_index);
               m = list_init m (slab_link slab);
               m = carve slab (object_offsets (class_sizes ! class_index)) m;
               m = list_push_back m (class_head s class_index) (slab_link slab)
        in (slab, s\<lparr>kmem := m\<rparr>))"

fun find_class :: "nat \<Rightarrow> nat list \<Rightarrow> nat" where
  "find_class n [] = 0"
| "find_class n (c # cs) = (if n \<le> c then 0 else Suc (find_class n cs))"

partial_function (option) find_slab :: "mem \<Rightarrow> u64 \<Rightarrow> u64 \<Rightarrow> u64 option" where
  "find_slab m head node =
     (if node = head then Some 0
      else let candidate = node - 16 in
        if slab_free m candidate \<noteq> 0 then Some candidate
        else find_slab m head (list_next m node))"

definition take_object :: "u64 \<Rightarrow> mem \<Rightarrow> u64 \<times> mem" where
  "take_object slab m =
     (let result = slab_free m slab;
          m = set_free m slab (read64 m result);
          m = set_used m slab (slab_used m slab + 1)
      in (result, m))"

definition kmalloc :: "nat \<Rightarrow> 'a hstate_scheme \<Rightarrow> (u64 \<times> 'a hstate_scheme) option" where
  "kmalloc size0 s =
     (let n = if size0 = 0 then 1 else size0;
          class_index = find_class n class_sizes
      in if class_index = CLASS_COUNT then Some (0, s)
         else let (flags, s) = irq_save s in
           case spin_lock (heap_lock s) of
             None \<Rightarrow> None
           | Some l \<Rightarrow>
               let s = s\<lparr>heap_lock := l\<rparr>;
                   head = class_head s class_index
               in case find_slab (kmem s) head (list_next (kmem s) head) of
                    None \<Rightarrow> None
                  | Some slab \<Rightarrow>
                      let (slab, s) = (if slab = 0 then new_slab class_index s else (slab, s))
                      in if slab = 0
                         then Some (0, irq_restore flags (s\<lparr>heap_lock := spin_unlock (heap_lock s)\<rparr>))
                         else let (result, m) = take_object slab (kmem s);
                                  s = irq_restore flags (s\<lparr>kmem := m, heap_lock := spin_unlock (heap_lock s)\<rparr>)
                           in Some (result, s\<lparr>kmem := memset result 0 (class_sizes ! class_index) (kmem s)\<rparr>))"

definition kfree :: "u64 \<Rightarrow> 'a hstate_scheme \<Rightarrow> 'a hstate_scheme option" where
  "kfree pointer s =
     (if pointer = 0 then Some s
      else let slab = pointer AND NOT PAGE_MASK;
               (flags, s) = irq_save s
        in case spin_lock (heap_lock s) of
             None \<Rightarrow> None
           | Some l \<Rightarrow>
               let s = s\<lparr>heap_lock := l\<rparr>; m = kmem s in
               if slab_magic m slab \<noteq> SLAB_MAGIC \<or> CLASS_COUNT \<le> unat (slab_class m slab) \<or> slab_used m slab = 0
               then Some (irq_restore flags (s\<lparr>heap_lock := spin_unlock (heap_lock s)\<rparr>))
               else let m = write64 m pointer (slab_free m slab);
                        m = set_free m slab pointer;
                        m = set_used m slab (slab_used m slab - 1)
                 in if slab_used m slab = 0
                    then let m = list_remove m (slab_link slab);
                             m = set_magic m slab 0;
                             s = irq_restore flags (s\<lparr>kmem := m, heap_lock := spin_unlock (heap_lock s)\<rparr>)
                      in Some (page_free (virt_to_phys slab) s)
                    else Some (irq_restore flags (s\<lparr>kmem := m, heap_lock := spin_unlock (heap_lock s)\<rparr>)))"

end
