(* ===== verification/Heap_Slab.thy ===== *)
theory Heap_Slab
  imports Heap
begin

text \<open>
  One slab of the kernel heap in memory: the sets of addresses its header, its list link and its
  objects occupy, the chain of its free objects, and what taking and returning an object do to them.
\<close>

section \<open>Address ranges\<close>

definition span :: "u64 \<Rightarrow> nat \<Rightarrow> u64 set" where
  "span a n = {a + of_nat i |i. i < n}"

definition agree :: "u64 set \<Rightarrow> mem \<Rightarrow> mem \<Rightarrow> bool" where
  "agree W m m' \<longleftrightarrow> (\<forall>a. a \<notin> W \<longrightarrow> m' a = m a)"

lemma span_disj: "span a n \<inter> span b k = {} \<longleftrightarrow> disj a n b k"
  by (auto simp: span_def disj_def)

lemma span_mono: "x + k \<le> n \<Longrightarrow> span (a + of_nat x) k \<subseteq> span a n"
proof
  fix y assume le: "x + k \<le> n" and "y \<in> span (a + of_nat x) k"
  then obtain i where "i < k" "y = a + of_nat (x + i)" by (auto simp: span_def add.assoc)
  then show "y \<in> span a n" using le unfolding span_def by (intro CollectI exI [of _ "x + i"]) simp
qed

lemma agree_refl: "agree W m m"
  by (simp add: agree_def)

lemma agree_steps: "agree W m m' \<Longrightarrow> agree W m' m'' \<Longrightarrow> agree W m m''"
  by (simp add: agree_def)

lemma agree_mono: "agree W m m' \<Longrightarrow> W \<subseteq> W' \<Longrightarrow> agree W' m m'"
  by (auto simp: agree_def)

lemma agree_write_bytes: "agree (span a (length bs)) m (write_bytes m a bs)"
  by (auto simp: agree_def span_def intro: write_bytes_outside)

lemma agree_writes:
  "agree (span a 8) m (write64 m a v)" "agree (span a 4) m (write32 m a w)" "agree (span a 2) m (write16 m a h)"
  "n \<le> 2 ^ 64 \<Longrightarrow> agree (span a n) m (memset a b n m)"
  using agree_write_bytes [of a "le_bytes 8 v" m] agree_write_bytes [of a "le_bytes 4 w" m]
    agree_write_bytes [of a "le_bytes 2 h" m] agree_write_bytes [of a "replicate n b" m]
  by (simp_all add: write64_def write32_def write16_def memset_block)

lemma read_bytes_agree: "agree W m m' \<Longrightarrow> span a n \<inter> W = {} \<Longrightarrow> read_bytes m' a n = read_bytes m a n"
  by (fastforce simp: agree_def span_def read_bytes_def)

lemma reads_agree:
  assumes "agree W m m'"
  shows "span a 8 \<inter> W = {} \<Longrightarrow> read64 m' a = read64 m a" "span a 4 \<inter> W = {} \<Longrightarrow> read32 m' a = read32 m a"
    "span a 2 \<inter> W = {} \<Longrightarrow> read16 m' a = read16 m a"
  using read_bytes_agree [OF assms] by (simp_all add: read64_def read32_def read16_def)

text \<open>Two ranges in pages: apart when the pages differ or the offsets do not meet.\<close>

lemma page_spans:
  assumes "valid_page p" "valid_page q" "x + n \<le> 4096" "y + k \<le> 4096" "p \<noteq> q \<or> x + n \<le> y \<or> y + k \<le> x"
  shows "span (phys_to_virt p + of_nat x) n \<inter> span (phys_to_virt q + of_nat y) k = {}"
proof (cases "p = q")
  case True
  then show ?thesis using assms disj_offset [of x n y k "phys_to_virt p"] by (simp add: span_disj)
next
  case False
  then show ?thesis using assms disj_pages [of "phys_to_virt p" "phys_to_virt q" x n y k]
    by (simp add: span_disj valid_page_def)
qed

section \<open>The objects of a slab\<close>

lemma class_sizes_cases: "ci < CLASS_COUNT \<Longrightarrow> class_sizes ! ci \<in> {16, 32, 64, 128, 256, 512, 1024, 2048}"
  by (auto simp: CLASS_COUNT_def class_sizes_def numeral_eq_Suc less_Suc_eq)

lemma first_offset_value: "ci < CLASS_COUNT \<Longrightarrow> first_offset (class_sizes ! ci) = max 32 (class_sizes ! ci)"
  using class_sizes_cases [of ci] by (auto simp: first_offset_def slab_header_size_def)

lemma object_offset_bounds:
  assumes "ci < CLASS_COUNT" "x \<in> set (object_offsets (class_sizes ! ci))"
  shows "32 \<le> x" "x + class_sizes ! ci \<le> 4096" "16 \<le> class_sizes ! ci"
proof -
  let ?n = "class_sizes ! ci"
  show n: "16 \<le> ?n" using class_sizes_cases [OF assms(1)] by auto
  obtain k where k: "k < (4096 - max 32 ?n) div ?n" "x = max 32 ?n + k * ?n"
    using assms by (auto simp: object_offsets_def first_offset_value)
  then show "32 \<le> x" by simp
  have "Suc k * ?n \<le> (4096 - max 32 ?n) div ?n * ?n" using k(1) by (intro mult_le_mono1) simp
  also have "\<dots> \<le> 4096 - max 32 ?n" by (rule div_times_less_eq_dividend)
  finally have "Suc k * ?n \<le> 4096 - max 32 ?n" .
  moreover have "max 32 ?n \<le> 4096" using class_sizes_cases [OF assms(1)] by auto
  ultimately show "x + ?n \<le> 4096" using k(2) by simp
qed

lemma object_offsets_apart:
  assumes "ci < CLASS_COUNT" "x \<in> set (object_offsets (class_sizes ! ci))" "y \<in> set (object_offsets (class_sizes ! ci))" "x \<noteq> y"
  shows "x + class_sizes ! ci \<le> y \<or> y + class_sizes ! ci \<le> x"
proof -
  let ?n = "class_sizes ! ci" and ?f = "first_offset (class_sizes ! ci)"
  obtain j k where jk: "x = ?f + j * ?n" "y = ?f + k * ?n" using assms(2,3) by (auto simp: object_offsets_def)
  then have "j < k \<or> k < j" using assms(4) by fastforce
  then have "Suc j * ?n \<le> k * ?n \<or> Suc k * ?n \<le> j * ?n" by (auto intro: mult_le_mono1 simp del: mult_Suc)
  then show ?thesis using jk by auto
qed

lemma object_offsets_distinct: "ci < CLASS_COUNT \<Longrightarrow> distinct (object_offsets (class_sizes ! ci))"
  using class_sizes_cases [of ci] by (auto simp: object_offsets_def distinct_map inj_on_def)

lemma object_offsets_length: "ci < CLASS_COUNT \<Longrightarrow> 0 < length (object_offsets (class_sizes ! ci)) \<and> length (object_offsets (class_sizes ! ci)) < 2 ^ 16"
  using class_sizes_cases [of ci] by (auto simp: object_offsets_def first_offset_value)

section \<open>A slab in memory\<close>

abbreviation slab_at :: "u64 \<Rightarrow> u64" where "slab_at p \<equiv> phys_to_virt p"

abbreviation object_at :: "u64 \<Rightarrow> nat \<Rightarrow> u64" where "object_at p x \<equiv> phys_to_virt p + of_nat x"

fun object_chain :: "mem \<Rightarrow> u64 \<Rightarrow> u64 \<Rightarrow> nat list \<Rightarrow> bool" where
  "object_chain m p ptr [] \<longleftrightarrow> ptr = 0"
| "object_chain m p ptr (x # xs) \<longleftrightarrow> ptr = object_at p x \<and> object_chain m p (read64 m ptr) xs"

definition slab_ok :: "mem \<Rightarrow> nat \<Rightarrow> u64 \<Rightarrow> nat list \<Rightarrow> bool" where
  "slab_ok m ci p xs \<longleftrightarrow> slab_magic m (slab_at p) = SLAB_MAGIC \<and> slab_class m (slab_at p) = of_nat ci \<and>
     unat (slab_used m (slab_at p)) + length xs = length (object_offsets (class_sizes ! ci)) \<and>
     object_chain m p (slab_free m (slab_at p)) xs \<and> distinct xs \<and> set xs \<subseteq> set (object_offsets (class_sizes ! ci))"

text \<open>The addresses the slab's bookkeeping uses: the header without its link, and the first word of each free object.\<close>

definition slab_words :: "u64 \<Rightarrow> nat list \<Rightarrow> u64 set" where
  "slab_words p xs = span (slab_at p) 16 \<union> (\<Union>x\<in>set xs. span (object_at p x) 8)"

lemma object_chain_cong:
  "(\<And>x. x \<in> set xs \<Longrightarrow> read64 m' (object_at p x) = read64 m (object_at p x)) \<Longrightarrow> object_chain m' p ptr xs = object_chain m p ptr xs"
  by (induction xs arbitrary: ptr) auto

lemma slab_fields_agree:
  assumes "agree W m m'" "span (slab_at p) 16 \<inter> W = {}"
  shows "slab_magic m' (slab_at p) = slab_magic m (slab_at p)" "slab_class m' (slab_at p) = slab_class m (slab_at p)"
    "slab_used m' (slab_at p) = slab_used m (slab_at p)" "slab_free m' (slab_at p) = slab_free m (slab_at p)"
proof -
  have sub: "span (slab_at p + of_nat x) n \<inter> W = {}" if "x + n \<le> 16" for x n
    using span_mono [OF that, of "slab_at p"] assms(2) by blast
  show "slab_magic m' (slab_at p) = slab_magic m (slab_at p)"
    using reads_agree(2) [OF assms(1) sub [of 0 4]] by (simp add: slab_magic_def)
  show "slab_class m' (slab_at p) = slab_class m (slab_at p)"
    using reads_agree(3) [OF assms(1) sub [of 4 2]] by (simp add: slab_class_def)
  show "slab_used m' (slab_at p) = slab_used m (slab_at p)"
    using reads_agree(3) [OF assms(1) sub [of 6 2]] by (simp add: slab_used_def)
  show "slab_free m' (slab_at p) = slab_free m (slab_at p)"
    using reads_agree(1) [OF assms(1) sub [of 8 8]] by (simp add: slab_free_def)
qed

lemma slab_ok_agree:
  assumes "slab_ok m ci p xs" "agree W m m'" "slab_words p xs \<inter> W = {}"
  shows "slab_ok m' ci p xs"
proof -
  have h: "span (slab_at p) 16 \<inter> W = {}" using assms(3) by (auto simp: slab_words_def)
  have "read64 m' (object_at p x) = read64 m (object_at p x)" if "x \<in> set xs" for x
    using that assms(3) by (intro reads_agree(1) [OF assms(2)]) (auto simp: slab_words_def)
  then show ?thesis using assms(1) slab_fields_agree [OF assms(2) h] object_chain_cong [of xs m' p m]
    by (simp add: slab_ok_def)
qed

section \<open>Stores to one slab\<close>

lemmas slab_field_defs = slab_magic_def slab_class_def slab_used_def slab_free_def
  set_magic_def set_class_def set_used_def set_free_def

lemma header_disj: "x + n \<le> y \<or> y + k \<le> x \<Longrightarrow> x + n \<le> 16 \<Longrightarrow> y + k \<le> 16 \<Longrightarrow> disj (v + of_nat x) n (v + of_nat y) k"
  by (rule disj_offset) simp_all

lemma slab_fields_same [simp]:
  "slab_magic (set_magic m v a) v = a" "slab_class (set_magic m v a) v = slab_class m v"
  "slab_used (set_magic m v a) v = slab_used m v" "slab_free (set_magic m v a) v = slab_free m v"
  "slab_magic (set_class m v b) v = slab_magic m v" "slab_class (set_class m v b) v = b"
  "slab_used (set_class m v b) v = slab_used m v" "slab_free (set_class m v b) v = slab_free m v"
  "slab_magic (set_used m v c) v = slab_magic m v" "slab_class (set_used m v c) v = slab_class m v"
  "slab_used (set_used m v c) v = c" "slab_free (set_used m v c) v = slab_free m v"
  "slab_magic (set_free m v d) v = slab_magic m v" "slab_class (set_free m v d) v = slab_class m v"
  "slab_used (set_free m v d) v = slab_used m v" "slab_free (set_free m v d) v = d"
  using header_disj [of 0 4 4 2 v] header_disj [of 0 4 6 2 v] header_disj [of 0 4 8 8 v]
    header_disj [of 4 2 0 4 v] header_disj [of 4 2 6 2 v] header_disj [of 4 2 8 8 v]
    header_disj [of 6 2 0 4 v] header_disj [of 6 2 4 2 v] header_disj [of 6 2 8 8 v]
    header_disj [of 8 8 0 4 v] header_disj [of 8 8 4 2 v] header_disj [of 8 8 6 2 v]
  by (simp_all add: slab_field_defs read64_disj read32_disj read16_disj)

lemma header_agree:
  "agree (span v 16) m (set_magic m v a)" "agree (span v 16) m (set_class m v b)"
  "agree (span v 16) m (set_used m v c)" "agree (span v 16) m (set_free m v d)"
proof -
  have sub: "span (v + of_nat x) n \<subseteq> span v 16" if "x + n \<le> 16" for x n using that by (rule span_mono)
  show "agree (span v 16) m (set_magic m v a)"
    using agree_writes(2) [of v m a] sub [of 0 4] by (auto simp: set_magic_def intro: agree_mono)
  show "agree (span v 16) m (set_class m v b)"
    using agree_writes(3) [of "v + 4" m b] sub [of 4 2] by (auto simp: set_class_def intro: agree_mono)
  show "agree (span v 16) m (set_used m v c)"
    using agree_writes(3) [of "v + 6" m c] sub [of 6 2] by (auto simp: set_used_def intro: agree_mono)
  show "agree (span v 16) m (set_free m v d)"
    using agree_writes(1) [of "v + 8" m d] sub [of 8 8] by (auto simp: set_free_def intro: agree_mono)
qed

lemma header_object_apart:
  assumes "valid_page p" "ci < CLASS_COUNT" "x \<in> set (object_offsets (class_sizes ! ci))"
  shows "span (slab_at p) 16 \<inter> span (object_at p x) 8 = {}" "span (slab_at p) 32 \<inter> span (object_at p x) (class_sizes ! ci) = {}"
  using page_spans [of p p 0 16 x 8] page_spans [of p p 0 32 x "class_sizes ! ci"] assms object_offset_bounds [OF assms(2,3)]
  by simp_all

lemma object_nonzero:
  assumes "valid_page p" "x < 4096"
  shows "object_at p x \<noteq> 0"
proof -
  have "unat (object_at p x) = unat (phys_to_virt p) + x"
    using assms valid_page_virt by (intro unat_page_offset) auto
  moreover have "unat (phys_to_virt p) \<noteq> 0" using valid_page_virt [OF assms(1)] by (simp add: unat_eq_zero)
  ultimately show ?thesis by (metis add_is_0 unat_0)
qed

lemma slab_free_zero_iff:
  assumes "slab_ok m ci p xs" "valid_page p" "ci < CLASS_COUNT"
  shows "slab_free m (slab_at p) = 0 \<longleftrightarrow> xs = []"
proof (cases xs)
  case (Cons x ys)
  then have "x + class_sizes ! ci \<le> 4096" "16 \<le> class_sizes ! ci"
    using assms object_offset_bounds [of ci x] by (auto simp: slab_ok_def)
  then show ?thesis using assms(1) Cons object_nonzero [OF assms(2), of x] by (simp add: slab_ok_def)
qed (use assms in \<open>simp add: slab_ok_def\<close>)

text \<open>Taking the first free object.\<close>

lemma take_object_ok:
  assumes ok: "slab_ok m ci p (x # xs)" and p: "valid_page p" "ci < CLASS_COUNT"
  shows "\<exists>m'. take_object (slab_at p) m = (object_at p x, m') \<and> slab_ok m' ci p xs \<and> agree (span (slab_at p) 16) m m'"
proof -
  let ?v = "slab_at p"
  define m1 where "m1 = set_free m ?v (read64 m (object_at p x))"
  define m2 where "m2 = set_used m1 ?v (slab_used m ?v + 1)"
  have free: "slab_free m ?v = object_at p x" and used: "unat (slab_used m ?v) + Suc (length xs) = length (object_offsets (class_sizes ! ci))"
    and chain: "object_chain m p (read64 m (object_at p x)) xs" and xs: "set xs \<subseteq> set (object_offsets (class_sizes ! ci))"
    using ok by (auto simp: slab_ok_def)
  have take: "take_object ?v m = (object_at p x, m2)"
    by (simp add: take_object_def free m1_def m2_def Let_def)
  have ag: "agree (span ?v 16) m m2"
    unfolding m1_def m2_def by (rule agree_steps [OF header_agree(4) header_agree(3)])
  have "read64 m2 (object_at p y) = read64 m (object_at p y)" if "y \<in> set xs" for y
    using that xs header_object_apart(1) [OF p] by (intro reads_agree(1) [OF ag]) blast
  then have "object_chain m2 p (read64 m (object_at p x)) xs" using chain object_chain_cong [of xs m2 p m] by simp
  moreover have "unat (slab_used m ?v + 1) = unat (slab_used m ?v) + 1"
    using used object_offsets_length [OF p(2)] by (simp add: unat_word_ariths)
  ultimately have "slab_ok m2 ci p xs"
    using ok used by (simp add: slab_ok_def m1_def m2_def)
  then show ?thesis using take ag by blast
qed

text \<open>Clearing an object that is not free.\<close>

lemma objects_apart:
  assumes "valid_page p" "ci < CLASS_COUNT" "x \<in> set (object_offsets (class_sizes ! ci))" "y \<in> set (object_offsets (class_sizes ! ci))" "x \<noteq> y"
  shows "span (object_at p x) (class_sizes ! ci) \<inter> span (object_at p y) (class_sizes ! ci) = {}"
  using assms object_offset_bounds(2) [OF assms(2)] object_offsets_apart [OF assms(2-5)] by (intro page_spans) auto

lemma object_word: "ci < CLASS_COUNT \<Longrightarrow> span a 8 \<subseteq> span a (class_sizes ! ci)"
proof -
  assume "ci < CLASS_COUNT"
  then have "0 + 8 \<le> class_sizes ! ci" using class_sizes_cases [of ci] by auto
  from span_mono [OF this, of a] show ?thesis by simp
qed

lemma slab_words_object:
  assumes "valid_page p" "ci < CLASS_COUNT" "x \<in> set (object_offsets (class_sizes ! ci))" "x \<notin> set xs" "set xs \<subseteq> set (object_offsets (class_sizes ! ci))"
  shows "slab_words p xs \<inter> span (object_at p x) (class_sizes ! ci) = {}"
proof -
  have "span (slab_at p) 16 \<subseteq> span (slab_at p) 32" using span_mono [of 0 16 32 "slab_at p"] by simp
  then have "span (slab_at p) 16 \<inter> span (object_at p x) (class_sizes ! ci) = {}"
    using header_object_apart(2) [OF assms(1-3)] by blast
  moreover have "span (object_at p y) 8 \<inter> span (object_at p x) (class_sizes ! ci) = {}" if "y \<in> set xs" for y
    using objects_apart [OF assms(1,2) _ assms(3), of y] object_word [OF assms(2), of "object_at p y"] that assms(4,5) by blast
  ultimately show ?thesis by (auto simp: slab_words_def)
qed

text \<open>Putting an object back.\<close>

definition put_object :: "u64 \<Rightarrow> u64 \<Rightarrow> mem \<Rightarrow> mem" where
  "put_object slab pointer m =
     (let m = write64 m pointer (slab_free m slab);
          m = set_free m slab pointer
      in set_used m slab (slab_used m slab - 1))"

lemma put_object_ok:
  assumes ok: "slab_ok m ci p xs" and p: "valid_page p" "ci < CLASS_COUNT"
    and x: "x \<in> set (object_offsets (class_sizes ! ci))" "x \<notin> set xs" and used: "slab_used m (slab_at p) \<noteq> 0"
  shows "slab_ok (put_object (slab_at p) (object_at p x) m) ci p (x # xs)"
    and "agree (span (slab_at p) 16 \<union> span (object_at p x) 8) m (put_object (slab_at p) (object_at p x) m)"
    and "slab_used (put_object (slab_at p) (object_at p x) m) (slab_at p) = slab_used m (slab_at p) - 1"
proof -
  let ?v = "slab_at p" and ?x = "object_at p x"
  define m1 where "m1 = write64 m ?x (slab_free m ?v)"
  define m2 where "m2 = set_used (set_free m1 ?v ?x) ?v (slab_used m ?v - 1)"
  have hx: "span ?v 16 \<inter> span ?x 8 = {}" by (rule header_object_apart(1) [OF p x(1)])
  note f1 = slab_fields_agree [OF agree_writes(1) hx, of m "slab_free m ?v", folded m1_def]
  have put: "put_object ?v ?x m = m2" by (simp add: put_object_def m1_def [symmetric] m2_def Let_def f1)
  have ag2: "agree (span ?v 16) m1 m2" unfolding m2_def by (rule agree_steps [OF header_agree(4) header_agree(3)])
  have ag1: "agree (span ?x 8) m m1" unfolding m1_def by (rule agree_writes)
  show ag: "agree (span ?v 16 \<union> span ?x 8) m (put_object ?v ?x m)"
    unfolding put by (rule agree_steps [OF agree_mono [OF ag1] agree_mono [OF ag2]]) auto
  show "slab_used (put_object ?v ?x m) ?v = slab_used m ?v - 1" by (simp add: put m2_def)
  have rx: "read64 m2 ?x = slab_free m ?v"
    using reads_agree(1) [OF ag2, of ?x] hx by (simp add: m1_def Int_commute)
  have xs: "set xs \<subseteq> set (object_offsets (class_sizes ! ci))" "object_chain m p (slab_free m ?v) xs" using ok by (simp_all add: slab_ok_def)
  have "read64 m2 (object_at p y) = read64 m (object_at p y)" if "y \<in> set xs" for y
  proof (rule reads_agree(1) [OF ag [unfolded put]])
    have "slab_words p xs \<inter> span ?x (class_sizes ! ci) = {}" using slab_words_object [OF p x xs(1)] .
    then show "span (object_at p y) 8 \<inter> (span ?v 16 \<union> span ?x 8) = {}"
      using that xs(1) header_object_apart(1) [OF p, of y] object_word [OF p(2), of ?x] by (auto simp: slab_words_def)
  qed
  then have "object_chain m2 p (slab_free m ?v) xs" using xs(2) object_chain_cong [of xs m2 p m] by simp
  moreover have "unat (slab_used m ?v - 1) + 1 = unat (slab_used m ?v)" using used unat_eq_zero [of "slab_used m ?v"] by (simp add: unat_minus_one)
  ultimately show "slab_ok (put_object ?v ?x m) ci p (x # xs)"
    using ok x rx by (auto simp: slab_ok_def put m2_def f1)
qed

text \<open>Cutting a new slab into objects.\<close>

lemma carve_ok:
  assumes p: "valid_page p" "ci < CLASS_COUNT" and offs: "set offsets \<subseteq> set (object_offsets (class_sizes ! ci))"
    and chain: "object_chain m p (slab_free m (slab_at p)) ys" "set ys \<subseteq> set (object_offsets (class_sizes ! ci))" "distinct (offsets @ ys)"
  shows "object_chain (carve (slab_at p) offsets m) p (slab_free (carve (slab_at p) offsets m) (slab_at p)) (rev offsets @ ys) \<and>
    slab_magic (carve (slab_at p) offsets m) (slab_at p) = slab_magic m (slab_at p) \<and>
    slab_class (carve (slab_at p) offsets m) (slab_at p) = slab_class m (slab_at p) \<and>
    slab_used (carve (slab_at p) offsets m) (slab_at p) = slab_used m (slab_at p) \<and>
    agree (span (slab_at p) 16 \<union> (\<Union>x\<in>set offsets. span (object_at p x) 8)) m (carve (slab_at p) offsets m)"
  using offs chain
proof (induction offsets arbitrary: m ys)
  case (Cons x offsets)
  let ?v = "slab_at p" and ?x = "object_at p x"
  define m1 where "m1 = write64 m ?x (slab_free m ?v)"
  define m2 where "m2 = set_free m1 ?v ?x"
  have x: "x \<in> set (object_offsets (class_sizes ! ci))" "x \<notin> set ys" using Cons.prems by auto
  have hx: "span ?v 16 \<inter> span ?x 8 = {}" by (rule header_object_apart(1) [OF p x(1)])
  note f1 = slab_fields_agree [OF agree_writes(1) hx, of m "slab_free m ?v", folded m1_def]
  have ag: "agree (span ?v 16 \<union> span ?x 8) m m2"
    unfolding m2_def by (rule agree_steps [OF agree_mono [OF agree_writes(1) [of ?x m "slab_free m ?v", folded m1_def]] agree_mono [OF header_agree(4)]]) auto
  have rx: "read64 m2 ?x = slab_free m ?v"
    using reads_agree(1) [OF header_agree(4), of ?x ?v m1 ?x] hx by (simp add: m1_def m2_def Int_commute)
  have "read64 m2 (object_at p y) = read64 m (object_at p y)" if "y \<in> set ys" for y
  proof (rule reads_agree(1) [OF ag])
    show "span (object_at p y) 8 \<inter> (span ?v 16 \<union> span ?x 8) = {}"
      using slab_words_object [OF p x Cons.prems(3)] that object_word [OF p(2), of ?x]
        header_object_apart(1) [OF p, of y] Cons.prems(3) by (auto simp: slab_words_def)
  qed
  then have "object_chain m2 p (slab_free m ?v) ys" using Cons.prems(2) object_chain_cong [of ys m2 p m] by simp
  then have ch: "object_chain m2 p (slab_free m2 ?v) (x # ys)" using rx by (simp add: m2_def)
  have step: "carve ?v (x # offsets) m = carve ?v offsets m2" by (simp add: Let_def m1_def m2_def)
  have keep: "slab_magic m2 ?v = slab_magic m ?v" "slab_class m2 ?v = slab_class m ?v" "slab_used m2 ?v = slab_used m ?v"
    by (simp_all add: m2_def f1)
  let ?W = "span ?v 16 \<union> (\<Union>x\<in>set offsets. span (object_at p x) 8)" and ?U = "span ?v 16 \<union> (\<Union>y\<in>set (x # offsets). span (object_at p y) 8)"
  have ag': "agree ?U m m2" by (rule agree_mono [OF ag]) auto
  have "set offsets \<subseteq> set (object_offsets (class_sizes ! ci))" "set (x # ys) \<subseteq> set (object_offsets (class_sizes ! ci))" "distinct (offsets @ x # ys)"
    using Cons.prems by auto
  note ih = Cons.IH [OF this(1) ch this(2,3)]
  have "agree ?U m2 (carve ?v offsets m2)" by (rule agree_mono [of ?W]) (use ih in auto)
  then show ?case using ih keep agree_steps [OF ag'] unfolding step by simp
qed (simp add: agree_refl)

end
