(* ===== verification/Heap_Inv.thy ===== *)
theory Heap_Inv
  imports Heap_Slab
begin

text \<open>
  The invariant of the kernel heap: the free pages, the slabs of each class on the class's list, the
  free objects of each slab; no slab is empty of used objects. \<open>kmalloc\<close> and \<open>kfree\<close> keep it.
\<close>

section \<open>Lists under stores elsewhere\<close>

lemma node_fields_agree:
  assumes "agree W m m'" "span x 16 \<inter> W = {}"
  shows "list_next m' x = list_next m x \<and> list_prev m' x = list_prev m x"
proof -
  have "span x 8 \<inter> W = {}" "span (x + of_nat 8) 8 \<inter> W = {}"
    using span_mono [of 0 8 16 x] span_mono [of 8 8 16 x] assms(2) by auto
  then show ?thesis using reads_agree(1) [OF assms(1)] by (simp add: list_next_def list_prev_def)
qed

lemma dlist_agree:
  assumes "dlist m head xs" "agree W m m'" "\<And>x. x \<in> set (head # xs) \<Longrightarrow> span x 16 \<inter> W = {}"
  shows "dlist m' head xs"
proof -
  have "list_next m' a = list_next m a \<and> list_prev m' a = list_prev m a" if "a \<in> set (head # xs)" for a
    using node_fields_agree [OF assms(2) assms(3) [OF that]] .
  then show ?thesis using assms(1) dlist_cong [of head xs m' m] by simp
qed

lemma set_field_agree: "agree (span x 16) m (set_prev m x v)" "agree (span x 16) m (set_next m x v)"
  using agree_mono [OF agree_writes(1) [of x m v]] agree_mono [OF agree_writes(1) [of "x + 8" m v]]
    span_mono [of 0 8 16 x] span_mono [of 8 8 16 x]
  by (simp_all add: set_prev_def set_next_def)

lemma list_init_agree: "agree (span x 16) m (list_init m x)"
  unfolding list_init_def by (rule agree_steps [OF set_field_agree(1) set_field_agree(2)])

lemma apart_spans: "nodes_apart x y \<longleftrightarrow> span x 16 \<inter> span y 16 = {}"
  by (simp add: nodes_apart_def span_disj)

lemma list_push_agree:
  assumes "dlist m head xs" "nodes_apart head n"
  shows "agree (\<Union>x\<in>set (n # head # xs). span x 16) m (list_push_back m head n)"
proof -
  let ?p = "list_prev m head" and ?W = "\<Union>x\<in>set (n # head # xs). span x 16"
  define m2 where "m2 = set_next (set_prev m n ?p) n head"
  have "?p \<in> set (head # xs)" unfolding dlist_last [OF assms(1)] by (rule last_in_set) simp
  then have sub: "span ?p 16 \<subseteq> ?W" "span head 16 \<subseteq> ?W" "span n 16 \<subseteq> ?W" by auto
  have a2: "agree (span n 16) m m2"
    unfolding m2_def by (rule agree_steps [OF set_field_agree(1) set_field_agree(2)])
  then have "list_prev m2 head = ?p" using node_fields_agree [OF a2, of head] assms(2) by (simp add: apart_spans)
  then have e: "list_push_back m head n = set_prev (set_next m2 ?p n) head n"
    by (simp add: list_push_back_def list_insert_before_def Let_def m2_def)
  show ?thesis unfolding e
    by (rule agree_steps [OF agree_mono [OF a2 sub(3)]
          agree_steps [OF agree_mono [OF set_field_agree(2) sub(1)] agree_mono [OF set_field_agree(1) sub(2)]]])
qed

lemma list_remove_agree:
  assumes "dlist m head (as @ n # bs)"
  shows "agree (\<Union>x\<in>set (head # as @ n # bs). span x 16) m (list_remove m n)"
proof -
  let ?p = "list_prev m n" and ?q = "list_next m n" and ?S = "set (head # as @ n # bs)"
  let ?W = "\<Union>x\<in>?S. span x 16"
  have dist: "distinct (head # as @ [n] @ bs)" and pw: "pairwise nodes_apart ?S"
    using assms by (simp_all add: dlist_def)
  obtain cs p q ds where pq: "p \<in> insert head (set as)" "q \<in> insert head (set bs)"
    and whole: "\<And>ws. head # (as @ ws @ bs) @ [head] = cs @ p # ws @ q # ds"
    by (rule cycle_cut [OF dist], rule that)
  have "chain m (cs @ p # n # q # ds)" using assms whole [of "[n]"] by (simp add: dlist_def)
  then have "p = ?p" "q = ?q" using chain_append [of m cs p "n # q # ds"] by simp_all
  then have S: "?p \<in> ?S" "?q \<in> ?S" "?p \<noteq> n" "?q \<noteq> n" using pq dist by auto
  define m1 where "m1 = set_next m ?p ?q"
  define m2 where "m2 = set_prev m1 ?q ?p"
  have a1: "agree (span ?p 16) m m1" unfolding m1_def by (rule set_field_agree)
  have "nodes_apart n ?p" using pw S by (auto simp: pairwise_def)
  then have "list_next m1 n = ?q" "list_prev m1 n = ?p" using node_fields_agree [OF a1, of n] by (simp_all add: apart_spans)
  then have e: "list_remove m n = list_init m2 n" by (simp add: list_remove_def Let_def m1_def [symmetric] m2_def)
  have "agree ?W m m1" by (rule agree_mono [OF a1]) (use S in blast)
  moreover have "agree ?W m1 m2" unfolding m2_def by (rule agree_mono [OF set_field_agree(1)]) (use S in blast)
  moreover have "agree ?W m2 (list_init m2 n)" by (rule agree_mono [OF list_init_agree]) auto
  ultimately show ?thesis unfolding e using agree_steps by blast
qed

section \<open>The invariant\<close>

abbreviation link_at :: "u64 \<Rightarrow> u64" where "link_at p \<equiv> phys_to_virt p + 16"

definition pool :: "u64 list \<Rightarrow> (nat \<Rightarrow> u64 list) \<Rightarrow> u64 set" where
  "pool fs sl = set fs \<union> (\<Union>i<CLASS_COUNT. set (sl i))"

definition lists_apart :: "u64 list \<Rightarrow> (nat \<Rightarrow> u64 list) \<Rightarrow> bool" where
  "lists_apart fs sl \<longleftrightarrow> (\<forall>i<CLASS_COUNT. distinct (sl i) \<and> set fs \<inter> set (sl i) = {} \<and>
     (\<forall>j<CLASS_COUNT. i \<noteq> j \<longrightarrow> set (sl i) \<inter> set (sl j) = {}))"

definition heap_inv :: "'a hstate_scheme \<Rightarrow> u64 list \<Rightarrow> (nat \<Rightarrow> u64 list) \<Rightarrow> (u64 \<Rightarrow> nat list) \<Rightarrow> bool" where
  "heap_inv s fs sl fr \<longleftrightarrow> page_inv s fs \<and> lists_apart fs sl \<and>
     (\<forall>p\<in>pool fs sl. valid_page p \<and> span (heap_classes s) 128 \<inter> span (phys_to_virt p) 4096 = {}) \<and>
     (\<forall>i<CLASS_COUNT. dlist (kmem s) (class_head s i) (map link_at (sl i)) \<and>
        (\<forall>p\<in>set (sl i). slab_ok (kmem s) i p (fr p)))"

text \<open>Every slab on a list has an object in use.\<close>

definition slabs_used :: "(nat \<Rightarrow> u64 list) \<Rightarrow> (u64 \<Rightarrow> nat list) \<Rightarrow> bool" where
  "slabs_used sl fr \<longleftrightarrow> (\<forall>i<CLASS_COUNT. \<forall>p\<in>set (sl i). length (fr p) < length (object_offsets (class_sizes ! i)))"

text \<open>The bytes of a page that are not its list link.\<close>

definition slab_body :: "u64 \<Rightarrow> u64 set" where
  "slab_body p = span (phys_to_virt p) 16 \<union> span (phys_to_virt p + of_nat 32) 4064"

lemma slab_body_page: "slab_body p \<subseteq> span (phys_to_virt p) 4096"
  using span_mono [of 0 16 4096 "phys_to_virt p"] span_mono [of 32 4064 4096 "phys_to_virt p"] by (auto simp: slab_body_def)

lemma pages_apart: "valid_page p \<Longrightarrow> valid_page q \<Longrightarrow> p \<noteq> q \<Longrightarrow> span (phys_to_virt p) 4096 \<inter> span (phys_to_virt q) 4096 = {}"
  using page_spans [of p q 0 4096 0 4096] by simp

lemma link_body: "valid_page p \<Longrightarrow> span (link_at p) 16 \<inter> slab_body p = {}"
  using page_spans [of p p 16 16 0 16] page_spans [of p p 16 16 32 4064] by (auto simp: slab_body_def)

lemma link_page: "span (link_at p) 16 \<subseteq> span (phys_to_virt p) 4096"
  using span_mono [of 16 16 4096 "phys_to_virt p"] by simp

lemma object_body:
  assumes "ci < CLASS_COUNT" "x \<in> set (object_offsets (class_sizes ! ci))"
  shows "span (object_at p x) (class_sizes ! ci) \<subseteq> slab_body p"
proof -
  have b: "32 \<le> x" "x + class_sizes ! ci \<le> 4096" using object_offset_bounds [OF assms] by simp_all
  have "span (phys_to_virt p + of_nat 32 + of_nat (x - 32)) (class_sizes ! ci) \<subseteq> span (phys_to_virt p + of_nat 32) 4064"
    by (rule span_mono) (use b in simp)
  moreover have "(of_nat 32 + of_nat (x - 32) :: u64) = of_nat x" using b by (metis le_add_diff_inverse of_nat_add)
  ultimately show ?thesis by (simp add: slab_body_def add.assoc) blast
qed

lemma slab_words_body:
  assumes "ci < CLASS_COUNT" "set xs \<subseteq> set (object_offsets (class_sizes ! ci))"
  shows "slab_words p xs \<subseteq> slab_body p"
proof -
  have "span (object_at p x) 8 \<subseteq> slab_body p" if "x \<in> set xs" for x
    using object_body [OF assms(1), of x p] object_word [OF assms(1)] that assms(2) by blast
  then show ?thesis by (auto simp: slab_words_def slab_body_def)
qed

lemma class_head_span: "i < CLASS_COUNT \<Longrightarrow> span (class_head s i) 16 \<subseteq> span (heap_classes s) 128"
  using span_mono [of "16 * i" 16 128 "heap_classes s"] by (simp add: class_head_def CLASS_COUNT_def)

lemma class_heads_apart: "i < CLASS_COUNT \<Longrightarrow> j < CLASS_COUNT \<Longrightarrow> i \<noteq> j \<Longrightarrow> span (class_head s i) 16 \<inter> span (class_head s j) 16 = {}"
  unfolding class_head_def span_disj by (rule disj_offset) (auto simp: CLASS_COUNT_def)

lemma heap_invD:
  assumes "heap_inv s fs sl fr" "i < CLASS_COUNT" "p \<in> set (sl i)"
  shows "valid_page p" "p \<notin> set fs" "slab_ok (kmem s) i p (fr p)"
    "span (heap_classes s) 128 \<inter> span (phys_to_virt p) 4096 = {}" "j < CLASS_COUNT \<Longrightarrow> p \<in> set (sl j) \<Longrightarrow> j = i"
proof -
  have "p \<in> pool fs sl" using assms(2,3) by (auto simp: pool_def)
  then show "valid_page p" "span (heap_classes s) 128 \<inter> span (phys_to_virt p) 4096 = {}" using assms(1) by (auto simp: heap_inv_def)
  show "slab_ok (kmem s) i p (fr p)" using assms by (auto simp: heap_inv_def)
  have "lists_apart fs sl" using assms(1) by (simp add: heap_inv_def)
  then show "p \<notin> set fs" "j < CLASS_COUNT \<Longrightarrow> p \<in> set (sl j) \<Longrightarrow> j = i"
    using assms(2,3) unfolding lists_apart_def by blast+
qed

lemma heap_inv_parts:
  assumes "heap_inv s fs sl fr"
  shows "page_inv s fs" "lists_apart fs sl" "i < CLASS_COUNT \<Longrightarrow> dlist (kmem s) (class_head s i) (map link_at (sl i))"
  using assms by (simp_all add: heap_inv_def)

lemma heap_invI:
  assumes "page_inv s fs" "lists_apart fs sl"
    and "\<And>p. p \<in> pool fs sl \<Longrightarrow> valid_page p \<and> span (heap_classes s) 128 \<inter> span (phys_to_virt p) 4096 = {}"
    and "\<And>i. i < CLASS_COUNT \<Longrightarrow> dlist (kmem s) (class_head s i) (map link_at (sl i))"
    and "\<And>i p. i < CLASS_COUNT \<Longrightarrow> p \<in> set (sl i) \<Longrightarrow> slab_ok (kmem s) i p (fr p)"
  shows "heap_inv s fs sl fr"
  using assms by (simp add: heap_inv_def)

lemma heap_inv_pages:
  assumes "heap_inv s fs sl fr" "p \<in> pool fs sl"
  shows "valid_page p" "span (heap_classes s) 128 \<inter> span (phys_to_virt p) 4096 = {}"
  using assms by (auto simp: heap_inv_def)

lemma page_inv_agree:
  assumes "page_inv s fs" "free_list t = free_list s" "free_pages t = free_pages s" "agree W (kmem s) (kmem t)"
    and "\<And>p. p \<in> set fs \<Longrightarrow> span (phys_to_virt p) 4096 \<inter> W = {}"
  shows "page_inv t fs"
proof (rule page_inv_frame [OF assms(1-3)])
  fix a assume "\<exists>x\<in>set fs. \<not> outside_page x a"
  then obtain x where "x \<in> set fs" "a \<in> span (phys_to_virt x) 4096" by (auto simp: outside_page_def span_def)
  then show "kmem t a = kmem s a" using assms(4,5) by (auto simp: agree_def)
qed

lemma slab_set: "slab_ok m i p xs \<Longrightarrow> set xs \<subseteq> set (object_offsets (class_sizes ! i))"
  by (simp add: slab_ok_def)

text \<open>Stores inside the body of one slab's page.\<close>

lemma heap_slab_step:
  assumes inv: "heap_inv s fs sl fr" and p: "i < CLASS_COUNT" "p \<in> set (sl i)"
    and W: "agree W (kmem s) m'" "W \<subseteq> slab_body p"
    and ok: "slab_ok m' i p xs"
  shows "heap_inv (s\<lparr>kmem := m'\<rparr>) fs sl (fr(p := xs))"
proof -
  note P = heap_invD [OF inv p]
  have far: "span (phys_to_virt q) 4096 \<inter> W = {}" if "q \<in> pool fs sl" "q \<noteq> p" for q
    using pages_apart [OF heap_inv_pages(1) [OF inv that(1)] P(1) that(2)] slab_body_page [of p] W(2) by blast
  have fs: "span (phys_to_virt q) 4096 \<inter> W = {}" if "q \<in> set fs" for q
    by (rule far) (use that P(2) in \<open>auto simp: pool_def\<close>)
  have sl: "span (phys_to_virt q) 4096 \<inter> W = {}" if "j < CLASS_COUNT" "q \<in> set (sl j)" "q \<noteq> p" for j q
    by (rule far) (use that in \<open>auto simp: pool_def\<close>)
  have heads: "span (class_head s j) 16 \<inter> W = {}" if "j < CLASS_COUNT" for j
    using class_head_span [OF that, of s] P(4) slab_body_page [of p] W(2) by blast
  have links: "span (link_at q) 16 \<inter> W = {}" if "j < CLASS_COUNT" "q \<in> set (sl j)" for j q
    using sl [OF that] link_page [of q] link_body [OF P(1)] W(2) by (cases "q = p") blast+
  have head: "class_head (s\<lparr>kmem := m'\<rparr>) j = class_head s j" for j by (simp add: class_head_def)
  show ?thesis
  proof (rule heap_invI)
    show "page_inv (s\<lparr>kmem := m'\<rparr>) fs"
      using heap_inv_parts(1) [OF inv] by (rule page_inv_agree [of s fs _ W]) (use W(1) fs in simp_all)
    show "lists_apart fs sl" by (rule heap_inv_parts(2) [OF inv])
    show "valid_page q \<and> span (heap_classes (s\<lparr>kmem := m'\<rparr>)) 128 \<inter> span (phys_to_virt q) 4096 = {}" if "q \<in> pool fs sl" for q
      using heap_inv_pages [OF inv that] by simp
    show "dlist (kmem (s\<lparr>kmem := m'\<rparr>)) (class_head (s\<lparr>kmem := m'\<rparr>) j) (map link_at (sl j))" if "j < CLASS_COUNT" for j
      unfolding head using heap_inv_parts(3) [OF inv that]
      by (simp, rule dlist_agree [OF _ W(1)]) (use heads [OF that] links [OF that] in auto)
    show "slab_ok (kmem (s\<lparr>kmem := m'\<rparr>)) j q ((fr(p := xs)) q)"
      if "j < CLASS_COUNT" "q \<in> set (sl j)" for j q
    proof (cases "q = p")
      case True
      then show ?thesis using P(5) that ok by simp
    next
      case False
      note Q = heap_invD [OF inv that]
      have "slab_words q (fr q) \<inter> W = {}"
        using slab_words_body [OF that(1) slab_set [OF Q(3)], of q] slab_body_page [of q] sl [OF that False] by blast
      then show ?thesis using slab_ok_agree [OF Q(3) W(1)] False by simp
    qed
  qed
qed

section \<open>Finding a slab\<close>

lemma dlist_next:
  assumes "dlist m head (as @ x # bs)"
  shows "list_next m x = hd (bs @ [head])" "x \<noteq> head"
proof -
  have "chain m ((head # as) @ x # bs @ [head])" "distinct (head # as @ x # bs)" using assms by (simp_all add: dlist_def)
  then show "list_next m x = hd (bs @ [head])" "x \<noteq> head"
    using chain_append [of m "head # as" x "bs @ [head]"] by (cases bs; auto)+
qed

lemma find_slab_ok:
  assumes "dlist m head (map link_at (ps @ qs))"
    and "\<And>p. p \<in> set qs \<Longrightarrow> slab_free m (slab_at p) = 0 \<longleftrightarrow> fr p = []"
  shows "find_slab m head (hd (map link_at qs @ [head])) = Some (case find (\<lambda>p. fr p \<noteq> []) qs of None \<Rightarrow> 0 | Some p \<Rightarrow> slab_at p)"
  using assms
proof (induction qs arbitrary: ps)
  case Nil
  then show ?case by (subst find_slab.simps) simp
next
  case (Cons q qs)
  have d: "dlist m head (map link_at ps @ link_at q # map link_at qs)" using Cons.prems(1) by simp
  note nx = dlist_next [OF d]
  have "find_slab m head (hd (map link_at qs @ [head])) = Some (case find (\<lambda>p. fr p \<noteq> []) qs of None \<Rightarrow> 0 | Some p \<Rightarrow> slab_at p)"
    using Cons.prems by (intro Cons.IH [of "ps @ [q]"]) auto
  then show ?case using nx Cons.prems(2) [of q] by (subst find_slab.simps) (simp add: Let_def)
qed

lemma find_slab_class:
  assumes "heap_inv s fs sl fr" "i < CLASS_COUNT"
  shows "find_slab (kmem s) (class_head s i) (list_next (kmem s) (class_head s i)) =
    Some (case find (\<lambda>p. fr p \<noteq> []) (sl i) of None \<Rightarrow> 0 | Some p \<Rightarrow> slab_at p)"
proof -
  have d: "dlist (kmem s) (class_head s i) (map link_at ([] @ sl i))" using heap_inv_parts(3) [OF assms] by simp
  have "list_next (kmem s) (class_head s i) = hd (map link_at (sl i) @ [class_head s i])"
    using d by (cases "sl i") (auto simp: dlist_def)
  moreover have "slab_free (kmem s) (slab_at p) = 0 \<longleftrightarrow> fr p = []" if "p \<in> set (sl i)" for p
    using heap_invD [OF assms that] by (intro slab_free_zero_iff [OF _ _ assms(2)]) auto
  ultimately show ?thesis using find_slab_ok [OF d, of fr] by simp
qed

section \<open>A new slab\<close>

lemma read_bytes_zeroed:
  assumes "x + k \<le> n" "n \<le> 4096"
  shows "read_bytes (memset a 0 n m) (a + of_nat x) k = replicate k 0"
proof (rule nth_equalityI)
  fix j assume "j < length (read_bytes (memset a 0 n m) (a + of_nat x) k)"
  then have j: "j < k" by simp
  have "a + of_nat x + of_nat j - a = (of_nat (x + j) :: u64)" by simp
  moreover have "unat (of_nat (x + j) :: u64) = x + j" using j assms by (intro unat_of_nat_small) simp
  ultimately show "read_bytes (memset a 0 n m) (a + of_nat x) k ! j = replicate k 0 ! j"
    using j assms by (simp add: memset_block write_bytes_def)
qed simp

lemma fresh_header:
  "slab_used (memset v 0 32 m) v = 0" "slab_free (memset v 0 32 m) v = 0"
  using read_bytes_zeroed [of 6 2 32 v m] read_bytes_zeroed [of 8 8 32 v m]
  by (simp_all add: slab_used_def slab_free_def read16_def read64_def)

definition slab_image :: "nat \<Rightarrow> u64 \<Rightarrow> mem \<Rightarrow> mem" where
  "slab_image i v m =
     (let m = memset v 0 slab_header_size m;
          m = set_magic m v SLAB_MAGIC;
          m = set_class m v (of_nat i);
          m = list_init m (slab_link v)
      in carve v (object_offsets (class_sizes ! i)) m)"

lemma slab_image_ok:
  assumes "valid_page p" "i < CLASS_COUNT"
  shows "slab_ok (slab_image i (slab_at p) m) i p (rev (object_offsets (class_sizes ! i)))"
    and "agree (span (slab_at p) 4096) m (slab_image i (slab_at p) m)"
proof -
  let ?v = "slab_at p" and ?offs = "object_offsets (class_sizes ! i)"
  define m1 where "m1 = memset ?v 0 32 m"
  define m2 where "m2 = set_class (set_magic m1 ?v SLAB_MAGIC) ?v (of_nat i)"
  define m3 where "m3 = list_init m2 (link_at p)"
  have image: "slab_image i ?v m = carve ?v ?offs m3"
    by (simp add: slab_image_def Let_def m1_def m2_def m3_def slab_header_size_def slab_link_def)
  have a3: "agree (span (link_at p) 16) m2 m3" unfolding m3_def by (rule list_init_agree)
  have "span ?v 16 \<inter> span (link_at p) 16 = {}" using page_spans [of p p 0 16 16 16] assms(1) by simp
  note f3 = slab_fields_agree [OF a3 this]
  have fields: "slab_magic m3 ?v = SLAB_MAGIC" "slab_class m3 ?v = of_nat i" "slab_used m3 ?v = 0" "slab_free m3 ?v = 0"
    by (simp_all add: f3 m2_def m1_def fresh_header)
  have c: "object_chain m3 p (slab_free m3 ?v) []" by (simp add: fields)
  note carved = carve_ok [OF assms order_refl c, simplified, OF object_offsets_distinct [OF assms(2)]]
  show "slab_ok (slab_image i ?v m) i p (rev ?offs)"
    using carved object_offsets_distinct [OF assms(2)] by (simp add: slab_ok_def image fields)
  have a1: "agree (span ?v 32) m m1" unfolding m1_def by (rule agree_writes) simp
  have a2: "agree (span ?v 16) m1 m2" unfolding m2_def by (rule agree_steps [OF header_agree(1) header_agree(2)])
  have a4: "agree (span ?v 16 \<union> (\<Union>x\<in>set ?offs. span (object_at p x) 8)) m3 (carve ?v ?offs m3)" using carved by simp
  have objs: "span (object_at p x) 8 \<subseteq> span ?v 4096" if "x \<in> set ?offs" for x
    using object_body [OF assms(2) that, of p] object_word [OF assms(2)] slab_body_page [of p] by blast
  have sub: "span ?v 32 \<subseteq> span ?v 4096" "span ?v 16 \<subseteq> span ?v 4096" "span (link_at p) 16 \<subseteq> span ?v 4096"
    using span_mono [of 0 32 4096 ?v] span_mono [of 0 16 4096 ?v] link_page [of p] by simp_all
  show "agree (span ?v 4096) m (slab_image i ?v m)"
    unfolding image
    by (rule agree_steps [OF agree_mono [OF a1 sub(1)] agree_steps [OF agree_mono [OF a2 sub(2)]
          agree_steps [OF agree_mono [OF a3 sub(3)] agree_mono [OF a4]]]]) (use sub(2) objs in blast)
qed

text \<open>The nodes of a class's list: its head and the links of its slabs.\<close>

definition node_space :: "'a hstate_scheme \<Rightarrow> nat \<Rightarrow> u64 list \<Rightarrow> u64 set" where
  "node_space s i ps = span (class_head s i) 16 \<union> (\<Union>p\<in>set ps. span (link_at p) 16)"

lemma node_space_UN: "node_space s i ps = (\<Union>x\<in>set (class_head s i # map link_at ps). span x 16)"
  by (simp add: node_space_def)

definition managed :: "'a hstate_scheme \<Rightarrow> u64 set \<Rightarrow> bool" where
  "managed s P \<longleftrightarrow> (\<forall>p\<in>P. valid_page p \<and> span (heap_classes s) 128 \<inter> span (phys_to_virt p) 4096 = {})"

lemma heap_inv_managed: "heap_inv s fs sl fr \<Longrightarrow> managed s (pool fs sl)"
  by (simp add: managed_def heap_inv_def)

lemma node_space_page:
  assumes "managed s P" "i < CLASS_COUNT" "set ps \<subseteq> P" "q \<in> P" "q \<notin> set ps"
  shows "span (phys_to_virt q) 4096 \<inter> node_space s i ps = {}"
proof -
  have "span (phys_to_virt q) 4096 \<inter> span (link_at p) 16 = {}" if "p \<in> set ps" for p
    using pages_apart [of q p] link_page [of p] assms that by (auto simp: managed_def)
  moreover have "span (phys_to_virt q) 4096 \<inter> span (class_head s i) 16 = {}"
    using class_head_span [OF assms(2), of s] assms(1,4) by (auto simp: managed_def)
  ultimately show ?thesis by (auto simp: node_space_def)
qed

lemma node_space_body:
  assumes "managed s P" "i < CLASS_COUNT" "set ps \<subseteq> P" "q \<in> P"
  shows "slab_body q \<inter> node_space s i ps = {}"
proof -
  have "slab_body q \<inter> span (link_at p) 16 = {}" if "p \<in> set ps" for p
  proof (cases "p = q")
    case True
    then show ?thesis using link_body [of q] assms by (auto simp: managed_def)
  next
    case False
    then show ?thesis using pages_apart [of q p] link_page [of p] slab_body_page [of q] assms that by (fastforce simp: managed_def)
  qed
  moreover have "slab_body q \<inter> span (class_head s i) 16 = {}"
    using class_head_span [OF assms(2), of s] slab_body_page [of q] assms(1,4) by (fastforce simp: managed_def)
  ultimately show ?thesis by (auto simp: node_space_def)
qed

lemma node_spaces_apart:
  assumes "managed s P" "i < CLASS_COUNT" "j < CLASS_COUNT" "i \<noteq> j" "set ps \<subseteq> P" "set qs \<subseteq> P" "set ps \<inter> set qs = {}"
  shows "node_space s i ps \<inter> node_space s j qs = {}"
proof -
  have "span (link_at p) 16 \<inter> node_space s j qs = {}" if "p \<in> set ps" for p
    using node_space_page [OF assms(1,3,6), of p] link_page [of p] assms(5,7) that by fastforce
  moreover have "span (class_head s i) 16 \<inter> span (link_at q) 16 = {}" if "q \<in> set qs" for q
    using class_head_span [OF assms(2), of s] link_page [of q] assms(1,6) that by (fastforce simp: managed_def)
  ultimately show ?thesis using class_heads_apart [OF assms(2-4), of s] by (fastforce simp: node_space_def)
qed

lemma dlist_space:
  assumes "dlist m (class_head s i) (map link_at ps)" "agree W m m'" "node_space s i ps \<inter> W = {}"
  shows "dlist m' (class_head s i) (map link_at ps)"
proof (rule dlist_agree [OF assms(1,2)])
  fix x assume "x \<in> set (class_head s i # map link_at ps)"
  then have "span x 16 \<subseteq> node_space s i ps" by (auto simp: node_space_def)
  then show "span x 16 \<inter> W = {}" using assms(3) by blast
qed

lemma slab_space:
  assumes "slab_ok m i p xs" "i < CLASS_COUNT" "agree W m m'" "slab_body p \<inter> W = {}"
  shows "slab_ok m' i p xs"
  using slab_words_body [OF assms(2) slab_set [OF assms(1)], of p] assms(4)
  by (intro slab_ok_agree [OF assms(1,3)]) blast

end
