(* ===== verification/Heap_Ops.thy ===== *)
theory Heap_Ops
  imports Heap_Inv
begin

text \<open>
  The operations of the kernel heap keep its invariant: making a slab, \<open>kmalloc\<close> and \<open>kfree\<close>.
\<close>

section \<open>Making a slab\<close>

lemma nodes_apart_irrefl: "\<not> nodes_apart x x"
  by (simp add: nodes_apart_def disj_def) (metis zero_less_numeral)

lemma new_slab_ok:
  assumes inv: "heap_inv s (y # fs) sl fr" and i: "i < CLASS_COUNT"
  shows "\<exists>m' s'. new_slab i s = (slab_at y, s') \<and> heap_inv s' fs (sl(i := sl i @ [y])) (fr(y := rev (object_offsets (class_sizes ! i)))) \<and>
    s' = s\<lparr>kmem := m', free_list := free_list s', free_pages := free_pages s'\<rparr> \<and>
    agree (span (slab_at y) 4096 \<union> node_space s i (sl i)) (kmem s) m'"
proof -
  let ?P = "pool (y # fs) sl" and ?offs = "object_offsets (class_sizes ! i)"
  define s1 where "s1 = snd (page_alloc s)"
  define m1 where "m1 = slab_image i (slab_at y) (kmem s)"
  define m2 where "m2 = list_push_back m1 (class_head s i) (link_at y)"
  define s' where "s' = s1\<lparr>kmem := m2\<rparr>"
  have man: "managed s ?P" by (rule heap_inv_managed [OF inv])
  have la: "lists_apart (y # fs) sl" by (rule heap_inv_parts(2) [OF inv])
  have y: "valid_page y" "y \<in> ?P" "\<And>j. j < CLASS_COUNT \<Longrightarrow> y \<notin> set (sl j)"
    using man la by (auto simp: managed_def pool_def lists_apart_def)
  have sub: "set (sl j) \<subseteq> ?P" if "j < CLASS_COUNT" for j using that by (auto simp: pool_def)
  have s1: "page_alloc s = (y, s1)" "s1 = s\<lparr>free_list := free_list s1, free_pages := free_pages s1\<rparr>" "page_inv s1 fs"
    using page_alloc_cons [OF heap_inv_parts(1) [OF inv]] by (simp_all add: s1_def)
  have kmem1: "kmem s1 = kmem s" "heap_classes s1 = heap_classes s" "heap_lock s1 = heap_lock s" by (subst s1(2), simp)+
  have head1: "class_head s1 j = class_head s j" for j by (simp add: class_head_def kmem1)
  have y0: "y \<noteq> 0" using y(1) by (auto simp: valid_page_def)
  have run: "new_slab i s = (slab_at y, s')"
    using y0 by (simp add: new_slab_def s1(1) s'_def m2_def m1_def slab_image_def Let_def kmem1 head1 slab_link_def)
  note image = slab_image_ok [OF y(1) i, of "kmem s", folded m1_def]
  have d1: "dlist m1 (class_head s j) (map link_at (sl j))" if "j < CLASS_COUNT" for j
    using node_space_page [OF man that sub [OF that] y(2) y(3) [OF that]]
    by (intro dlist_space [OF heap_inv_parts(3) [OF inv that] image(2)]) blast
  have away: "span (slab_at y) 4096 \<inter> node_space s j (sl j) = {}" if "j < CLASS_COUNT" for j
    by (rule node_space_page [OF man that sub [OF that] y(2) y(3) [OF that]])
  have ap: "nodes_apart x (link_at y)" if "x \<in> set (class_head s i # map link_at (sl i))" for x
  proof -
    have "span x 16 \<subseteq> node_space s i (sl i)" using that by (auto simp: node_space_def)
    then show ?thesis using away [OF i] link_page [of y] by (auto simp: apart_spans)
  qed
  have "link_at y \<notin> set (class_head s i # map link_at (sl i))"
    using ap [of "link_at y"] by (auto simp: nodes_apart_irrefl)
  then have d2: "dlist m2 (class_head s i) (map link_at (sl i @ [y]))"
    unfolding m2_def using klist.rep_push [OF d1 [OF i]] ap by simp
  define W2 where "W2 = node_space s i (sl i @ [y])"
  have a2: "agree W2 m1 m2"
    unfolding m2_def by (rule agree_mono [OF list_push_agree [OF d1 [OF i] ap]]) (auto simp: W2_def node_space_def)
  have sub2: "set (sl i @ [y]) \<subseteq> ?P" using sub [OF i] y(2) by simp
  define W where "W = span (slab_at y) 4096 \<union> node_space s i (sl i)"
  have "W2 \<subseteq> W" using link_page [of y] by (auto simp: W_def W2_def node_space_def)
  then have a: "agree W (kmem s) m2"
    by (intro agree_steps [OF agree_mono [OF image(2)] agree_mono [OF a2]]) (auto simp: W_def)
  have pool': "pool fs (sl(i := sl i @ [y])) = ?P" using i by (auto simp: pool_def split: if_splits)
  have head': "class_head s' j = class_head s j" "heap_classes s' = heap_classes s" for j by (simp_all add: s'_def class_head_def kmem1)
  have "heap_inv s' fs (sl(i := sl i @ [y])) (fr(y := rev ?offs))"
  proof (rule heap_invI)
    have "span (slab_at q) 4096 \<inter> W = {}" if "q \<in> set fs" for q
    proof -
      have q: "q \<in> ?P" "q \<notin> set (sl i)" "q \<noteq> y"
        using that la i heap_inv_parts(1) [OF inv] by (auto simp: pool_def lists_apart_def page_inv_def)
      then show ?thesis using node_space_page [OF man i sub [OF i]] pages_apart [of q y] y(1) man by (auto simp: W_def managed_def)
    qed
    then show "page_inv s' fs" by (intro page_inv_agree [OF s1(3), of _ W]) (simp_all add: s'_def kmem1 a)
    show "lists_apart fs (sl(i := sl i @ [y]))" using la y(3) i heap_inv_parts(1) [OF inv] by (auto simp: lists_apart_def page_inv_def)
    show "valid_page p \<and> span (heap_classes s') 128 \<inter> span (slab_at p) 4096 = {}" if "p \<in> pool fs (sl(i := sl i @ [y]))" for p
      using that man unfolding pool' head' by (simp add: managed_def)
    show "dlist (kmem s') (class_head s' j) (map link_at ((sl(i := sl i @ [y])) j))" if j: "j < CLASS_COUNT" for j
    proof (cases "j = i")
      case True
      then show ?thesis unfolding head' using d2 by (simp add: s'_def)
    next
      case False
      have "node_space s j (sl j) \<inter> W2 = {}"
        unfolding W2_def using la j i False y(3) [OF j]
        by (intro node_spaces_apart [OF man j i False sub [OF j] sub2]) (auto simp: lists_apart_def)
      then show ?thesis unfolding head' using dlist_space [OF d1 [OF j] a2] False by (simp add: s'_def)
    qed
    show "slab_ok (kmem s') j p ((fr(y := rev ?offs)) p)" if j: "j < CLASS_COUNT" and p: "p \<in> set ((sl(i := sl i @ [y])) j)" for j p
    proof (cases "p = y")
      case True
      then have "j = i" using p y(3) [OF j] by (auto split: if_splits)
      then show ?thesis using True slab_space [OF image(1) i a2] node_space_body [OF man i sub2 y(2)] by (simp add: s'_def W2_def)
    next
      case False
      then have p': "p \<in> set (sl j)" "p \<in> ?P" using p j by (auto simp: pool_def split: if_splits)
      have "slab_body p \<inter> W = {}"
        using node_space_body [OF man i sub [OF i] p'(2)] pages_apart [of p y] False y(1) man p'(2) slab_body_page [of p]
        by (auto simp: W_def managed_def)
      then show ?thesis using slab_space [OF heap_invD(3) [OF inv j p'(1)] j a] False by (simp add: s'_def)
    qed
  qed
  moreover have "s' = s\<lparr>kmem := m2, free_list := free_list s', free_pages := free_pages s'\<rparr>"
    unfolding s'_def by (subst s1(2)) simp
  ultimately show ?thesis using run a unfolding W_def by blast
qed

section \<open>Giving a slab back\<close>

text \<open>
  After stores to the body of a slab's page, the slab leaves its list, loses its magic number and
  its page is freed.
\<close>

lemma lists_apart_drop:
  assumes la: "lists_apart fs sl" and i: "i < CLASS_COUNT" and sl: "sl i = as @ p # bs" and p: "p \<notin> set fs"
  shows "lists_apart (p # fs) (sl(i := as @ bs))"
proof -
  let ?sl = "sl(i := as @ bs)"
  have di: "distinct (sl j)" "set fs \<inter> set (sl j) = {}" "k < CLASS_COUNT \<Longrightarrow> j \<noteq> k \<Longrightarrow> set (sl j) \<inter> set (sl k) = {}"
    if "j < CLASS_COUNT" for j k using la that unfolding lists_apart_def by blast+
  have sub: "set (?sl j) \<subseteq> set (sl j)" for j by (auto simp: sl)
  have pi: "p \<in> set (sl i)" by (simp add: sl)
  have "p \<notin> set (?sl j)" if "j < CLASS_COUNT" for j
    using di(1) [OF i] di(3) [OF that i] pi sl by (cases "j = i") auto
  moreover have "distinct (?sl j)" if "j < CLASS_COUNT" for j
    using di(1) [OF i] di(1) [OF that] sl by (cases "j = i") auto
  ultimately show ?thesis unfolding lists_apart_def using di(2,3) sub by (auto simp del: fun_upd_apply) blast+
qed

lemma drop_slab_ok:
  assumes inv: "heap_inv s fs sl fr" and i: "i < CLASS_COUNT" and sl: "sl i = as @ p # bs"
    and W1: "agree W1 (kmem s) m1" "W1 \<subseteq> slab_body p"
    and s': "s' = page_free p (s\<lparr>kmem := set_magic (list_remove m1 (link_at p)) (slab_at p) 0\<rparr>)"
  shows "heap_inv s' (p # fs) (sl(i := as @ bs)) fr"
    and "agree (span (slab_at p) 4096 \<union> node_space s i (sl i)) (kmem s) (kmem s')"
    and "s' = s\<lparr>kmem := kmem s', free_list := free_list s', free_pages := free_pages s'\<rparr>"
proof -
  let ?P = "pool fs sl" and ?sl = "sl(i := as @ bs)"
  define m2 where "m2 = list_remove m1 (link_at p)"
  define m3 where "m3 = set_magic m2 (slab_at p) 0"
  have man: "managed s ?P" by (rule heap_inv_managed [OF inv])
  have la: "lists_apart fs sl" by (rule heap_inv_parts(2) [OF inv])
  have p: "p \<in> set (sl i)" by (simp add: sl)
  have pP: "p \<in> ?P" using p i unfolding pool_def by blast
  note P = heap_invD [OF inv i p]
  have sub: "set (sl j) \<subseteq> ?P" if "j < CLASS_COUNT" for j using that by (auto simp: pool_def)
  have eq: "s' = s\<lparr>kmem := write64 m3 (slab_at p) (free_list s), free_list := slab_at p, free_pages := free_pages s + 1\<rparr>"
    unfolding s' page_free_eq [OF P(1)] by (simp add: m3_def m2_def)
  then show "s' = s\<lparr>kmem := kmem s', free_list := free_list s', free_pages := free_pages s'\<rparr>" by simp
  have k: "kmem s' = write64 m3 (slab_at p) (free_list s)" "free_list s' = slab_at p" "free_pages s' = free_pages s + 1" by (simp_all add: eq)
  have head: "class_head s' j = class_head s j" "heap_classes s' = heap_classes s" for j by (simp_all add: eq class_head_def)
  have d1: "dlist m1 (class_head s j) (map link_at (sl j))" if j: "j < CLASS_COUNT" for j
    using node_space_body [OF man j sub [OF j] pP] W1(2)
    by (intro dlist_space [OF heap_inv_parts(3) [OF inv j] W1(1)]) blast
  have d1i: "dlist m1 (class_head s i) (map link_at as @ link_at p # map link_at bs)" using d1 [OF i] sl by simp
  have a2: "agree (node_space s i (sl i)) m1 m2"
    unfolding m2_def node_space_UN sl using list_remove_agree [OF d1i] by simp
  have page: "span (slab_at p) 16 \<subseteq> span (slab_at p) 4096" "span (slab_at p) 8 \<subseteq> span (slab_at p) 4096"
    using span_mono [of 0 16 4096 "slab_at p"] span_mono [of 0 8 4096 "slab_at p"] by simp_all
  have a3: "agree (span (slab_at p) 4096) m2 m3" unfolding m3_def by (rule agree_mono [OF header_agree(1) page(1)])
  have a4: "agree (span (slab_at p) 4096) m3 (kmem s')" unfolding k by (rule agree_mono [OF agree_writes(1) page(2)])
  define W where "W = span (slab_at p) 4096 \<union> node_space s i (sl i)"
  have a1: "agree (span (slab_at p) 4096) (kmem s) m1" by (rule agree_mono [OF W1(1)]) (use W1(2) slab_body_page [of p] in blast)
  show a: "agree W (kmem s) (kmem s')"
    by (rule agree_steps [OF agree_mono [OF a1] agree_steps [OF agree_mono [OF a2] agree_steps [OF agree_mono [OF a3] agree_mono [OF a4]]]])
      (auto simp: W_def)
  have a': "agree (span (slab_at p) 4096) m2 (kmem s')" by (rule agree_steps [OF a3 a4])
  have "distinct (sl i)" using la i unfolding lists_apart_def by blast
  then have np: "p \<notin> set (as @ bs)" by (simp add: sl)
  have less: "set (?sl j) \<subseteq> set (sl j)" for j by (auto simp: sl)
  have gone: "p \<notin> set (?sl j)" if "j < CLASS_COUNT" for j using np P(5) [OF that] by auto
  show "heap_inv s' (p # fs) ?sl fr"
  proof (rule heap_invI)
    have far: "span (slab_at q) 4096 \<inter> W = {}" if "q \<in> set fs" for q
    proof -
      have q: "q \<in> ?P" "q \<notin> set (sl i)" "q \<noteq> p" using that la i p by (auto simp: pool_def lists_apart_def)
      then show ?thesis using node_space_page [OF man i sub [OF i] q(1,2)] pages_apart [of q p] P(1) man by (auto simp: W_def managed_def)
    qed
    have "page_inv (s\<lparr>kmem := m3\<rparr>) fs"
    proof (rule page_inv_agree [OF heap_inv_parts(1) [OF inv], of _ W])
      show "agree W (kmem s) (kmem (s\<lparr>kmem := m3\<rparr>))"
        by (simp, rule agree_steps [OF agree_mono [OF a1] agree_steps [OF agree_mono [OF a2] agree_mono [OF a3]]]) (auto simp: W_def)
    qed (use far in simp_all)
    then show "page_inv s' (p # fs)" using P(1,2) by (rule push_inv) (simp_all add: k)
    show "lists_apart (p # fs) ?sl"
      using la i sl P(2) by (rule lists_apart_drop)
    show "valid_page q \<and> span (heap_classes s') 128 \<inter> span (slab_at q) 4096 = {}" if "q \<in> pool (p # fs) ?sl" for q
    proof -
      have "q \<in> ?P" using that less pP unfolding pool_def by (auto simp del: fun_upd_apply)
      then show ?thesis using man by (simp add: managed_def head)
    qed
    show "dlist (kmem s') (class_head s' j) (map link_at (?sl j))" if j: "j < CLASS_COUNT" for j
    proof -
      have sj: "set (?sl j) \<subseteq> ?P" "p \<notin> set (?sl j)" using sub [OF j] less [of j] gone [OF j] by blast+
      have "dlist m2 (class_head s j) (map link_at (?sl j))"
      proof (cases "j = i")
        case True
        then show ?thesis using dlist_remove(1) [OF d1i] by (simp add: m2_def)
      next
        case False
        have "node_space s j (sl j) \<inter> node_space s i (sl i) = {}"
          using la j i False by (intro node_spaces_apart [OF man j i False sub [OF j] sub [OF i]]) (auto simp: lists_apart_def)
        then show ?thesis using dlist_space [OF d1 [OF j] a2] False by simp
      qed
      then show ?thesis unfolding head
        by (rule dlist_space [OF _ a']) (use node_space_page [OF man j sj(1) pP sj(2)] in blast)
    qed
    show "slab_ok (kmem s') j q (fr q)" if j: "j < CLASS_COUNT" and q: "q \<in> set (?sl j)" for j q
    proof -
      have q': "q \<in> set (sl j)" "q \<in> ?P" "q \<noteq> p" using q less [of j] sub [OF j] gone [OF j] by blast+
      have "slab_body q \<inter> W = {}"
        using node_space_body [OF man i sub [OF i] q'(2)] pages_apart [of q p] q'(3) P(1) man q'(2) slab_body_page [of q]
        by (auto simp: W_def managed_def)
      then show ?thesis by (rule slab_space [OF heap_invD(3) [OF inv j q'(1)] j a])
    qed
  qed
qed

section \<open>kmalloc\<close>

definition objects :: "(nat \<Rightarrow> u64 list) \<Rightarrow> (u64 \<Rightarrow> nat list) \<Rightarrow> (u64 \<times> nat) set" where
  "objects sl fr = {(object_at p x, class_sizes ! i) |i p x.
     i < CLASS_COUNT \<and> p \<in> set (sl i) \<and> x \<in> set (object_offsets (class_sizes ! i)) \<and> x \<notin> set (fr p)}"

lemma find_class_bound:
  assumes "n \<le> 2048"
  shows "find_class n class_sizes < CLASS_COUNT" "n \<le> class_sizes ! find_class n class_sizes"
  using assms by (auto simp: class_sizes_def CLASS_COUNT_def)

lemma find_class_large: "2048 < n \<Longrightarrow> find_class n class_sizes = CLASS_COUNT"
  by (simp add: class_sizes_def CLASS_COUNT_def)

lemma heap_inv_cong:
  assumes "kmem t = kmem s" "free_list t = free_list s" "free_pages t = free_pages s" "heap_classes t = heap_classes s"
  shows "heap_inv t fs sl fr = heap_inv s fs sl fr"
  using assms by (simp add: heap_inv_def page_inv_def class_head_def)

text \<open>Taking an object from a slab that has one and clearing it.\<close>

lemma heap_take:
  assumes inv: "heap_inv s fs sl fr" and p: "i < CLASS_COUNT" "p \<in> set (sl i)" "fr p = x # xs"
  shows "\<exists>m'. take_object (slab_at p) (kmem s) = (object_at p x, m') \<and>
    heap_inv (s\<lparr>kmem := memset (object_at p x) 0 (class_sizes ! i) m'\<rparr>) fs sl (fr(p := xs)) \<and>
    agree (span (slab_at p) 16 \<union> span (object_at p x) (class_sizes ! i)) (kmem s) (memset (object_at p x) 0 (class_sizes ! i) m')"
proof -
  note P = heap_invD [OF inv p(1,2)]
  have ok: "slab_ok (kmem s) i p (x # xs)" using P(3) p(3) by simp
  have x: "x \<in> set (object_offsets (class_sizes ! i))" "x \<notin> set xs" "set xs \<subseteq> set (object_offsets (class_sizes ! i))"
    using ok by (auto simp: slab_ok_def)
  obtain m' where m': "take_object (slab_at p) (kmem s) = (object_at p x, m')" "slab_ok m' i p xs" "agree (span (slab_at p) 16) (kmem s) m'"
    using take_object_ok [OF ok P(1) p(1)] by blast
  let ?m = "memset (object_at p x) 0 (class_sizes ! i) m'" and ?W = "span (slab_at p) 16 \<union> span (object_at p x) (class_sizes ! i)"
  have a2: "agree (span (object_at p x) (class_sizes ! i)) m' ?m"
    using class_sizes_cases [OF p(1)] by (intro agree_writes) auto
  have a: "agree ?W (kmem s) ?m" by (rule agree_steps [OF agree_mono [OF m'(3)] agree_mono [OF a2]]) auto
  have "slab_ok ?m i p xs" by (rule slab_ok_agree [OF m'(2) a2 slab_words_object [OF P(1) p(1) x]])
  moreover have "?W \<subseteq> slab_body p" using object_body [OF p(1) x(1), of p] by (auto simp: slab_body_def)
  ultimately show ?thesis using heap_slab_step [OF inv p(1,2) a] m'(1) a by blast
qed

end
