(* ===== verification/Heap_Contract.thy ===== *)
theory Heap_Contract
  imports Heap_Ops
begin

text \<open>
  What the kernel heap promises its callers: a set of live objects that never overlap, an
  allocation that adds one zeroed object or changes nothing, a release that removes exactly one,
  and stores only outside the objects that stay live.
\<close>

section \<open>Live objects\<close>

lemma class_span_nonempty: "i < CLASS_COUNT \<Longrightarrow> a \<in> span a (class_sizes ! i)"
  using class_sizes_cases [of i] by (force simp: span_def intro: exI [of _ 0])

lemma slab_objects_apart:
  assumes inv: "heap_inv s fs sl fr"
    and p: "i < CLASS_COUNT" "p \<in> set (sl i)" "x \<in> set (object_offsets (class_sizes ! i))"
    and q: "j < CLASS_COUNT" "q \<in> set (sl j)" "y \<in> set (object_offsets (class_sizes ! j))"
    and ne: "(p, x) \<noteq> (q, y)"
  shows "span (object_at p x) (class_sizes ! i) \<inter> span (object_at q y) (class_sizes ! j) = {}"
proof (cases "p = q")
  case True
  then have "j = i" using heap_invD(5) [OF inv p(1,2) q(1)] q(2) by simp
  then show ?thesis using True objects_apart [OF heap_invD(1) [OF inv p(1,2)] p(1,3)] q(3) ne by auto
next
  case False
  have "span (object_at p x) (class_sizes ! i) \<subseteq> span (slab_at p) 4096" "span (object_at q y) (class_sizes ! j) \<subseteq> span (slab_at q) 4096"
    using object_body [OF p(1,3), of p] object_body [OF q(1,3), of q] slab_body_page [of p] slab_body_page [of q] by blast+
  then show ?thesis using pages_apart [OF heap_invD(1) [OF inv p(1,2)] heap_invD(1) [OF inv q(1,2)] False] by blast
qed

lemma object_unique:
  assumes "heap_inv s fs sl fr"
    and "i < CLASS_COUNT" "p \<in> set (sl i)" "x \<in> set (object_offsets (class_sizes ! i))"
    and "j < CLASS_COUNT" "q \<in> set (sl j)" "y \<in> set (object_offsets (class_sizes ! j))"
    and "object_at p x = object_at q y"
  shows "p = q" "x = y" "i = j"
proof -
  have "(p, x) = (q, y)" using slab_objects_apart [OF assms(1-7)] class_span_nonempty assms(2,5,8) by fastforce
  then show "p = q" "x = y" by simp_all
  then show "i = j" using heap_invD(5) [OF assms(1,5,6,2)] assms(3) by simp
qed

lemma objectsE:
  assumes "(a, n) \<in> objects sl fr"
  obtains i p x where "a = object_at p x" "n = class_sizes ! i" "i < CLASS_COUNT" "p \<in> set (sl i)"
    "x \<in> set (object_offsets (class_sizes ! i))" "x \<notin> set (fr p)"
  using assms by (auto simp: objects_def)

lemma objectsI:
  "i < CLASS_COUNT \<Longrightarrow> p \<in> set (sl i) \<Longrightarrow> x \<in> set (object_offsets (class_sizes ! i)) \<Longrightarrow> x \<notin> set (fr p) \<Longrightarrow>
   (object_at p x, class_sizes ! i) \<in> objects sl fr"
  by (auto simp: objects_def)

lemma objects_take:
  assumes inv: "heap_inv s fs sl fr" and p: "i < CLASS_COUNT" "p \<in> set (sl i)" "fr p = x # xs"
  shows "objects sl (fr(p := xs)) = insert (object_at p x, class_sizes ! i) (objects sl fr)" (is "?A = ?B")
proof
  have x: "x \<notin> set xs" "x \<in> set (object_offsets (class_sizes ! i))"
    using heap_invD(3) [OF inv p(1,2)] p(3) by (auto simp: slab_ok_def)
  show "?A \<subseteq> ?B"
  proof
    fix z assume "z \<in> ?A"
    then obtain j q y where z: "z = (object_at q y, class_sizes ! j)" "j < CLASS_COUNT" "q \<in> set (sl j)"
      "y \<in> set (object_offsets (class_sizes ! j))" "y \<notin> set ((fr(p := xs)) q)" by (auto simp: objects_def simp del: fun_upd_apply)
    have "(q = p \<and> y = x \<and> j = i) \<or> y \<notin> set (fr q)"
      using z(5) p(3) heap_invD(5) [OF inv p(1,2) z(2)] z(3) by (auto split: if_splits)
    then show "z \<in> ?B" using z by (auto simp: objects_def)
  qed
  show "?B \<subseteq> ?A"
  proof
    fix z assume "z \<in> ?B"
    then consider "z = (object_at p x, class_sizes ! i)" | "z \<in> objects sl fr" by blast
    then show "z \<in> ?A"
    proof cases
      case 1
      then show ?thesis using x p by (simp add: objectsI)
    next
      case 2
      then obtain j q y where "z = (object_at q y, class_sizes ! j)" "j < CLASS_COUNT" "q \<in> set (sl j)"
        "y \<in> set (object_offsets (class_sizes ! j))" "y \<notin> set (fr q)" by (cases z) (auto elim: objectsE)
      then show ?thesis using p(3) by (auto intro!: objectsI split: if_splits)
    qed
  qed
qed

lemma objects_put:
  assumes inv: "heap_inv s fs sl fr" and p: "i < CLASS_COUNT" "p \<in> set (sl i)" "x \<in> set (object_offsets (class_sizes ! i))"
  shows "objects sl (fr(p := x # fr p)) = objects sl fr - {(object_at p x, class_sizes ! i)}" (is "?A = ?B")
proof
  show "?A \<subseteq> ?B"
  proof
    fix z assume "z \<in> ?A"
    then obtain j q y where z: "z = (object_at q y, class_sizes ! j)" "j < CLASS_COUNT" "q \<in> set (sl j)"
      "y \<in> set (object_offsets (class_sizes ! j))" "y \<notin> set ((fr(p := x # fr p)) q)"
      by (cases z) (auto elim: objectsE simp del: fun_upd_apply)
    then have "y \<notin> set (fr q)" "(q, y) \<noteq> (p, x)" by (auto split: if_splits)
    then show "z \<in> ?B" using z(1) object_unique [OF inv z(2-4) p] objectsI [of j q sl y fr] z(2-4) by auto
  qed
  show "?B \<subseteq> ?A"
  proof
    fix z assume "z \<in> ?B"
    then obtain j q y where z: "z = (object_at q y, class_sizes ! j)" "j < CLASS_COUNT" "q \<in> set (sl j)"
      "y \<in> set (object_offsets (class_sizes ! j))" "y \<notin> set (fr q)" "z \<noteq> (object_at p x, class_sizes ! i)"
      by (cases z) (auto elim: objectsE)
    then have "y \<notin> set ((fr(p := x # fr p)) q)" using heap_invD(5) [OF inv p(1,2) z(2)] by auto
    then show "z \<in> ?A" unfolding z(1) using z(2-4) by (intro objectsI)
  qed
qed

section \<open>Where the heap may store\<close>

definition spare :: "'a hstate_scheme \<Rightarrow> u64 set \<Rightarrow> (u64 \<times> nat) set \<Rightarrow> u64 set" where
  "spare s P L = (span (heap_classes s) 128 \<union> (\<Union>p\<in>P. span (phys_to_virt p) 4096)) - (\<Union>(a, n)\<in>L. span a n)"

lemma spare_cong: "heap_classes t = heap_classes s \<Longrightarrow> spare t P L = spare s P L"
  by (simp add: spare_def)

lemma spare_anti: "L \<subseteq> L' \<Longrightarrow> spare s P L' \<subseteq> spare s P L"
  by (auto simp: spare_def)

lemma spareI:
  assumes "W \<subseteq> span (heap_classes s) 128 \<union> (\<Union>p\<in>P. span (phys_to_virt p) 4096)"
    and "\<And>a n. (a, n) \<in> L \<Longrightarrow> span a n \<inter> W = {}"
  shows "W \<subseteq> spare s P L"
  using assms by (fastforce simp: spare_def)

lemma page_pool: "i < CLASS_COUNT \<Longrightarrow> p \<in> set (sl i) \<Longrightarrow> p \<in> pool fs sl"
  by (auto simp: pool_def)

text \<open>The header of a slab and one of its objects, against the live objects other than that one.\<close>

lemma spare_object:
  assumes inv: "heap_inv s fs sl fr" and p: "i < CLASS_COUNT" "p \<in> set (sl i)" "x \<in> set (object_offsets (class_sizes ! i))"
  shows "span (slab_at p) 16 \<union> span (object_at p x) (class_sizes ! i) \<subseteq> spare s (pool fs sl) (objects sl fr - {(object_at p x, class_sizes ! i)})"
proof (rule spareI)
  show "span (slab_at p) 16 \<union> span (object_at p x) (class_sizes ! i) \<subseteq> span (heap_classes s) 128 \<union> (\<Union>p\<in>pool fs sl. span (phys_to_virt p) 4096)"
    using object_body [OF p(1,3), of p] slab_body_page [of p] page_pool [of i p sl fs] p(1,2) by (auto simp: slab_body_def)
next
  fix a n assume "(a, n) \<in> objects sl fr - {(object_at p x, class_sizes ! i)}"
  then obtain j q y where o: "a = object_at q y" "n = class_sizes ! j" "j < CLASS_COUNT" "q \<in> set (sl j)"
    "y \<in> set (object_offsets (class_sizes ! j))" and ne: "(object_at q y, class_sizes ! j) \<noteq> (object_at p x, class_sizes ! i)"
    by (auto elim: objectsE)
  have "(q, y) \<noteq> (p, x)" using ne heap_invD(5) [OF inv p(1,2) o(3)] o(4) by auto
  then have "span a n \<inter> span (object_at p x) (class_sizes ! i) = {}" unfolding o(1,2) by (rule slab_objects_apart [OF inv o(3-5) p])
  moreover have "span a n \<inter> span (slab_at p) 16 = {}"
  proof (cases "q = p")
    case True
    have "span (slab_at p) 16 \<subseteq> span (slab_at p) 32" using span_mono [of 0 16 32 "slab_at p"] by simp
    then show ?thesis unfolding o(1,2) using header_object_apart(2) [OF heap_invD(1) [OF inv o(3,4)] o(3,5)] True by blast
  next
    case False
    then show ?thesis unfolding o(1,2)
      using pages_apart [OF heap_invD(1) [OF inv o(3,4)] heap_invD(1) [OF inv p(1,2)] False] object_body [OF o(3,5), of q]
        slab_body_page [of q] span_mono [of 0 16 4096 "slab_at p"] by (simp; blast)
  qed
  ultimately show "span a n \<inter> (span (slab_at p) 16 \<union> span (object_at p x) (class_sizes ! i)) = {}" by blast
qed

text \<open>A page without live objects and the links of a list, against the live objects.\<close>

lemma spare_page:
  assumes inv: "heap_inv s fs sl fr" and i: "i < CLASS_COUNT" and p: "p \<in> pool fs sl"
    and none: "\<And>j x. j < CLASS_COUNT \<Longrightarrow> p \<in> set (sl j) \<Longrightarrow> x \<in> set (object_offsets (class_sizes ! j)) \<Longrightarrow> (object_at p x, class_sizes ! j) \<in> L \<Longrightarrow> x \<in> set (fr p)"
    and L: "L \<subseteq> objects sl fr"
  shows "span (slab_at p) 4096 \<union> node_space s i (sl i) \<subseteq> spare s (pool fs sl) L"
proof (rule spareI)
  have man: "managed s (pool fs sl)" by (rule heap_inv_managed [OF inv])
  show "span (slab_at p) 4096 \<union> node_space s i (sl i) \<subseteq> span (heap_classes s) 128 \<union> (\<Union>p\<in>pool fs sl. span (slab_at p) 4096)"
    using p class_head_span [OF i, of s] link_page page_pool [of i _ sl fs] i unfolding node_space_def by blast
  fix a n assume an: "(a, n) \<in> L"
  with L have "(a, n) \<in> objects sl fr" by blast
  then obtain j q y where o: "a = object_at q y" "n = class_sizes ! j" "j < CLASS_COUNT" "q \<in> set (sl j)"
    "y \<in> set (object_offsets (class_sizes ! j))" "y \<notin> set (fr q)" by (rule objectsE)
  have q: "q \<in> pool fs sl" by (rule page_pool) (fact o(3), fact o(4))
  have body: "span a n \<subseteq> slab_body q" unfolding o(1,2) by (rule object_body [OF o(3,5)])
  have "q \<noteq> p" using none [of j y] o an by auto
  then have "slab_body q \<inter> span (slab_at p) 4096 = {}"
    using pages_apart [OF heap_inv_pages(1) [OF inv q] heap_inv_pages(1) [OF inv p]] slab_body_page [of q] by blast
  moreover have "slab_body q \<inter> node_space s i (sl i) = {}"
    by (rule node_space_body [OF man i _ q]) (use i in \<open>auto simp: pool_def\<close>)
  ultimately show "span a n \<inter> (span (slab_at p) 4096 \<union> node_space s i (sl i)) = {}" using body by blast
qed

section \<open>kmalloc on a locked heap\<close>

lemma objects_new:
  assumes "lists_apart (y # fs) sl" "i < CLASS_COUNT"
  shows "objects (sl(i := sl i @ [y])) (fr(y := rev (object_offsets (class_sizes ! i)))) = objects sl fr"
proof -
  have y: "y \<notin> set (sl j)" if "j < CLASS_COUNT" for j using assms(1) that by (auto simp: lists_apart_def)
  have "(j < CLASS_COUNT \<and> q \<in> set ((sl(i := sl i @ [y])) j) \<and> x \<in> set (object_offsets (class_sizes ! j)) \<and>
      x \<notin> set ((fr(y := rev (object_offsets (class_sizes ! i)))) q)) =
    (j < CLASS_COUNT \<and> q \<in> set (sl j) \<and> x \<in> set (object_offsets (class_sizes ! j)) \<and> x \<notin> set (fr q))" for j q x
    using y by (cases "q = y"; cases "j = i") auto
  then show ?thesis unfolding objects_def by presburger
qed

lemma pool_new: "i < CLASS_COUNT \<Longrightarrow> pool fs (sl(i := sl i @ [y])) = pool (y # fs) sl"
  by (auto simp: pool_def split: if_splits)

text \<open>The slab an allocation takes its object from: one with a free object, else a new one.\<close>

definition pick_slab :: "nat \<Rightarrow> u64 \<Rightarrow> 'a hstate_scheme \<Rightarrow> u64 \<times> 'a hstate_scheme" where
  "pick_slab i slab s = (if slab = 0 then new_slab i s else (slab, s))"

definition heap_step :: "'a hstate_scheme \<Rightarrow> 'a hstate_scheme \<Rightarrow> bool" where
  "heap_step s t \<longleftrightarrow> (\<exists>m l n. t = s\<lparr>kmem := m, free_list := l, free_pages := n\<rparr>)"

lemma heap_step_refl: "heap_step s s"
  unfolding heap_step_def by (intro exI [of _ "kmem s"] exI [of _ "free_list s"] exI [of _ "free_pages s"]) simp

lemma heap_step_kmem: "heap_step s t \<Longrightarrow> heap_step s (t\<lparr>kmem := m\<rparr>)"
proof -
  assume "heap_step s t"
  then obtain k l n where t: "t = s\<lparr>kmem := k, free_list := l, free_pages := n\<rparr>" by (auto simp: heap_step_def)
  have "t\<lparr>kmem := m\<rparr> = s\<lparr>kmem := m, free_list := l, free_pages := n\<rparr>" by (simp add: t)
  then show ?thesis unfolding heap_step_def by blast
qed

lemma heap_step_same: "heap_step s t \<Longrightarrow> heap_classes t = heap_classes s \<and> sstatus t = sstatus s \<and> heap_lock t = heap_lock s"
  unfolding heap_step_def by auto

lemma slab_address: "valid_page p \<Longrightarrow> slab_at p \<noteq> 0"
  using valid_page_virt by blast

lemma pick_old:
  assumes inv: "heap_inv s fs sl fr" and i: "i < CLASS_COUNT" and f: "find (\<lambda>p. fr p \<noteq> []) (sl i) = Some p"
  shows "\<exists>x xs. pick_slab i (slab_at p) s = (slab_at p, s) \<and> p \<in> set (sl i) \<and> fr p = x # xs"
proof -
  have p: "p \<in> set (sl i)" "fr p \<noteq> []" using f by (auto simp: find_Some_iff)
  then show ?thesis using slab_address [OF heap_invD(1) [OF inv i p(1)]] by (auto simp: pick_slab_def neq_Nil_conv)
qed

lemma pick_new:
  assumes inv: "heap_inv s (y # fs) sl fr" and i: "i < CLASS_COUNT"
  shows "\<exists>t. pick_slab i 0 s = (slab_at y, t) \<and> heap_step s t \<and>
    heap_inv t fs (sl(i := sl i @ [y])) (fr(y := rev (object_offsets (class_sizes ! i)))) \<and>
    agree (spare s (pool (y # fs) sl) (objects sl fr)) (kmem s) (kmem t)"
proof -
  obtain m' t where t: "new_slab i s = (slab_at y, t)" "heap_inv t fs (sl(i := sl i @ [y])) (fr(y := rev (object_offsets (class_sizes ! i))))"
    "t = s\<lparr>kmem := m', free_list := free_list t, free_pages := free_pages t\<rparr>"
    "agree (span (slab_at y) 4096 \<union> node_space s i (sl i)) (kmem s) m'" using new_slab_ok [OF assms] by blast
  have m: "kmem t = m'" by (subst t(3)) simp
  have "span (slab_at y) 4096 \<union> node_space s i (sl i) \<subseteq> spare s (pool (y # fs) sl) (objects sl fr)"
    using heap_inv_parts(2) [OF inv] by (intro spare_page [OF inv i]) (auto simp: pool_def lists_apart_def)
  then have "agree (spare s (pool (y # fs) sl) (objects sl fr)) (kmem s) (kmem t)" unfolding m by (rule agree_mono [OF t(4)])
  moreover have "heap_step s t" unfolding heap_step_def using t(3) by blast
  ultimately show ?thesis using t(1,2) by (auto simp: pick_slab_def)
qed

lemma pick_none: "heap_inv s [] sl fr \<Longrightarrow> pick_slab i 0 s = (0, s)"
  by (drule heap_inv_parts(1)) (simp add: pick_slab_def new_slab_def page_alloc_empty)

section \<open>The contract\<close>

definition heap_rep :: "'a hstate_scheme \<Rightarrow> u64 set \<Rightarrow> (u64 \<times> nat) set \<Rightarrow> bool" where
  "heap_rep s P L \<longleftrightarrow> heap_lock s = 0 \<and>
     (\<exists>fs sl fr. heap_inv s fs sl fr \<and> slabs_used sl fr \<and> pool fs sl = P \<and> objects sl fr = L)"

definition object_size :: "nat \<Rightarrow> nat" where
  "object_size n = class_sizes ! find_class n class_sizes"

text \<open>The state in the critical section, and what leaves it.\<close>

definition locked :: "'a hstate_scheme \<Rightarrow> 'a hstate_scheme" where
  "locked s = snd (irq_save s)\<lparr>heap_lock := 1\<rparr>"

definition unlocked :: "'a hstate_scheme \<Rightarrow> 'a hstate_scheme \<Rightarrow> 'a hstate_scheme" where
  "unlocked s t = t\<lparr>sstatus := sstatus s, heap_lock := 0\<rparr>"

lemma heap_inv_locked: "heap_inv (locked s) fs sl fr = heap_inv s fs sl fr"
  by (rule heap_inv_cong) (simp_all add: locked_def irq_defs)

lemma heap_inv_unlocked: "heap_inv (unlocked s t) fs sl fr = heap_inv t fs sl fr"
  by (rule heap_inv_cong) (simp_all add: unlocked_def)

lemma unlocked_fields [simp]:
  "kmem (unlocked s t) = kmem t" "heap_lock (unlocked s t) = 0" "heap_classes (unlocked s t) = heap_classes t"
  "kmem (locked s) = kmem s" "heap_classes (locked s) = heap_classes s" "class_head (locked s) i = class_head s i"
  "sstatus (unlocked s t) = sstatus s" "heap_lock (locked s) = 1"
  by (simp_all add: unlocked_def locked_def irq_defs class_head_def)

lemma unlocked_locked: "heap_lock s = 0 \<Longrightarrow> unlocked s (locked s) = s"
  by (simp add: unlocked_def locked_def irq_defs)

lemma leave:
  assumes "sstatus t = sstatus (locked s)"
  shows "irq_restore (fst (irq_save s)) (t\<lparr>heap_lock := spin_unlock l\<rparr>) = unlocked s t"
  using irq_restored [of "t\<lparr>heap_lock := 0\<rparr>" s] assms by (simp add: unlocked_def locked_def spin_unlock_def)

lemma kmalloc_small:
  assumes "n \<le> 2048" "heap_lock s = 0" "i = find_class n class_sizes"
    and "find_slab (kmem s) (class_head s i) (list_next (kmem s) (class_head s i)) = Some slab"
    and "pick_slab i slab (locked s) = (slab', t)" "sstatus t = sstatus (locked s)"
  shows "kmalloc n s = Some (if slab' = 0 then (0, unlocked s t)
    else (fst (take_object slab' (kmem t)), unlocked s (t\<lparr>kmem := memset (fst (take_object slab' (kmem t))) 0 (object_size n) (snd (take_object slab' (kmem t)))\<rparr>)))"
proof -
  have i: "find_class (if n = 0 then 1 else n) class_sizes = i" using assms(3) by (simp add: class_sizes_def)
  have lt: "i < CLASS_COUNT" using find_class_bound(1) [OF assms(1)] assms(3) by simp
  have l: "spin_lock (heap_lock (snd (irq_save s))) = Some 1" using assms(2) by (simp add: irq_defs spin_lock_def)
  have "sstatus (t\<lparr>kmem := m\<rparr>) = sstatus (locked s)" for m using assms(6) by simp
  note lv = leave [OF assms(6)] leave [OF this]
  obtain a b where ab: "irq_save s = (a, b)" by (cases "irq_save s")
  have b: "b\<lparr>heap_lock := 1\<rparr> = locked s" by (simp add: locked_def ab)
  have "kmalloc n s = (case find_slab (kmem (locked s)) (class_head (locked s) i) (list_next (kmem (locked s)) (class_head (locked s) i)) of
      None \<Rightarrow> None
    | Some slab \<Rightarrow> (case pick_slab i slab (locked s) of (slab, t) \<Rightarrow>
        if slab = 0 then Some (0, irq_restore a (t\<lparr>heap_lock := spin_unlock (heap_lock t)\<rparr>))
        else (case take_object slab (kmem t) of (r, m) \<Rightarrow>
          Some (r, (irq_restore a (t\<lparr>kmem := m, heap_lock := spin_unlock (heap_lock t)\<rparr>))
            \<lparr>kmem := memset r 0 (class_sizes ! i) (kmem (irq_restore a (t\<lparr>kmem := m, heap_lock := spin_unlock (heap_lock t)\<rparr>)))\<rparr>))))"
    using l lt unfolding kmalloc_def Let_def i ab pick_slab_def by (simp only: prod.case snd_conv option.case b if_False nat_neq_iff) simp
  then show ?thesis using assms(4,5) lv ab
    by (cases "take_object slab' (kmem t)") (simp add: object_size_def assms(3) unlocked_def)
qed

lemma memset_inside: "j < n \<Longrightarrow> n \<le> 4096 \<Longrightarrow> memset a b n m (a + of_nat j) = b"
proof -
  assume j: "j < n" "n \<le> 4096"
  then have "unat (of_nat j :: u64) = j" by (intro unat_of_nat_small) simp
  then show ?thesis using j by (simp add: memset_block write_bytes_def)
qed

definition cleared :: "u64 \<Rightarrow> nat \<Rightarrow> mem \<Rightarrow> mem" where
  "cleared slab n m = memset (fst (take_object slab m)) 0 n (snd (take_object slab m))"

lemma alloc_from:
  assumes inv: "heap_inv t fs sl fr" and p: "i < CLASS_COUNT" "p \<in> set (sl i)" "fr p = x # xs"
  shows "fst (take_object (slab_at p) (kmem t)) = object_at p x"
    and "heap_inv (t\<lparr>kmem := cleared (slab_at p) (class_sizes ! i) (kmem t)\<rparr>) fs sl (fr(p := xs))"
    and "agree (spare t (pool fs sl) (objects sl fr)) (kmem t) (cleared (slab_at p) (class_sizes ! i) (kmem t))"
    and "object_at p x \<noteq> 0"
    and "\<forall>(a, k)\<in>objects sl fr. span (object_at p x) (class_sizes ! i) \<inter> span a k = {}"
    and "j < class_sizes ! i \<Longrightarrow> cleared (slab_at p) (class_sizes ! i) (kmem t) (object_at p x + of_nat j) = 0"
proof -
  note tk = heap_take [OF inv p]
  have x: "x \<in> set (object_offsets (class_sizes ! i))" using heap_invD(3) [OF inv p(1,2)] p(3) by (simp add: slab_ok_def)
  have free: "(object_at p x, class_sizes ! i) \<notin> objects sl fr"
    using object_unique [OF inv p(1,2) x] p(3) by (fastforce elim: objectsE)
  show "fst (take_object (slab_at p) (kmem t)) = object_at p x"
    and "heap_inv (t\<lparr>kmem := cleared (slab_at p) (class_sizes ! i) (kmem t)\<rparr>) fs sl (fr(p := xs))"
    using tk by (auto simp: cleared_def)
  show "agree (spare t (pool fs sl) (objects sl fr)) (kmem t) (cleared (slab_at p) (class_sizes ! i) (kmem t))"
    using tk spare_object [OF inv p(1,2) x] free by (auto simp: cleared_def intro: agree_mono)
  show "object_at p x \<noteq> 0"
    using object_offset_bounds [OF p(1) x] by (intro object_nonzero heap_invD(1) [OF inv p(1,2)]) simp
  have "span (object_at p x) (class_sizes ! i) \<inter> span a k = {}" if "(a, k) \<in> objects sl fr" for a k
    using spare_object [OF inv p(1,2) x] free that by (fastforce simp: spare_def)
  then show "\<forall>(a, k)\<in>objects sl fr. span (object_at p x) (class_sizes ! i) \<inter> span a k = {}" by blast
  show "cleared (slab_at p) (class_sizes ! i) (kmem t) (object_at p x + of_nat j) = 0" if "j < class_sizes ! i"
    using tk that class_sizes_cases [OF p(1)] by (auto simp: cleared_def intro!: memset_inside)
qed

lemma slabs_used_take:
  assumes inv: "heap_inv t fs sl fr" and p: "i < CLASS_COUNT" "p \<in> set (sl i)" "fr p = x # xs"
    and "\<And>j q. j < CLASS_COUNT \<Longrightarrow> q \<in> set (sl j) \<Longrightarrow> q \<noteq> p \<Longrightarrow> length (fr q) < length (object_offsets (class_sizes ! j))"
  shows "slabs_used sl (fr(p := xs))"
proof -
  have "length xs < length (object_offsets (class_sizes ! i))" using heap_invD(3) [OF inv p(1,2)] p(3) by (simp add: slab_ok_def)
  then show ?thesis using assms(5) heap_invD(5) [OF inv p(1,2)] by (auto simp: slabs_used_def)
qed

text \<open>The outcome of a successful allocation.\<close>

definition allocated :: "'a hstate_scheme \<Rightarrow> u64 set \<Rightarrow> (u64 \<times> nat) set \<Rightarrow> nat \<Rightarrow> u64 \<Rightarrow> 'a hstate_scheme \<Rightarrow> bool" where
  "allocated s P L n r s' \<longleftrightarrow> r \<noteq> 0 \<and> heap_rep s' P (insert (r, n) L) \<and>
     (\<forall>(a, k)\<in>L. span r n \<inter> span a k = {}) \<and> (\<forall>j<n. kmem s' (r + of_nat j) = 0) \<and>
     agree (spare s P L) (kmem s) (kmem s') \<and> sstatus s' = sstatus s"

lemma allocatedI:
  assumes st: "heap_step (locked s) t" "agree (spare s (pool fs sl) (objects sl fr)) (kmem s) (kmem t)"
    and inv: "heap_inv t fs sl fr" and p: "i < CLASS_COUNT" "p \<in> set (sl i)" "fr p = x # xs"
    and us: "\<And>j q. j < CLASS_COUNT \<Longrightarrow> q \<in> set (sl j) \<Longrightarrow> q \<noteq> p \<Longrightarrow> length (fr q) < length (object_offsets (class_sizes ! j))"
  shows "allocated s (pool fs sl) (objects sl fr) (class_sizes ! i) (object_at p x)
    (unlocked s (t\<lparr>kmem := cleared (slab_at p) (class_sizes ! i) (kmem t)\<rparr>))"
proof -
  note a = alloc_from [OF inv p]
  have "heap_rep (unlocked s (t\<lparr>kmem := cleared (slab_at p) (class_sizes ! i) (kmem t)\<rparr>)) (pool fs sl) (insert (object_at p x, class_sizes ! i) (objects sl fr))"
    unfolding heap_rep_def heap_inv_unlocked objects_take [OF inv p, symmetric]
    using a(2) slabs_used_take [OF inv p us] by auto
  moreover have "spare t (pool fs sl) (objects sl fr) = spare s (pool fs sl) (objects sl fr)"
    using heap_step_same [OF st(1)] by (intro spare_cong) simp
  ultimately show ?thesis unfolding allocated_def using a(3-6) agree_steps [OF st(2)] by simp
qed

lemma allocated_new:
  assumes inv: "heap_inv (locked s) (y # ys) sl fr" and i: "i < CLASS_COUNT" and us: "slabs_used sl fr"
  shows "\<exists>t x. pick_slab i 0 (locked s) = (slab_at y, t) \<and> sstatus t = sstatus (locked s) \<and> slab_at y \<noteq> 0 \<and>
    fst (take_object (slab_at y) (kmem t)) = object_at y x \<and>
    allocated s (pool (y # ys) sl) (objects sl fr) (class_sizes ! i) (object_at y x)
      (unlocked s (t\<lparr>kmem := cleared (slab_at y) (class_sizes ! i) (kmem t)\<rparr>))"
proof -
  let ?sl = "sl(i := sl i @ [y])" and ?fr = "fr(y := rev (object_offsets (class_sizes ! i)))"
  obtain t where t: "pick_slab i 0 (locked s) = (slab_at y, t)" "heap_step (locked s) t" "heap_inv t ys ?sl ?fr"
    "agree (spare (locked s) (pool (y # ys) sl) (objects sl fr)) (kmem (locked s)) (kmem t)"
    using pick_new [OF inv i] by blast
  have same: "pool ys ?sl = pool (y # ys) sl" "objects ?sl ?fr = objects sl fr"
    using pool_new [OF i] objects_new [OF heap_inv_parts(2) [OF inv] i] by auto
  obtain x xs where x: "?fr y = x # xs"
    using object_offsets_length [OF i] by (cases "rev (object_offsets (class_sizes ! i))") auto
  have y: "y \<in> set (?sl i)" by simp
  have ag: "agree (spare s (pool ys ?sl) (objects ?sl ?fr)) (kmem s) (kmem t)"
    using t(4) unfolding same by (simp add: spare_cong [of "locked s" s])
  have "length (?fr q) < length (object_offsets (class_sizes ! j))" if "j < CLASS_COUNT" "q \<in> set (?sl j)" "q \<noteq> y" for j q
    using us that by (auto simp: slabs_used_def split: if_splits)
  from allocatedI [OF t(2) ag t(3) i y x this] show ?thesis
    using t(1) heap_step_same [OF t(2)] alloc_from(1) [OF t(3) i y x] slab_address [OF heap_invD(1) [OF t(3) i y]]
    unfolding same by blast
qed

lemma kmalloc_ok:
  assumes "heap_rep s P L" "n \<le> 2048"
  shows "kmalloc n s = Some (0, s) \<and> free_pages s = 0 \<or> (\<exists>r s'. kmalloc n s = Some (r, s') \<and> allocated s P L (object_size n) r s')"
proof -
  obtain fs sl fr where inv: "heap_inv s fs sl fr" and us: "slabs_used sl fr" and PL: "P = pool fs sl" "L = objects sl fr"
    and lock: "heap_lock s = 0" using assms(1) by (auto simp: heap_rep_def)
  define i where "i = find_class n class_sizes"
  have i: "i < CLASS_COUNT" using find_class_bound(1) [OF assms(2)] by (simp add: i_def)
  have inv': "heap_inv (locked s) fs sl fr" using inv by (simp add: heap_inv_locked)
  note run = kmalloc_small [OF assms(2) lock i_def find_slab_class [OF inv i], folded cleared_def, unfolded object_size_def, folded i_def]
  have us': "length (fr q) < length (object_offsets (class_sizes ! j))" if "j < CLASS_COUNT" "q \<in> set (sl j)" for j q
    using us that by (auto simp: slabs_used_def)
  show ?thesis
  proof (cases "find (\<lambda>p. fr p \<noteq> []) (sl i)")
    case (Some p)
    then obtain x xs where px: "pick_slab i (slab_at p) (locked s) = (slab_at p, locked s)" "p \<in> set (sl i)" "fr p = x # xs"
      using pick_old [OF inv' i] by blast
    have "kmalloc n s = Some (object_at p x, unlocked s ((locked s)\<lparr>kmem := cleared (slab_at p) (class_sizes ! i) (kmem (locked s))\<rparr>))"
      using run [of "slab_at p" "locked s"] px Some slab_address [OF heap_invD(1) [OF inv i px(2)]] alloc_from(1) [OF inv' i px(2,3)] by simp
    moreover have "allocated s P L (object_size n) (object_at p x) (unlocked s ((locked s)\<lparr>kmem := cleared (slab_at p) (class_sizes ! i) (kmem (locked s))\<rparr>))"
      unfolding PL object_size_def i_def [symmetric]
      by (rule allocatedI [OF heap_step_refl _ inv' i px(2,3) us']) (simp_all add: agree_refl)
    ultimately show ?thesis by blast
  next
    case None
    show ?thesis
    proof (cases fs)
      case Nil
      then have "free_pages s = 0" using heap_inv_parts(1) [OF inv] by (simp add: page_inv_def unat_eq_zero)
      then show ?thesis using run [of 0 "locked s"] None pick_none [of "locked s" sl fr i] inv' Nil unlocked_locked [OF lock] by simp
    next
      case (Cons y ys)
      then show ?thesis using allocated_new [of s y ys sl fr i] inv' i us run [of "slab_at y"] None
        unfolding PL object_size_def i_def [symmetric] by auto
    qed
  qed
qed

section \<open>kfree\<close>

lemma object_slab:
  assumes "valid_page p" "x < 4096"
  shows "object_at p x AND NOT PAGE_MASK = slab_at p"
proof -
  have al: "page_aligned (slab_at p)" using valid_page_virt [OF assms(1)] by simp
  then obtain q where q: "unat (slab_at p) = 4096 * q" by (auto simp: page_aligned_iff_dvd)
  then have "unat (object_at p x) = 4096 * q + x" using unat_page_offset [OF al assms(2)] by simp
  then have "unat (object_at p x AND NOT PAGE_MASK) = unat (slab_at p)" using assms(2) q by (simp add: unat_and_not_PAGE_MASK)
  then show ?thesis by (simp add: word_unat_eq_iff)
qed

lemma kfree_live:
  assumes lock: "heap_lock s = 0" and ok: "slab_ok (kmem s) i p xs" and p: "valid_page p" "i < CLASS_COUNT"
    and x: "x \<in> set (object_offsets (class_sizes ! i))" and used: "slab_used (kmem s) (slab_at p) \<noteq> 0"
    and m: "m = put_object (slab_at p) (object_at p x) (kmem s)"
  shows "kfree (object_at p x) s = Some (if slab_used m (slab_at p) = 0
    then page_free p (s\<lparr>kmem := set_magic (list_remove m (link_at p)) (slab_at p) 0\<rparr>) else s\<lparr>kmem := m\<rparr>)"
proof -
  have b: "x < 4096" using object_offset_bounds [OF p(2) x] by simp
  have l: "spin_lock (heap_lock (snd (irq_save s))) = Some 1" using lock by (simp add: irq_defs spin_lock_def)
  have ci: "unat (of_nat i :: u16) < CLASS_COUNT" using p(2) by (simp add: CLASS_COUNT_def unat_of_nat)
  obtain a b where ab: "irq_save s = (a, b)" by (cases "irq_save s")
  have bl: "b\<lparr>heap_lock := 1\<rparr> = locked s" by (simp add: locked_def ab)
  have un: "unlocked s ((locked s)\<lparr>kmem := k\<rparr>) = s\<lparr>kmem := k\<rparr>" for k
    using lock by (simp add: unlocked_def locked_def irq_defs)
  have "sstatus ((locked s)\<lparr>kmem := k\<rparr>) = sstatus (locked s)" for k by simp
  note lv = leave [OF this, unfolded un]
  show ?thesis
    using l ok used lv ci object_nonzero [OF p(1) b]
    unfolding kfree_def Let_def object_slab [OF p(1) b] ab m put_object_def slab_ok_def
    by (simp add: bl slab_link_def)
qed

lemma objects_drop:
  assumes "lists_apart fs sl" "i < CLASS_COUNT" "sl i = as @ p # bs" "set (object_offsets (class_sizes ! i)) \<subseteq> set xs"
  shows "objects (sl(i := as @ bs)) fr = objects sl (fr(p := xs))" "pool (p # fs) (sl(i := as @ bs)) = pool fs sl"
proof -
  let ?sl = "sl(i := as @ bs)"
  have p: "p \<notin> set (sl j)" if "j < CLASS_COUNT" "j \<noteq> i" for j
    using assms(1-3) that by (auto simp: lists_apart_def)
  have p': "p \<notin> set (as @ bs)" using assms(1-3) by (auto simp: lists_apart_def)
  have "(j < CLASS_COUNT \<and> q \<in> set (?sl j) \<and> x \<in> set (object_offsets (class_sizes ! j)) \<and> x \<notin> set (fr q)) =
    (j < CLASS_COUNT \<and> q \<in> set (sl j) \<and> x \<in> set (object_offsets (class_sizes ! j)) \<and> x \<notin> set ((fr(p := xs)) q))" for j q x
    using p p' assms(3,4) by (cases "q = p"; cases "j = i") auto
  then show "objects ?sl fr = objects sl (fr(p := xs))" unfolding objects_def by presburger
  have "(q = p \<or> (\<exists>j<CLASS_COUNT. q \<in> set (?sl j))) = (\<exists>j<CLASS_COUNT. q \<in> set (sl j))" for q
  proof -
    have "q \<in> set (?sl j) \<longleftrightarrow> q \<in> set (sl j)" if "j < CLASS_COUNT" "q \<noteq> p" for j using assms(3) that by auto
    moreover have "p \<in> set (sl i)" by (simp add: assms(3))
    ultimately show ?thesis using assms(2) by (cases "q = p") blast+
  qed
  then show "pool (p # fs) ?sl = pool fs sl" by (auto simp: pool_def simp del: fun_upd_apply)
qed

text \<open>The outcome of a release.\<close>

definition released :: "'a hstate_scheme \<Rightarrow> u64 set \<Rightarrow> (u64 \<times> nat) set \<Rightarrow> 'a hstate_scheme \<Rightarrow> bool" where
  "released s P L s' \<longleftrightarrow> heap_rep s' P L \<and> agree (spare s P L) (kmem s) (kmem s') \<and> sstatus s' = sstatus s"

lemma put_step:
  assumes inv: "heap_inv s fs sl fr" and p: "i < CLASS_COUNT" "p \<in> set (sl i)"
    and x: "x \<in> set (object_offsets (class_sizes ! i))" "x \<notin> set (fr p)"
  defines "m \<equiv> put_object (slab_at p) (object_at p x) (kmem s)"
  shows "slab_used (kmem s) (slab_at p) \<noteq> 0" "slab_ok m i p (x # fr p)" "heap_inv (s\<lparr>kmem := m\<rparr>) fs sl (fr(p := x # fr p))"
    and "agree (span (slab_at p) 16 \<union> span (object_at p x) 8) (kmem s) m" "span (slab_at p) 16 \<union> span (object_at p x) 8 \<subseteq> slab_body p"
    and "agree (spare s (pool fs sl) (objects sl fr - {(object_at p x, class_sizes ! i)})) (kmem s) m"
proof -
  note P = heap_invD [OF inv p]
  show used: "slab_used (kmem s) (slab_at p) \<noteq> 0"
  proof
    assume "slab_used (kmem s) (slab_at p) = 0"
    then have "length (fr p) = length (object_offsets (class_sizes ! i))" "distinct (fr p)" "set (fr p) \<subseteq> set (object_offsets (class_sizes ! i))"
      using P(3) by (simp_all add: slab_ok_def)
    then have "set (fr p) = set (object_offsets (class_sizes ! i))"
      using object_offsets_distinct [OF p(1)] by (metis List.finite_set card_subset_eq distinct_card)
    with x show False by simp
  qed
  note put = put_object_ok [OF P(3,1) p(1) x used, folded m_def]
  show "slab_ok m i p (x # fr p)" and "agree (span (slab_at p) 16 \<union> span (object_at p x) 8) (kmem s) m" by (fact put)+
  show body: "span (slab_at p) 16 \<union> span (object_at p x) 8 \<subseteq> slab_body p"
    using object_body [OF p(1) x(1), of p] object_word [OF p(1), of "object_at p x"] by (auto simp: slab_body_def)
  show "heap_inv (s\<lparr>kmem := m\<rparr>) fs sl (fr(p := x # fr p))" by (rule heap_slab_step [OF inv p put(2) body put(1)])
  show "agree (spare s (pool fs sl) (objects sl fr - {(object_at p x, class_sizes ! i)})) (kmem s) m"
    by (rule agree_mono [OF put(2)]) (use spare_object [OF inv p x(1)] object_word [OF p(1), of "object_at p x"] in blast)
qed

lemma kfree_drop:
  assumes inv: "heap_inv s fs sl fr" and us: "slabs_used sl fr" and lock: "heap_lock s = 0"
    and i: "i < CLASS_COUNT" and p: "p \<in> set (sl i)"
    and x: "x \<in> set (object_offsets (class_sizes ! i))" "x \<notin> set (fr p)" "set (object_offsets (class_sizes ! i)) \<subseteq> set (x # fr p)"
  shows "released s (pool fs sl) (objects sl fr - {(object_at p x, class_sizes ! i)})
    (page_free p (s\<lparr>kmem := set_magic (list_remove (put_object (slab_at p) (object_at p x) (kmem s)) (link_at p)) (slab_at p) 0\<rparr>))"
    (is "released s ?P ?L ?s")
proof -
  obtain as bs where ab: "sl i = as @ p # bs" using p by (auto dest: split_list)
  note d = drop_slab_ok [OF inv i ab put_step(4,5) [OF inv i p x(1,2)] refl]
  have same: "sstatus ?s = sstatus s" "heap_lock ?s = heap_lock s"
    using arg_cong [OF d(3), of sstatus] arg_cong [OF d(3), of heap_lock] by simp_all
  note od = objects_drop(1) [OF heap_inv_parts(2) [OF inv] i ab x(3), of fr] objects_drop(2) [OF heap_inv_parts(2) [OF inv] i ab x(3)]
  have "slabs_used (sl(i := as @ bs)) fr" using us ab i by (auto simp: slabs_used_def)
  then have "heap_rep ?s ?P ?L"
    unfolding heap_rep_def od(2) [symmetric] objects_put [OF inv i p x(1), symmetric] od(1) [symmetric] using d(1) same lock by auto
  moreover have "agree (spare s ?P ?L) (kmem s) (kmem ?s)"
  proof (rule agree_mono [OF d(2)], rule spare_page [OF inv i])
    show "p \<in> ?P" by (rule page_pool) (fact i, fact p)
    fix j y assume j: "j < CLASS_COUNT" "p \<in> set (sl j)" "y \<in> set (object_offsets (class_sizes ! j))" "(object_at p y, class_sizes ! j) \<in> ?L"
    then have "j = i" using heap_invD(5) [OF inv i p] by simp
    then show "y \<in> set (fr p)" using j(3,4) x(3) by auto
  qed blast
  ultimately show ?thesis using same by (simp add: released_def)
qed

lemma kfree_ok:
  assumes rep: "heap_rep s P L" and a: "(a, k) \<in> L"
  shows "\<exists>s'. kfree a s = Some s' \<and> released s P (L - {(a, k)}) s'"
proof -
  obtain fs sl fr where inv: "heap_inv s fs sl fr" and us: "slabs_used sl fr" and PL: "P = pool fs sl" "L = objects sl fr"
    and lock: "heap_lock s = 0" using rep by (auto simp: heap_rep_def)
  obtain i p x where ak: "a = object_at p x" "k = class_sizes ! i" and i: "i < CLASS_COUNT" and p: "p \<in> set (sl i)"
    and x: "x \<in> set (object_offsets (class_sizes ! i))" "x \<notin> set (fr p)" using a unfolding PL by (rule objectsE)
  note P = heap_invD [OF inv i p]
  define m where "m = put_object (slab_at p) (object_at p x) (kmem s)"
  note put = put_step [OF inv i p x, folded m_def]
  note run = kfree_live [OF lock P(3,1) i x(1) put(1) m_def, folded ak(1)]
  have L': "objects sl (fr(p := x # fr p)) = L - {(a, k)}" unfolding PL ak by (rule objects_put [OF inv i p x(1)])
  have len: "unat (slab_used m (slab_at p)) + length (x # fr p) = length (object_offsets (class_sizes ! i))" 
    "distinct (x # fr p)" "set (x # fr p) \<subseteq> set (object_offsets (class_sizes ! i))" using put(2) by (simp_all add: slab_ok_def)
  show ?thesis
  proof (cases "slab_used m (slab_at p) = 0")
    case False
    then have "unat (slab_used m (slab_at p)) \<noteq> 0" by (simp add: unat_eq_zero)
    then have "length (x # fr p) < length (object_offsets (class_sizes ! i))" using len(1) by linarith
    then have "slabs_used sl (fr(p := x # fr p))" using us P(5) by (auto simp: slabs_used_def)
    then have "heap_rep (s\<lparr>kmem := m\<rparr>) P (L - {(a, k)})" unfolding heap_rep_def using lock put(3) L' PL by auto
    then show ?thesis using run False put(6) PL ak by (simp add: released_def)
  next
    case True
    then have "length (x # fr p) = length (object_offsets (class_sizes ! i))" using len(1) by simp
    then have full: "set (object_offsets (class_sizes ! i)) \<subseteq> set (x # fr p)"
      using len(2,3) object_offsets_distinct [OF i] by (metis List.finite_set card_subset_eq distinct_card order_refl)
    then show ?thesis using kfree_drop [OF inv us lock i p x full] run True PL ak m_def by simp
  qed
qed

lemma kmalloc_large:
  assumes "2048 < n"
  shows "kmalloc n s = Some (0, s)"
  using assms find_class_large [OF assms] by (simp add: kmalloc_def)

lemma heap_rep_apart:
  assumes "heap_rep s P L" "(a, n) \<in> L" "(b, k) \<in> L" "(a, n) \<noteq> (b, k)"
  shows "span a n \<inter> span b k = {}"
proof -
  obtain fs sl fr where inv: "heap_inv s fs sl fr" and L: "L = objects sl fr" using assms(1) by (auto simp: heap_rep_def)
  obtain i p x where p: "a = object_at p x" "n = class_sizes ! i" "i < CLASS_COUNT" "p \<in> set (sl i)" "x \<in> set (object_offsets (class_sizes ! i))"
    using assms(2) unfolding L by (rule objectsE)
  obtain j q y where q: "b = object_at q y" "k = class_sizes ! j" "j < CLASS_COUNT" "q \<in> set (sl j)" "y \<in> set (object_offsets (class_sizes ! j))"
    using assms(3) unfolding L by (rule objectsE)
  have "(p, x) \<noteq> (q, y)" using assms(4) p(1,2) q(1,2) heap_invD(5) [OF inv p(3,4) q(3)] q(4) by auto
  then show ?thesis unfolding p(1,2) q(1,2) by (rule slab_objects_apart [OF inv p(3-5) q(3-5)])
qed

lemma heap_rep_empty:
  assumes "heap_rep s P {}"
  shows "unat (free_pages s) = card P"
proof -
  obtain fs sl fr where inv: "heap_inv s fs sl fr" and us: "slabs_used sl fr" and P: "P = pool fs sl" and L: "objects sl fr = {}"
    using assms by (auto simp: heap_rep_def)
  have "sl i = []" if i: "i < CLASS_COUNT" for i
  proof (rule ccontr)
    assume "sl i \<noteq> []"
    then obtain p where p: "p \<in> set (sl i)" by (cases "sl i") auto
    have "card (set (fr p)) < card (set (object_offsets (class_sizes ! i)))"
      using us i p object_offsets_distinct [OF i] heap_invD(3) [OF inv i p] by (simp add: slabs_used_def slab_ok_def distinct_card)
    then obtain x where "x \<in> set (object_offsets (class_sizes ! i))" "x \<notin> set (fr p)"
      by (metis List.finite_set card_mono linorder_not_less subsetI)
    then show False using objectsI [of i p sl x fr] i p L by simp
  qed
  then have "P = set fs" by (simp add: P pool_def)
  then show ?thesis using heap_inv_parts(1) [OF inv] by (simp add: page_inv_def distinct_card)
qed

end
