(* ===== verification/Kernel_Heap.thy ===== *)
theory Kernel_Heap
  imports Heap_Contract
begin

text \<open>
  The heap as its clients see it: the interface \<open>object_heap\<close>, its interpretation on \<open>kmalloc\<close> and
  \<open>kfree\<close>, and the properties of the heap over whole sequences of calls.
\<close>

section \<open>heap_init\<close>

lemma heads_init:
  fixes s :: "'a hstate_scheme"
  assumes "k \<le> CLASS_COUNT"
  shows "\<exists>m. fold (\<lambda>i s. s\<lparr>kmem := list_init (kmem s) (class_head s i)\<rparr>) [0..<k] s = s\<lparr>kmem := m\<rparr> \<and>
    agree (span (heap_classes s) 128) (kmem s) m \<and> (\<forall>i<k. dlist m (class_head s i) [])"
  using assms
proof (induction k)
  case 0
  show ?case by (auto intro!: exI [of _ "kmem s"] agree_refl)
next
  case (Suc k)
  then obtain m where m: "fold (\<lambda>i s. s\<lparr>kmem := list_init (kmem s) (class_head s i)\<rparr>) [0..<k] s = s\<lparr>kmem := m\<rparr>"
    "agree (span (heap_classes s) 128) (kmem s) m" "\<And>i. i < k \<Longrightarrow> dlist m (class_head s i) []" by auto
  let ?h = "class_head s k" and ?m = "list_init m (class_head s k)"
  have k: "k < CLASS_COUNT" using Suc.prems by simp
  have step: "agree (span ?h 16) m ?m" by (rule list_init_agree)
  have "dlist ?m (class_head s i) []" if "i < Suc k" for i
  proof (cases "i = k")
    case False
    then have "span (class_head s i) 16 \<inter> span ?h 16 = {}" using that k by (intro class_heads_apart) auto
    then show ?thesis using that False by (intro dlist_agree [OF m(3) step]) auto
  qed (use dlist_init in simp)
  moreover have "agree (span (heap_classes s) 128) (kmem s) ?m"
    by (rule agree_steps [OF m(2) agree_mono [OF step class_head_span [OF k]]])
  moreover have "class_head (s\<lparr>kmem := m\<rparr>) k = ?h" by (simp add: class_head_def)
  ultimately show ?case using m(1) by (intro exI [of _ ?m]) simp
qed

lemma heap_init_rep:
  assumes "page_inv s fs" "\<And>p. p \<in> set fs \<Longrightarrow> span (heap_classes s) 128 \<inter> span (phys_to_virt p) 4096 = {}"
  shows "heap_rep (heap_init s) (set fs) {}"
proof -
  obtain m where m: "fold (\<lambda>i s. s\<lparr>kmem := list_init (kmem s) (class_head s i)\<rparr>) [0..<CLASS_COUNT] s = s\<lparr>kmem := m\<rparr>"
    "agree (span (heap_classes s) 128) (kmem s) m" "\<And>i. i < CLASS_COUNT \<Longrightarrow> dlist m (class_head s i) []"
    using heads_init [of CLASS_COUNT s] by auto
  have e: "heap_init s = s\<lparr>kmem := m, heap_lock := 0\<rparr>" by (simp add: heap_init_def m(1) spinlock_init_def)
  have "page_inv (heap_init s) fs"
    by (rule page_inv_agree [OF assms(1), of _ "span (heap_classes s) 128"]) (use m(2) assms(2) in \<open>auto simp: e\<close>)
  then have "heap_inv (heap_init s) fs (\<lambda>_. []) (\<lambda>_. [])"
    using assms m(3) by (auto simp: heap_inv_def e lists_apart_def pool_def page_inv_def class_head_def)
  then show ?thesis unfolding heap_rep_def
    by (intro conjI exI [of _ fs] exI [of _ "\<lambda>_. []"]) (auto simp: e slabs_used_def pool_def objects_def)
qed

section \<open>The interface\<close>

text \<open>Requests a client issues: an allocation of a size, a release of one of its live objects.\<close>

datatype heap_request = Kmalloc nat | Kfree nat

fun heap_run :: "(nat \<Rightarrow> 's \<Rightarrow> (u64 \<times> 's) option) \<Rightarrow> (u64 \<Rightarrow> 's \<Rightarrow> 's option) \<Rightarrow> heap_request list \<Rightarrow>
    (u64 \<times> nat) list \<Rightarrow> 's \<Rightarrow> ((u64 \<times> nat) list \<times> 's) option" where
  "heap_run alloc release [] live s = Some (live, s)"
| "heap_run alloc release (Kmalloc n # rs) live s =
     (case alloc n s of None \<Rightarrow> None
      | Some (r, s) \<Rightarrow> heap_run alloc release rs (if r = 0 then live else live @ [(r, object_size n)]) s)"
| "heap_run alloc release (Kfree k # rs) live s =
     (if k < length live
      then (case release (fst (live ! k)) s of None \<Rightarrow> None
            | Some s \<Rightarrow> heap_run alloc release rs (take k live @ drop (Suc k) live) s)
      else heap_run alloc release rs live s)"

locale object_heap =
  fixes rep :: "'s \<Rightarrow> (u64 \<times> nat) set \<Rightarrow> bool"
    and contents :: "'s \<Rightarrow> mem"
    and alloc :: "nat \<Rightarrow> 's \<Rightarrow> (u64 \<times> 's) option"
    and release :: "u64 \<Rightarrow> 's \<Rightarrow> 's option"
  assumes rep_apart: "rep s L \<Longrightarrow> (a, n) \<in> L \<Longrightarrow> (b, k) \<in> L \<Longrightarrow> (a, n) \<noteq> (b, k) \<Longrightarrow> span a n \<inter> span b k = {}"
    and alloc_law: "rep s L \<Longrightarrow> \<exists>r s'. alloc n s = Some (r, s') \<and> (if r = 0 then s' = s
      else rep s' (insert (r, object_size n) L) \<and> (r, object_size n) \<notin> L \<and>
        (\<forall>(a, k)\<in>L. \<forall>x\<in>span a k. contents s' x = contents s x))"
    and release_law: "rep s L \<Longrightarrow> (a, n) \<in> L \<Longrightarrow> \<exists>s'. release a s = Some s' \<and> rep s' (L - {(a, n)}) \<and>
      (\<forall>(b, k)\<in>L - {(a, n)}. \<forall>x\<in>span b k. contents s' x = contents s x)"
begin

lemma run_rep:
  assumes "rep s (set live)" "distinct live"
  shows "\<exists>live' s'. heap_run alloc release rs live s = Some (live', s') \<and> rep s' (set live') \<and> distinct live'"
  using assms
proof (induction rs arbitrary: live s)
  case (Cons c rs)
  show ?case
  proof (cases c)
    case (Kmalloc n)
    then show ?thesis using alloc_law [OF Cons.prems(1), of n] Cons.IH Cons.prems by fastforce
  next
    case (Kfree k)
    show ?thesis
    proof (cases "k < length live")
      case True
      let ?rest = "take k live @ drop (Suc k) live"
      have live: "live = take k live @ live ! k # drop (Suc k) live" by (rule id_take_nth_drop [OF True])
      have "distinct (take k live @ live ! k # drop (Suc k) live)" using Cons.prems(2) live by simp
      then have rest: "set ?rest = set live - {live ! k}" "distinct ?rest" using arg_cong [OF live, of set] by auto
      obtain s' where s': "release (fst (live ! k)) s = Some s'" "rep s' (set ?rest)"
        using release_law [OF Cons.prems(1), of "fst (live ! k)" "snd (live ! k)"] True rest(1) by auto
      then show ?thesis using Cons.IH [OF s'(2) rest(2)] Kfree True by simp
    qed (use Cons Kfree in simp)
  qed
qed simp

lemma run_apart:
  assumes "rep s (set live)" "distinct live" "heap_run alloc release rs live s = Some (live', s')"
    "(a, n) \<in> set live'" "(b, k) \<in> set live'" "(a, n) \<noteq> (b, k)"
  shows "span a n \<inter> span b k = {}"
  using run_rep [OF assms(1,2), of rs] assms(3-6) rep_apart by fastforce

text \<open>An object taken and given back leaves the live objects and their contents as they were.\<close>

lemma alloc_release:
  assumes "rep s L" "alloc n s = Some (r, s')" "r \<noteq> 0"
  shows "\<exists>s''. release r s' = Some s'' \<and> rep s'' L \<and> (\<forall>(a, k)\<in>L. \<forall>x\<in>span a k. contents s'' x = contents s x)"
proof -
  have s': "rep s' (insert (r, object_size n) L)" "(r, object_size n) \<notin> L" "\<forall>(a, k)\<in>L. \<forall>x\<in>span a k. contents s' x = contents s x"
    using alloc_law [OF assms(1), of n] assms(2,3) by auto
  have "insert (r, object_size n) L - {(r, object_size n)} = L" using s'(2) by simp
  then show ?thesis using release_law [OF s'(1), of r "object_size n"] s'(3) by fastforce
qed

end

lemma allocated_fresh: "allocated s P L n r s' \<Longrightarrow> 0 < n \<Longrightarrow> (r, n) \<notin> L"
  unfolding allocated_def by (fastforce simp: span_def)

lemma agree_live: "agree (spare s P L) m m' \<Longrightarrow> \<forall>(a, k)\<in>L. \<forall>x\<in>span a k. m' x = m x"
  by (fastforce simp: agree_def spare_def)

lemma object_size_pos: "n \<le> 2048 \<Longrightarrow> 0 < object_size n"
  using find_class_bound(1) [of n] class_sizes_cases [of "find_class n class_sizes"] by (auto simp: object_size_def)

lemma kmalloc_returns:
  assumes "heap_rep s P L"
  shows "\<exists>r s'. kmalloc n s = Some (r, s') \<and> (if r = 0 then s' = s else allocated s P L (object_size n) r s' \<and> n \<le> 2048)"
proof (cases "n \<le> 2048")
  case True
  then show ?thesis using kmalloc_ok [OF assms True] by (auto simp: allocated_def)
qed (simp add: kmalloc_large)

interpretation kheap: object_heap "\<lambda>s. heap_rep s P" kmem kmalloc kfree
  for P
proof
  fix s :: "'a hstate_scheme" and L n
  assume rep: "heap_rep s P L"
  from kmalloc_returns [OF this, of n] obtain r s' where r: "kmalloc n s = Some (r, s')"
    "if r = 0 then s' = s else allocated s P L (object_size n) r s' \<and> n \<le> 2048" by blast
  have "(r, object_size n) \<notin> L" "heap_rep s' P (insert (r, object_size n) L)" "\<forall>(a, k)\<in>L. \<forall>x\<in>span a k. kmem s' x = kmem s x" if "r \<noteq> 0"
    using that r(2) allocated_fresh [of s P L "object_size n" r s'] object_size_pos [of n] agree_live [of s P L "kmem s" "kmem s'"]
    by (simp_all add: allocated_def)
  then show "\<exists>r s'. kmalloc n s = Some (r, s') \<and> (if r = 0 then s' = s
      else heap_rep s' P (insert (r, object_size n) L) \<and> (r, object_size n) \<notin> L \<and> (\<forall>(a, k)\<in>L. \<forall>x\<in>span a k. kmem s' x = kmem s x))"
    using r by (intro exI [of _ r] exI [of _ s']) simp
next
  fix s :: "'a hstate_scheme" and L a n
  assume "heap_rep s P L" "(a, n) \<in> L"
  then show "\<exists>s'. kfree a s = Some s' \<and> heap_rep s' P (L - {(a, n)}) \<and> (\<forall>(b, k)\<in>L - {(a, n)}. \<forall>x\<in>span b k. kmem s' x = kmem s x)"
    using kfree_ok [of s P L a n] agree_live by (fastforce simp: released_def)
qed (rule heap_rep_apart)

section \<open>A concrete heap\<close>

text \<open>Two free pages at 0x80200000 and 0x80201000 and the list heads at 0x80300000, all memory zero but the chain.\<close>

definition small_heap :: hstate where
  "small_heap = \<lparr>sstatus = 0, kmem = write64 (\<lambda>_. 0) (phys_to_virt 0x80200000) (phys_to_virt 0x80201000),
     free_list = phys_to_virt 0x80200000, free_pages = 2, total_pages = 2,
     heap_lock = 0, heap_classes = phys_to_virt 0x80300000\<rparr>"

lemma small_heap_pages: "page_inv small_heap [0x80200000, 0x80201000]"
proof -
  have "disj (phys_to_virt 0x80201000) 8 (phys_to_virt 0x80200000) 8"
    using page_spans [of "0x80201000" "0x80200000" 0 8 0 8] by (simp add: span_disj valid_page_def page_aligned_def PAGE_MASK_def PAGE_SIZE_def)
  then have "read64 (write64 (\<lambda>_. 0) (phys_to_virt 0x80200000) (phys_to_virt 0x80201000)) (phys_to_virt 0x80201000) = 0"
    by (simp add: read64_disj) (simp add: read64_def read_bytes_def numeral_eq_Suc)
  then show ?thesis
    by (simp add: page_inv_def small_heap_def valid_page_def page_aligned_def PAGE_MASK_def PAGE_SIZE_def)
qed

lemma small_heap_rep: "heap_rep (heap_init small_heap) {0x80200000, 0x80201000} {}"
proof -
  have "span (phys_to_virt 0x80300000) 128 \<inter> span (phys_to_virt p) 4096 = {}" if "p \<in> {0x80200000, 0x80201000}" for p
    using page_spans [of "0x80300000" p 0 128 0 4096] that by (auto simp: valid_page_def page_aligned_def PAGE_MASK_def PAGE_SIZE_def)
  then show ?thesis using heap_init_rep [OF small_heap_pages] by (simp add: small_heap_def)
qed

section \<open>Properties\<close>

text \<open>C5. kmalloc returns (the lock is free and the list of slabs ends); a request above 2048 bytes changes nothing and
  returns null, and a smaller one either finds the page allocator empty and changes nothing, or returns an object of at least the requested
  size that is zeroed and disjoint from every live object, becomes live, and costs only stores outside the objects that
  were live.\<close>

theorem kmalloc_contract:
  assumes "heap_rep s P L"
  shows "(2048 < n \<longrightarrow> kmalloc n s = Some (0, s)) \<and>
    (n \<le> 2048 \<longrightarrow> kmalloc n s = Some (0, s) \<and> free_pages s = 0 \<or>
      (\<exists>r s'. kmalloc n s = Some (r, s') \<and> r \<noteq> 0 \<and> n \<le> object_size n \<and> heap_rep s' P (insert (r, object_size n) L) \<and>
        (\<forall>(a, k)\<in>L. span r (object_size n) \<inter> span a k = {}) \<and> (\<forall>j<object_size n. kmem s' (r + of_nat j) = 0) \<and>
        agree (spare s P L) (kmem s) (kmem s') \<and> sstatus s' = sstatus s))"
  using kmalloc_large [of n s] kmalloc_ok [OF assms, of n] find_class_bound(2) [of n]
  unfolding allocated_def object_size_def by blast

theorem kmalloc_contract_witness:
  "\<exists>r s'. kmalloc 100 (heap_init small_heap) = Some (r, s') \<and> heap_rep s' {0x80200000, 0x80201000} {(r, 128)}"
proof -
  have "unat (free_pages (heap_init small_heap)) = 2" using heap_rep_empty [OF small_heap_rep] by simp
  then have "free_pages (heap_init small_heap) \<noteq> 0" by auto
  moreover have "object_size 100 = 128" by (simp add: object_size_def class_sizes_def)
  ultimately show ?thesis using kmalloc_contract [OF small_heap_rep, of 100] by auto
qed

text \<open>kfree of a live object returns, removes exactly that object from the live ones, stores only outside the others,
  and restores the interrupt state.\<close>

theorem kfree_contract:
  assumes "heap_rep s P L" "(a, n) \<in> L"
  shows "\<exists>s'. kfree a s = Some s' \<and> heap_rep s' P (L - {(a, n)}) \<and>
    agree (spare s P (L - {(a, n)})) (kmem s) (kmem s') \<and> sstatus s' = sstatus s"
  using kfree_ok [OF assms] by (simp add: released_def)

theorem kfree_contract_witness:
  "\<exists>r s' s''. kmalloc 100 (heap_init small_heap) = Some (r, s') \<and> kfree r s' = Some s'' \<and> heap_rep s'' {0x80200000, 0x80201000} {}"
proof -
  have "unat (free_pages (heap_init small_heap)) = 2" using heap_rep_empty [OF small_heap_rep] by simp
  then have "free_pages (heap_init small_heap) \<noteq> 0" by auto
  then obtain r s' where r: "kmalloc 100 (heap_init small_heap) = Some (r, s')" "heap_rep s' {0x80200000, 0x80201000} {(r, object_size 100)}"
    using kmalloc_ok [OF small_heap_rep, of 100] by (auto simp: allocated_def)
  then show ?thesis using kfree_contract [OF r(2), of r "object_size 100"] by auto
qed

text \<open>C6. Whatever sequence of kmalloc and kfree a client issues on a fresh heap, every call returns, no two live objects overlap,
  and once all objects are given back every page of the heap is back in the page allocator.\<close>

theorem heap_run_safe:
  assumes "page_inv s fs" "\<And>p. p \<in> set fs \<Longrightarrow> span (heap_classes s) 128 \<inter> span (phys_to_virt p) 4096 = {}"
  shows "\<exists>live s'. heap_run kmalloc kfree rs [] (heap_init s) = Some (live, s') \<and> distinct live \<and>
    (\<forall>(a, n)\<in>set live. \<forall>(b, k)\<in>set live. (a, n) \<noteq> (b, k) \<longrightarrow> span a n \<inter> span b k = {}) \<and>
    (live = [] \<longrightarrow> free_pages s' = free_pages s)"
proof -
  have rep: "heap_rep (heap_init s) (set fs) (set [])" using heap_init_rep [OF assms] by simp
  obtain live s' where run: "heap_run kmalloc kfree rs [] (heap_init s) = Some (live, s')" "heap_rep s' (set fs) (set live)" "distinct live"
    using kheap.run_rep [OF rep, of rs] by auto
  have "unat (free_pages s') = unat (free_pages s)" if "live = []"
    using heap_rep_empty [of s' "set fs"] run(2) that assms(1) by (simp add: page_inv_def distinct_card)
  then have "live = [] \<longrightarrow> free_pages s' = free_pages s" by (simp add: word_unat_eq_iff)
  then show ?thesis using run kheap.rep_apart [OF run(2)] by blast
qed

theorem heap_run_safe_witness:
  "\<exists>live s'. heap_run kmalloc kfree [Kmalloc 24, Kmalloc 2000, Kfree 0, Kmalloc 5000, Kfree 0] [] (heap_init small_heap) = Some (live, s') \<and> distinct live"
proof -
  have "span (heap_classes small_heap) 128 \<inter> span (phys_to_virt p) 4096 = {}" if "p \<in> set [0x80200000, 0x80201000]" for p
    using page_spans [of "0x80300000" p 0 128 0 4096] that
    by (auto simp: small_heap_def valid_page_def page_aligned_def PAGE_MASK_def PAGE_SIZE_def)
  from heap_run_safe [OF small_heap_pages this] show ?thesis by blast
qed

end
