(* ===== verification/Heap_Frame.thy ===== *)
theory Heap_Frame
  imports Kernel_Heap
begin

text \<open>
  The heap beside other components: what \<open>kmalloc\<close>, \<open>kfree\<close> and the page allocator leave alone, the page
  allocator called next to the heap, and stores of others outside the heap's pages.
\<close>

section \<open>What the allocators leave alone\<close>

definition heap_only :: "'a hstate_scheme \<Rightarrow> 'a hstate_scheme \<Rightarrow> bool" where
  "heap_only s s' \<longleftrightarrow> (\<exists>m l f st k. s' = s\<lparr>sstatus := st, kmem := m, free_list := l, free_pages := f, heap_lock := k\<rparr>)"

lemma heap_only_refl: "heap_only s s"
  unfolding heap_only_def
  by (intro exI [of _ "kmem s"] exI [of _ "free_list s"] exI [of _ "free_pages s"] exI [of _ "sstatus s"] exI [of _ "heap_lock s"]) simp

lemma heap_only_trans: "heap_only s t \<Longrightarrow> heap_only t u \<Longrightarrow> heap_only s u"
  unfolding heap_only_def by fastforce

lemma heap_only_updates:
  "heap_only s (s\<lparr>kmem := m\<rparr>)" "heap_only s (s\<lparr>heap_lock := k\<rparr>)" "heap_only s (s\<lparr>sstatus := st\<rparr>)"
  "heap_only s (s\<lparr>free_list := l, free_pages := f\<rparr>)"
proof -
  show "heap_only s (s\<lparr>kmem := m\<rparr>)" unfolding heap_only_def
    by (intro exI [of _ m] exI [of _ "free_list s"] exI [of _ "free_pages s"] exI [of _ "sstatus s"] exI [of _ "heap_lock s"]) simp
  show "heap_only s (s\<lparr>heap_lock := k\<rparr>)" unfolding heap_only_def
    by (intro exI [of _ "kmem s"] exI [of _ "free_list s"] exI [of _ "free_pages s"] exI [of _ "sstatus s"] exI [of _ k]) simp
  show "heap_only s (s\<lparr>sstatus := st\<rparr>)" unfolding heap_only_def
    by (intro exI [of _ "kmem s"] exI [of _ "free_list s"] exI [of _ "free_pages s"] exI [of _ st] exI [of _ "heap_lock s"]) simp
  show "heap_only s (s\<lparr>free_list := l, free_pages := f\<rparr>)" unfolding heap_only_def
    by (intro exI [of _ "kmem s"] exI [of _ l] exI [of _ f] exI [of _ "sstatus s"] exI [of _ "heap_lock s"]) simp
qed

lemma heap_only_irq: "heap_only s (snd (irq_save s))" "heap_only s (irq_restore fl s)"
  by (simp_all add: irq_defs heap_only_updates)

lemma heap_only_page_alloc: "heap_only s (snd (page_alloc s))"
proof -
  let ?u = "snd (irq_save s)"
  have "heap_only s (irq_restore fl ?u)" "heap_only s (irq_restore fl (?u\<lparr>free_list := l, free_pages := f\<rparr>))" for fl l f
    by (rule heap_only_trans [OF heap_only_irq(1) heap_only_irq(2)],
        rule heap_only_trans [OF heap_only_trans [OF heap_only_irq(1) heap_only_updates(4)] heap_only_irq(2)])
  then show ?thesis by (simp add: page_alloc_def Let_def case_prod_beta)
qed

lemma heap_only_page_free: "heap_only s (page_free p s)"
proof -
  let ?u = "snd (irq_save s)"
  have "heap_only s (irq_restore fl (?u\<lparr>kmem := m, free_list := l, free_pages := f\<rparr>))" for fl m l f
    by (rule heap_only_trans [OF heap_only_irq(1) heap_only_trans [OF heap_only_trans [OF heap_only_updates(1) heap_only_updates(4)] heap_only_irq(2)]])
  then show ?thesis by (simp add: page_free_def Let_def case_prod_beta heap_only_refl)
qed

lemma heap_only_pick: "heap_only s (snd (pick_slab i slab s))"
proof -
  have "heap_only s ((snd (page_alloc s))\<lparr>kmem := m\<rparr>)" for m
    by (rule heap_only_trans [OF heap_only_page_alloc heap_only_updates(1)])
  then have "heap_only s (snd (new_slab i s))"
    using heap_only_page_alloc [of s] by (simp add: new_slab_def Let_def case_prod_beta)
  then show ?thesis by (simp add: pick_slab_def heap_only_refl)
qed

lemma heap_only_leave:
  fixes s t :: "'a hstate_scheme"
  assumes "heap_only s t"
  shows "heap_only s (irq_restore fl (t\<lparr>heap_lock := l\<rparr>))" "heap_only s (irq_restore fl (t\<lparr>kmem := m, heap_lock := l\<rparr>))"
    "heap_only s ((irq_restore fl (t\<lparr>kmem := m, heap_lock := l\<rparr>))\<lparr>kmem := m'\<rparr>)"
proof -
  show "heap_only s (irq_restore fl (t\<lparr>heap_lock := l\<rparr>))"
    by (rule heap_only_trans [OF assms heap_only_trans [OF heap_only_updates(2) heap_only_irq(2)]])
  show a: "heap_only s (irq_restore fl (t\<lparr>kmem := m, heap_lock := l\<rparr>))"
    by (rule heap_only_trans [OF assms heap_only_trans [OF heap_only_trans [OF heap_only_updates(1) heap_only_updates(2)] heap_only_irq(2)]])
  show "heap_only s ((irq_restore fl (t\<lparr>kmem := m, heap_lock := l\<rparr>))\<lparr>kmem := m'\<rparr>)"
    by (rule heap_only_trans [OF a heap_only_updates(1)])
qed

lemma heap_only_locked: "heap_only s ((snd (irq_save s))\<lparr>heap_lock := l\<rparr>)"
  by (rule heap_only_trans [OF heap_only_irq(1) heap_only_updates(2)])

definition hand_out :: "u64 \<Rightarrow> nat \<Rightarrow> u64 \<times> 'a hstate_scheme \<Rightarrow> u64 \<times> 'a hstate_scheme" where
  "hand_out flags i p = (case p of (slab, t) \<Rightarrow>
     if slab = 0 then (0, irq_restore flags (t\<lparr>heap_lock := spin_unlock (heap_lock t)\<rparr>))
     else (case take_object slab (kmem t) of (r, m) \<Rightarrow>
       let t = irq_restore flags (t\<lparr>kmem := m, heap_lock := spin_unlock (heap_lock t)\<rparr>)
       in (r, t\<lparr>kmem := memset r 0 (class_sizes ! i) (kmem t)\<rparr>)))"

lemma heap_only_hand_out: "heap_only s (snd p) \<Longrightarrow> heap_only s (snd (hand_out fl i p))"
  by (cases p) (simp add: hand_out_def Let_def case_prod_beta heap_only_leave)

lemma kmalloc_shape:
  assumes "kmalloc n s = Some (r, s')"
  shows "(r, s') = (0, s) \<or> (\<exists>i slab. (r, s') = hand_out (fst (irq_save s)) i (pick_slab i slab (locked s)))"
proof -
  define i where "i = find_class (if n = 0 then 1 else n) class_sizes"
  let ?b = "snd (irq_save s)"
  have l: "spin_lock (heap_lock ?b) = (if heap_lock s = 0 then Some 1 else None)" by (simp add: spin_lock_def irq_defs)
  have b: "?b\<lparr>heap_lock := 1\<rparr> = locked s" by (simp add: locked_def)
  let ?f = "find_slab (kmem (locked s)) (class_head (locked s) i) (list_next (kmem (locked s)) (class_head (locked s) i))"
  have "kmalloc n s = (if i = CLASS_COUNT then Some (0, s) else if heap_lock s \<noteq> 0 then None
     else map_option (\<lambda>slab. hand_out (fst (irq_save s)) i (pick_slab i slab (locked s))) ?f)"
    unfolding kmalloc_def Let_def i_def [symmetric] pick_slab_def hand_out_def case_prod_beta l
    by (cases "heap_lock s = 0"; cases ?f) (simp_all add: b [symmetric] case_prod_beta)
  then show ?thesis using assms by (cases ?f) (auto split: if_splits)
qed

lemma heap_only_kmalloc:
  assumes "kmalloc n s = Some (r, s')"
  shows "heap_only s s'"
proof -
  have "heap_only s (snd (pick_slab i slab (locked s)))" for i slab
    unfolding locked_def by (rule heap_only_trans [OF heap_only_locked heap_only_pick])
  then have "heap_only s (snd (hand_out fl i (pick_slab i slab (locked s))))" for fl i slab by (rule heap_only_hand_out)
  then show ?thesis using kmalloc_shape [OF assms] heap_only_refl [of s] by (metis snd_conv)
qed

lemma heap_only_kfree:
  assumes "kfree p s = Some s'"
  shows "heap_only s s'"
proof -
  let ?b = "snd (irq_save s)"
  have b: "heap_only s (?b\<lparr>heap_lock := l\<rparr>)" for l by (rule heap_only_locked)
  have "heap_only s (irq_restore fl (?b\<lparr>heap_lock := l\<rparr>))" "heap_only s (irq_restore fl (?b\<lparr>kmem := m, heap_lock := l\<rparr>))" for fl l m
    using heap_only_leave [OF heap_only_irq(1) [of s]] by blast+
  moreover have "heap_only s (page_free q t)" if "heap_only s t" for q t
    by (rule heap_only_trans [OF that heap_only_page_free])
  ultimately show ?thesis using assms heap_only_refl [of s]
    by (auto simp: kfree_def Let_def case_prod_beta split: if_splits option.splits)
qed

section \<open>The heap next to its neighbours\<close>

lemma pick_slab_pages: "free_pages (snd (pick_slab i slab s)) \<in> {free_pages s, free_pages s - 1}"
  by (auto simp: pick_slab_def new_slab_def page_alloc_def Let_def case_prod_beta irq_defs)

text \<open>An allocation takes at most one page.\<close>

lemma kmalloc_pages:
  assumes "kmalloc n s = Some (r, s')"
  shows "free_pages s' \<in> {free_pages s, free_pages s - 1}"
proof -
  have "free_pages (snd (hand_out fl i p)) = free_pages (snd p)" for fl i and p :: "u64 \<times> 'a hstate_scheme"
    by (cases p) (simp add: hand_out_def Let_def case_prod_beta irq_defs)
  moreover have "free_pages (locked s) = free_pages s" by (simp add: locked_def irq_defs)
  ultimately show ?thesis using kmalloc_shape [OF assms] pick_slab_pages [of _ _ "locked s"] by (metis insertI1 snd_conv)
qed

lemma heap_rep_cong:
  assumes "kmem t = kmem s" "free_list t = free_list s" "free_pages t = free_pages s" "heap_classes t = heap_classes s" "heap_lock t = heap_lock s"
  shows "heap_rep t P L = heap_rep s P L"
  using heap_inv_cong [OF assms(1-4)] assms(5) by (simp add: heap_rep_def)

lemma heap_rep_page_alloc:
  assumes "heap_rep s P L"
  shows "page_alloc s = (0, s) \<and> free_pages s = 0 \<or> (\<exists>p s'. page_alloc s = (p, s') \<and> p \<in> P \<and> valid_page p \<and> p \<noteq> 0 \<and> heap_rep s' (P - {p}) L \<and> kmem s' = kmem s \<and> sstatus s' = sstatus s)"
proof -
  obtain fs sl fr where inv: "heap_inv s fs sl fr" and us: "slabs_used sl fr" and PL: "P = pool fs sl" "L = objects sl fr"
    and lock: "heap_lock s = 0" using assms by (auto simp: heap_rep_def)
  show ?thesis
  proof (cases fs)
    case Nil
    then have "page_inv s []" using heap_inv_parts(1) [OF inv] by simp
    then show ?thesis using page_alloc_empty [of s] by (simp add: page_inv_def unat_eq_0)
  next
    case (Cons y ys)
    note pa = page_alloc_cons [OF heap_inv_parts(1) [OF inv, unfolded Cons]]
    define t where "t = snd (page_alloc s)"
    have t: "t = s\<lparr>free_list := read64 (kmem s) (phys_to_virt y), free_pages := free_pages s - 1\<rparr>" using pa(1) by (simp add: t_def)
    have la: "lists_apart (y # ys) sl" using heap_inv_parts(2) [OF inv] Cons by simp
    have y: "valid_page y" "y \<notin> set ys" "y \<in> P" using heap_inv_parts(1) [OF inv] Cons PL by (auto simp: page_inv_def pool_def)
    have P': "pool ys sl = P - {y}" using la y(2) Cons PL(1) by (auto simp: pool_def lists_apart_def)
    have "heap_inv t ys sl fr"
    proof (rule heap_invI)
      show "page_inv t ys" using pa(2) by (simp add: t_def)
      show "lists_apart ys sl" using la by (auto simp: lists_apart_def)
      show "valid_page p \<and> span (heap_classes t) 128 \<inter> span (phys_to_virt p) 4096 = {}" if "p \<in> pool ys sl" for p
        using heap_inv_pages [OF inv, of p] that P' PL(1) by (simp add: t)
      show "dlist (kmem t) (class_head t i) (map link_at (sl i))" if "i < CLASS_COUNT" for i
        using heap_inv_parts(3) [OF inv that] by (simp add: t class_head_def)
      show "slab_ok (kmem t) i p (fr p)" if "i < CLASS_COUNT" "p \<in> set (sl i)" for i p
        using heap_invD(3) [OF inv that] by (simp add: t)
    qed
    then have "heap_rep t (P - {y}) L" unfolding heap_rep_def P' [symmetric] using us lock PL(2) by (auto simp: t)
    moreover have "page_alloc s = (y, t)" using pa(1) by (simp add: t_def)
    moreover have "y \<noteq> 0" using y(1) by (auto simp: valid_page_def)
    ultimately show ?thesis using y by (simp add: t)
  qed
qed

lemma heap_rep_store:
  assumes rep: "heap_rep s P L" and W: "agree W (kmem s) m" "W \<inter> span (heap_classes s) 128 = {}" "\<And>p. p \<in> P \<Longrightarrow> span (phys_to_virt p) 4096 \<inter> W = {}"
  shows "heap_rep (s\<lparr>kmem := m\<rparr>) P L"
proof -
  obtain fs sl fr where inv: "heap_inv s fs sl fr" and us: "slabs_used sl fr" and PL: "P = pool fs sl" "L = objects sl fr"
    and lock: "heap_lock s = 0" using rep by (auto simp: heap_rep_def)
  let ?t = "s\<lparr>kmem := m\<rparr>"
  have head: "class_head ?t i = class_head s i" for i by (simp add: class_head_def)
  have out: "node_space s i (sl i) \<inter> W = {}" if "i < CLASS_COUNT" for i
    using class_head_span [OF that, of s] W(2) W(3) link_page page_pool [of i _ sl fs] that unfolding node_space_def PL(1) by blast
  have "heap_inv ?t fs sl fr"
  proof (rule heap_invI)
    show "page_inv ?t fs"
      by (rule page_inv_agree [OF heap_inv_parts(1) [OF inv], of _ W]) (use W PL in \<open>auto simp: pool_def\<close>)
    show "lists_apart fs sl" by (rule heap_inv_parts(2) [OF inv])
    show "valid_page p \<and> span (heap_classes ?t) 128 \<inter> span (phys_to_virt p) 4096 = {}" if "p \<in> pool fs sl" for p
      using heap_inv_pages [OF inv that] by simp
    show "dlist (kmem ?t) (class_head ?t i) (map link_at (sl i))" if "i < CLASS_COUNT" for i
      unfolding head using dlist_space [OF heap_inv_parts(3) [OF inv that] W(1) out [OF that]] by simp
    show "slab_ok (kmem ?t) i p (fr p)" if "i < CLASS_COUNT" "p \<in> set (sl i)" for i p
    proof -
      have "p \<in> P" unfolding PL(1) using that by (rule page_pool)
      then have "slab_body p \<inter> W = {}" using W(3) slab_body_page [of p] by blast
      then show ?thesis using slab_space [OF heap_invD(3) [OF inv that] that(1) W(1)] by simp
    qed
  qed
  then show ?thesis unfolding heap_rep_def using us lock PL by auto
qed

lemma heap_rep_inside:
  assumes "heap_rep s P L" "(a, n) \<in> L"
  shows "\<exists>p\<in>P. span a n \<subseteq> span (phys_to_virt p) 4096" "a \<in> span a n"
proof -
  obtain fs sl fr where inv: "heap_inv s fs sl fr" and PL: "P = pool fs sl" "L = objects sl fr" using assms(1) by (auto simp: heap_rep_def)
  obtain i p x where o: "a = object_at p x" "n = class_sizes ! i" "i < CLASS_COUNT" "p \<in> set (sl i)" "x \<in> set (object_offsets (class_sizes ! i))"
    using assms(2) unfolding PL(2) by (rule objectsE)
  have "p \<in> P" unfolding PL(1) using o(3,4) by (rule page_pool)
  moreover have "span a n \<subseteq> span (phys_to_virt p) 4096"
    unfolding o(1,2) using object_body [OF o(3,5), of p] slab_body_page [of p] by blast
  ultimately show "\<exists>p\<in>P. span a n \<subseteq> span (phys_to_virt p) 4096" by blast
  show "a \<in> span a n" unfolding o(2) by (rule class_span_nonempty [OF o(3)])
qed

lemma heap_rep_pages:
  assumes "heap_rep s P L" "p \<in> P"
  shows "valid_page p" "span (heap_classes s) 128 \<inter> span (phys_to_virt p) 4096 = {}"
  using assms heap_inv_pages by (fastforce simp: heap_rep_def)+

end
