(* ===== verification/Kernel_State.thy ===== *)
theory Kernel_State
  imports Heap Vm
begin

text \<open>
  The objects of the kernel above the allocators and the state they live in. An object is identified
  by its address (what \<open>kmalloc\<close> returned, or the address of the static variable) and its contents are
  the value of a store at that address; the null pointer is address 0. An intrusive list (theory
  Intrusive_List) is the sequence of the objects linked in it. Page contents stay in kernel memory.
\<close>

section \<open>Threads (\<^verbatim>\<open>src/kernel/scheduler.c\<close>, \<^verbatim>\<open>src/arch/riscv/trap.h\<close>)\<close>

datatype thread_state = THREAD_RUNNING | THREAD_RUNNABLE | THREAD_SLEEPING | THREAD_DEAD

text \<open>The callee-saved registers: \<open>ra\<close>, \<open>sp\<close> and the twelve \<open>s\<close> registers.\<close>

record switch_context =
  ctx_ra :: u64
  ctx_sp :: u64
  ctx_saved :: "u64 list"

record trap_frame =
  frame_x :: "u64 list"
  frame_sepc :: u64
  frame_sstatus :: u64
  frame_scause :: u64
  frame_stval :: u64

record thread =
  t_context :: switch_context
  t_process :: u64
  t_user_frame :: u64
  t_state :: thread_state
  t_entry :: u64
  t_argument :: u64
  t_stack_page :: u64
  t_wake_tick :: u64
  t_name :: string
  t_idle :: bool

text \<open>Link-time addresses the scheduler uses.\<close>

record code_symbols =
  sym_thread_trampoline :: u64
  sym_user_thread_enter :: u64
  sym_idle_main :: u64
  sym_bootstrap :: u64

section \<open>Address spaces (\<^verbatim>\<open>src/mm/address_space.c\<close>, \<^verbatim>\<open>address_space.h\<close>)\<close>

text \<open>The entries of the ledger of pages and of the list of areas are pairs of an address and the contents there.\<close>

record user_page =
  up_virtual_address :: u64
  up_physical :: u64
  up_flags :: u64

datatype area_kind = AREA_ELF | AREA_STACK | AREA_HEAP | AREA_ANON | AREA_FILE

record vm_area =
  area_start :: u64
  area_end :: u64
  area_flags :: u64
  area_kind :: area_kind

record address_space =
  as_table :: page_table
  as_pages :: "(u64 \<times> user_page) list"
  as_areas :: "(u64 \<times> vm_area) list"
  brk_base :: u64
  brk_end :: u64

section \<open>The kernel\<close>

text \<open>
  \<open>registers\<close> are the callee-saved registers of the running thread, \<open>satp\<close> and \<open>sie\<close> control
  registers, \<open>time\<close> the timer the hart reads and \<open>timer_deadline\<close> the last value given to
  \<open>sbi_set_timer\<close>. \<open>wait_queues\<close> maps the address of a \<^verbatim>\<open>struct wait_queue\<close> to the threads linked
  in it, \<open>spaces\<close> the address of a \<^verbatim>\<open>struct address_space\<close> to its contents (a process starts with its own).
\<close>

record kernel = hstate +
  registers :: switch_context
  satp :: u64
  sie :: u64
  time :: u64
  timer_deadline :: u64
  threads :: "u64 \<Rightarrow> thread"
  all_threads :: "u64 list"
  wait_queues :: "u64 \<Rightarrow> u64 list"
  current :: u64
  idle_thread :: u64
  tick_count :: u64
  preemption_count :: u64
  timer_interval :: u64
  timer_running :: bool
  kernel_page_table :: page_table
  spaces :: "u64 \<Rightarrow> address_space"

definition update_thread :: "u64 \<Rightarrow> (thread \<Rightarrow> thread) \<Rightarrow> 'a kernel_scheme \<Rightarrow> 'a kernel_scheme" where
  "update_thread t f s = s\<lparr>threads := (threads s)(t := f (threads s t))\<rparr>"

definition set_state :: "u64 \<Rightarrow> thread_state \<Rightarrow> 'a kernel_scheme \<Rightarrow> 'a kernel_scheme" where
  "set_state t st = update_thread t (\<lambda>th. th\<lparr>t_state := st\<rparr>)"

definition state_of :: "'a kernel_scheme \<Rightarrow> u64 \<Rightarrow> thread_state" where
  "state_of s t = t_state (threads s t)"

end
