(* ===== verification/Scheduler.thy ===== *)
theory Scheduler
  imports Kernel_State "HOL-Library.Monad_Syntax"
begin

text \<open>
  The scheduler, \<^verbatim>\<open>src/kernel/scheduler.c\<close>, and the wait queues of \<^verbatim>\<open>src/kernel/sync.c\<close>. \<open>None\<close> is
  a call that never returns. A call that switches to another thread ends, for this model, when the
  other thread runs; what the source does after the switch (\<open>irq_restore\<close> of the flags it saved, taking the
  lock again) is done when the thread is switched to again.
\<close>

section \<open>Choosing a thread\<close>

definition current_process :: "'a kernel_scheme \<Rightarrow> u64" where
  "current_process s = (if current s \<noteq> 0 then t_process (threads s (current s)) else 0)"

text \<open>The nodes of the circular list of all threads: the head, \<open>None\<close>, and the threads.\<close>

fun node_after :: "u64 \<Rightarrow> u64 list \<Rightarrow> u64 option" where
  "node_after t [] = None"
| "node_after t (x # xs) = (if x = t then (case xs of [] \<Rightarrow> None | y # _ \<Rightarrow> Some y) else node_after t xs)"

definition next_node :: "u64 list \<Rightarrow> u64 option \<Rightarrow> u64 option" where
  "next_node ts node = (case node of None \<Rightarrow> (case ts of [] \<Rightarrow> None | t # _ \<Rightarrow> Some t) | Some t \<Rightarrow> node_after t ts)"

definition eligible :: "'a kernel_scheme \<Rightarrow> u64 \<Rightarrow> bool" where
  "eligible s t \<longleftrightarrow> state_of s t = THREAD_RUNNABLE \<and> \<not> t_idle (threads s t)"

partial_function (option) pick_loop :: "'a kernel_scheme \<Rightarrow> u64 option \<Rightarrow> u64 option \<Rightarrow> u64 option option" where
  "pick_loop s start node =
     (let node = (if node = None then next_node (all_threads s) node else node) in
      case node of
        Some t \<Rightarrow>
          if eligible s t then Some (Some t)
          else let node = next_node (all_threads s) node in
            if node \<noteq> start then pick_loop s start node else Some None
      | None \<Rightarrow> if node \<noteq> start then pick_loop s start node else Some None)"

definition pick_next :: "'a kernel_scheme \<Rightarrow> u64 option" where
  "pick_next s =
     (let start = next_node (all_threads s) (Some (current s)) in
      case pick_loop s start start of
        None \<Rightarrow> None
      | Some (Some t) \<Rightarrow> Some t
      | Some None \<Rightarrow> Some (if eligible s (current s) then current s else idle_thread s))"

section \<open>Switching\<close>

text \<open>\<open>context_switch\<close> of \<^verbatim>\<open>context.S\<close> stores the registers in one context and loads the other.\<close>

definition context_switch :: "u64 \<Rightarrow> u64 \<Rightarrow> 'a kernel_scheme \<Rightarrow> 'a kernel_scheme" where
  "context_switch old new s =
     (let s = update_thread old (\<lambda>th. th\<lparr>t_context := registers s\<rparr>) s
      in s\<lparr>registers := t_context (threads s new)\<rparr>)"

definition vm_activate :: "page_table \<Rightarrow> 'a kernel_scheme \<Rightarrow> 'a kernel_scheme" where
  "vm_activate table s = s\<lparr>satp := vm_activate_satp table\<rparr>"

definition scheduler_switch :: "'a kernel_scheme \<Rightarrow> 'a kernel_scheme option" where
  "scheduler_switch s = do {
     let previous = current s;
     nxt \<leftarrow> pick_next s;
     if nxt = 0 \<or> nxt = previous
     then Some (if state_of s previous = THREAD_RUNNABLE then set_state previous THREAD_RUNNING s else s)
     else do {
       let s = set_state nxt THREAD_RUNNING s;
       let s = s\<lparr>current := nxt\<rparr>;
       let process = t_process (threads s nxt);
       let s = vm_activate (if process \<noteq> 0 then as_table (spaces s process) else kernel_page_table s) s;
       Some (context_switch previous nxt s)
     }
   }"

section \<open>Creating threads\<close>

text \<open>\<^verbatim>\<open>sizeof(struct thread)\<close> and \<^verbatim>\<open>sizeof(struct trap_frame)\<close>.\<close>

definition thread_size :: nat where "thread_size = 216"
definition trap_frame_size :: nat where "trap_frame_size = 288"

definition zero_context :: switch_context where
  "zero_context = \<lparr>ctx_ra = 0, ctx_sp = 0, ctx_saved = replicate 12 0\<rparr>"

definition zero_thread :: thread where
  "zero_thread = \<lparr>t_context = zero_context, t_process = 0, t_user_frame = 0, t_state = THREAD_RUNNING,
     t_entry = 0, t_argument = 0, t_stack_page = 0, t_wake_tick = 0, t_name = [], t_idle = False\<rparr>"

definition frame_words :: "trap_frame \<Rightarrow> u64 list" where
  "frame_words f = frame_x f @ [frame_sepc f, frame_sstatus f, frame_scause f, frame_stval f]"

fun write_words :: "mem \<Rightarrow> u64 \<Rightarrow> u64 list \<Rightarrow> mem" where
  "write_words m a [] = m"
| "write_words m a (w # ws) = write_words (write64 m a w) (a + 8) ws"

definition create_thread :: "code_symbols \<Rightarrow> string \<Rightarrow> u64 \<Rightarrow> u64 \<Rightarrow> bool \<Rightarrow> u64 \<Rightarrow> trap_frame \<Rightarrow>
    'a kernel_scheme \<Rightarrow> (bool \<times> 'a kernel_scheme) option" where
  "create_thread syms name entry argument idle process initial s = do {
     (thread, s) \<leftarrow> kmalloc thread_size s;
     if thread = 0 then Some (False, s)
     else do {
       let (stack, s) = page_alloc s;
       if stack = 0 then do { s \<leftarrow> kfree thread s; Some (False, s) }
       else do {
         let sp = phys_to_virt stack + PAGE_SIZE;
         let th = zero_thread\<lparr>t_state := THREAD_RUNNABLE, t_entry := entry, t_argument := argument,
               t_stack_page := stack, t_name := name, t_idle := idle, t_process := process,
               t_context := zero_context\<lparr>ctx_ra := sym_thread_trampoline syms, ctx_sp := sp\<rparr>\<rparr>;
         let frame = sp - of_nat trap_frame_size;
         let (th, s) =
           (if process \<noteq> 0
            then (th\<lparr>t_user_frame := frame,
                    t_context := zero_context\<lparr>ctx_ra := sym_user_thread_enter syms, ctx_sp := frame\<rparr>\<rparr>,
                  s\<lparr>kmem := write_words (kmem s) frame (frame_words (initial\<lparr>frame_sstatus := SSTATUS_SPIE\<rparr>))\<rparr>)
            else (th, s));
         let s = s\<lparr>threads := (threads s)(thread := th), all_threads := all_threads s @ [thread]\<rparr>;
         Some (True, if idle then s\<lparr>idle_thread := thread\<rparr> else s)
       }
     }
   }"

definition zero_frame :: trap_frame where
  "zero_frame = \<lparr>frame_x = replicate 32 0, frame_sepc = 0, frame_sstatus = 0, frame_scause = 0, frame_stval = 0\<rparr>"

definition SIE_STIE :: u64 where "SIE_STIE = push_bit 5 1"

definition sbi_set_timer :: "u64 \<Rightarrow> 'a kernel_scheme \<Rightarrow> 'a kernel_scheme" where
  "sbi_set_timer absolute_time s = s\<lparr>timer_deadline := absolute_time\<rparr>"

definition csr_set_sie :: "u64 \<Rightarrow> 'a kernel_scheme \<Rightarrow> 'a kernel_scheme" where
  "csr_set_sie bits s = s\<lparr>sie := sie s OR bits\<rparr>"

definition csr_clear_sie :: "u64 \<Rightarrow> 'a kernel_scheme \<Rightarrow> 'a kernel_scheme" where
  "csr_clear_sie bits s = s\<lparr>sie := sie s AND NOT bits\<rparr>"

definition scheduler_init :: "code_symbols \<Rightarrow> u64 \<Rightarrow> page_table option \<Rightarrow> 'a kernel_scheme \<Rightarrow> (bool \<times> 'a kernel_scheme) option" where
  "scheduler_init syms timebase kernel_table s =
     (case kernel_table of
        None \<Rightarrow> Some (False, s)
      | Some table \<Rightarrow>
          if root table = 0 then Some (False, s)
          else do {
            let interval = timebase div 200;
            let s = s\<lparr>kernel_page_table := table,
                  threads := (threads s)(sym_bootstrap syms := zero_thread\<lparr>t_state := THREAD_RUNNING, t_name := ''bootstrap''\<rparr>),
                  current := sym_bootstrap syms,
                  all_threads := [sym_bootstrap syms],
                  tick_count := 0, preemption_count := 0,
                  timer_interval := (if interval = 0 then 1 else interval)\<rparr>;
            (ok, s) \<leftarrow> create_thread syms ''idle'' (sym_idle_main syms) 0 True 0 zero_frame s;
            if \<not> ok then Some (False, s)
            else do {
              let s = s\<lparr>timer_running := True\<rparr>;
              let s = sbi_set_timer (time s + timer_interval s) s;
              let s = csr_set_sie SIE_STIE s;
              Some (True, csr_set_sstatus SSTATUS_SIE s)
            }
          })"

definition thread_create :: "code_symbols \<Rightarrow> string \<Rightarrow> u64 \<Rightarrow> u64 \<Rightarrow> 'a kernel_scheme \<Rightarrow> (bool \<times> 'a kernel_scheme) option" where
  "thread_create syms name entry argument s =
     (if entry = 0 then Some (False, s)
      else do {
        let (flags, s) = irq_save s;
        (result, s) \<leftarrow> create_thread syms name entry argument False 0 zero_frame s;
        Some (result, irq_restore flags s)
      })"

definition thread_create_user :: "code_symbols \<Rightarrow> u64 \<Rightarrow> trap_frame option \<Rightarrow> 'a kernel_scheme \<Rightarrow> (bool \<times> 'a kernel_scheme) option" where
  "thread_create_user syms process initial s = do {
     let (flags, s) = irq_save s;
     (result, s) \<leftarrow> (if process = 0 then Some (False, s)
       else case initial of None \<Rightarrow> Some (False, s)
         | Some frame \<Rightarrow> create_thread syms ''user'' 0 0 False process frame s);
     Some (result, irq_restore flags s)
   }"

section \<open>Leaving the processor\<close>

text \<open>\<open>irq_restore\<close> at the end of a call, when the calling thread is still the running one.\<close>

definition back_in :: "u64 \<Rightarrow> u64 \<Rightarrow> 'a kernel_scheme \<Rightarrow> 'a kernel_scheme" where
  "back_in thread flags s = (if current s = thread then irq_restore flags s else s)"

definition scheduler_yield :: "'a kernel_scheme \<Rightarrow> 'a kernel_scheme option" where
  "scheduler_yield s = do {
     let self = current s;
     let (flags, s) = irq_save s;
     let s = (if state_of s (current s) = THREAD_RUNNING then set_state (current s) THREAD_RUNNABLE s else s);
     s \<leftarrow> scheduler_switch s;
     Some (back_in self flags s)
   }"

definition scheduler_sleep :: "u64 \<Rightarrow> 'a kernel_scheme \<Rightarrow> 'a kernel_scheme option" where
  "scheduler_sleep ticks s =
     (if ticks = 0 then scheduler_yield s
      else do {
        let self = current s;
        let (flags, s) = irq_save s;
        let s = update_thread (current s) (\<lambda>th. th\<lparr>t_wake_tick := tick_count s + ticks\<rparr>) s;
        let s = set_state (current s) THREAD_SLEEPING s;
        s \<leftarrow> scheduler_switch s;
        Some (back_in self flags s)
      })"

definition scheduler_block_current :: "u64 \<Rightarrow> 'a kernel_scheme \<Rightarrow> 'a kernel_scheme" where
  "scheduler_block_current queue s =
     (let s = set_state (current s) THREAD_SLEEPING s
      in s\<lparr>wait_queues := (wait_queues s)(queue := wait_queues s queue @ [current s])\<rparr>)"

text \<open>Unlinking a node takes the thread out of the one queue it is linked in.\<close>

definition scheduler_wake_node :: "u64 \<Rightarrow> 'a kernel_scheme \<Rightarrow> 'a kernel_scheme" where
  "scheduler_wake_node thread s =
     (let s = s\<lparr>wait_queues := (\<lambda>q. removeAll thread (wait_queues s q))\<rparr>
      in if state_of s thread = THREAD_SLEEPING then set_state thread THREAD_RUNNABLE s else s)"

definition wake_due :: "u64 \<Rightarrow> 'a kernel_scheme \<Rightarrow> 'a kernel_scheme" where
  "wake_due thread s =
     (if state_of s thread = THREAD_SLEEPING \<and> t_wake_tick (threads s thread) \<noteq> 0 \<and> t_wake_tick (threads s thread) \<le> tick_count s
      then set_state thread THREAD_RUNNABLE (update_thread thread (\<lambda>th. th\<lparr>t_wake_tick := 0\<rparr>) s)
      else s)"

definition scheduler_tick :: "'a kernel_scheme \<Rightarrow> 'a kernel_scheme option" where
  "scheduler_tick s =
     (let s = s\<lparr>tick_count := tick_count s + 1\<rparr>;
          s = fold wake_due (all_threads s) s;
          s = (if timer_running s then sbi_set_timer (time s + timer_interval s) s else s);
          s = (if state_of s (current s) = THREAD_RUNNING
               then (set_state (current s) THREAD_RUNNABLE s)\<lparr>preemption_count := preemption_count s + 1\<rparr>
               else s)
      in scheduler_switch s)"

definition scheduler_timer_active :: "'a kernel_scheme \<Rightarrow> bool" where
  "scheduler_timer_active s = timer_running s"

definition scheduler_ticks :: "'a kernel_scheme \<Rightarrow> u64" where
  "scheduler_ticks s = tick_count s"

definition scheduler_preemptions :: "'a kernel_scheme \<Rightarrow> u64" where
  "scheduler_preemptions s = preemption_count s"

definition scheduler_stop_timer :: "'a kernel_scheme \<Rightarrow> 'a kernel_scheme" where
  "scheduler_stop_timer s =
     (let (flags, s) = irq_save s;
          s = s\<lparr>timer_running := False\<rparr>;
          s = csr_clear_sie SIE_STIE s;
          s = sbi_set_timer (- 1) s
      in irq_restore flags s)"

definition thread_exit :: "'a kernel_scheme \<Rightarrow> 'a kernel_scheme option" where
  "thread_exit s =
     (let (flags, s) = irq_save s
      in scheduler_switch (set_state (current s) THREAD_DEAD s))"

section \<open>Wait queues\<close>

definition wait_queue_init :: "u64 \<Rightarrow> 'a kernel_scheme \<Rightarrow> 'a kernel_scheme" where
  "wait_queue_init queue s = s\<lparr>wait_queues := (wait_queues s)(queue := [])\<rparr>"

text \<open>The caller's lock word is part of another object: \<open>unlock\<close> is the store that releases it.\<close>

definition wait_queue_sleep :: "u64 \<Rightarrow> ('a kernel_scheme \<Rightarrow> 'a kernel_scheme) \<Rightarrow> 'a kernel_scheme \<Rightarrow> 'a kernel_scheme option" where
  "wait_queue_sleep queue unlock s = scheduler_switch (unlock (scheduler_block_current queue s))"

definition wait_queue_wake_one :: "u64 \<Rightarrow> 'a kernel_scheme \<Rightarrow> bool \<times> 'a kernel_scheme" where
  "wait_queue_wake_one queue s =
     (case wait_queues s queue of
        [] \<Rightarrow> (False, s)
      | thread # _ \<Rightarrow> (True, scheduler_wake_node thread s))"

lemma queues_set_state [simp]: "wait_queues (set_state t st s) = wait_queues s"
  by (simp add: set_state_def update_thread_def)

lemma wait_queues_wake_node: "wait_queues (scheduler_wake_node t s) q = removeAll t (wait_queues s q)"
  by (simp add: scheduler_wake_node_def Let_def)

lemma wake_one_shorter:
  "wait_queue_wake_one queue s = (True, s') \<Longrightarrow> length (wait_queues s' queue) < length (wait_queues s queue)"
  by (auto simp: wait_queue_wake_one_def wait_queues_wake_node le_imp_less_Suc split: list.splits)

function wait_queue_wake_all :: "u64 \<Rightarrow> 'a kernel_scheme \<Rightarrow> 'a kernel_scheme" where
  "wait_queue_wake_all queue s =
     (let (woken, s') = wait_queue_wake_one queue s
      in if woken then wait_queue_wake_all queue s' else s')"
  by pat_completeness auto

termination wait_queue_wake_all
  by (relation "measure (\<lambda>(queue, s). length (wait_queues s queue))") (auto dest!: sym intro!: wake_one_shorter)

declare wait_queue_wake_all.simps [simp del]

end
