(* ===== verification/Scheduler_Inv.thy ===== *)
theory Scheduler_Inv
  imports Scheduler
begin

text \<open>
  The invariant of the scheduler: the search for the next thread is round robin, and every operation
  keeps one running thread, well-formed wait queues and the deadlines of sleeping threads.
\<close>

section \<open>Round robin\<close>

text \<open>The threads in the order in which \<open>c\<close> hands over the processor: those after it, those before it, itself.\<close>

definition turn_order :: "u64 list \<Rightarrow> u64 \<Rightarrow> u64 list" where
  "turn_order ts c = tl (dropWhile (\<lambda>x. x \<noteq> c) ts) @ takeWhile (\<lambda>x. x \<noteq> c) ts @ [c]"

definition next_thread :: "'a kernel_scheme \<Rightarrow> u64" where
  "next_thread s = (case find (eligible s) (turn_order (all_threads s) (current s)) of Some t \<Rightarrow> t | None \<Rightarrow> idle_thread s)"

lemma turn_order_split: "c \<notin> set as \<Longrightarrow> turn_order (as @ c # bs) c = bs @ as @ [c]"
  by (simp add: turn_order_def dropWhile_append takeWhile_tail)

lemma node_after_split: "x \<notin> set xs \<Longrightarrow> node_after x (xs @ x # ys) = (case ys of [] \<Rightarrow> None | y # _ \<Rightarrow> Some y)"
  by (induction xs) auto

lemma next_node_split: "x \<notin> set xs \<Longrightarrow> next_node (xs @ x # ys) (Some x) = (case ys of [] \<Rightarrow> None | y # _ \<Rightarrow> Some y)"
  by (simp add: next_node_def node_after_split)

lemma pick_loop_Some:
  "pick_loop s start (Some t) = (if eligible s t then Some (Some t)
     else let node = next_node (all_threads s) (Some t) in if node \<noteq> start then pick_loop s start node else Some None)"
  by (subst pick_loop.simps) (simp add: Let_def)

text \<open>From a thread before the current one the loop runs up to the current one.\<close>

lemma pick_loop_front:
  assumes all: "all_threads s = xs @ ys @ c # bs" "distinct (xs @ ys @ c # bs)"
    and start: "start = (case bs of [] \<Rightarrow> None | b # _ \<Rightarrow> Some b)"
  shows "pick_loop s start (Some (hd (ys @ [c]))) = Some (find (eligible s) (ys @ [c]))"
  using all
proof (induction ys arbitrary: xs)
  case Nil
  then have "next_node (all_threads s) (Some c) = start" using next_node_split [of c xs bs] by (simp add: start)
  then show ?case by (simp add: pick_loop_Some)
next
  case (Cons y ys)
  have "next_node (all_threads s) (Some y) = Some (hd (ys @ [c]))"
    using Cons.prems next_node_split [of y xs "ys @ c # bs"] by (cases ys) auto
  moreover have "Some (hd (ys @ [c])) \<noteq> start" using Cons.prems(2) by (cases ys; cases bs) (auto simp: start)
  moreover have "pick_loop s start (Some (hd (ys @ [c]))) = Some (find (eligible s) (ys @ [c]))"
    using Cons.prems by (intro Cons.IH [of "xs @ [y]"]) auto
  ultimately show ?case by (simp add: pick_loop_Some)
qed

lemma pick_loop_head:
  assumes "all_threads s = as @ c # bs" "distinct (as @ c # bs)" "start = (case bs of [] \<Rightarrow> None | b # _ \<Rightarrow> Some b)"
  shows "pick_loop s start None = Some (find (eligible s) (as @ [c]))"
proof -
  have "pick_loop s start None = pick_loop s start (Some (hd (as @ [c])))"
    using assms(1) by (subst (1 2) pick_loop.simps) (cases as; simp add: next_node_def)
  then show ?thesis using pick_loop_front [of s "[]" as c bs start] assms by simp
qed

lemma pick_loop_back:
  assumes all: "all_threads s = as @ c # xs @ y # ys" "distinct (as @ c # xs @ y # ys)" and start: "start = Some (hd (xs @ [y]))"
  shows "pick_loop s start (Some y) = Some (find (eligible s) (y # ys @ as @ [c]))"
  using assms
proof (induction ys arbitrary: xs y)
  case Nil
  have "next_node (all_threads s) (Some y) = None" using Nil.prems next_node_split [of y "as @ c # xs" "[]"] by auto
  moreover have "pick_loop s start None = Some (find (eligible s) (as @ [c]))"
    using Nil.prems by (intro pick_loop_head [of s as c "xs @ [y]"]) (auto split: list.splits)
  ultimately show ?case using Nil.prems(3) by (simp add: pick_loop_Some)
next
  case (Cons z zs)
  have "next_node (all_threads s) (Some y) = Some z" using Cons.prems next_node_split [of y "as @ c # xs" "z # zs"] by auto
  moreover have "Some z \<noteq> start" using Cons.prems by (cases xs) auto
  moreover have "pick_loop s start (Some z) = Some (find (eligible s) (z # zs @ as @ [c]))"
    using Cons.prems by (intro Cons.IH [of "xs @ [y]"]) (auto simp: hd_append)
  ultimately show ?case by (simp add: pick_loop_Some)
qed

lemma pick_next_round_robin:
  assumes "distinct (all_threads s)" "current s \<in> set (all_threads s)"
  shows "pick_next s = Some (next_thread s)"
proof -
  let ?c = "current s"
  obtain as bs where all: "all_threads s = as @ ?c # bs" using assms(2) by (auto dest: split_list)
  have c: "?c \<notin> set as" using assms(1) all by simp
  let ?start = "case bs of [] \<Rightarrow> None | b # _ \<Rightarrow> Some b"
  have "pick_loop s ?start ?start = Some (find (eligible s) (bs @ as @ [?c]))"
  proof (cases bs)
    case Nil
    then show ?thesis using pick_loop_head [OF all] assms(1) all by simp
  next
    case (Cons b bs')
    then show ?thesis using pick_loop_back [of s as ?c "[]" b bs' "Some b"] assms(1) all by simp
  qed
  moreover have "next_node (all_threads s) (Some ?c) = ?start" using next_node_split [OF c, of bs] all by simp
  moreover have "turn_order (all_threads s) ?c = bs @ as @ [?c]" unfolding all by (rule turn_order_split [OF c])
  moreover have "\<not> eligible s ?c" if "find (eligible s) (bs @ as @ [?c]) = None" using that by (auto simp: find_None_iff)
  ultimately show ?thesis by (auto simp: pick_next_def next_thread_def split: option.splits)
qed

section \<open>The invariant\<close>

text \<open>
  What holds while a thread prepares to leave the processor: everything but the clause that the
  current thread is running. A thread in a wait queue sleeps without a deadline, so only a wake-up
  through the queue makes it runnable.
\<close>

definition queues_ok :: "'a kernel_scheme \<Rightarrow> bool" where
  "queues_ok s \<longleftrightarrow> (\<forall>q. distinct (wait_queues s q)) \<and> (\<forall>q r. q \<noteq> r \<longrightarrow> set (wait_queues s q) \<inter> set (wait_queues s r) = {}) \<and>
     (\<forall>q. \<forall>t\<in>set (wait_queues s q). t \<in> set (all_threads s) \<and> state_of s t = THREAD_SLEEPING \<and> t_wake_tick (threads s t) = 0)"

definition threads_ok :: "'a kernel_scheme \<Rightarrow> bool" where
  "threads_ok s \<longleftrightarrow> distinct (all_threads s) \<and> 0 \<notin> set (all_threads s) \<and>
     current s \<in> set (all_threads s) \<and> idle_thread s \<in> set (all_threads s) \<and>
     (\<forall>t\<in>set (all_threads s). (t_idle (threads s t) \<longleftrightarrow> t = idle_thread s) \<and>
        (state_of s t = THREAD_RUNNING \<longrightarrow> t = current s) \<and> (t_wake_tick (threads s t) \<noteq> 0 \<longrightarrow> state_of s t = THREAD_SLEEPING)) \<and>
     state_of s (idle_thread s) \<in> {THREAD_RUNNING, THREAD_RUNNABLE}"

definition sched_inv :: "'a kernel_scheme \<Rightarrow> bool" where
  "sched_inv s \<longleftrightarrow> threads_ok s \<and> queues_ok s \<and> state_of s (current s) = THREAD_RUNNING"

lemmas sched_defs = threads_ok_def queues_ok_def sched_inv_def
lemmas thread_updates = set_state_def update_thread_def state_of_def

lemma set_state_simps [simp]:
  "state_of (set_state t st s) u = (if u = t then st else state_of s u)"
  "t_idle (threads (set_state t st s) u) = t_idle (threads s u)"
  "t_wake_tick (threads (set_state t st s) u) = t_wake_tick (threads s u)"
  "t_process (threads (set_state t st s) u) = t_process (threads s u)"
  "all_threads (set_state t st s) = all_threads s" "current (set_state t st s) = current s"
  "idle_thread (set_state t st s) = idle_thread s" "tick_count (set_state t st s) = tick_count s"
  by (simp_all add: thread_updates)

lemma next_thread_cases:
  assumes "threads_ok s"
  shows "next_thread s \<in> set (all_threads s)" "eligible s (next_thread s) \<or> next_thread s = idle_thread s"
proof -
  obtain as bs where all: "all_threads s = as @ current s # bs" "current s \<notin> set as"
    using assms split_list_first [of "current s" "all_threads s"] unfolding threads_ok_def by blast
  have sub: "set (turn_order (all_threads s) (current s)) = set (all_threads s)"
    unfolding all(1) turn_order_split [OF all(2)] by auto
  have "next_thread s \<in> set (all_threads s) \<and> (eligible s (next_thread s) \<or> next_thread s = idle_thread s)"
  proof (cases "find (eligible s) (turn_order (all_threads s) (current s))")
    case None
    then show ?thesis using assms by (simp add: next_thread_def threads_ok_def)
  next
    case (Some t)
    then obtain i where "i < length (turn_order (all_threads s) (current s))" "eligible s t" "t = turn_order (all_threads s) (current s) ! i"
      unfolding find_Some_iff by blast
    then have "t \<in> set (all_threads s)" "eligible s t" using sub nth_mem by auto
    then show ?thesis using Some by (simp add: next_thread_def)
  qed
  then show "next_thread s \<in> set (all_threads s)" "eligible s (next_thread s) \<or> next_thread s = idle_thread s" by blast+
qed

text \<open>The state after handing over: only \<open>current\<close>, one thread state, the registers and \<open>satp\<close> change.\<close>

lemma switch_outcome:
  assumes ok: "threads_ok s" and off: "state_of s (current s) \<noteq> THREAD_RUNNING"
  shows "\<exists>s'. scheduler_switch s = Some s' \<and> current s' = next_thread s \<and>
    (\<forall>t. state_of s' t = (if t = next_thread s then THREAD_RUNNING else state_of s t)) \<and>
    (\<forall>t. t_idle (threads s' t) = t_idle (threads s t) \<and> t_wake_tick (threads s' t) = t_wake_tick (threads s t)) \<and>
    all_threads s' = all_threads s \<and> wait_queues s' = wait_queues s \<and> idle_thread s' = idle_thread s \<and> tick_count s' = tick_count s"
proof -
  let ?n = "next_thread s"
  have pick: "pick_next s = Some ?n" using ok by (intro pick_next_round_robin) (auto simp: threads_ok_def)
  have n: "?n \<noteq> 0" using next_thread_cases(1) [OF ok] ok by (auto simp: threads_ok_def)
  have "state_of s ?n = THREAD_RUNNABLE" if "?n = current s"
    using that off next_thread_cases(2) [OF ok] ok by (auto simp: eligible_def threads_ok_def)
  then show ?thesis
    using pick n by (auto simp: scheduler_switch_def Let_def context_switch_def vm_activate_def update_thread_def set_state_def state_of_def)
qed

lemma switch_inv:
  assumes ok: "threads_ok s" "queues_ok s" and off: "state_of s (current s) \<noteq> THREAD_RUNNING"
  shows "\<exists>s'. scheduler_switch s = Some s' \<and> sched_inv s' \<and> current s' = next_thread s \<and> all_threads s' = all_threads s"
proof -
  obtain s' where s': "scheduler_switch s = Some s'" "current s' = next_thread s"
    "\<And>t. state_of s' t = (if t = next_thread s then THREAD_RUNNING else state_of s t)"
    "\<And>t. t_idle (threads s' t) = t_idle (threads s t)" "\<And>t. t_wake_tick (threads s' t) = t_wake_tick (threads s t)"
    "all_threads s' = all_threads s" "wait_queues s' = wait_queues s" "idle_thread s' = idle_thread s"
    using switch_outcome [OF ok(1) off] by blast
  have n: "next_thread s \<in> set (all_threads s)" "state_of s (next_thread s) = THREAD_RUNNABLE"
    using next_thread_cases [OF ok(1)] ok(1) off by (auto simp: eligible_def threads_ok_def)
  have quiet: "state_of s t \<noteq> THREAD_RUNNING" if "t \<in> set (all_threads s)" for t using ok(1) off that by (auto simp: threads_ok_def)
  have "t_wake_tick (threads s (next_thread s)) = 0" "state_of s (idle_thread s) = THREAD_RUNNABLE"
    using ok(1) n quiet [of "idle_thread s"] by (auto simp: threads_ok_def)
  then have "threads_ok s'" using ok(1) n quiet by (simp add: threads_ok_def s'(2-))
  moreover have "next_thread s \<notin> set (wait_queues s q)" for q using ok(2) n(2) by (auto simp: queues_ok_def)
  then have "state_of s' t = state_of s t" if "t \<in> set (wait_queues s q)" for t q using that s'(3) by auto
  then have "queues_ok s'" using ok(2) by (simp add: queues_ok_def s'(5-7))
  ultimately show ?thesis using s'(1-3,6) by (simp add: sched_inv_def)
qed

end
