(* ===== verification/Scheduler_Ops.thy ===== *)
theory Scheduler_Ops
  imports Scheduler_Inv
begin

text \<open>
  Every operation of the scheduler keeps its invariant: the ones that leave the processor prepare a
  state from which the switch is taken, the others only make threads runnable.
\<close>

section \<open>Preparing to leave\<close>

definition sched_view :: "'a kernel_scheme \<Rightarrow> (u64 \<Rightarrow> thread) \<times> u64 list \<times> (u64 \<Rightarrow> u64 list) \<times> u64 \<times> u64" where
  "sched_view s = (threads s, all_threads s, wait_queues s, current s, idle_thread s)"

lemma sched_view_cong:
  assumes "sched_view s = sched_view t"
  shows "threads_ok s = threads_ok t" "queues_ok s = queues_ok t" "sched_inv s = sched_inv t" "eligible s x = eligible t x"
    "current s = current t" "all_threads s = all_threads t" "state_of s x = state_of t x" "wait_queues s = wait_queues t"
  using assms by (auto simp: sched_view_def threads_ok_def queues_ok_def sched_inv_def state_of_def eligible_def)

definition leaves :: "'a kernel_scheme \<Rightarrow> 'a kernel_scheme \<Rightarrow> bool" where
  "leaves s u \<longleftrightarrow> threads_ok u \<and> queues_ok u \<and> state_of u (current u) \<noteq> THREAD_RUNNING \<and>
     current u = current s \<and> all_threads u = all_threads s \<and> (\<forall>t. t \<noteq> current s \<and> eligible s t \<longrightarrow> eligible u t)"

text \<open>The call hands over the processor: it prepares \<open>u\<close>, switches, and only touches \<open>sstatus\<close> afterwards.\<close>

definition hands_over :: "'a kernel_scheme \<Rightarrow> 'a kernel_scheme option \<Rightarrow> bool" where
  "hands_over s r \<longleftrightarrow> (\<exists>u s'' s'. leaves s u \<and> scheduler_switch u = Some s'' \<and> r = Some s' \<and> sched_view s' = sched_view s'')"

definition stays :: "'a kernel_scheme \<Rightarrow> 'a kernel_scheme \<Rightarrow> bool" where
  "stays s s' \<longleftrightarrow> sched_inv s' \<and> current s' = current s \<and> all_threads s' = all_threads s \<and> (\<forall>t. eligible s t \<longrightarrow> eligible s' t)"

lemma hands_over_inv:
  assumes "hands_over s r"
  shows "\<exists>s'. r = Some s' \<and> sched_inv s' \<and> all_threads s' = all_threads s"
proof -
  obtain u s'' s' where u: "leaves s u" "scheduler_switch u = Some s''" "r = Some s'" "sched_view s' = sched_view s''"
    using assms by (auto simp: hands_over_def)
  then have "sched_inv s''" "all_threads s'' = all_threads s" using switch_inv [of u] by (auto simp: leaves_def)
  then show ?thesis using u(3) sched_view_cong(3,6) [OF u(4)] by simp
qed

lemma irq_view: "sched_view (snd (irq_save s)) = sched_view s" "sched_view (irq_restore fl s) = sched_view s"
  "tick_count (snd (irq_save s)) = tick_count s"
  by (simp_all add: irq_defs sched_view_def)

lemma back_in_view: "sched_view (back_in t fl s) = sched_view s"
  by (simp add: back_in_def irq_view)

lemma hands_overI:
  assumes "leaves s u" "r = Option.bind (scheduler_switch u) (\<lambda>s. Some (back_in t fl s))"
  shows "hands_over s r"
proof -
  obtain s'' where "scheduler_switch u = Some s''" using switch_inv [of u] assms(1) by (auto simp: leaves_def)
  then show ?thesis using assms back_in_view [of t fl s''] by (auto simp: hands_over_def)
qed

lemma leaves_view: "sched_view t = sched_view s \<Longrightarrow> leaves t u = leaves s u"
  by (simp add: leaves_def sched_view_cong(4) [of t s] sched_view_cong(5) [of t s] sched_view_cong(6) [of t s])

lemma queues_frame:
  assumes "queues_ok s" "wait_queues u = wait_queues s" "all_threads u = all_threads s"
    and "\<And>q t. t \<in> set (wait_queues s q) \<Longrightarrow> state_of u t = state_of s t \<and> t_wake_tick (threads u t) = t_wake_tick (threads s t)"
  shows "queues_ok u"
  using assms by (simp add: queues_ok_def)

lemma not_queued: "sched_inv s \<Longrightarrow> current s \<notin> set (wait_queues s q)"
  by (auto simp: sched_inv_def queues_ok_def)

section \<open>Operations that leave\<close>

lemma update_thread_simps [simp]:
  "threads (update_thread t f s) x = (if x = t then f (threads s t) else threads s x)"
  "all_threads (update_thread t f s) = all_threads s" "wait_queues (update_thread t f s) = wait_queues s"
  "current (update_thread t f s) = current s" "idle_thread (update_thread t f s) = idle_thread s"
  "state_of (update_thread t f s) x = (if x = t then t_state (f (threads s t)) else state_of s x)"
  "tick_count (update_thread t f s) = tick_count s"
  by (simp_all add: update_thread_def state_of_def)

lemma threads_frame:
  assumes ok: "threads_ok s" and same: "all_threads u = all_threads s" "current u = current s" "idle_thread u = idle_thread s"
    "\<And>x. t_idle (threads u x) = t_idle (threads s x)"
    and others: "\<And>x. x \<noteq> t \<Longrightarrow> state_of u x = state_of s x" "\<And>x. x \<noteq> t \<Longrightarrow> t_wake_tick (threads u x) = t_wake_tick (threads s x)"
    and changed: "state_of u t = THREAD_RUNNING \<Longrightarrow> t = current s" "t_wake_tick (threads u t) \<noteq> 0 \<Longrightarrow> state_of u t = THREAD_SLEEPING"
    "t = idle_thread s \<Longrightarrow> state_of u t \<in> {THREAD_RUNNING, THREAD_RUNNABLE}"
  shows "threads_ok u"
proof -
  have "(t_idle (threads u x) \<longleftrightarrow> x = idle_thread u) \<and> (state_of u x = THREAD_RUNNING \<longrightarrow> x = current u) \<and>
      (t_wake_tick (threads u x) \<noteq> 0 \<longrightarrow> state_of u x = THREAD_SLEEPING)" if "x \<in> set (all_threads s)" for x
    using ok that same others [of x] changed by (cases "x = t") (simp_all add: threads_ok_def)
  moreover have "state_of u (idle_thread s) \<in> {THREAD_RUNNING, THREAD_RUNNABLE}"
    using ok others(1) [of "idle_thread s"] changed(3) by (cases "t = idle_thread s") (simp_all add: threads_ok_def)
  ultimately show ?thesis using ok same(1-3) by (simp add: threads_ok_def)
qed

lemma threads_okD:
  assumes "threads_ok s" "t \<in> set (all_threads s)"
  shows "t_idle (threads s t) \<longleftrightarrow> t = idle_thread s" "state_of s t = THREAD_RUNNING \<Longrightarrow> t = current s"
    "t_wake_tick (threads s t) \<noteq> 0 \<Longrightarrow> state_of s t = THREAD_SLEEPING"
  using assms by (simp_all add: threads_ok_def)

lemma sched_invD:
  assumes "sched_inv s"
  shows "threads_ok s" "queues_ok s" "state_of s (current s) = THREAD_RUNNING" "current s \<in> set (all_threads s)"
    "t_wake_tick (threads s (current s)) = 0" "t_idle (threads s (current s)) \<longleftrightarrow> current s = idle_thread s"
proof -
  show ok: "threads_ok s" "queues_ok s" "state_of s (current s) = THREAD_RUNNING" using assms by (simp_all add: sched_inv_def)
  show c: "current s \<in> set (all_threads s)" using ok(1) by (simp add: threads_ok_def)
  show "t_wake_tick (threads s (current s)) = 0" using threads_okD(3) [OF ok(1) c] ok(3) by auto
  show "t_idle (threads s (current s)) \<longleftrightarrow> current s = idle_thread s" by (rule threads_okD(1) [OF ok(1) c])
qed

lemma leave_state:
  assumes inv: "sched_inv s" and st: "st \<noteq> THREAD_RUNNING" "t_idle (threads s (current s)) \<longrightarrow> st = THREAD_RUNNABLE"
  shows "leaves s (set_state (current s) st s)"
proof -
  note ok = sched_invD [OF inv]
  have "queues_ok (set_state (current s) st s)"
    using not_queued [OF inv] by (intro queues_frame [OF ok(2)]) auto
  moreover have "threads_ok (set_state (current s) st s)"
    by (rule threads_frame [OF ok(1), of _ "current s"]) (use st ok(5,6) in auto)
  ultimately show ?thesis using st(1) by (simp add: leaves_def eligible_def)
qed

lemma yield_hands_over:
  assumes "sched_inv s"
  shows "hands_over s (scheduler_yield s)"
proof -
  let ?u = "snd (irq_save s)"
  have v: "sched_view ?u = sched_view s" by (rule irq_view)
  have inv: "sched_inv ?u" using assms sched_view_cong(3) [OF v] by simp
  have "hands_over ?u (scheduler_yield s)"
    by (rule hands_overI [OF leave_state [OF inv, of THREAD_RUNNABLE], of _ "current s" "fst (irq_save s)"])
      (use inv in \<open>simp_all add: scheduler_yield_def Let_def sched_inv_def case_prod_beta\<close>)
  then show ?thesis by (simp add: hands_over_def leaves_view [OF v])
qed

lemma exit_hands_over:
  assumes "sched_inv s" "\<not> t_idle (threads s (current s))"
  shows "hands_over s (thread_exit s)"
proof -
  let ?u = "snd (irq_save s)"
  have v: "sched_view ?u = sched_view s" by (rule irq_view)
  have inv: "sched_inv ?u" "\<not> t_idle (threads ?u (current ?u))" using assms sched_view_cong(3) [OF v] v by (simp_all add: sched_view_def)
  obtain s'' where s'': "scheduler_switch (set_state (current ?u) THREAD_DEAD ?u) = Some s''"
    using switch_inv leave_state [OF inv(1), of THREAD_DEAD] inv(2) unfolding leaves_def by blast
  then have "thread_exit s = Some s''" by (simp add: thread_exit_def case_prod_beta)
  moreover have "leaves s (set_state (current ?u) THREAD_DEAD ?u)"
    using leave_state [OF inv(1), of THREAD_DEAD] inv(2) leaves_view [OF v] by simp
  ultimately show ?thesis using s'' unfolding hands_over_def by blast
qed

lemma leave_sleeping:
  assumes inv: "sched_inv s" and idle: "\<not> t_idle (threads s (current s))"
  shows "leaves s (set_state (current s) THREAD_SLEEPING (update_thread (current s) (\<lambda>th. th\<lparr>t_wake_tick := w\<rparr>) s))" (is "leaves s ?u")
proof -
  note ok = sched_invD [OF inv]
  have "queues_ok ?u" using not_queued [OF inv] by (intro queues_frame [OF ok(2)]) auto
  moreover have "threads_ok ?u" by (rule threads_frame [OF ok(1), of _ "current s"]) (use ok(6) idle in auto)
  ultimately show ?thesis by (simp add: leaves_def eligible_def)
qed

lemma sleep_hands_over:
  assumes "sched_inv s" "\<not> t_idle (threads s (current s))"
  shows "hands_over s (scheduler_sleep ticks s)"
proof (cases "ticks = 0")
  case True
  then show ?thesis using yield_hands_over [OF assms(1)] by (simp add: scheduler_sleep_def)
next
  case False
  let ?u = "snd (irq_save s)"
  have v: "sched_view ?u = sched_view s" by (rule irq_view)
  have inv: "sched_inv ?u" "\<not> t_idle (threads ?u (current ?u))" using assms sched_view_cong(3) [OF v] v by (simp_all add: sched_view_def)
  have "hands_over ?u (scheduler_sleep ticks s)"
    by (intro hands_overI [OF leave_sleeping [OF inv, of "tick_count ?u + ticks"], of _ "current s" "fst (irq_save s)"])
      (use False in \<open>simp add: scheduler_sleep_def Let_def case_prod_beta\<close>)
  then show ?thesis by (simp add: hands_over_def leaves_view [OF v])
qed

lemma leave_blocked:
  assumes inv: "sched_inv s" and idle: "\<not> t_idle (threads s (current s))"
  shows "leaves s (scheduler_block_current q s)" (is "leaves s ?u")
proof -
  note ok = sched_invD [OF inv]
  have f: "state_of ?u x = (if x = current s then THREAD_SLEEPING else state_of s x)"
    "t_wake_tick (threads ?u x) = t_wake_tick (threads s x)" "t_idle (threads ?u x) = t_idle (threads s x)"
    "all_threads ?u = all_threads s" "current ?u = current s" "idle_thread ?u = idle_thread s"
    "wait_queues ?u = (wait_queues s)(q := wait_queues s q @ [current s])" for x
    by (simp_all add: scheduler_block_current_def Let_def thread_updates)
  have out: "current s \<notin> set (wait_queues s r)" for r by (rule not_queued [OF inv])
  have Q: "distinct (wait_queues s r)" "r \<noteq> r' \<Longrightarrow> set (wait_queues s r) \<inter> set (wait_queues s r') = {}"
    "x \<in> set (wait_queues s r) \<Longrightarrow> x \<in> set (all_threads s) \<and> state_of s x = THREAD_SLEEPING \<and> t_wake_tick (threads s x) = 0" for r r' x
    using ok(2) by (simp_all add: queues_ok_def)
  have "queues_ok ?u" unfolding queues_ok_def f
  proof (intro conjI allI ballI impI)
    show "distinct (((wait_queues s)(q := wait_queues s q @ [current s])) r)" for r using Q(1) [of r] Q(1) [of q] out [of q] by simp
    show "set (((wait_queues s)(q := wait_queues s q @ [current s])) r) \<inter> set (((wait_queues s)(q := wait_queues s q @ [current s])) r') = {}"
      if "r \<noteq> r'" for r r' using that Q(2) [OF that] out [of r] out [of r'] by auto
  next
    fix r x assume "x \<in> set (((wait_queues s)(q := wait_queues s q @ [current s])) r)"
    then have "x = current s \<or> x \<in> set (wait_queues s r)" by (auto split: if_splits)
    then show "x \<in> set (all_threads s)" "(if x = current s then THREAD_SLEEPING else state_of s x) = THREAD_SLEEPING"
      "t_wake_tick (threads s x) = 0" using Q(3) ok(4,5) by auto
  qed
  moreover have "threads_ok ?u" by (rule threads_frame [OF ok(1), of _ "current s"]) (use ok(6) idle in \<open>auto simp: f\<close>)
  ultimately show ?thesis by (simp add: leaves_def eligible_def f)
qed

lemma wait_hands_over:
  assumes "sched_inv s" "\<not> t_idle (threads s (current s))" and unlock: "\<And>u. sched_view (unlock u) = sched_view u"
  shows "hands_over s (wait_queue_sleep q unlock s)"
proof -
  let ?u = "scheduler_block_current q s"
  have l: "leaves s ?u" by (rule leave_blocked [OF assms(1,2)])
  then have "state_of ?u (current s) \<noteq> THREAD_RUNNING" by (auto simp: leaves_def)
  then have "leaves s (unlock ?u)"
    using l sched_view_cong [OF unlock [of ?u]] unfolding leaves_def by simp
  then show ?thesis using switch_inv [of "unlock ?u"] unfolding hands_over_def leaves_def wait_queue_sleep_def by blast
qed

section \<open>Ticks and wake-ups\<close>

lemma wake_due_stays:
  assumes inv: "sched_inv s"
  shows "stays s (wake_due t s)" "sched_view (wake_due t s) = sched_view s \<or> state_of (wake_due t s) t = THREAD_RUNNABLE"
proof -
  note ok = sched_invD [OF inv]
  show "stays s (wake_due t s)"
  proof (cases "state_of s t = THREAD_SLEEPING \<and> t_wake_tick (threads s t) \<noteq> 0 \<and> t_wake_tick (threads s t) \<le> tick_count s")
    case False
    then have "wake_due t s = s" unfolding wake_due_def by (rule if_not_P)
    then show ?thesis using inv by (simp add: stays_def)
  next
    case True
    let ?u = "set_state t THREAD_RUNNABLE (update_thread t (\<lambda>th. th\<lparr>t_wake_tick := 0\<rparr>) s)"
    have "t \<noteq> current s" using True ok(3) by auto
    moreover have "t \<notin> set (wait_queues s q)" for q using True ok(2) by (auto simp: queues_ok_def)
    then have "queues_ok ?u" by (intro queues_frame [OF ok(2)]) auto
    moreover have "threads_ok ?u" by (rule threads_frame [OF ok(1), of _ t]) (use \<open>t \<noteq> current s\<close> in auto)
    ultimately show ?thesis using True ok(3) by (simp add: wake_due_def stays_def sched_inv_def eligible_def)
  qed
  show "sched_view (wake_due t s) = sched_view s \<or> state_of (wake_due t s) t = THREAD_RUNNABLE" by (simp add: wake_due_def)
qed

lemma stays_refl: "sched_inv s \<Longrightarrow> stays s s"
  by (simp add: stays_def)

lemma stays_trans: "stays s t \<Longrightarrow> stays t u \<Longrightarrow> stays s u"
  by (simp add: stays_def)

lemma stays_view: "sched_view u = sched_view t \<Longrightarrow> stays s u = stays s t" "sched_view t = sched_view s \<Longrightarrow> stays t u = stays s u"
  by (simp_all add: stays_def sched_view_cong(3-6) [of u t] sched_view_cong(4-6) [of t s])

lemma fold_wake_due_stays: "sched_inv s \<Longrightarrow> stays s (fold wake_due ts s)"
proof (induction ts arbitrary: s)
  case (Cons t ts)
  have "stays s (wake_due t s)" by (rule wake_due_stays(1) [OF Cons.prems])
  moreover have "stays (wake_due t s) (fold wake_due ts (wake_due t s))"
    using calculation by (intro Cons.IH) (simp add: stays_def)
  ultimately show ?case by (simp add: stays_trans [of s "wake_due t s"])
qed (simp add: stays_refl)

lemma tick_hands_over:
  assumes inv: "sched_inv s"
  shows "hands_over s (scheduler_tick s)"
proof -
  define a where "a = s\<lparr>tick_count := tick_count s + 1\<rparr>"
  define b where "b = fold wake_due (all_threads a) a"
  define c where "c = (if timer_running b then sbi_set_timer (time b + timer_interval b) b else b)"
  define u where "u = (set_state (current c) THREAD_RUNNABLE c)\<lparr>preemption_count := preemption_count c + 1\<rparr>"
  have va: "sched_view a = sched_view s" by (simp add: a_def sched_view_def)
  then have "stays a b" unfolding b_def using inv sched_view_cong(3) by (intro fold_wake_due_stays) blast
  moreover have "sched_view c = sched_view b" by (simp add: c_def sbi_set_timer_def sched_view_def)
  ultimately have sc: "stays s c" using stays_view va by blast
  then have ic: "sched_inv c" by (simp add: stays_def)
  have "leaves c (set_state (current c) THREAD_RUNNABLE c)" using leave_state [OF ic, of THREAD_RUNNABLE] by simp
  moreover have vu: "sched_view u = sched_view (set_state (current c) THREAD_RUNNABLE c)" by (simp add: u_def sched_view_def)
  ultimately have "leaves c u" using sched_view_cong [OF vu] unfolding leaves_def by simp
  then have "leaves s u" using sc unfolding leaves_def stays_def by auto
  moreover have "scheduler_tick s = scheduler_switch u"
    unfolding scheduler_tick_def Let_def a_def [symmetric] b_def [symmetric] c_def [symmetric]
    using sched_invD(3) [OF ic] by (simp add: u_def)
  ultimately show ?thesis using switch_inv [of u] unfolding hands_over_def leaves_def by metis
qed

lemma wake_node_stays:
  assumes inv: "sched_inv s" and t: "t \<in> set (wait_queues s q)"
  shows "stays s (scheduler_wake_node t s)"
proof -
  note ok = sched_invD [OF inv]
  let ?v = "s\<lparr>wait_queues := \<lambda>q. removeAll t (wait_queues s q)\<rparr>"
  have st: "state_of s t = THREAD_SLEEPING" "t_wake_tick (threads s t) = 0" using ok(2) t by (auto simp: queues_ok_def)
  have sv: "state_of ?v x = state_of s x" for x by (simp add: state_of_def)
  have e: "scheduler_wake_node t s = set_state t THREAD_RUNNABLE ?v"
    using st(1) by (simp add: scheduler_wake_node_def Let_def state_of_def)
  have tc: "t \<noteq> current s" using st(1) ok(3) by auto
  have "queues_ok (set_state t THREAD_RUNNABLE ?v)"
    using ok(2) unfolding queues_ok_def by (auto simp: distinct_removeAll sv)
  moreover have "threads_ok (set_state t THREAD_RUNNABLE ?v)"
    by (rule threads_frame [OF ok(1), of _ t]) (use tc st in \<open>auto simp: sv\<close>)
  ultimately show ?thesis using tc ok(3) unfolding e by (simp add: stays_def sched_inv_def eligible_def sv)
qed

lemma wake_one_stays: "sched_inv s \<Longrightarrow> stays s (snd (wait_queue_wake_one q s))"
  by (auto simp: wait_queue_wake_one_def stays_refl intro!: wake_node_stays [of _ _ q] split: list.splits)

lemma wake_all_stays: "sched_inv s \<Longrightarrow> stays s (wait_queue_wake_all q s)"
proof (induction q s rule: wait_queue_wake_all.induct)
  case (1 q s)
  have "stays s (snd (wait_queue_wake_one q s))" by (rule wake_one_stays [OF 1(2)])
  moreover have "stays (snd (wait_queue_wake_one q s)) (wait_queue_wake_all q (snd (wait_queue_wake_one q s)))"
    if "fst (wait_queue_wake_one q s)"
    using calculation that by (intro 1(1) [OF refl prod.collapse]) (simp_all add: stays_def)
  ultimately show ?case by (subst wait_queue_wake_all.simps) (auto simp: case_prod_beta intro: stays_trans)
qed

end
