(* ===== verification/Scheduler_Run.thy ===== *)
theory Scheduler_Run
  imports Scheduler_Ops
begin

text \<open>
  Runs of the scheduler: the calls a thread, the timer interrupt and the wait queues make, as a step
  relation; the invariant along a run, fairness, and when a sleeping or waiting thread runs again.
\<close>

section \<open>Steps\<close>

datatype sched_event = Tick | Yield | Sleep u64 | Wait u64 | Wake_one u64 | Wake_all u64 | Exit

text \<open>
  The idle thread only yields and is preempted. The lock a waiting thread releases is not part of the
  scheduler's state.
\<close>

inductive sched_step :: "'a kernel_scheme \<Rightarrow> sched_event \<Rightarrow> 'a kernel_scheme \<Rightarrow> bool" where
  tick: "scheduler_tick s = Some s' \<Longrightarrow> sched_step s Tick s'"
| yield: "scheduler_yield s = Some s' \<Longrightarrow> sched_step s Yield s'"
| sleep: "\<not> t_idle (threads s (current s)) \<Longrightarrow> scheduler_sleep n s = Some s' \<Longrightarrow> sched_step s (Sleep n) s'"
| wait: "\<not> t_idle (threads s (current s)) \<Longrightarrow> (\<And>u. sched_view (unlock u) = sched_view u) \<Longrightarrow> (\<And>u. tick_count (unlock u) = tick_count u) \<Longrightarrow>
    wait_queue_sleep q unlock s = Some s' \<Longrightarrow> sched_step s (Wait q) s'"
| wake_one: "sched_step s (Wake_one q) (snd (wait_queue_wake_one q s))"
| wake_all: "sched_step s (Wake_all q) (wait_queue_wake_all q s)"
| exit: "\<not> t_idle (threads s (current s)) \<Longrightarrow> thread_exit s = Some s' \<Longrightarrow> sched_step s Exit s'"

inductive sched_steps :: "'a kernel_scheme \<Rightarrow> sched_event list \<Rightarrow> 'a kernel_scheme \<Rightarrow> bool" where
  none: "sched_steps s [] s"
| more: "sched_step s e s' \<Longrightarrow> sched_steps s' es s'' \<Longrightarrow> sched_steps s (e # es) s''"

inductive_cases sched_steps_Nil [elim!]: "sched_steps s [] s'"
inductive_cases sched_steps_Cons [elim!]: "sched_steps s (e # es) s'"

fun switches :: "sched_event \<Rightarrow> bool" where
  "switches (Wake_one q) \<longleftrightarrow> False"
| "switches (Wake_all q) \<longleftrightarrow> False"
| "switches e \<longleftrightarrow> True"

lemma step_cases:
  assumes "sched_step s e s'" "sched_inv s"
  shows "if switches e then hands_over s (Some s') else stays s s'"
  using assms
proof (cases rule: sched_step.cases)
  case tick
  then show ?thesis using tick_hands_over [OF assms(2)] by simp
next
  case yield
  then show ?thesis using yield_hands_over [OF assms(2)] by simp
next
  case (sleep n)
  then show ?thesis using sleep_hands_over [OF assms(2) sleep(2), of n] by simp
next
  case (wait unlock q)
  then show ?thesis using wait_hands_over [OF assms(2) wait(2), of unlock q] by auto
next
  case (wake_one q)
  then show ?thesis using wake_one_stays [OF assms(2)] by simp
next
  case (wake_all q)
  then show ?thesis using wake_all_stays [OF assms(2)] by simp
next
  case exit
  then show ?thesis using exit_hands_over [OF assms(2) exit(2)] by simp
qed

lemma step_inv:
  assumes "sched_step s e s'" "sched_inv s"
  shows "sched_inv s'" "all_threads s' = all_threads s"
  using step_cases [OF assms] hands_over_inv [of s "Some s'"] by (auto simp: stays_def split: if_splits)

lemma steps_inv:
  assumes "sched_steps s es s'" "sched_inv s"
  shows "sched_inv s' \<and> all_threads s' = all_threads s"
  using assms by (induction rule: sched_steps.induct) (auto simp: step_inv)

section \<open>Fairness\<close>

text \<open>How many threads come before \<open>t\<close> in the turn order.\<close>

definition rank :: "'a kernel_scheme \<Rightarrow> u64 \<Rightarrow> nat" where
  "rank s t = length (takeWhile (\<lambda>x. x \<noteq> t) (turn_order (all_threads s) (current s)))"

lemma turn_order_step:
  assumes "distinct ts" "c \<in> set ts" "turn_order ts c = xs @ n # ys"
  shows "turn_order ts n = ys @ xs @ [n]"
proof -
  obtain as bs where ts: "ts = as @ c # bs" "c \<notin> set as" using assms(2) by (auto dest: split_list_first)
  have L: "bs @ as @ [c] = xs @ n # ys" using assms(3) turn_order_split [OF ts(2), of bs] by (simp add: ts(1))
  have d: "distinct (xs @ n # ys)" using assms(1) unfolding L [symmetric] ts(1) by auto
  consider us where "bs = xs @ n # us" "ys = us @ as @ [c]"
    | us where "as @ [c] = us @ n # ys" "xs = bs @ us" using L by (fastforce simp: append_eq_append_conv2 append_eq_Cons_conv)
  then show ?thesis
  proof cases
    case 1
    then show ?thesis using turn_order_split [of n "as @ c # xs" us] d by (auto simp: ts(1))
  next
    case 2
    show ?thesis
    proof (cases ys rule: rev_cases)
      case Nil
      then have "as = us" "c = n" using 2 by auto
      then show ?thesis using assms(3) Nil 2 by (simp add: L)
    next
      case (snoc vs v)
      then have "as = us @ n # vs" "v = c" using 2 by auto
      then show ?thesis using turn_order_split [of n us "vs @ c # bs"] d 2 snoc by (auto simp: ts(1))
    qed
  qed
qed

lemma find_first: "find P xs = Some x \<Longrightarrow> \<exists>us vs. xs = us @ x # vs \<and> (\<forall>u\<in>set us. \<not> P u)"
proof (induction xs)
  case (Cons y xs)
  show ?case
  proof (cases "P y")
    case True
    then show ?thesis using Cons.prems by (intro exI [of _ "[]"] exI [of _ xs]) simp
  next
    case False
    then obtain us vs where "xs = us @ x # vs" "\<forall>u\<in>set us. \<not> P u" using Cons by auto
    then show ?thesis using False by (intro exI [of _ "y # us"] exI [of _ vs]) simp
  qed
qed simp

lemma switch_progress:
  assumes u: "leaves s u" and sw: "scheduler_switch u = Some s''"
    and t: "t \<in> set (all_threads s)" "t \<noteq> current s" "eligible s t"
  shows "current s'' = t \<or> t \<noteq> current s'' \<and> eligible s'' t \<and> rank s'' t < rank s t"
proof -
  let ?L = "turn_order (all_threads s) (current s)"
  have same: "current u = current s" "all_threads u = all_threads s" and ok: "threads_ok u" using u by (auto simp: leaves_def)
  have et: "eligible u t" using u t by (auto simp: leaves_def)
  have d: "distinct (all_threads s)" "current s \<in> set (all_threads s)" using ok same by (auto simp: threads_ok_def)
  obtain as bs where all: "all_threads s = as @ current s # bs" "current s \<notin> set as" using d(2) by (auto dest: split_list_first)
  have "t \<in> set ?L" using t(1) unfolding all(1) turn_order_split [OF all(2)] by auto
  then obtain n where n: "find (eligible u) ?L = Some n" using et by (cases "find (eligible u) ?L") (auto simp: find_None_iff)
  then obtain xs ys where L: "?L = xs @ n # ys" "\<forall>x\<in>set xs. \<not> eligible u x"
    using find_first [OF n] by blast
  obtain s1 where s1: "scheduler_switch u = Some s1" "current s1 = next_thread u" "all_threads s1 = all_threads u"
    "\<And>x. state_of s1 x = (if x = next_thread u then THREAD_RUNNING else state_of u x)" "\<And>x. t_idle (threads s1 x) = t_idle (threads u x)"
    using switch_outcome [OF ok] u unfolding leaves_def by blast
  have nx: "next_thread u = n" using n same by (simp add: next_thread_def)
  show ?thesis
  proof (cases "n = t")
    case True
    then show ?thesis using sw s1(1,2) nx by simp
  next
    case False
    have ss: "s'' = s1" using sw s1(1) by simp
    have tx: "t \<notin> set xs" using L(2) et by blast
    have "t \<in> set (xs @ n # ys)" using \<open>t \<in> set ?L\<close> L(1) by simp
    then have ty: "t \<in> set ys" using tx False by simp
    have "eligible s'' t" using et s1(4,5) ss nx False by (simp add: eligible_def)
    moreover have "turn_order (all_threads s'') (current s'') = ys @ xs @ [n]"
      unfolding ss s1(2,3) nx same(2) by (rule turn_order_step [OF d L(1)])
    then have "rank s'' t = length (takeWhile (\<lambda>x. x \<noteq> t) ys)" using ty by (simp add: rank_def takeWhile_append1)
    moreover have "takeWhile (\<lambda>x. x \<noteq> t) (xs @ n # ys) = xs @ n # takeWhile (\<lambda>x. x \<noteq> t) ys"
      using tx False by (subst takeWhile_append2) auto
    then have "rank s t = Suc (length xs + length (takeWhile (\<lambda>x. x \<noteq> t) ys))" by (simp add: rank_def L(1))
    ultimately show ?thesis using False ss s1(2) nx by simp
  qed
qed

lemma hands_over_progress:
  assumes "hands_over s (Some s')" "t \<in> set (all_threads s)" "t \<noteq> current s" "eligible s t"
  shows "current s' = t \<or> t \<noteq> current s' \<and> eligible s' t \<and> rank s' t < rank s t"
proof -
  obtain u s'' where u: "leaves s u" "scheduler_switch u = Some s''" "sched_view s' = sched_view s''"
    using assms(1) by (auto simp: hands_over_def)
  then show ?thesis using switch_progress [OF u(1,2) assms(2-4)] sched_view_cong(4,5,6) [OF u(3)] by (simp add: rank_def)
qed

lemma steps_fair:
  assumes "sched_steps s es s'" "sched_inv s" "t \<in> set (all_threads s)" "t \<noteq> current s" "eligible s t"
    and "rank s t < length (filter switches es)"
  shows "\<exists>es1 es2 s1. es = es1 @ es2 \<and> sched_steps s es1 s1 \<and> sched_steps s1 es2 s' \<and> current s1 = t"
  using assms
proof (induction rule: sched_steps.induct)
  case (more s e s1 es s')
  note inv = step_inv [OF more(1,4)]
  have found: "\<exists>es1 es2 x. e # es = es1 @ es2 \<and> sched_steps s es1 x \<and> sched_steps x es2 s' \<and> current x = t"
    if "es = as @ bs" "sched_steps s1 as x" "sched_steps x bs s'" "current x = t" for as bs x
    using that sched_steps.more [OF more(1)] by (metis append_Cons)
  show ?case
  proof (cases "current s1 = t")
    case True
    then show ?thesis using found [of "[]" es s1] more(2) by (auto intro: sched_steps.none)
  next
    case False
    have "eligible s1 t \<and> rank s1 t < length (filter switches es)"
    proof (cases "switches e")
      case True
      then have "hands_over s (Some s1)" using step_cases [OF more(1,4)] by simp
      from hands_over_progress [OF this more(5,6,7)] show ?thesis using False True more(8) by auto
    next
      case False
      then have "stays s s1" using step_cases [OF more(1,4)] by simp
      then show ?thesis using False more(7,8) by (simp add: stays_def rank_def)
    qed
    then show ?thesis using more(3) inv False more(5) found by metis
  qed
qed simp

end
