(* ===== verification/Scheduler_Sleep.thy ===== *)
theory Scheduler_Sleep
  imports Scheduler_Run
begin

text \<open>
  What happens to a thread that sleeps: a deadline is met by the tick that reaches it and by nothing
  else, and a thread in a wait queue is woken through that queue only, in order of arrival.
\<close>

section \<open>The state from which a switch is taken\<close>

fun prep :: "sched_event \<Rightarrow> 'a kernel_scheme \<Rightarrow> 'a kernel_scheme" where
  "prep Tick s = (let s = fold wake_due (all_threads s) (s\<lparr>tick_count := tick_count s + 1\<rparr>) in set_state (current s) THREAD_RUNNABLE s)"
| "prep (Sleep n) s = (if n = 0 then set_state (current s) THREAD_RUNNABLE s
     else set_state (current s) THREAD_SLEEPING (update_thread (current s) (\<lambda>th. th\<lparr>t_wake_tick := tick_count s + n\<rparr>) s))"
| "prep (Wait q) s = scheduler_block_current q s"
| "prep Exit s = set_state (current s) THREAD_DEAD s"
| "prep _ s = set_state (current s) THREAD_RUNNABLE s"

text \<open>The part of the state this theory is about.\<close>

definition view :: "'a kernel_scheme \<Rightarrow> ((u64 \<Rightarrow> thread) \<times> u64 list \<times> (u64 \<Rightarrow> u64 list) \<times> u64 \<times> u64) \<times> u64" where
  "view s = (sched_view s, tick_count s)"

lemma irq_view_tick [simp]: "view (snd (irq_save s)) = view s" "view (back_in t fl s) = view s"
  by (simp_all add: view_def sched_view_def irq_defs back_in_def)

lemma view_set_state: "view s = view t \<Longrightarrow> view (set_state x st s) = view (set_state x st t)"
  "view s = view t \<Longrightarrow> view (update_thread x f s) = view (update_thread x f t)"
  by (auto simp: view_def sched_view_def set_state_def update_thread_def)

lemma viewD: "view s = view t \<Longrightarrow> sched_view s = sched_view t" "view s = view t \<Longrightarrow> current s = current t"
  "view s = view t \<Longrightarrow> tick_count s = tick_count t"
  by (auto simp: view_def sched_view_def)

definition taken_from :: "'a kernel_scheme \<Rightarrow> 'a kernel_scheme \<Rightarrow> bool" where
  "taken_from u s' \<longleftrightarrow> (\<exists>(v :: 'a kernel_scheme) s''. view v = view u \<and> scheduler_switch v = Some s'' \<and> view s' = view s'')"

lemma taken_fromI:
  fixes u v :: "'a kernel_scheme"
  shows "view v = view u \<Longrightarrow> Option.bind (scheduler_switch v) (\<lambda>s. Some (back_in t fl s)) = Some s' \<Longrightarrow> taken_from u s'"
  by (auto simp: taken_from_def bind_eq_Some_conv)

lemma yield_taken:
  assumes "scheduler_yield s = Some s'" "sched_inv s"
  shows "taken_from (prep Yield s) s'"
proof -
  let ?u = "snd (irq_save s)"
  have v: "view ?u = view s" by simp
  have "state_of ?u (current ?u) = THREAD_RUNNING"
    using sched_invD(3) [OF assms(2)] viewD(2) [OF v] sched_view_cong(7) [OF viewD(1) [OF v]] by simp
  then have "Option.bind (scheduler_switch (set_state (current ?u) THREAD_RUNNABLE ?u)) (\<lambda>x. Some (back_in (current s) (fst (irq_save s)) x)) = Some s'"
    using assms(1) by (simp add: scheduler_yield_def Let_def case_prod_beta)
  moreover have "view (set_state (current ?u) THREAD_RUNNABLE ?u) = view (prep Yield s)"
    using view_set_state(1) [OF v] viewD(2) [OF v] by simp
  ultimately show ?thesis by (rule taken_fromI [rotated])
qed

lemma sleep_taken:
  assumes "scheduler_sleep n s = Some s'" "sched_inv s"
  shows "taken_from (prep (Sleep n) s) s'"
proof (cases "n = 0")
  case True
  then show ?thesis using yield_taken assms by (simp add: scheduler_sleep_def)
next
  case False
  let ?u = "snd (irq_save s)"
  let ?p = "set_state (current ?u) THREAD_SLEEPING (update_thread (current ?u) (\<lambda>th. th\<lparr>t_wake_tick := tick_count ?u + n\<rparr>) ?u)"
  have v: "view ?u = view s" by simp
  have "Option.bind (scheduler_switch ?p) (\<lambda>x. Some (back_in (current s) (fst (irq_save s)) x)) = Some s'"
    using assms(1) False by (simp add: scheduler_sleep_def Let_def case_prod_beta)
  moreover have "view ?p = view (prep (Sleep n) s)"
    using view_set_state(1) [OF view_set_state(2) [OF v]] viewD(2,3) [OF v] False by simp
  ultimately show ?thesis by (rule taken_fromI [rotated])
qed

lemma exit_taken:
  assumes "thread_exit s = Some s'"
  shows "taken_from (prep Exit s) s'"
proof -
  let ?u = "snd (irq_save s)"
  have v: "view ?u = view s" by simp
  have "view (set_state (current ?u) THREAD_DEAD ?u) = view (prep Exit s)" using view_set_state(1) [OF v] viewD(2) [OF v] by simp
  moreover have "scheduler_switch (set_state (current ?u) THREAD_DEAD ?u) = Some s'"
    using assms by (simp add: thread_exit_def case_prod_beta)
  ultimately show ?thesis by (auto simp: taken_from_def)
qed

lemma tick_taken:
  assumes "scheduler_tick s = Some s'" "sched_inv s"
  shows "taken_from (prep Tick s) s'"
proof -
  define a where "a = s\<lparr>tick_count := tick_count s + 1\<rparr>"
  define b where "b = fold wake_due (all_threads a) a"
  define c where "c = (if timer_running b then sbi_set_timer (time b + timer_interval b) b else b)"
  have v: "view c = view b" by (simp add: c_def sbi_set_timer_def view_def sched_view_def)
  have "sched_inv a" using assms(2) sched_view_cong(3) [of a s] by (simp add: sched_view_def a_def)
  then have "sched_inv b" unfolding b_def using fold_wake_due_stays by (auto simp: stays_def)
  then have "state_of c (current c) = THREAD_RUNNING"
    using sched_invD(3) [of b] viewD(2) [OF v] sched_view_cong(7) [OF viewD(1) [OF v]] by simp
  then have "scheduler_switch ((set_state (current c) THREAD_RUNNABLE c)\<lparr>preemption_count := preemption_count c + 1\<rparr>) = Some s'"
    using assms(1) unfolding scheduler_tick_def Let_def a_def [symmetric] b_def [symmetric] c_def [symmetric] by simp
  moreover have "view ((set_state (current c) THREAD_RUNNABLE c)\<lparr>preemption_count := preemption_count c + 1\<rparr>) = view (prep Tick s)"
    using view_set_state(1) [OF v] viewD(2) [OF v] by (simp add: b_def a_def view_def sched_view_def Let_def)
  ultimately show ?thesis unfolding taken_from_def by blast
qed

lemma step_taken:
  assumes "sched_step s e s'" "sched_inv s" "switches e"
  shows "taken_from (prep e s) s'"
  using assms
proof (cases rule: sched_step.cases)
  case (wait unlock q)
  have "view (unlock (scheduler_block_current q s)) = view (prep e s)" using wait by (simp add: view_def)
  then show ?thesis using wait(5) unfolding taken_from_def wait_queue_sleep_def by blast
qed (use assms yield_taken sleep_taken exit_taken tick_taken in \<open>auto simp del: prep.simps\<close>)

section \<open>Sleeping threads\<close>

lemma view_thread:
  assumes "view s = view t"
  shows "state_of s x = state_of t x" "t_wake_tick (threads s x) = t_wake_tick (threads t x)" "wait_queues s = wait_queues t"
    "tick_count s = tick_count t" "current s = current t" "eligible s x = eligible t x"
  using assms by (auto simp: view_def sched_view_def state_of_def eligible_def)

lemma prep_leaves:
  assumes "sched_inv s" "switches e" "t_idle (threads s (current s)) \<Longrightarrow> e = Tick \<or> e = Yield"
  shows "leaves s (prep e s)"
proof (cases e)
  case Tick
  define a where "a = s\<lparr>tick_count := tick_count s + 1\<rparr>"
  define b where "b = fold wake_due (all_threads a) a"
  have va: "sched_view a = sched_view s" by (simp add: a_def sched_view_def)
  then have ab: "stays a b" unfolding b_def using assms(1) sched_view_cong(3) by (intro fold_wake_due_stays) blast
  then have "leaves b (set_state (current b) THREAD_RUNNABLE b)" using leave_state [of b THREAD_RUNNABLE] by (simp add: stays_def)
  moreover have "stays s b" using ab stays_view(2) [OF va] by blast
  ultimately have "leaves s (set_state (current b) THREAD_RUNNABLE b)" unfolding leaves_def stays_def by auto
  then show ?thesis using Tick by (simp add: b_def a_def Let_def)
qed (use assms leave_state [OF assms(1)] leave_sleeping [OF assms(1)] leave_blocked [OF assms(1)] in auto)

text \<open>A switch leaves every sleeping thread as it was before the switch.\<close>

lemma switch_kept:
  fixes s u :: "'a kernel_scheme"
  assumes u: "leaves s u" and tk: "taken_from u s'"
  shows "wait_queues s' = wait_queues u" "tick_count s' = tick_count u" "t_wake_tick (threads s' t) = t_wake_tick (threads u t)"
    "state_of s' t = (if t = current s' then THREAD_RUNNING else state_of u t)" "state_of u t \<noteq> THREAD_RUNNABLE \<Longrightarrow> t \<noteq> current s'"
proof -
  obtain v s'' :: "'a kernel_scheme" where v: "view v = view u" "scheduler_switch v = Some s''" "view s' = view s''"
    using tk unfolding taken_from_def by blast
  note c = sched_view_cong [OF viewD(1) [OF v(1)]] and w = view_thread [OF v(1)] and x = view_thread [OF v(3)]
  have ok: "threads_ok v" "state_of v (current v) \<noteq> THREAD_RUNNING" using u c w unfolding leaves_def by auto
  have "state_of v (next_thread v) = THREAD_RUNNABLE"
    using next_thread_cases [OF ok(1)] ok by (auto simp: eligible_def threads_ok_def)
  then show "wait_queues s' = wait_queues u" "tick_count s' = tick_count u" "t_wake_tick (threads s' t) = t_wake_tick (threads u t)"
    "state_of s' t = (if t = current s' then THREAD_RUNNING else state_of u t)" "state_of u t \<noteq> THREAD_RUNNABLE \<Longrightarrow> t \<noteq> current s'"
    using switch_outcome [OF ok] v(2) w x by auto
qed

lemma wake_due_other: "x \<noteq> t \<Longrightarrow> threads (wake_due x s) t = threads s t" "tick_count (wake_due x s) = tick_count s" "wait_queues (wake_due x s) = wait_queues s"
  by (auto simp: wake_due_def set_state_def update_thread_def)

lemma wake_due_self:
  "threads (wake_due t s) t = (if state_of s t = THREAD_SLEEPING \<and> t_wake_tick (threads s t) \<noteq> 0 \<and> t_wake_tick (threads s t) \<le> tick_count s
     then threads s t \<lparr>t_wake_tick := 0, t_state := THREAD_RUNNABLE\<rparr> else threads s t)"
  by (simp add: wake_due_def set_state_def update_thread_def)

lemma fold_wake_due:
  "distinct ts \<Longrightarrow> threads (fold wake_due ts s) t = (if t \<in> set ts then threads (wake_due t s) t else threads s t) \<and>
    tick_count (fold wake_due ts s) = tick_count s \<and> wait_queues (fold wake_due ts s) = wait_queues s"
proof (induction ts arbitrary: s)
  case (Cons x ts)
  show ?case
  proof (cases "x = t")
    case True
    then show ?thesis using Cons by (simp add: wake_due_other)
  next
    case False
    have "threads (wake_due t (wake_due x s)) t = threads (wake_due t s) t"
      unfolding wake_due_self using False by (simp add: wake_due_other state_of_def)
    then show ?thesis using Cons False by (simp add: wake_due_other)
  qed
qed simp

lemma idle_step: "sched_step s e s' \<Longrightarrow> t_idle (threads s (current s)) \<Longrightarrow> switches e \<Longrightarrow> e = Tick \<or> e = Yield"
  by (auto elim: sched_step.cases)

definition asleep :: "'a kernel_scheme \<Rightarrow> u64 \<Rightarrow> u64 \<Rightarrow> bool" where
  "asleep s t d \<longleftrightarrow> state_of s t = THREAD_SLEEPING \<and> t_wake_tick (threads s t) = d \<and> d \<noteq> 0"

lemma wake_node_other: "x \<noteq> t \<Longrightarrow> threads (scheduler_wake_node x s) t = threads s t" "tick_count (scheduler_wake_node x s) = tick_count s"
  by (auto simp: scheduler_wake_node_def Let_def set_state_def update_thread_def)

lemma asleep_not_queued: "sched_inv s \<Longrightarrow> asleep s t d \<Longrightarrow> t \<notin> set (wait_queues s q)"
  by (auto simp: sched_inv_def queues_ok_def asleep_def)

lemma wake_one_other:
  assumes "sched_inv s" "asleep s t d"
  shows "asleep (snd (wait_queue_wake_one q s)) t d" "tick_count (snd (wait_queue_wake_one q s)) = tick_count s"
  using assms asleep_not_queued [OF assms, of q]
  by (auto simp: wait_queue_wake_one_def asleep_def state_of_def wake_node_other split: list.splits)

lemma wake_all_other:
  assumes "sched_inv s" "asleep s t d"
  shows "asleep (wait_queue_wake_all q s) t d \<and> tick_count (wait_queue_wake_all q s) = tick_count s"
  using assms
proof (induction q s rule: wait_queue_wake_all.induct)
  case (1 q s)
  note w = wake_one_other [OF 1(2,3), of q]
  have "sched_inv (snd (wait_queue_wake_one q s))" using wake_one_stays [OF 1(2)] by (simp add: stays_def)
  then show ?case using 1(1) [OF refl prod.collapse] w by (subst (1 2) wait_queue_wake_all.simps) (simp add: case_prod_beta)
qed

lemma asleep_step:
  assumes st: "sched_step s e s'" "sched_inv s" "asleep s t d" "e \<noteq> Tick"
  shows "asleep s' t d \<and> tick_count s' = tick_count s"
proof (cases "switches e")
  case True
  have l: "leaves s (prep e s)" using prep_leaves [OF st(2) True] idle_step [OF st(1)] True by blast
  have "t \<noteq> current s" using st(2,3) by (auto simp: sched_inv_def asleep_def)
  then have "asleep (prep e s) t d" "tick_count (prep e s) = tick_count s"
    using st(3,4) True by (cases e; simp add: asleep_def scheduler_block_current_def state_of_def Let_def set_state_def update_thread_def)+
  then show ?thesis using switch_kept [OF l step_taken [OF st(1,2) True]] by (simp add: asleep_def)
next
  case False
  then show ?thesis using st wake_one_other [OF st(2,3)] wake_all_other [OF st(2,3)] by (auto elim!: sched_step.cases)
qed

lemma prep_tick:
  assumes "sched_inv s" "t \<in> set (all_threads s)" "t \<noteq> current s"
  shows "tick_count (prep Tick s) = tick_count s + 1"
    "threads (prep Tick s) t = threads (wake_due t (s\<lparr>tick_count := tick_count s + 1\<rparr>)) t"
proof -
  have d: "distinct (all_threads s)" using assms(1) by (simp add: sched_inv_def threads_ok_def)
  have "current (fold wake_due ts u) = current u" for ts and u :: "'a kernel_scheme"
    by (induction ts arbitrary: u) (simp_all add: wake_due_def)
  then show "tick_count (prep Tick s) = tick_count s + 1"
    "threads (prep Tick s) t = threads (wake_due t (s\<lparr>tick_count := tick_count s + 1\<rparr>)) t"
    using fold_wake_due [OF d, of "s\<lparr>tick_count := tick_count s + 1\<rparr>" t] assms(2,3) by (simp_all add: Let_def set_state_def)
qed

lemma tick_step:
  assumes st: "sched_step s Tick s'" "sched_inv s" "asleep s t d" "t \<in> set (all_threads s)"
  shows "tick_count s' = tick_count s + 1" "tick_count s + 1 < d \<Longrightarrow> asleep s' t d"
    "d \<le> tick_count s + 1 \<Longrightarrow> state_of s' t \<in> {THREAD_RUNNABLE, THREAD_RUNNING}"
proof -
  have l: "leaves s (prep Tick s)" by (rule prep_leaves [OF st(2)]) auto
  have "t \<noteq> current s" using st(2,3) by (auto simp: sched_inv_def asleep_def)
  note p = prep_tick [OF st(2,4) this] and k = switch_kept [OF l step_taken [OF st(1,2)], simplified]
  let ?a = "s\<lparr>tick_count := tick_count s + 1\<rparr>"
  have a: "state_of ?a t = THREAD_SLEEPING" "t_wake_tick (threads ?a t) = d" "d \<noteq> 0" using st(3) by (simp_all add: asleep_def state_of_def)
  show "tick_count s' = tick_count s + 1" using k p(1) by simp
  show "asleep s' t d" if "tick_count s + 1 < d"
  proof -
    have "threads (prep Tick s) t = threads s t" unfolding p(2) wake_due_self using that a by auto
    then show ?thesis using k(3) [of t] k(4) [of t] k(5) [of t] st(3) by (simp add: asleep_def state_of_def)
  qed
  show "state_of s' t \<in> {THREAD_RUNNABLE, THREAD_RUNNING}" if "d \<le> tick_count s + 1"
  proof -
    have "t_state (threads (prep Tick s) t) = THREAD_RUNNABLE" unfolding p(2) wake_due_self using that a by auto
    then show ?thesis using k(4) [of t] by (simp add: state_of_def)
  qed
qed

lemma asleep_steps:
  assumes "sched_steps s es s'" "sched_inv s" "asleep s t d" "t \<in> set (all_threads s)" "unat (tick_count s) + length (filter (\<lambda>e. e = Tick) es) < unat d"
  shows "asleep s' t d \<and> unat (tick_count s') = unat (tick_count s) + length (filter (\<lambda>e. e = Tick) es)"
  using assms
proof (induction rule: sched_steps.induct)
  case (more s e s1 es s')
  note inv = step_inv [OF more(1,4)]
  show ?case
  proof (cases "e = Tick")
    case False
    then show ?thesis using asleep_step [OF more(1,4,5) False] more(3) inv more(6,7) by simp
  next
    case True
    have "unat (tick_count s) + 1 < unat d" using more(7) True by simp
    moreover have "unat (tick_count s + 1) = unat (tick_count s) + 1"
      using calculation unat_u64 [of d] by (simp add: unat_word_ariths)
    ultimately show ?thesis
      using tick_step [of s s1 t d] more(1,4,5,6,7) True more(3) inv by (simp add: word_less_nat_alt)
  qed
qed simp

section \<open>Waiting threads\<close>

fun wakes :: "sched_event \<Rightarrow> u64 \<Rightarrow> bool" where
  "wakes (Wake_one r) q \<longleftrightarrow> r = q"
| "wakes (Wake_all r) q \<longleftrightarrow> r = q"
| "wakes _ q \<longleftrightarrow> False"

lemma wake_one_queue:
  assumes "sched_inv s"
  shows "wait_queues (snd (wait_queue_wake_one r s)) q = (if q = r then tl (wait_queues s q) else wait_queues s q)"
proof (cases "wait_queues s r")
  case (Cons h rest)
  have q: "queues_ok s" by (rule sched_invD(2) [OF assms])
  have "h \<notin> set rest" using q Cons by (auto simp: queues_ok_def dest: spec [of _ r])
  moreover have "h \<notin> set (wait_queues s q)" if "q \<noteq> r"
  proof -
    have "set (wait_queues s q) \<inter> set (wait_queues s r) = {}" using q that by (simp add: queues_ok_def)
    then show ?thesis using Cons by auto
  qed
  ultimately show ?thesis using Cons by (auto simp: wait_queue_wake_one_def wait_queues_wake_node)
qed (auto simp: wait_queue_wake_one_def)

lemma wake_all_queue:
  assumes "sched_inv s"
  shows "wait_queues (wait_queue_wake_all r s) q = (if q = r then [] else wait_queues s q)"
  using assms
proof (induction r s rule: wait_queue_wake_all.induct)
  case (1 r s)
  have i: "sched_inv (snd (wait_queue_wake_one r s))" using wake_one_stays [OF 1(2)] by (simp add: stays_def)
  show ?case
  proof (cases "fst (wait_queue_wake_one r s)")
    case True
    then show ?thesis using 1(1) [OF refl prod.collapse] i wake_one_queue [OF 1(2), of r q]
      by (subst wait_queue_wake_all.simps) (simp add: case_prod_beta)
  next
    case False
    then have "wait_queues s r = []" "snd (wait_queue_wake_one r s) = s" by (auto simp: wait_queue_wake_one_def split: list.splits)
    then show ?thesis using False by (subst wait_queue_wake_all.simps) (simp add: case_prod_beta)
  qed
qed

lemma queue_step:
  assumes st: "sched_step s e s'" "sched_inv s" "\<not> wakes e q"
  shows "\<exists>as. wait_queues s' q = wait_queues s q @ as"
proof (cases "switches e")
  case True
  have l: "leaves s (prep e s)" using prep_leaves [OF st(2) True] idle_step [OF st(1)] True by blast
  have d: "distinct (all_threads s)" using st(2) by (simp add: sched_inv_def threads_ok_def)
  have "\<exists>as. wait_queues (prep e s) q = wait_queues s q @ as"
    using True fold_wake_due [OF d, of "s\<lparr>tick_count := tick_count s + 1\<rparr>"]
    by (cases e) (auto simp: scheduler_block_current_def Let_def)
  then show ?thesis using switch_kept(1) [OF l step_taken [OF st(1,2) True]] by simp
next
  case False
  then show ?thesis using st wake_one_queue [OF st(2)] wake_all_queue [OF st(2)] by (auto elim!: sched_step.cases)
qed

lemma queue_steps:
  assumes "sched_steps s es s'" "sched_inv s" "\<forall>e\<in>set es. \<not> wakes e q"
  shows "\<exists>as. wait_queues s' q = wait_queues s q @ as"
  using assms
proof (induction rule: sched_steps.induct)
  case (more s e s1 es s')
  obtain as where "wait_queues s1 q = wait_queues s q @ as" using queue_step [OF more(1,4)] more(5) by auto
  moreover obtain bs where "wait_queues s' q = wait_queues s1 q @ bs" using more(3) step_inv [OF more(1,4)] more(5) by auto
  ultimately show ?case by simp
qed simp

end
