(* ===== verification/Thread_Create.thy ===== *)
theory Thread_Create
  imports Heap_Frame Scheduler_Sleep
begin

text \<open>
  Creating threads: the thread object comes from the kernel heap, its stack from the page allocator,
  and the scheduler's invariant holds for the longer list of threads.
\<close>

lemma heap_only_kernel:
  assumes "heap_only s s'"
  shows "view s' = view s" "threads s' = threads s" "all_threads s' = all_threads s" "wait_queues s' = wait_queues s" "current s' = current s"
    "idle_thread s' = idle_thread s" "spaces s' = spaces s" "tick_count s' = tick_count s" "heap_classes s' = heap_classes s"
  using assms by (auto simp: heap_only_def view_def sched_view_def)

section \<open>create_thread\<close>

lemma agree_write_words: "agree (span a (8 * length ws)) m (write_words m a ws)"
proof (induction ws arbitrary: m a)
  case (Cons w ws)
  have "span a 8 \<subseteq> span a (8 * length (w # ws))" "span (a + of_nat 8) (8 * length ws) \<subseteq> span a (8 * length (w # ws))"
    using span_mono [of 0 8 "8 * length (w # ws)" a] span_mono [of 8 "8 * length ws" "8 * length (w # ws)" a] by simp_all
  then show ?case using agree_steps [OF agree_mono [OF agree_writes(1) [of a m w]] agree_mono [OF Cons.IH [of "a + of_nat 8" "write64 m a w"]]] by simp
qed (simp add: agree_refl)

text \<open>The thread object: one of the 256-byte class.\<close>

lemma thread_object_size: "object_size thread_size = 256" "thread_size \<le> 2048"
  by (simp_all add: object_size_def thread_size_def class_sizes_def)

definition new_thread :: "code_symbols \<Rightarrow> string \<Rightarrow> u64 \<Rightarrow> u64 \<Rightarrow> bool \<Rightarrow> u64 \<Rightarrow> u64 \<Rightarrow> thread" where
  "new_thread syms name entry argument idle process stack =
     (let sp = phys_to_virt stack + PAGE_SIZE;
          frame = sp - of_nat trap_frame_size;
          th = zero_thread\<lparr>t_state := THREAD_RUNNABLE, t_entry := entry, t_argument := argument,
               t_stack_page := stack, t_name := name, t_idle := idle, t_process := process,
               t_context := zero_context\<lparr>ctx_ra := sym_thread_trampoline syms, ctx_sp := sp\<rparr>\<rparr>
      in if process \<noteq> 0 then th\<lparr>t_user_frame := frame,
           t_context := zero_context\<lparr>ctx_ra := sym_user_thread_enter syms, ctx_sp := frame\<rparr>\<rparr> else th)"

definition frame_mem :: "u64 \<Rightarrow> u64 \<Rightarrow> trap_frame \<Rightarrow> mem \<Rightarrow> mem" where
  "frame_mem process stack initial m =
     (if process \<noteq> 0 then write_words m (phys_to_virt stack + PAGE_SIZE - of_nat trap_frame_size) (frame_words (initial\<lparr>frame_sstatus := SSTATUS_SPIE\<rparr>)) else m)"

lemma create_thread_eq:
  "create_thread syms name entry argument idle process initial s = Option.bind (kmalloc thread_size s) (\<lambda>(thread, s).
     if thread = 0 then Some (False, s)
     else case page_alloc s of (stack, s) \<Rightarrow>
       if stack = 0 then Option.bind (kfree thread s) (\<lambda>s. Some (False, s))
       else let s = s\<lparr>kmem := frame_mem process stack initial (kmem s),
                threads := (threads s)(thread := new_thread syms name entry argument idle process stack), all_threads := all_threads s @ [thread]\<rparr>
         in Some (True, if idle then s\<lparr>idle_thread := thread\<rparr> else s))"
  by (cases "kmalloc thread_size s") (auto simp: create_thread_def new_thread_def frame_mem_def Let_def split: prod.splits)

lemma frame_mem_agree:
  assumes "valid_page p" "length (frame_x initial) = 32"
  shows "agree (span (phys_to_virt p) 4096) m (frame_mem process p initial m)"
proof -
  let ?ws = "frame_words (initial\<lparr>frame_sstatus := SSTATUS_SPIE\<rparr>)"
  have len: "8 * length ?ws = 288" using assms(2) by (simp add: frame_words_def)
  have a: "phys_to_virt p + PAGE_SIZE - of_nat trap_frame_size = phys_to_virt p + of_nat 3808"
    by (simp add: PAGE_SIZE_def trap_frame_size_def)
  have "agree (span (phys_to_virt p + of_nat 3808) 288) m (write_words m (phys_to_virt p + of_nat 3808) ?ws)"
    using agree_write_words [of "phys_to_virt p + of_nat 3808" ?ws m] len by simp
  then have "agree (span (phys_to_virt p) 4096) m (write_words m (phys_to_virt p + of_nat 3808) ?ws)"
    by (rule agree_mono) (rule span_mono, simp)
  then show ?thesis unfolding frame_mem_def a by (simp add: agree_refl)
qed

text \<open>
  The outcome of creating a thread on a heap with pool \<open>P\<close> and live objects \<open>L\<close>: nothing is left behind
  on failure; on success one object and one page are taken and the thread is last in the list.
\<close>

definition thread_made :: "'a kernel_scheme \<Rightarrow> u64 set \<Rightarrow> (u64 \<times> nat) set \<Rightarrow> thread \<Rightarrow> u64 \<Rightarrow> u64 \<Rightarrow> bool \<Rightarrow> 'a kernel_scheme \<Rightarrow> bool" where
  "thread_made s P L th t p idle s' \<longleftrightarrow> p \<in> P \<and> heap_rep s' (P - {p}) (insert (t, 256) L) \<and> (t, 256) \<notin> L \<and> t \<noteq> 0 \<and>
     (\<exists>q\<in>P. t \<in> span (phys_to_virt q) 4096) \<and> (\<forall>(a, k)\<in>L. t \<notin> span a k) \<and>
     threads s' = (threads s)(t := th) \<and> all_threads s' = all_threads s @ [t] \<and> wait_queues s' = wait_queues s \<and>
     current s' = current s \<and> idle_thread s' = (if idle then t else idle_thread s) \<and> sstatus s' = sstatus s \<and> tick_count s' = tick_count s"

lemma create_thread_ok:
  assumes rep: "heap_rep s P L" and frame: "length (frame_x initial) = 32"
  shows "(\<exists>s'. create_thread syms name entry argument idle process initial s = Some (False, s') \<and> heap_rep s' P L \<and> view s' = view s \<and> sstatus s' = sstatus s \<and> free_pages s \<le> 1) \<or>
    (\<exists>s' t p. create_thread syms name entry argument idle process initial s = Some (True, s') \<and>
       thread_made s P L (new_thread syms name entry argument idle process p) t p idle s')"
proof -
  obtain t s1 where k: "kmalloc thread_size s = Some (t, s1)" "if t = 0 then s1 = s \<and> free_pages s = 0 else allocated s P L 256 t s1"
    using kmalloc_ok [OF rep, of thread_size] thread_object_size by (auto simp: thread_size_def allocated_def)
  show ?thesis
  proof (cases "t = 0")
    case True
    then show ?thesis using k rep by (simp add: create_thread_eq)
  next
    case t0: False
    then have al: "allocated s P L 256 t s1" using k(2) by simp
    have rep1: "heap_rep s1 P (insert (t, 256) L)" and fresh: "(t, 256) \<notin> L" and st1: "sstatus s1 = sstatus s"
      using al allocated_fresh [OF al] by (simp_all add: allocated_def)
    note v1 = heap_only_kernel [OF heap_only_kmalloc [OF k(1)]]
    have "free_pages s \<le> 1" if "free_pages s1 = 0" using kmalloc_pages [OF k(1)] that by auto
    then consider "page_alloc s1 = (0, s1)" "free_pages s \<le> 1"
      | p s2 where "page_alloc s1 = (p, s2)" "p \<in> P" "valid_page p" "p \<noteq> 0" "heap_rep s2 (P - {p}) (insert (t, 256) L)" "kmem s2 = kmem s1" "sstatus s2 = sstatus s1"
      using heap_rep_page_alloc [OF rep1] by blast
    then show ?thesis
    proof cases
      case 1
      obtain s3 where s3: "kfree t s1 = Some s3" "released s1 P (insert (t, 256) L - {(t, 256)}) s3" using kfree_ok [OF rep1, of t 256] by auto
      moreover have "insert (t, 256) L - {(t, 256)} = L" using fresh by simp
      ultimately show ?thesis using k(1) t0 1(1,2) heap_only_kernel(1) [OF heap_only_kfree [OF s3(1)]] v1(1) st1
        by (simp add: create_thread_eq released_def)
    next
      case (2 p s2)
      note v2 = heap_only_kernel [OF heap_only_page_alloc [of s1], unfolded 2(1) snd_conv]
      define m where "m = frame_mem process p initial (kmem s2)"
      let ?s = "s2\<lparr>kmem := m, threads := (threads s2)(t := new_thread syms name entry argument idle process p), all_threads := all_threads s2 @ [t]\<rparr>"
      let ?f = "if idle then ?s\<lparr>idle_thread := t\<rparr> else ?s"
      have run: "create_thread syms name entry argument idle process initial s = Some (True, ?f)"
        using k(1) t0 2(1,4) by (simp add: create_thread_eq m_def)
      have ps: "p \<in> P" "valid_page p" "span (heap_classes s2) 128 \<inter> span (phys_to_virt p) 4096 = {}"
        "\<And>q. q \<in> P - {p} \<Longrightarrow> span (phys_to_virt q) 4096 \<inter> span (phys_to_virt p) 4096 = {}"
        using heap_rep_pages [OF rep1] 2(2,3) v2(9) pages_apart [of _ p] by auto
      have "heap_rep (s2\<lparr>kmem := m\<rparr>) (P - {p}) (insert (t, 256) L)"
        by (rule heap_rep_store [OF 2(5) frame_mem_agree [OF ps(2) frame, of "kmem s2" process, folded m_def]]) (use ps in auto)
      moreover have "heap_rep ?f (P - {p}) (insert (t, 256) L) = heap_rep (s2\<lparr>kmem := m\<rparr>) (P - {p}) (insert (t, 256) L)"
        by (rule heap_rep_cong) simp_all
      moreover have "t \<in> span t 256" using heap_rep_inside(2) [OF rep1, of t 256] by simp
      moreover have "\<exists>q\<in>P. t \<in> span (phys_to_virt q) 4096" using heap_rep_inside(1) [OF rep1, of t 256] calculation(3) by auto
      moreover have "\<forall>(a, k)\<in>L. t \<notin> span a k" using al calculation(3) by (fastforce simp: allocated_def)
      ultimately have "thread_made s P L (new_thread syms name entry argument idle process p) t p idle ?f"
        unfolding thread_made_def using 2(2,7) t0 fresh st1 v1 v2 by auto
      then show ?thesis using run by blast
    qed
  qed
qed

end
