(* ===== verification/Threads.thy ===== *)
theory Threads
  imports Thread_Create
begin

text \<open>
  The properties of the scheduler: the choice of the next thread, the invariant along every run,
  fairness, deadlines, wait queues, and the creation of threads on the kernel heap.
\<close>

section \<open>Threads on the heap\<close>

text \<open>Every thread but the static bootstrap thread \<open>b\<close> is a live heap object; \<open>b\<close> lies outside the heap's pages.\<close>

definition threads_live :: "'a kernel_scheme \<Rightarrow> u64 set \<Rightarrow> (u64 \<times> nat) set \<Rightarrow> u64 \<Rightarrow> bool" where
  "threads_live s P L b \<longleftrightarrow> heap_rep s P L \<and> sched_inv s \<and> (\<forall>t\<in>set (all_threads s). t = b \<or> (t, 256) \<in> L) \<and>
     (\<forall>p\<in>P. b \<notin> span (phys_to_virt p) 4096)"

lemma new_thread_fields:
  "t_state (new_thread syms name entry argument idle process p) = THREAD_RUNNABLE" "t_idle (new_thread syms name entry argument idle process p) = idle"
  "t_wake_tick (new_thread syms name entry argument idle process p) = 0" "t_process (new_thread syms name entry argument idle process p) = process"
  "t_entry (new_thread syms name entry argument idle process p) = entry" "t_argument (new_thread syms name entry argument idle process p) = argument"
  "t_stack_page (new_thread syms name entry argument idle process p) = p"
  by (simp_all add: new_thread_def zero_thread_def Let_def)

lemma made_inv:
  assumes live: "threads_live s P L b" and made: "thread_made s P L (new_thread syms name entry argument False process p) t p False s'"
  shows "threads_live s' (P - {p}) (insert (t, 256) L) b"
proof -
  let ?th = "new_thread syms name entry argument False process p"
  have inv: "sched_inv s" using live by (simp add: threads_live_def)
  note ok = sched_invD [OF inv]
  have m: "threads s' = (threads s)(t := ?th)" "all_threads s' = all_threads s @ [t]" "wait_queues s' = wait_queues s" "current s' = current s"
    "idle_thread s' = idle_thread s" "t \<noteq> 0" "heap_rep s' (P - {p}) (insert (t, 256) L)" using made by (simp_all add: thread_made_def)
  have new: "t \<notin> set (all_threads s)" using live made by (auto simp: threads_live_def thread_made_def)
  have st: "state_of s' x = (if x = t then THREAD_RUNNABLE else state_of s x)" for x
    using m(1) new_thread_fields(1) by (simp add: state_of_def)
  have cur: "current s \<noteq> t" "idle_thread s \<noteq> t" using ok(1) new by (auto simp: threads_ok_def)
  have "threads_ok s'" using ok(1) new cur m(6) new_thread_fields(2,3) [of syms name entry argument False process p]
    unfolding threads_ok_def m(1-5) st by auto
  moreover have "x \<noteq> t" if "x \<in> set (wait_queues s q)" for x q using ok(2) new that by (auto simp: queues_ok_def)
  then have "queues_ok s'" using ok(2) unfolding queues_ok_def m(1-3) st by auto
  ultimately have "sched_inv s'" using ok(3) cur(1) m(4) st by (simp add: sched_inv_def)
  then show ?thesis using live m(2,7) by (auto simp: threads_live_def)
qed

lemma irq_save_live: "threads_live (snd (irq_save s)) P L b = threads_live s P L b" "threads_live (irq_restore fl s) P L b = threads_live s P L b"
proof -
  have r: "heap_rep (snd (irq_save s)) P L = heap_rep s P L" "heap_rep (irq_restore fl s) P L = heap_rep s P L"
    by (rule heap_rep_cong; simp add: irq_defs)+
  show "threads_live (snd (irq_save s)) P L b = threads_live s P L b" "threads_live (irq_restore fl s) P L b = threads_live s P L b"
    unfolding threads_live_def r sched_view_cong(3,6) [OF irq_view(1)] sched_view_cong(3,6) [OF irq_view(2)] by simp_all
qed

lemma create_live:
  assumes live: "threads_live s P L b" and frame: "length (frame_x initial) = 32"
  shows "(\<exists>s'. create_thread syms name entry argument False process initial s = Some (False, s') \<and> threads_live s' P L b \<and>
      all_threads s' = all_threads s \<and> sstatus s' = sstatus s \<and> free_pages s \<le> 1) \<or>
    (\<exists>s' t p. create_thread syms name entry argument False process initial s = Some (True, s') \<and> p \<in> P \<and> threads_live s' (P - {p}) (insert (t, 256) L) b \<and>
      all_threads s' = all_threads s @ [t] \<and> threads s' = (threads s)(t := new_thread syms name entry argument False process p) \<and> sstatus s' = sstatus s)"
proof -
  have rep: "heap_rep s P L" using live by (simp add: threads_live_def)
  consider s' where "create_thread syms name entry argument False process initial s = Some (False, s')" "heap_rep s' P L" "view s' = view s" "sstatus s' = sstatus s" "free_pages s \<le> 1"
    | s' t p where "create_thread syms name entry argument False process initial s = Some (True, s')"
       "thread_made s P L (new_thread syms name entry argument False process p) t p False s'"
    using create_thread_ok [OF rep frame, of syms name entry argument False process] by blast
  then show ?thesis
  proof cases
    case (1 s')
    have "sched_inv s' = sched_inv s" "all_threads s' = all_threads s" using sched_view_cong(3,6) [OF viewD(1) [OF 1(3)]] by auto
    then show ?thesis using 1 live by (auto simp: threads_live_def)
  next
    case (2 s' t p)
    then show ?thesis using made_inv [OF live 2(2)] by (auto simp: thread_made_def)
  qed
qed

lemma zero_frame_ok: "length (frame_x zero_frame) = 32"
  by (simp add: zero_frame_def)

lemma thread_create_live:
  assumes live: "threads_live s P L b" and entry: "entry \<noteq> 0"
  shows "(\<exists>s'. thread_create syms name entry argument s = Some (False, s') \<and> threads_live s' P L b \<and> all_threads s' = all_threads s \<and> free_pages s \<le> 1) \<or>
    (\<exists>s' t p. thread_create syms name entry argument s = Some (True, s') \<and> p \<in> P \<and> threads_live s' (P - {p}) (insert (t, 256) L) b \<and>
      all_threads s' = all_threads s @ [t] \<and> threads s' = (threads s)(t := new_thread syms name entry argument False 0 p))"
proof -
  let ?u = "snd (irq_save s)"
  have "threads_live ?u P L b" using live by (simp add: irq_save_live)
  have same: "all_threads ?u = all_threads s" "threads ?u = threads s" "free_pages ?u = free_pages s" by (simp_all add: irq_defs)
  have r: "all_threads (irq_restore fl x) = all_threads x" "threads (irq_restore fl x) = threads x" for fl and x :: "'a kernel_scheme" by (simp_all add: irq_defs)
  show ?thesis
    using create_live [OF \<open>threads_live ?u P L b\<close> zero_frame_ok, of syms name entry argument 0] entry
    unfolding thread_create_def by (auto simp: case_prod_beta irq_save_live same r)
qed

text \<open>The state \<open>scheduler_init\<close> prepares before it creates the idle thread.\<close>

definition booted :: "code_symbols \<Rightarrow> u64 \<Rightarrow> page_table \<Rightarrow> 'a kernel_scheme \<Rightarrow> 'a kernel_scheme" where
  "booted syms timebase table s = s\<lparr>kernel_page_table := table,
     threads := (threads s)(sym_bootstrap syms := zero_thread\<lparr>t_state := THREAD_RUNNING, t_name := ''bootstrap''\<rparr>),
     current := sym_bootstrap syms, all_threads := [sym_bootstrap syms], tick_count := 0, preemption_count := 0,
     timer_interval := (if timebase div 200 = 0 then 1 else timebase div 200)\<rparr>"

lemma scheduler_init_live:
  assumes rep: "heap_rep s P L" and b: "sym_bootstrap syms \<noteq> 0" "\<And>p. p \<in> P \<Longrightarrow> sym_bootstrap syms \<notin> span (phys_to_virt p) 4096"
    and q: "\<And>q. wait_queues s q = []" and root: "root table \<noteq> 0"
  shows "(\<exists>s'. scheduler_init syms timebase (Some table) s = Some (False, s') \<and> free_pages s \<le> 1) \<or>
    (\<exists>s' t p. scheduler_init syms timebase (Some table) s = Some (True, s') \<and> p \<in> P \<and> threads_live s' (P - {p}) (insert (t, 256) L) (sym_bootstrap syms) \<and>
      all_threads s' = [sym_bootstrap syms, t] \<and> idle_thread s' = t \<and> current s' = sym_bootstrap syms \<and> irq_enabled s' \<and> timer_running s')"
proof -
  let ?b = "sym_bootstrap syms"
  let ?u = "booted syms timebase table s"
  have u: "wait_queues ?u = wait_queues s" "all_threads ?u = [?b]" "current ?u = ?b"
    "threads ?u ?b = zero_thread\<lparr>t_state := THREAD_RUNNING, t_name := ''bootstrap''\<rparr>" by (simp_all add: booted_def)
  have "heap_rep ?u P L = heap_rep s P L" by (rule heap_rep_cong) (simp_all add: booted_def)
  then have repu: "heap_rep ?u P L" using rep by simp
  have init: "scheduler_init syms timebase (Some table) s = Option.bind (create_thread syms ''idle'' (sym_idle_main syms) 0 True 0 zero_frame ?u)
      (\<lambda>(ok, s). if \<not> ok then Some (False, s) else Some (True, csr_set_sstatus SSTATUS_SIE (csr_set_sie SIE_STIE (sbi_set_timer (time s + timer_interval s) (s\<lparr>timer_running := True\<rparr>)))))"
    using root by (simp add: scheduler_init_def booted_def Let_def sbi_set_timer_def cong: if_cong)
  consider s' where "create_thread syms ''idle'' (sym_idle_main syms) 0 True 0 zero_frame ?u = Some (False, s')" "free_pages ?u \<le> 1"
    | s' t p where "create_thread syms ''idle'' (sym_idle_main syms) 0 True 0 zero_frame ?u = Some (True, s')"
       "thread_made ?u P L (new_thread syms ''idle'' (sym_idle_main syms) 0 True 0 p) t p True s'"
    using create_thread_ok [OF repu zero_frame_ok, of syms "''idle''" "sym_idle_main syms" 0 True 0] by blast
  then show ?thesis
  proof cases
    case 1
    then show ?thesis using init by (simp add: booted_def)
  next
    case (2 s' t p)
    let ?th = "new_thread syms ''idle'' (sym_idle_main syms) 0 True 0 p"
    have m: "threads s' = (threads ?u)(t := ?th)" "all_threads s' = [?b, t]" "wait_queues s' = wait_queues s" "current s' = ?b"
      "idle_thread s' = t" "t \<noteq> 0" "heap_rep s' (P - {p}) (insert (t, 256) L)" "p \<in> P" using 2(2) u by (simp_all add: thread_made_def)
    obtain r where "r \<in> P" "t \<in> span (phys_to_virt r) 4096" using 2(2) by (auto simp: thread_made_def)
    then have tb: "t \<noteq> ?b" using b(2) by auto
    have "threads_ok s'" using tb m(6) b(1) new_thread_fields [of syms "''idle''" "sym_idle_main syms" 0 True 0 p]
      unfolding threads_ok_def m(1-5) state_of_def by (simp add: u(4) zero_thread_def)
    moreover have "queues_ok s'" unfolding queues_ok_def m(3) q by simp
    ultimately have "sched_inv s'" unfolding sched_inv_def state_of_def m(1,4) using tb by (simp add: u(4))
    then have "threads_live s' (P - {p}) (insert (t, 256) L) ?b" using m(2,7) b(2) by (auto simp: threads_live_def)
    moreover define f where "f = csr_set_sstatus SSTATUS_SIE (csr_set_sie SIE_STIE (sbi_set_timer (time s' + timer_interval s') (s'\<lparr>timer_running := True\<rparr>)))"
    have "sched_view f = sched_view s'" "heap_rep f (P - {p}) (insert (t, 256) L) = heap_rep s' (P - {p}) (insert (t, 256) L)" "timer_running f"
      using heap_rep_cong [of f s'] by (simp_all add: f_def csr_set_sstatus_def csr_set_sie_def sbi_set_timer_def sched_view_def)
    moreover have "irq_enabled f"
      by (simp add: f_def csr_set_sstatus_def csr_set_sie_def sbi_set_timer_def irq_enabled_def and_SIE_eq_0_iff) (simp add: SSTATUS_SIE_def bit_simps)
    ultimately have "threads_live f (P - {p}) (insert (t, 256) L) ?b \<and> all_threads f = [?b, t] \<and> idle_thread f = t \<and> current f = ?b \<and> irq_enabled f \<and> timer_running f"
      using sched_view_cong(3) [of f s'] m by (simp add: threads_live_def sched_view_def)
    moreover have "scheduler_init syms timebase (Some table) s = Some (True, f)" using init 2(1) by (simp add: f_def)
    ultimately show ?thesis using m(8) by blast
  qed
qed

section \<open>A kernel with three threads\<close>

text \<open>The running thread, a runnable one and the idle thread, after an arbitrary history.\<close>

definition demo_thread :: "thread_state \<Rightarrow> bool \<Rightarrow> thread" where
  "demo_thread st idle = zero_thread\<lparr>t_state := st, t_idle := idle\<rparr>"

definition demo_kernel :: kernel where
  "demo_kernel = \<lparr>sstatus = SSTATUS_SIE, kmem = \<lambda>_. 0, free_list = 0, free_pages = 0, total_pages = 0, heap_lock = 0, heap_classes = 0,
     registers = zero_context, satp = 0, sie = 0, time = 0, timer_deadline = 0,
     threads = (\<lambda>t. if t = 0x1000 then demo_thread THREAD_RUNNING False else if t = 0x2000 then demo_thread THREAD_RUNNABLE False
        else demo_thread THREAD_RUNNABLE True),
     all_threads = [0x1000, 0x3000, 0x2000], wait_queues = \<lambda>_. [], current = 0x1000, idle_thread = 0x3000, tick_count = 7,
     preemption_count = 0, timer_interval = 1, timer_running = True, kernel_page_table = \<lparr>root = 0x1000\<rparr>,
     spaces = \<lambda>_. \<lparr>as_table = \<lparr>root = 0\<rparr>, as_pages = [], as_areas = [], brk_base = 0, brk_end = 0\<rparr>\<rparr>"

lemma demo_inv: "sched_inv demo_kernel"
  by (simp add: sched_defs demo_kernel_def demo_thread_def state_of_def zero_thread_def)

lemma demo_facts:
  "current demo_kernel = 0x1000" "all_threads demo_kernel = [0x1000, 0x3000, 0x2000]" "eligible demo_kernel 0x2000" "\<not> t_idle (threads demo_kernel 0x1000)"
  "tick_count demo_kernel = 7"
  by (simp_all add: demo_kernel_def demo_thread_def eligible_def state_of_def zero_thread_def)

lemma tick_exists: "sched_inv s \<Longrightarrow> \<exists>s'. sched_step s Tick s' \<and> sched_inv s'"
  using hands_over_inv [OF tick_hands_over, of s] by (auto intro: sched_step.tick)

lemma ticks_exist: "sched_inv s \<Longrightarrow> \<exists>s'. sched_steps s (replicate n Tick) s' \<and> sched_inv s'"
proof (induction n arbitrary: s)
  case (Suc n)
  obtain u where "sched_step s Tick u" "sched_inv u" using tick_exists [OF Suc(2)] by blast
  then show ?case using Suc(1) sched_steps.more by (metis replicate_Suc)
qed (auto intro: sched_steps.none)

section \<open>Properties of the scheduler\<close>

text \<open>C23. The scan of the circular list of threads in pick_next ends, and it chooses the first runnable thread after the current one in
  list order, wrapping around to the current one last, and the idle thread exactly when no other thread is runnable.\<close>

theorem pick_next_is_round_robin:
  assumes "distinct (all_threads s)" "current s \<in> set (all_threads s)"
  shows "pick_next s = Some (case find (eligible s) (turn_order (all_threads s) (current s)) of Some t \<Rightarrow> t | None \<Rightarrow> idle_thread s)"
  using pick_next_round_robin [OF assms] by (simp add: next_thread_def)

theorem pick_next_is_round_robin_witness: "pick_next demo_kernel = Some 0x2000"
proof -
  have "distinct (all_threads demo_kernel)" "current demo_kernel \<in> set (all_threads demo_kernel)" by (simp_all add: demo_facts)
  note pick_next_is_round_robin [OF this]
  moreover have "turn_order (all_threads demo_kernel) (current demo_kernel) = [0x3000, 0x2000, 0x1000]" by (simp add: demo_facts turn_order_def)
  moreover have "\<not> eligible demo_kernel 0x3000" by (simp add: demo_kernel_def demo_thread_def eligible_def state_of_def)
  ultimately show ?thesis by (simp add: demo_facts)
qed

lemma running_is_current: "sched_inv s \<Longrightarrow> {t \<in> set (all_threads s). state_of s t = THREAD_RUNNING} = {current s}"
proof -
  assume i: "sched_inv s"
  note ok = sched_invD [OF i]
  have "current s \<in> set (all_threads s)" using ok(1) by (simp add: threads_ok_def)
  moreover have "t = current s" if "t \<in> set (all_threads s)" "state_of s t = THREAD_RUNNING" for t
    using ok(1) that by (simp add: threads_ok_def)
  ultimately show ?thesis using ok(3) by blast
qed

text \<open>C9. Along every run of timer ticks, yields, sleeps, waits, wake-ups and exits the scheduler's invariant holds, exactly one thread is in
  state RUNNING and it is the current one, and each of the calls that hand over the processor returns in the state reached.\<close>

theorem scheduler_run_safe:
  assumes "sched_inv s" "sched_steps s es s'"
  shows "sched_inv s' \<and> {t \<in> set (all_threads s'). state_of s' t = THREAD_RUNNING} = {current s'} \<and>
    scheduler_tick s' \<noteq> None \<and> scheduler_yield s' \<noteq> None \<and>
    (t_idle (threads s' (current s')) \<or> (thread_exit s' \<noteq> None \<and> (\<forall>n. scheduler_sleep n s' \<noteq> None)))"
proof -
  have i: "sched_inv s'" using steps_inv [OF assms(2,1)] by simp
  have "thread_exit s' \<noteq> None \<and> (\<forall>n. scheduler_sleep n s' \<noteq> None)" if "\<not> t_idle (threads s' (current s'))"
    using hands_over_inv [OF exit_hands_over [OF i that]] hands_over_inv [OF sleep_hands_over [OF i that]] by force
  then show ?thesis using i running_is_current [OF i] hands_over_inv [OF tick_hands_over [OF i]] hands_over_inv [OF yield_hands_over [OF i]] by auto
qed

theorem scheduler_run_safe_witness: "\<exists>s'. sched_steps demo_kernel (replicate 3 Tick) s' \<and> sched_inv s' \<and> scheduler_tick s' \<noteq> None"
proof -
  obtain s' where "sched_steps demo_kernel (replicate 3 Tick) s'" using ticks_exist [OF demo_inv] by blast
  then show ?thesis using scheduler_run_safe [OF demo_inv] by blast
qed

lemma before_less: "t \<in> set xs \<Longrightarrow> length (takeWhile (\<lambda>x. x \<noteq> t) xs) < length xs"
  by (induction xs) auto

lemma rank_bound: "threads_ok s \<Longrightarrow> t \<in> set (all_threads s) \<Longrightarrow> t \<noteq> current s \<Longrightarrow> rank s t < length (all_threads s)"
proof -
  assume a: "threads_ok s" "t \<in> set (all_threads s)" "t \<noteq> current s"
  obtain as bs where all: "all_threads s = as @ current s # bs" "current s \<notin> set as"
    using a(1) split_list_first [of "current s" "all_threads s"] by (auto simp only: threads_ok_def)
  have "turn_order (all_threads s) (current s) = bs @ as @ [current s]" using turn_order_split [OF all(2), of bs] all(1) by simp
  moreover have "length (takeWhile (\<lambda>x. x \<noteq> t) (bs @ as @ [current s])) < length (bs @ as @ [current s])"
    using a(2) all(1) by (intro before_less) auto
  ultimately show ?thesis using arg_cong [OF all(1), of length] by (simp add: rank_def)
qed

text \<open>C8. No runnable thread starves: in every run with as many hand-overs (ticks, yields, sleeps, waits, exits) as there are threads,
  a thread that is runnable at the start becomes the current one.\<close>

theorem scheduler_fair:
  assumes "sched_inv s" "sched_steps s es s'" "t \<in> set (all_threads s)" "eligible s t" "length (all_threads s) \<le> length (filter switches es)"
  shows "\<exists>es1 es2 s1. es = es1 @ es2 \<and> sched_steps s es1 s1 \<and> sched_steps s1 es2 s' \<and> current s1 = t"
proof -
  have "t \<noteq> current s" using assms(1,4) by (auto simp: sched_inv_def eligible_def)
  then show ?thesis using steps_fair [OF assms(2,1,3) _ assms(4)] rank_bound [OF sched_invD(1) [OF assms(1)] assms(3)] assms(5) by simp
qed

theorem scheduler_fair_witness: "\<exists>es s1. sched_steps demo_kernel es s1 \<and> current s1 = 0x2000"
proof -
  obtain s' where s': "sched_steps demo_kernel (replicate 3 Tick) s'" using ticks_exist [OF demo_inv] by blast
  have "length (all_threads demo_kernel) \<le> length (filter switches (replicate 3 Tick))" by (simp add: demo_facts)
  from scheduler_fair [OF demo_inv s' _ demo_facts(3) this] show ?thesis by (auto simp: demo_facts)
qed

lemma sleep_asleep:
  assumes "sched_inv s" "\<not> t_idle (threads s (current s))" "n \<noteq> 0" "unat (tick_count s) + unat n < 2 ^ 64" "scheduler_sleep n s = Some s'"
  shows "asleep s' (current s) (tick_count s + n)" "tick_count s' = tick_count s" "sched_inv s'" "current s \<in> set (all_threads s')"
    "unat (tick_count s + n) = unat (tick_count s) + unat n"
proof -
  have st: "sched_step s (Sleep n) s'" using assms(2,5) by (rule sched_step.sleep)
  have l: "leaves s (prep (Sleep n) s)" using prep_leaves [OF assms(1), of "Sleep n"] assms(2) by simp
  note k = switch_kept [OF l step_taken [OF st assms(1)], simplified switches.simps, OF TrueI]
  show sum: "unat (tick_count s + n) = unat (tick_count s) + unat n" using assms(4) by (simp add: unat_word_ariths)
  then have "tick_count s + n \<noteq> 0" using assms(3) by (metis add_is_0 unat_0 unat_eq_0)
  then show "asleep s' (current s) (tick_count s + n)" using k(3) [of "current s"] k(4) [of "current s"] k(5) [of "current s"] assms(3)
    by (simp add: asleep_def)
  show "tick_count s' = tick_count s" using k(2) assms(3) by simp
  show "sched_inv s'" "current s \<in> set (all_threads s')"
    using step_inv [OF st assms(1)] sched_invD(1) [OF assms(1)] by (simp_all add: threads_ok_def)
qed

text \<open>C11. A thread that calls scheduler_sleep with n ticks stays asleep, whatever the other threads do, until the n-th tick after the call, and that
  tick makes it runnable (it may run at once); the sum of the tick counter and n must fit its 64 bits.\<close>

theorem sleep_until_deadline:
  assumes "sched_inv s" "\<not> t_idle (threads s (current s))" "n \<noteq> 0" "unat (tick_count s) + unat n < 2 ^ 64"
    "scheduler_sleep n s = Some s1" "sched_steps s1 es s2" "length (filter (\<lambda>e. e = Tick) es) < unat n"
  shows "state_of s2 (current s) = THREAD_SLEEPING \<and>
    (\<forall>s3. length (filter (\<lambda>e. e = Tick) es) + 1 = unat n \<and> scheduler_tick s2 = Some s3 \<longrightarrow> state_of s3 (current s) \<in> {THREAD_RUNNABLE, THREAD_RUNNING})"
proof -
  note a = sleep_asleep [OF assms(1-5)]
  have b: "asleep s2 (current s) (tick_count s + n)" "unat (tick_count s2) = unat (tick_count s) + length (filter (\<lambda>e. e = Tick) es)"
    using asleep_steps [OF assms(6) a(3,1,4)] a(2,5) assms(7) by simp_all
  have i: "sched_inv s2" "current s \<in> set (all_threads s2)" using steps_inv [OF assms(6) a(3)] a(4) by simp_all
  have "state_of s3 (current s) \<in> {THREAD_RUNNABLE, THREAD_RUNNING}"
    if last: "length (filter (\<lambda>e. e = Tick) es) + 1 = unat n" "scheduler_tick s2 = Some s3" for s3
  proof (rule tick_step(3) [OF sched_step.tick [OF last(2)] i(1) b(1) i(2)])
    have "unat (tick_count s2 + 1) = unat (tick_count s2) + 1" using b(2) last(1) assms(4) by (simp add: unat_word_ariths)
    then show "tick_count s + n \<le> tick_count s2 + 1" using a(5) b(2) last(1) by (simp add: word_le_nat_alt)
  qed
  then show ?thesis using b(1) by (simp add: asleep_def)
qed

theorem sleep_until_deadline_witness:
  "\<exists>s1 s2. scheduler_sleep 2 demo_kernel = Some s1 \<and> sched_steps s1 [Tick] s2 \<and> state_of s2 0x1000 = THREAD_SLEEPING"
proof -
  have idle: "\<not> t_idle (threads demo_kernel (current demo_kernel))" by (simp add: demo_facts)
  obtain s1 where s1: "scheduler_sleep 2 demo_kernel = Some s1" "sched_inv s1"
    using hands_over_inv [OF sleep_hands_over [OF demo_inv idle, of 2]] by blast
  obtain s2 where s2: "sched_steps s1 [Tick] s2" using ticks_exist [OF s1(2), of 1] by (metis One_nat_def replicate_0 replicate_Suc)
  have "unat (tick_count demo_kernel) + unat (2 :: u64) < 2 ^ 64" by (simp add: demo_facts)
  then have "state_of s2 0x1000 = THREAD_SLEEPING" using sleep_until_deadline [OF demo_inv idle _ _ s1(1) s2] by (simp add: demo_facts)
  then show ?thesis using s1(1) s2 by (intro exI [of _ s1] exI [of _ s2] conjI)
qed

lemma wake_one_state:
  assumes "sched_inv s"
  shows "state_of (snd (wait_queue_wake_one q s)) t = (if wait_queues s q \<noteq> [] \<and> t = hd (wait_queues s q) then THREAD_RUNNABLE else state_of s t)"
proof (cases "wait_queues s q")
  case (Cons h ts)
  then have "state_of s h = THREAD_SLEEPING" using sched_invD(2) [OF assms] unfolding queues_ok_def by (metis list.set_intros(1))
  then show ?thesis using Cons
    by (simp add: wait_queue_wake_one_def scheduler_wake_node_def Let_def state_of_def set_state_def update_thread_def)
qed (simp add: wait_queue_wake_one_def)

lemma wake_all_state:
  assumes "sched_inv s"
  shows "state_of (wait_queue_wake_all r s) t = (if t \<in> set (wait_queues s r) then THREAD_RUNNABLE else state_of s t)"
  using assms
proof (induction r s rule: wait_queue_wake_all.induct)
  case (1 r s)
  let ?s = "snd (wait_queue_wake_one r s)"
  have i: "sched_inv ?s" using wake_one_stays [OF 1(2)] by (simp add: stays_def)
  show ?case
  proof (cases "wait_queues s r")
    case (Cons h ts)
    then have "wait_queue_wake_all r s = wait_queue_wake_all r ?s"
      by (subst wait_queue_wake_all.simps) (simp add: case_prod_beta wait_queue_wake_one_def)
    moreover have "fst (wait_queue_wake_one r s)" using Cons by (simp add: wait_queue_wake_one_def)
    ultimately show ?thesis using 1(1) [OF refl prod.collapse _ i] wake_one_queue [OF 1(2), of r r] wake_one_state [OF 1(2), of r t] Cons by auto
  next
    case Nil
    then show ?thesis by (subst wait_queue_wake_all.simps) (simp add: wait_queue_wake_one_def)
  qed
qed

text \<open>C12. Wait queues are first come, first served, and lose no waiter: in a run with no wake-up of queue q the threads waiting in q stay asleep and in
  order, later ones join at the end; then wake_one makes exactly the longest waiting one runnable and wake_all all of them.\<close>

theorem wait_queue_fifo:
  assumes "sched_inv s" "sched_steps s es s'" "list_all (\<lambda>e. \<not> wakes e q) es"
  shows "\<exists>later. wait_queues s' q = wait_queues s q @ later \<and> list_all (\<lambda>t. state_of s' t = THREAD_SLEEPING) (wait_queues s q @ later) \<and>
    wait_queues (snd (wait_queue_wake_one q s')) q = tl (wait_queues s q @ later) \<and>
    (\<forall>t. state_of (snd (wait_queue_wake_one q s')) t = (if wait_queues s' q \<noteq> [] \<and> t = hd (wait_queues s' q) then THREAD_RUNNABLE else state_of s' t)) \<and>
    wait_queues (wait_queue_wake_all q s') q = [] \<and>
    (\<forall>t. state_of (wait_queue_wake_all q s') t = (if t \<in> set (wait_queues s' q) then THREAD_RUNNABLE else state_of s' t))"
proof -
  have i: "sched_inv s'" using steps_inv [OF assms(2,1)] by simp
  obtain later where l: "wait_queues s' q = wait_queues s q @ later"
    using queue_steps [OF assms(2,1), of q] assms(3) by (auto simp: list_all_iff)
  moreover have "list_all (\<lambda>t. state_of s' t = THREAD_SLEEPING) (wait_queues s' q)"
    using sched_invD(2) [OF i] by (auto simp: queues_ok_def list_all_iff)
  ultimately show ?thesis
    using wake_one_queue [OF i, of q q] wake_all_queue [OF i, of q q] wake_one_state [OF i, of q] wake_all_state [OF i, of q] by auto
qed

theorem wait_queue_fifo_witness:
  "\<exists>s1 s2. sched_step demo_kernel (Wait 0x500) s1 \<and> sched_steps s1 [Tick, Tick] s2 \<and> hd (wait_queues s2 0x500) = 0x1000 \<and>
    state_of (snd (wait_queue_wake_one 0x500 s2)) 0x1000 = THREAD_RUNNABLE"
proof -
  have idle: "\<not> t_idle (threads demo_kernel (current demo_kernel))" by (simp add: demo_facts)
  obtain s1 where w: "wait_queue_sleep 0x500 (\<lambda>s. s) demo_kernel = Some s1" "sched_inv s1"
    using hands_over_inv [OF wait_hands_over [OF demo_inv idle, of "\<lambda>s. s" "0x500"]] by auto
  have st: "sched_step demo_kernel (Wait 0x500) s1" using idle w(1) by (auto intro: sched_step.wait)
  have l: "leaves demo_kernel (prep (Wait 0x500) demo_kernel)" using prep_leaves [OF demo_inv, of "Wait 0x500"] idle by simp
  have "wait_queues s1 0x500 = [0x1000]"
    using switch_kept(1) [OF l step_taken [OF st demo_inv]] by (simp add: scheduler_block_current_def demo_kernel_def Let_def set_state_def update_thread_def)
  moreover obtain s2 where s2: "sched_steps s1 [Tick, Tick] s2" using ticks_exist [OF w(2), of 2] by (metis numeral_2_eq_2 replicate_0 replicate_Suc)
  ultimately obtain later where "wait_queues s2 0x500 = 0x1000 # later" "state_of (snd (wait_queue_wake_one 0x500 s2)) 0x1000 = THREAD_RUNNABLE"
    using wait_queue_fifo [OF w(2) s2, of "0x500"] by auto
  then show ?thesis using st s2 by (intro exI [of _ s1] exI [of _ s2]) simp
qed

text \<open>C10. thread_create returns in every state of the kernel heap and of the scheduler: it either reports failure, with less than two free pages left, and leaves the threads as they
  were, or adds one thread at the end of the list, runnable and about to run its entry function on a fresh stack page, in an object disjoint from
  every live heap object; the invariants of heap and scheduler hold again.\<close>

theorem thread_create_correct:
  assumes "threads_live s P L b" "entry \<noteq> 0"
  shows "(\<exists>s'. thread_create syms name entry argument s = Some (False, s') \<and> threads_live s' P L b \<and> all_threads s' = all_threads s \<and> free_pages s \<le> 1) \<or>
    (\<exists>s' t p. thread_create syms name entry argument s = Some (True, s') \<and> p \<in> P \<and> threads_live s' (P - {p}) (insert (t, 256) L) b \<and>
      all_threads s' = all_threads s @ [t] \<and> state_of s' t = THREAD_RUNNABLE \<and> t_entry (threads s' t) = entry \<and> t_argument (threads s' t) = argument \<and>
      t_stack_page (threads s' t) = p \<and> t_context (threads s' t) = zero_context\<lparr>ctx_ra := sym_thread_trampoline syms, ctx_sp := phys_to_virt p + PAGE_SIZE\<rparr> \<and>
      (\<forall>u. u \<noteq> t \<longrightarrow> threads s' u = threads s u))"
proof -
  have c: "t_context (new_thread syms name entry argument False 0 p) = zero_context\<lparr>ctx_ra := sym_thread_trampoline syms, ctx_sp := phys_to_virt p + PAGE_SIZE\<rparr>" for p
    by (simp add: new_thread_def Let_def)
  show ?thesis using thread_create_live [OF assms, of syms name argument] by (auto simp: state_of_def new_thread_fields c)
qed

section \<open>Threads on a small heap\<close>

text \<open>The kernel over a heap of two pages, with one thread that is both the bootstrap and the idle thread.\<close>

definition boot_kernel :: kernel where
  "boot_kernel = demo_kernel\<lparr>kmem := kmem (heap_init small_heap), free_list := free_list (heap_init small_heap),
     free_pages := free_pages (heap_init small_heap), heap_classes := heap_classes (heap_init small_heap), heap_lock := heap_lock (heap_init small_heap),
     threads := (\<lambda>_. demo_thread THREAD_RUNNING True), all_threads := [0x1000], current := 0x1000, idle_thread := 0x1000\<rparr>"

lemma boot_kernel_heap: "heap_rep boot_kernel {0x80200000, 0x80201000} {}" "\<not> free_pages boot_kernel \<le> 1"
proof -
  have "unat (free_pages (heap_init small_heap)) = 2" using heap_rep_empty [OF small_heap_rep] by simp
  then show "\<not> free_pages boot_kernel \<le> 1" by (simp add: boot_kernel_def word_le_nat_alt)
  have "heap_rep boot_kernel {0x80200000, 0x80201000} {} = heap_rep (heap_init small_heap) {0x80200000, 0x80201000} {}"
    by (rule heap_rep_cong) (simp_all add: boot_kernel_def)
  then show "heap_rep boot_kernel {0x80200000, 0x80201000} {}" using small_heap_rep by simp
qed

lemma low_outside_pages: "p \<in> {0x80200000, 0x80201000} \<Longrightarrow> 0x1000 \<notin> span (phys_to_virt p) 4096"
proof -
  assume p: "p \<in> {0x80200000, 0x80201000}"
  have "i = unat (0x1000 - phys_to_virt p)" if "0x1000 = phys_to_virt p + of_nat i" "i < 4096" for i
  proof -
    have "0x1000 - phys_to_virt p = of_nat i" unfolding that(1) by (rule add_diff_cancel_left')
    then show ?thesis using that(2) by (simp add: unat_of_nat)
  qed
  moreover have "4096 \<le> unat (0x1000 - phys_to_virt p)" using p by (auto simp: phys_to_virt_def KERNEL_DIRECT_BASE_def)
  ultimately show ?thesis by (fastforce simp: span_def)
qed

lemma boot_kernel_live: "threads_live boot_kernel {0x80200000, 0x80201000} {} 0x1000"
  using boot_kernel_heap(1) low_outside_pages
  by (auto simp: threads_live_def sched_defs boot_kernel_def demo_kernel_def demo_thread_def zero_thread_def state_of_def)

theorem thread_create_correct_witness:
  "\<exists>s' t p. thread_create \<lparr>sym_thread_trampoline = 1, sym_user_thread_enter = 2, sym_idle_main = 3, sym_bootstrap = 0x1000\<rparr> ''worker'' 0x8000 7 boot_kernel =
     Some (True, s') \<and> all_threads s' = [0x1000, t] \<and> t_stack_page (threads s' t) = p \<and> threads_live s' ({0x80200000, 0x80201000} - {p}) {(t, 256)} 0x1000"
proof -
  have "all_threads boot_kernel = [0x1000]" by (simp add: boot_kernel_def)
  then show ?thesis
    using thread_create_correct [OF boot_kernel_live, of "0x8000" "\<lparr>sym_thread_trampoline = 1, sym_user_thread_enter = 2, sym_idle_main = 3, sym_bootstrap = 0x1000\<rparr>"
      "''worker''" 7] boot_kernel_heap(2) by auto
qed



end
