(* ===== verification/Files.thy ===== *)
theory Files
  imports Scheduler
begin

text \<open>
  The objects of the file layer, from \<^verbatim>\<open>src/fs/vfs.h\<close>, \<^verbatim>\<open>src/fs/pipe.c\<close> and \<^verbatim>\<open>src/abi.h\<close>: vnodes, mounts, open files
  and pipes, in stores keyed by address beside the state of the kernel. Sizes and offsets inside a
  file or a pipe are natural numbers; none of them comes near the width of \<^verbatim>\<open>size_t\<close>.
\<close>

section \<open>The system call interface (\<^verbatim>\<open>src/abi.h\<close>)\<close>

datatype errno = E_PERM | E_NOENT | E_IO | E_2BIG | E_BADF | E_CHILD | E_NOMEM | E_FAULT | E_EXIST | E_NOTDIR | E_ISDIR
  | E_INVAL | E_MFILE | E_FBIG | E_SPIPE | E_ROFS | E_PIPE | E_NAMETOOLONG | E_NOSYS | E_LOOP

fun errno_value :: "errno \<Rightarrow> int" where
  "errno_value E_PERM = 1" | "errno_value E_NOENT = 2" | "errno_value E_IO = 5" | "errno_value E_2BIG = 7"
| "errno_value E_BADF = 9" | "errno_value E_CHILD = 10" | "errno_value E_NOMEM = 12" | "errno_value E_FAULT = 14"
| "errno_value E_EXIST = 17" | "errno_value E_NOTDIR = 20" | "errno_value E_ISDIR = 21" | "errno_value E_INVAL = 22"
| "errno_value E_MFILE = 24" | "errno_value E_FBIG = 27" | "errno_value E_SPIPE = 29" | "errno_value E_ROFS = 30"
| "errno_value E_PIPE = 32" | "errno_value E_NAMETOOLONG = 36" | "errno_value E_NOSYS = 38" | "errno_value E_LOOP = 40"

definition O_RDONLY :: u32 where "O_RDONLY = 0"
definition O_WRONLY :: u32 where "O_WRONLY = 1"
definition O_RDWR :: u32 where "O_RDWR = 2"
definition O_ACCMODE :: u32 where "O_ACCMODE = 3"
definition O_CREAT :: u32 where "O_CREAT = 0x40"
definition O_EXCL :: u32 where "O_EXCL = 0x80"
definition O_TRUNC :: u32 where "O_TRUNC = 0x200"
definition O_APPEND :: u32 where "O_APPEND = 0x400"
definition O_DIRECTORY :: u32 where "O_DIRECTORY = 0x10000"
definition O_NOFOLLOW :: u32 where "O_NOFOLLOW = 0x20000"
definition SEEK_SET :: u32 where "SEEK_SET = 0"
definition SEEK_CUR :: u32 where "SEEK_CUR = 1"
definition SEEK_END :: u32 where "SEEK_END = 2"
definition FD_COUNT :: nat where "FD_COUNT = 32"
definition PATH_LIMIT :: nat where "PATH_LIMIT = 256"
definition NAME_LIMIT :: nat where "NAME_LIMIT = 64"
definition DT_DIR :: u32 where "DT_DIR = 4"
definition DT_REG :: u32 where "DT_REG = 8"
definition DT_LNK :: u32 where "DT_LNK = 10"
definition DT_CHR :: u32 where "DT_CHR = 2"

lemmas open_flags = O_RDONLY_def O_WRONLY_def O_RDWR_def O_ACCMODE_def O_CREAT_def O_EXCL_def O_TRUNC_def O_APPEND_def O_DIRECTORY_def O_NOFOLLOW_def
lemmas node_types = DT_DIR_def DT_REG_def DT_LNK_def DT_CHR_def
lemmas limits = FD_COUNT_def PATH_LIMIT_def NAME_LIMIT_def

section \<open>Objects\<close>

text \<open>
  A file's operations are one of the three static tables. \<open>f_private\<close> is the pipe of a pipe end.
  A mount is known by its index in the array of mounts. The payload of an archive entry is the
  bytes its \<open>data\<close> pointer borrows.
\<close>

datatype file_ops = regular_ops | device_ops | pipe_ops

record open_file =
  f_ops :: file_ops
  f_node :: u64
  f_private :: u64
  f_offset :: nat
  f_references :: u64
  f_flags :: u32

record pipe =
  p_lock :: spinlock
  p_head :: nat
  p_used :: nat
  p_reader :: bool
  p_writer :: bool
  p_data :: bytes

record mount =
  m_root :: u64
  m_covered :: u64
  m_readonly :: bool

record vnode =
  v_children :: "u64 list"
  v_parent :: u64
  v_mount :: nat
  v_mounted :: "nat option"
  v_name :: bytes
  v_type :: u32
  v_inode :: u64
  v_data :: "bytes option"
  v_size :: nat
  v_blocks :: "u64 list"

text \<open>
  \<open>uart_in\<close> is the input the UART holds and the kernel has not read yet, \<open>uart_out\<close> what was sent to it.
\<close>

record fsys = kernel +
  vnodes :: "u64 \<Rightarrow> vnode"
  nodes :: "u64 list"
  mounts :: "mount list"
  next_inode :: u64
  live_files :: u64
  files :: "u64 \<Rightarrow> open_file"
  pipes :: "u64 \<Rightarrow> pipe"
  uart_in :: bytes
  uart_out :: bytes

definition update_file :: "u64 \<Rightarrow> (open_file \<Rightarrow> open_file) \<Rightarrow> 'a fsys_scheme \<Rightarrow> 'a fsys_scheme" where
  "update_file f g s = s\<lparr>files := (files s)(f := g (files s f))\<rparr>"

definition update_pipe :: "u64 \<Rightarrow> (pipe \<Rightarrow> pipe) \<Rightarrow> 'a fsys_scheme \<Rightarrow> 'a fsys_scheme" where
  "update_pipe p g s = s\<lparr>pipes := (pipes s)(p := g (pipes s p))\<rparr>"

definition update_vnode :: "u64 \<Rightarrow> (vnode \<Rightarrow> vnode) \<Rightarrow> 'a fsys_scheme \<Rightarrow> 'a fsys_scheme" where
  "update_vnode n g s = s\<lparr>vnodes := (vnodes s)(n := g (vnodes s n))\<rparr>"

text \<open>What a call that may put its thread to sleep does: the thread sleeps and starts the call over when it runs again, or the call returns.\<close>

datatype 'r outcome = Sleeps | Returns 'r

section \<open>Open files (\<^verbatim>\<open>src/fs/vfs.c\<close>)\<close>

text \<open>\<^verbatim>\<open>sizeof(struct file)\<close>.\<close>

definition file_object_size :: nat where "file_object_size = 48"

definition file_new :: "file_ops \<Rightarrow> u32 \<Rightarrow> 'a fsys_scheme \<Rightarrow> (u64 \<times> 'a fsys_scheme) option" where
  "file_new ops flags s = do {
     (f, s) \<leftarrow> kmalloc file_object_size s;
     if f = 0 then Some (0, s)
     else do {
       let s = s\<lparr>files := (files s)(f := \<lparr>f_ops = ops, f_node = 0, f_private = 0, f_offset = 0, f_references = 1, f_flags = flags\<rparr>)\<rparr>;
       let (irq, s) = irq_save s;
       let s = s\<lparr>live_files := live_files s + 1\<rparr>;
       Some (f, irq_restore irq s)
     }
   }"

definition file_get :: "u64 \<Rightarrow> 'a fsys_scheme \<Rightarrow> 'a fsys_scheme" where
  "file_get f s =
     (if f = 0 then s
      else let (irq, s) = irq_save s;
               s = update_file f (\<lambda>x. x\<lparr>f_references := f_references x + 1\<rparr>) s
        in irq_restore irq s)"

definition file_live_count :: "'a fsys_scheme \<Rightarrow> u64" where
  "file_live_count s = live_files s"

end
