(* ===== verification/Pipe.thy ===== *)
theory Pipe
  imports Files
begin

text \<open>
  Pipes, \<^verbatim>\<open>src/fs/pipe.c\<close>, and the release of open files, \<open>file_put\<close> of \<^verbatim>\<open>src/fs/vfs.c\<close>, which closes a pipe's end.
  A read of an empty pipe and a write to a full one put the thread in the pipe's wait queue; when it
  is woken and runs again it takes the lock and tests the condition again, that is, it repeats the
  call. \<open>None\<close> is a call that never returns.
\<close>

definition PIPE_CAPACITY :: nat where "PIPE_CAPACITY = 512"

text \<open>\<^verbatim>\<open>sizeof(struct pipe)\<close> and the addresses of its two wait queues.\<close>

definition pipe_object_size :: nat where "pipe_object_size = 576"
definition readable :: "u64 \<Rightarrow> u64" where "readable p = p + 8"
definition writable :: "u64 \<Rightarrow> u64" where "writable p = p + 24"

definition pipe_unlock :: "u64 \<Rightarrow> 'a fsys_scheme \<Rightarrow> 'a fsys_scheme" where
  "pipe_unlock p = update_pipe p (\<lambda>q. q\<lparr>p_lock := spin_unlock (p_lock q)\<rparr>)"

definition pipe_acquire :: "u64 \<Rightarrow> 'a fsys_scheme \<Rightarrow> 'a fsys_scheme option" where
  "pipe_acquire p s = do { l \<leftarrow> spin_lock (p_lock (pipes s p)); Some (update_pipe p (\<lambda>q. q\<lparr>p_lock := l\<rparr>) s) }"

text \<open>The copying loops of a read and a write.\<close>

fun drain :: "bytes \<Rightarrow> nat \<Rightarrow> nat \<Rightarrow> bytes \<times> nat" where
  "drain buf head 0 = ([], head)"
| "drain buf head (Suc n) = (let (bs, h) = drain buf ((head + 1) mod PIPE_CAPACITY) n in (buf ! head # bs, h))"

fun fill :: "bytes \<Rightarrow> nat \<Rightarrow> bytes \<Rightarrow> bytes" where
  "fill buf pos [] = buf"
| "fill buf pos (b # bs) = fill (buf[pos mod PIPE_CAPACITY := b]) (pos + 1) bs"

definition pipe_read :: "u64 \<Rightarrow> nat \<Rightarrow> 'a fsys_scheme \<Rightarrow> ((errno + bytes) outcome \<times> 'a fsys_scheme) option" where
  "pipe_read f size0 s = do {
     let p = f_private (files s f);
     if size0 = 0 then Some (Returns (Inr []), s)
     else do {
       s \<leftarrow> pipe_acquire p s;
       let q = pipes s p;
       if p_used q = 0 \<and> p_writer q
       then do { s \<leftarrow> wait_queue_sleep (readable p) (pipe_unlock p) s; Some (Sleeps, s) }
       else do {
         let size = (if size0 > p_used q then p_used q else size0);
         let (bs, head) = drain (p_data q) (p_head q) size;
         let s = update_pipe p (\<lambda>q. q\<lparr>p_head := head, p_used := p_used q - size\<rparr>) s;
         let s = wait_queue_wake_all (writable p) s;
         Some (Returns (Inr bs), pipe_unlock p s)
       }
     }
   }"

definition pipe_write :: "u64 \<Rightarrow> bytes \<Rightarrow> 'a fsys_scheme \<Rightarrow> ((errno + nat) outcome \<times> 'a fsys_scheme) option" where
  "pipe_write f buf s = do {
     let p = f_private (files s f);
     if length buf = 0 then Some (Returns (Inr 0), s)
     else do {
       s \<leftarrow> pipe_acquire p s;
       let q = pipes s p;
       if p_used q = PIPE_CAPACITY \<and> p_reader q
       then do { s \<leftarrow> wait_queue_sleep (writable p) (pipe_unlock p) s; Some (Sleeps, s) }
       else if \<not> p_reader q then Some (Returns (Inl E_PIPE), pipe_unlock p s)
       else do {
         let size = (if length buf > PIPE_CAPACITY - p_used q then PIPE_CAPACITY - p_used q else length buf);
         let s = update_pipe p (\<lambda>q. q\<lparr>p_data := fill (p_data q) (p_head q + p_used q) (take size buf), p_used := p_used q + size\<rparr>) s;
         let s = wait_queue_wake_all (readable p) s;
         Some (Returns (Inr size), pipe_unlock p s)
       }
     }
   }"

definition pipe_release :: "u64 \<Rightarrow> 'a fsys_scheme \<Rightarrow> 'a fsys_scheme option" where
  "pipe_release f s = do {
     let p = f_private (files s f);
     s \<leftarrow> pipe_acquire p s;
     let s = (if f_flags (files s f) AND O_ACCMODE = O_RDONLY then update_pipe p (\<lambda>q. q\<lparr>p_reader := False\<rparr>) s
              else update_pipe p (\<lambda>q. q\<lparr>p_writer := False\<rparr>) s);
     let s = wait_queue_wake_all (readable p) s;
     let s = wait_queue_wake_all (writable p) s;
     let last = (\<not> p_reader (pipes s p) \<and> \<not> p_writer (pipes s p));
     let s = pipe_unlock p s;
     if last then kfree p s else Some s
   }"

definition file_put :: "u64 \<Rightarrow> 'a fsys_scheme \<Rightarrow> 'a fsys_scheme option" where
  "file_put f s =
     (if f = 0 then Some s
      else do {
        let (irq, s) = irq_save s;
        let s = update_file f (\<lambda>x. x\<lparr>f_references := f_references x - 1\<rparr>) s;
        s \<leftarrow> (if f_references (files s f) = 0
          then do {
            s \<leftarrow> (if f_ops (files s f) = pipe_ops then pipe_release f s else Some s);
            let s = s\<lparr>live_files := live_files s - 1\<rparr>;
            kfree f s
          }
          else Some s);
        Some (irq_restore irq s)
      })"

definition zero_pipe :: pipe where
  "zero_pipe = \<lparr>p_lock = 0, p_head = 0, p_used = 0, p_reader = False, p_writer = False, p_data = replicate PIPE_CAPACITY 0\<rparr>"

definition pipe_create :: "'a fsys_scheme \<Rightarrow> ((errno + u64 \<times> u64) \<times> 'a fsys_scheme) option" where
  "pipe_create s = do {
     (p, s) \<leftarrow> kmalloc pipe_object_size s;
     if p = 0 then Some (Inl E_NOMEM, s)
     else do {
       let s = s\<lparr>pipes := (pipes s)(p := zero_pipe)\<rparr>;
       (r, s) \<leftarrow> file_new pipe_ops O_RDONLY s;
       if r = 0 then do { s \<leftarrow> kfree p s; Some (Inl E_NOMEM, s) }
       else do {
         let s = update_pipe p (\<lambda>q. q\<lparr>p_reader := True, p_lock := spinlock_init\<rparr>) s;
         let s = wait_queue_init (writable p) (wait_queue_init (readable p) s);
         let s = update_file r (\<lambda>x. x\<lparr>f_private := p\<rparr>) s;
         (w, s) \<leftarrow> file_new pipe_ops O_WRONLY s;
         if w = 0 then do { s \<leftarrow> file_put r s; Some (Inl E_NOMEM, s) }
         else do {
           let s = update_file w (\<lambda>x. x\<lparr>f_private := p\<rparr>) s;
           let s = update_pipe p (\<lambda>q. q\<lparr>p_writer := True\<rparr>) s;
           Some (Inr (r, w), s)
         }
       }
     }
   }"

end
