(* ===== verification/Vfs_Tree.thy ===== *)
theory Vfs_Tree
  imports Pipe
begin

text \<open>
  The name space of \<^verbatim>\<open>src/fs/vfs.c\<close>: vnodes and mounts, path resolution, the current directory's path, the
  archive the tree is built from, and its release. A pointer into a NUL-terminated path is the rest of
  the path from there on.
\<close>

definition SLASH :: u8 where "SLASH = 0x2f"

section \<open>Nodes\<close>

definition vfs_root :: "'a fsys_scheme \<Rightarrow> u64" where
  "vfs_root s = m_root (mounts s ! 0)"

text \<open>\<open>equal\<close> of two C strings is equality of their bytes.\<close>

definition child :: "'a fsys_scheme \<Rightarrow> u64 \<Rightarrow> bytes \<Rightarrow> u64" where
  "child s parent name = (case find (\<lambda>n. v_name (vnodes s n) = name) (v_children (vnodes s parent)) of Some n \<Rightarrow> n | None \<Rightarrow> 0)"

definition TMP_FILE_PAGES :: nat where "TMP_FILE_PAGES = 16"

text \<open>\<^verbatim>\<open>sizeof(struct vnode)\<close>.\<close>

definition vnode_object_size :: nat where "vnode_object_size = 296"

definition new_node :: "u64 \<Rightarrow> bytes \<Rightarrow> u32 \<Rightarrow> nat \<Rightarrow> 'a fsys_scheme \<Rightarrow> (u64 \<times> 'a fsys_scheme) option" where
  "new_node parent name type mount s = do {
     (n, s) \<leftarrow> kmalloc vnode_object_size s;
     if n = 0 then Some (0, s)
     else do {
       let s = s\<lparr>vnodes := (vnodes s)(n := \<lparr>v_children = [], v_parent = (if parent \<noteq> 0 then parent else n), v_mount = mount, v_mounted = None,
             v_name = name, v_type = type, v_inode = next_inode s, v_data = None, v_size = 0, v_blocks = replicate TMP_FILE_PAGES 0\<rparr>),
             next_inode := next_inode s + 1\<rparr>;
       let s = (if parent \<noteq> 0 then update_vnode parent (\<lambda>v. v\<lparr>v_children := v_children v @ [n]\<rparr>) s else s);
       Some (n, s\<lparr>nodes := nodes s @ [n]\<rparr>)
     }
   }"

section \<open>Paths\<close>

text \<open>The directory above a node other than the root: a mount's root is left through the directory it covers.\<close>

definition dotdot :: "'a fsys_scheme \<Rightarrow> u64 \<Rightarrow> u64" where
  "dotdot s node =
     (let m = mounts s ! v_mount (vnodes s node)
      in if m_root m = node \<and> m_covered m \<noteq> 0 then v_parent (vnodes s (m_covered m)) else v_parent (vnodes s node))"

definition link_text :: "vnode \<Rightarrow> bytes" where
  "link_text v = (case v_data v of Some d \<Rightarrow> take (v_size v) d | None \<Rightarrow> [])"

definition cross_mount :: "'a fsys_scheme \<Rightarrow> u64 \<Rightarrow> u64" where
  "cross_mount s n = (case v_mounted (vnodes s n) of Some m \<Rightarrow> m_root (mounts s ! m) | None \<Rightarrow> n)"

definition begins_slash :: "bytes \<Rightarrow> bool" where
  "begins_slash work = (case work of c # _ \<Rightarrow> c = SLASH | [] \<Rightarrow> False)"

text \<open>The body of the loop: it ends the resolution, or goes on at a node with the rest of the path and a count of links.\<close>

datatype walk_step = Stop "errno + u64" | Continue u64 bytes nat

definition resolve_step :: "'a fsys_scheme \<Rightarrow> u64 \<Rightarrow> bool \<Rightarrow> u64 \<Rightarrow> bytes \<Rightarrow> nat \<Rightarrow> walk_step" where
  "resolve_step s root0 nofollow node work links =
     (let slash = begins_slash work;
          work = dropWhile (\<lambda>c. c = SLASH) work
      in if work = [] then Stop (if slash \<and> v_type (vnodes s node) \<noteq> DT_DIR then Inl E_NOTDIR else Inr node)
         else if v_type (vnodes s node) \<noteq> DT_DIR then Stop (Inl E_NOTDIR)
         else let name = takeWhile (\<lambda>c. c \<noteq> SLASH) work;
                  rest = dropWhile (\<lambda>c. c \<noteq> SLASH) work
           in if length name \<ge> NAME_LIMIT then Stop (Inl E_NAMETOOLONG)
              else if name = cstr ''.'' then Continue node rest links
              else if name = cstr ''..'' then Continue (if node \<noteq> root0 then dotdot s node else node) rest links
              else let next = child s node name
                in if next = 0 then Stop (Inl E_NOENT)
                   else let next = cross_mount s next
                     in if v_type (vnodes s next) = DT_LNK
                        then if nofollow \<and> rest = [] then Stop (Inl E_LOOP)
                             else if links + 1 > 8 then Stop (Inl E_LOOP)
                             else if v_size (vnodes s next) = 0 \<or> v_size (vnodes s next) + length rest \<ge> PATH_LIMIT then Stop (Inl E_NAMETOOLONG)
                             else let work = link_text (vnodes s next) @ rest
                               in Continue (if begins_slash work then root0 else node) work (links + 1)
                        else Continue next rest links)"

lemma rest_shorter: "dropWhile P w \<noteq> [] \<Longrightarrow> length (dropWhile (\<lambda>c. \<not> P c) (dropWhile P w)) < length w"
proof -
  assume "dropWhile P w \<noteq> []"
  then obtain c cs where c: "dropWhile P w = c # cs" "\<not> P c" by (metis hd_dropWhile list.exhaust_sel)
  have "length (dropWhile (\<lambda>c. \<not> P c) cs) \<le> length cs" by (rule length_dropWhile_le)
  then show ?thesis using c length_dropWhile_le [of P w] by simp
qed

lemma resolve_step_smaller:
  assumes "resolve_step s root0 nofollow node work links = Continue node' work' links'"
  shows "links' = links \<and> length work' < length work \<or> links < links' \<and> links' \<le> 8"
proof -
  define w where "w = dropWhile (\<lambda>c. c = SLASH) work"
  define r where "r = dropWhile (\<lambda>c. c \<noteq> SLASH) w"
  have "w \<noteq> [] \<Longrightarrow> length r < length work" unfolding w_def r_def by (rule rest_shorter)
  then show ?thesis using assms unfolding resolve_step_def Let_def w_def [symmetric] r_def [symmetric] by (simp split: if_split_asm)
qed

function resolve_from :: "'a fsys_scheme \<Rightarrow> u64 \<Rightarrow> bool \<Rightarrow> u64 \<Rightarrow> bytes \<Rightarrow> nat \<Rightarrow> errno + u64" where
  "resolve_from s root0 nofollow node work links =
     (case resolve_step s root0 nofollow node work links of
        Stop result \<Rightarrow> result
      | Continue node work links \<Rightarrow> resolve_from s root0 nofollow node work links)"
  by pat_completeness auto

termination resolve_from
  by (relation "measures [\<lambda>(s, root0, nofollow, node, work, links). 8 - links, \<lambda>(s, root0, nofollow, node, work, links). length work]")
    (auto dest!: resolve_step_smaller)

declare resolve_from.simps [simp del]

definition vfs_resolve :: "u64 \<Rightarrow> u64 \<Rightarrow> bytes \<Rightarrow> bool \<Rightarrow> 'a fsys_scheme \<Rightarrow> errno + u64" where
  "vfs_resolve root0 base path nofollow s =
     (if path = [] then Inl E_NOENT
      else if length path \<ge> PATH_LIMIT then Inl E_NAMETOOLONG
      else let node = (if hd path = SLASH then root0 else base)
        in if node = 0 then Inl E_NOENT else resolve_from s root0 nofollow node path 0)"

text \<open>\<open>pos\<close> is the position in the reverse buffer; the text from there on is \<open>acc\<close>.\<close>

function getcwd_loop :: "'a fsys_scheme \<Rightarrow> u64 \<Rightarrow> u64 \<Rightarrow> nat \<Rightarrow> bytes \<Rightarrow> errno + bytes" where
  "getcwd_loop s root0 cwd pos acc =
     (if cwd = root0 then Inr acc
      else let m = mounts s ! v_mount (vnodes s cwd);
               cwd = (if m_root m = cwd \<and> m_covered m \<noteq> 0 then m_covered m else cwd);
               name = v_name (vnodes s cwd);
               n = length name
        in if n + 1 > pos then Inl E_NAMETOOLONG
           else getcwd_loop s root0 (v_parent (vnodes s cwd)) (pos - n - 1) (SLASH # name @ acc))"
  by pat_completeness auto

termination getcwd_loop
  by (relation "measure (\<lambda>(s, root0, cwd, pos, acc). pos)") auto

declare getcwd_loop.simps [simp del]

text \<open>The path written to the buffer; the call returns its length with the terminating NUL.\<close>

definition vfs_getcwd :: "u64 \<Rightarrow> u64 \<Rightarrow> nat \<Rightarrow> 'a fsys_scheme \<Rightarrow> errno + bytes" where
  "vfs_getcwd root0 cwd size0 s =
     (case getcwd_loop s root0 cwd (PATH_LIMIT - 1) [] of
        Inl e \<Rightarrow> Inl e
      | Inr acc \<Rightarrow>
          let path = (if acc = [] then [SLASH] else acc)
          in if length path + 1 > size0 then Inl E_INVAL else Inr path)"

section \<open>The archive\<close>

definition hex_digit :: "u8 \<Rightarrow> u32 option" where
  "hex_digit c =
     (if c \<ge> 0x30 \<and> c \<le> 0x39 then Some (ucast c - 0x30)
      else if c \<ge> 0x61 \<and> c \<le> 0x66 then Some (ucast c - 0x61 + 10)
      else if c \<ge> 0x41 \<and> c \<le> 0x46 then Some (ucast c - 0x41 + 10)
      else None)"

fun hex_value :: "u32 \<Rightarrow> bytes \<Rightarrow> u32 option" where
  "hex_value value [] = Some value"
| "hex_value value (c # cs) = (case hex_digit c of None \<Rightarrow> None | Some v \<Rightarrow> hex_value (push_bit 4 value OR v) cs)"

definition hex8 :: "bytes \<Rightarrow> u32 option" where
  "hex8 p = hex_value 0 (take 8 p)"

definition S_IFMT :: u32 where "S_IFMT = 0xf000"
definition S_IFDIR :: u32 where "S_IFDIR = 0x4000"
definition S_IFREG :: u32 where "S_IFREG = 0x8000"
definition S_IFLNK :: u32 where "S_IFLNK = 0xa000"

definition archive_type :: "u32 \<Rightarrow> u32" where
  "archive_type mode =
     (if mode AND S_IFMT = S_IFDIR then DT_DIR else if mode AND S_IFMT = S_IFREG then DT_REG
      else if mode AND S_IFMT = S_IFLNK then DT_LNK else 0)"

text \<open>\<open>payload\<close> is the entry's data with its size.\<close>

definition archive_leaf :: "u64 \<Rightarrow> bytes \<Rightarrow> bytes \<Rightarrow> u32 \<Rightarrow> 'a fsys_scheme \<Rightarrow> (bool \<times> 'a fsys_scheme) option" where
  "archive_leaf parent name payload mode s =
     (let type = archive_type mode
      in if child s parent name \<noteq> 0 then Some (False, s)
         else if type = 0 \<or> (type = DT_DIR \<and> length payload \<noteq> 0) then Some (False, s)
         else if type = DT_LNK \<and> (length payload = 0 \<or> length payload \<ge> PATH_LIMIT \<or> 0 \<in> set payload) then Some (False, s)
         else do {
           (node, s) \<leftarrow> new_node parent name type 0 s;
           if node = 0 then Some (False, s)
           else Some (True, update_vnode node (\<lambda>v. v\<lparr>v_data := Some payload, v_size := length payload\<rparr>) s)
         })"

function archive_walk :: "u64 \<Rightarrow> bytes \<Rightarrow> bytes \<Rightarrow> u32 \<Rightarrow> 'a fsys_scheme \<Rightarrow> (bool \<times> 'a fsys_scheme) option" where
  "archive_walk parent path payload mode s =
     (let name = takeWhile (\<lambda>c. c \<noteq> SLASH) path
      in if name = [] \<or> length name \<ge> NAME_LIMIT then Some (False, s)
         else if name = cstr ''.'' \<or> name = cstr ''..'' then Some (False, s)
         else case dropWhile (\<lambda>c. c \<noteq> SLASH) path of
             _ # rest \<Rightarrow>
               let parent = child s parent name
               in if parent = 0 \<or> v_type (vnodes s parent) \<noteq> DT_DIR then Some (False, s)
                  else archive_walk parent rest payload mode s
           | [] \<Rightarrow> archive_leaf parent name payload mode s)"
  by pat_completeness auto

lemma dropWhile_Cons_length: "dropWhile P xs = y # ys \<Longrightarrow> length ys < length xs"
  using length_dropWhile_le [of P xs] by simp

termination archive_walk
  by (relation "measure (\<lambda>(parent, path, payload, mode, s). length path)") (auto dest: dropWhile_Cons_length)

declare archive_walk.simps [simp del]

definition archive_node :: "bytes \<Rightarrow> bytes \<Rightarrow> u32 \<Rightarrow> 'a fsys_scheme \<Rightarrow> (bool \<times> 'a fsys_scheme) option" where
  "archive_node path payload mode s =
     (if path = cstr ''.'' then Some (mode AND S_IFMT = S_IFDIR, s)
      else if path = [] \<or> hd path = SLASH then Some (False, s)
      else archive_walk (vfs_root s) path payload mode s)"

section \<open>Setting up and tearing down\<close>

fun free_blocks :: "u64 list \<Rightarrow> 'a fsys_scheme \<Rightarrow> 'a fsys_scheme" where
  "free_blocks [] s = s"
| "free_blocks (b # bs) s = free_blocks bs (if b \<noteq> 0 then page_free b s else s)"

fun shutdown_nodes :: "u64 list \<Rightarrow> 'a fsys_scheme \<Rightarrow> 'a fsys_scheme option" where
  "shutdown_nodes [] s = Some (s\<lparr>nodes := []\<rparr>)"
| "shutdown_nodes (node # rest) s = do {
     let s = s\<lparr>nodes := rest\<rparr>;
     let s = free_blocks (v_blocks (vnodes s node)) s;
     s \<leftarrow> kfree node s;
     shutdown_nodes rest s
   }"

definition zero_mount :: mount where
  "zero_mount = \<lparr>m_root = 0, m_covered = 0, m_readonly = False\<rparr>"

definition vfs_shutdown :: "'a fsys_scheme \<Rightarrow> 'a fsys_scheme option" where
  "vfs_shutdown s = do {
     s \<leftarrow> shutdown_nodes (nodes s) s;
     Some (s\<lparr>mounts := replicate 3 zero_mount\<rparr>)
   }"

definition round4 :: "nat \<Rightarrow> nat" where
  "round4 n = (n + 3) div 4 * 4"

text \<open>One header at \<open>offset\<close>: its mode, its name, its payload and where the next header starts.\<close>

definition archive_entry :: "bytes \<Rightarrow> nat \<Rightarrow> (u32 \<times> bytes \<times> bytes \<times> nat) option" where
  "archive_entry archive offset = do {
     let header = drop offset archive;
     mode \<leftarrow> hex8 (drop 14 header);
     payload \<leftarrow> hex8 (drop 54 header);
     namesize \<leftarrow> hex8 (drop 94 header);
     let payload = unat payload;
     let namesize = unat namesize;
     let nameoff = offset + 110;
     if take 6 header \<noteq> cstr ''070701'' \<or> namesize = 0 \<or> namesize > PATH_LIMIT then None
     else if namesize > length archive - nameoff \<or> archive ! (nameoff + namesize - 1) \<noteq> 0 then None
     else do {
       let name = takeWhile (\<lambda>c. c \<noteq> 0) (drop nameoff archive);
       let dataoff = round4 (nameoff + namesize);
       let next = round4 (dataoff + payload);
       if length name \<noteq> namesize - 1 then None
       else if dataoff > length archive \<or> payload > length archive - dataoff then None
       else if next > length archive then None
       else Some (mode, name, take payload (drop dataoff archive), next)
     }
   }"

function archive_loop :: "bytes \<Rightarrow> nat \<Rightarrow> 'a fsys_scheme \<Rightarrow> (bool \<times> 'a fsys_scheme) option" where
  "archive_loop archive offset s =
     (if offset \<le> length archive \<and> length archive - offset \<ge> 110
      then case archive_entry archive offset of
          None \<Rightarrow> Some (False, s)
        | Some (mode, name, payload, next) \<Rightarrow>
            if name = cstr ''TRAILER!!!'' then Some (length payload = 0, s)
            else case archive_node name payload mode s of
                None \<Rightarrow> None
              | Some (ok, s) \<Rightarrow> if ok then archive_loop archive next s else Some (False, s)
      else Some (False, s))"
  by pat_completeness auto

lemma archive_entry_next: "archive_entry archive offset = Some (mode, name, payload, next) \<Longrightarrow> offset + 110 < next \<and> next \<le> length archive"
proof -
  have r: "n \<le> round4 n" for n unfolding round4_def by presburger
  assume "archive_entry archive offset = Some (mode, name, payload, next)"
  then obtain d k p where "next = round4 (d + p)" "d = round4 (offset + 110 + k)" "k \<noteq> 0" "next \<le> length archive"
    by (auto simp: archive_entry_def bind_eq_Some_conv Let_def split: if_splits)
  then show ?thesis using r [of "offset + 110 + k"] r [of "d + p"] by linarith
qed

termination archive_loop
  by (relation "measure (\<lambda>(archive, offset, s). length archive - offset)") (auto dest!: archive_entry_next)

declare archive_loop.simps [simp del]

definition vfs_mount :: "nat \<Rightarrow> bytes \<Rightarrow> 'a fsys_scheme \<Rightarrow> (bool \<times> 'a fsys_scheme) option" where
  "vfs_mount i name s = do {
     let covered = child s (vfs_root s) name;
     (covered, s) \<leftarrow> (if covered = 0 then new_node (vfs_root s) name DT_DIR 0 s else Some (covered, s));
     if covered = 0 \<or> v_type (vnodes s covered) \<noteq> DT_DIR then Some (False, s)
     else do {
       let s = s\<lparr>mounts := (mounts s)[i := (mounts s ! i)\<lparr>m_covered := covered, m_readonly := (i = 2)\<rparr>]\<rparr>;
       (r, s) \<leftarrow> new_node 0 [] DT_DIR i s;
       let s = s\<lparr>mounts := (mounts s)[i := (mounts s ! i)\<lparr>m_root := r\<rparr>]\<rparr>;
       if r = 0 then Some (False, s)
       else Some (True, update_vnode covered (\<lambda>v. v\<lparr>v_mounted := Some i\<rparr>) s)
     }
   }"

text \<open>The part of \<open>vfs_init\<close> whose failures shut the tree down again.\<close>

definition vfs_populate :: "bytes \<Rightarrow> 'a fsys_scheme \<Rightarrow> (bool \<times> 'a fsys_scheme) option" where
  "vfs_populate archive s = do {
     (trailer, s) \<leftarrow> archive_loop archive 0 s;
     if \<not> trailer then Some (False, s)
     else do {
       (ok, s) \<leftarrow> vfs_mount 1 (cstr ''tmp'') s;
       if \<not> ok then Some (False, s)
       else do {
         (ok, s) \<leftarrow> vfs_mount 2 (cstr ''dev'') s;
         if \<not> ok then Some (False, s)
         else do {
           (console, s) \<leftarrow> new_node (m_root (mounts s ! 2)) (cstr ''console'') DT_CHR 2 s;
           if console = 0 then Some (False, s)
           else do {
             (null, s) \<leftarrow> new_node (m_root (mounts s ! 2)) (cstr ''null'') DT_CHR 2 s;
             Some (null \<noteq> 0, s)
           }
         }
       }
     }
   }"

definition vfs_init :: "bytes option \<Rightarrow> 'a fsys_scheme \<Rightarrow> (bool \<times> 'a fsys_scheme) option" where
  "vfs_init archive s =
     (case archive of
        None \<Rightarrow> Some (False, s)
      | Some archive \<Rightarrow>
          if nodes s \<noteq> [] then Some (False, s)
          else do {
            let s = s\<lparr>next_inode := 1, mounts := (mounts s)[0 := (mounts s ! 0)\<lparr>m_readonly := True\<rparr>]\<rparr>;
            (r, s) \<leftarrow> new_node 0 [] DT_DIR 0 s;
            let s = s\<lparr>mounts := (mounts s)[0 := (mounts s ! 0)\<lparr>m_root := r\<rparr>]\<rparr>;
            if r = 0 then Some (False, s)
            else do {
              (ok, s) \<leftarrow> vfs_populate archive s;
              if ok then Some (True, s)
              else do { s \<leftarrow> vfs_shutdown s; Some (False, s) }
            }
          })"

end
