(* ===== verification/Vfs.thy ===== *)
theory Vfs
  imports Vfs_Tree
begin

text \<open>
  Open files of \<^verbatim>\<open>src/fs/vfs.c\<close>: reading and writing regular files and devices, opening, seeking and listing. A
  kernel buffer a call fills is the list of bytes it returns, one it reads is a list of bytes it is given.
\<close>

section \<open>Regular files\<close>

text \<open>The chunk of a transfer of \<open>size0\<close> bytes at \<open>off\<close> that stays in one page.\<close>

definition page_part :: "nat \<Rightarrow> nat \<Rightarrow> nat" where
  "page_part off size0 = (let part = 4096 - off mod 4096 in if part > size0 then size0 else part)"

lemma page_part_bounds: "0 < size0 \<Longrightarrow> 0 < page_part off size0" "page_part off size0 \<le> size0" "off mod 4096 + page_part off size0 \<le> 4096"
proof -
  have "off mod 4096 < 4096" by simp
  then show "0 < size0 \<Longrightarrow> 0 < page_part off size0" "page_part off size0 \<le> size0" "off mod 4096 + page_part off size0 \<le> 4096"
    by (auto simp: page_part_def Let_def)
qed

function pread_loop :: "mem \<Rightarrow> u64 list \<Rightarrow> nat \<Rightarrow> nat \<Rightarrow> bytes" where
  "pread_loop m blocks size0 off =
     (if size0 = 0 then []
      else let part = page_part off size0;
               page = blocks ! (off div 4096);
               chunk = (if page \<noteq> 0 then read_bytes m (phys_to_virt page + of_nat (off mod 4096)) part else replicate part 0)
        in chunk @ pread_loop m blocks (size0 - part) (off + part))"
  by pat_completeness auto

termination pread_loop
  by (relation "measure (\<lambda>(m, blocks, size0, off). size0)") (auto simp: page_part_bounds)

declare pread_loop.simps [simp del]

definition regular_pread :: "u64 \<Rightarrow> nat \<Rightarrow> nat \<Rightarrow> 'a fsys_scheme \<Rightarrow> errno + bytes" where
  "regular_pread f size0 off s =
     (let n = vnodes s (f_node (files s f))
      in if v_type n = DT_DIR then Inl E_ISDIR
         else if off \<ge> v_size n then Inr []
         else let size0 = (if size0 > v_size n - off then v_size n - off else size0)
           in case v_data n of
                Some d \<Rightarrow> Inr (take size0 (drop off d))
              | None \<Rightarrow> Inr (pread_loop (kmem s) (v_blocks n) size0 off))"

definition tmp_file_limit :: nat where "tmp_file_limit = TMP_FILE_PAGES * 4096"

text \<open>The block of a file at \<open>index\<close>, allocated and cleared when the file has none there yet.\<close>

definition file_block :: "u64 \<Rightarrow> nat \<Rightarrow> 'a fsys_scheme \<Rightarrow> u64 \<times> 'a fsys_scheme" where
  "file_block node index s =
     (let page = v_blocks (vnodes s node) ! index
      in if page \<noteq> 0 then (page, s)
         else let (page, s) = page_alloc s;
                  s = update_vnode node (\<lambda>v. v\<lparr>v_blocks := (v_blocks v)[index := page]\<rparr>) s
           in if page = 0 then (0, s)
              else (page, s\<lparr>kmem := memset (phys_to_virt page) 0 4096 (kmem s)\<rparr>))"

function write_loop :: "u64 \<Rightarrow> bytes \<Rightarrow> nat \<Rightarrow> 'a fsys_scheme \<Rightarrow> (errno + nat) \<times> 'a fsys_scheme" where
  "write_loop f buf written s =
     (let off = f_offset (files s f); node = f_node (files s f)
      in if buf = [] \<or> off \<ge> tmp_file_limit then (Inr written, s)
         else let part = page_part off (length buf);
                  (page, s) = file_block node (off div 4096) s
           in if page = 0 then (if written \<noteq> 0 then Inr written else Inl E_NOMEM, s)
              else let s = s\<lparr>kmem := write_bytes (kmem s) (phys_to_virt page + of_nat (off mod 4096)) (take part buf)\<rparr>;
                       s = update_file f (\<lambda>x. x\<lparr>f_offset := f_offset x + part\<rparr>) s;
                       s = (if f_offset (files s f) > v_size (vnodes s node) then update_vnode node (\<lambda>v. v\<lparr>v_size := f_offset (files s f)\<rparr>) s else s)
                in write_loop f (drop part buf) (written + part) s)"
  by pat_completeness auto

termination write_loop
  by (relation "measure (\<lambda>(f, buf, written, s). length buf)") (auto simp: page_part_bounds)

declare write_loop.simps [simp del]

definition regular_write :: "u64 \<Rightarrow> bytes \<Rightarrow> 'a fsys_scheme \<Rightarrow> (errno + nat) \<times> 'a fsys_scheme" where
  "regular_write f buf s =
     (let n = vnodes s (f_node (files s f))
      in if m_readonly (mounts s ! v_mount n) then (Inl E_ROFS, s)
         else if v_type n = DT_DIR then (Inl E_ISDIR, s)
         else let s = (if f_flags (files s f) AND O_APPEND \<noteq> 0 then update_file f (\<lambda>x. x\<lparr>f_offset := v_size n\<rparr>) s else s)
           in if f_offset (files s f) \<ge> tmp_file_limit then (if buf \<noteq> [] then Inl E_FBIG else Inr 0, s)
              else write_loop f buf 0 s)"

section \<open>Devices (also \<^verbatim>\<open>src/platform/qemu-virt.c\<close>)\<close>

definition console_putc :: "u8 \<Rightarrow> 'a fsys_scheme \<Rightarrow> 'a fsys_scheme" where
  "console_putc ch s = s\<lparr>uart_out := uart_out s @ (if ch = 0x0a then [0x0d, ch] else [ch])\<rparr>"

definition console_getc :: "'a fsys_scheme \<Rightarrow> int \<times> 'a fsys_scheme" where
  "console_getc s = (case uart_in s of [] \<Rightarrow> (-1, s) | c # cs \<Rightarrow> (uint c, s\<lparr>uart_in := cs\<rparr>))"

text \<open>Reading until the buffer is full or the UART has no input.\<close>

fun console_fill :: "nat \<Rightarrow> 'a fsys_scheme \<Rightarrow> bytes \<times> 'a fsys_scheme" where
  "console_fill 0 s = ([], s)"
| "console_fill (Suc n) s =
     (let (c, s) = console_getc s
      in if c < 0 then ([], s)
         else let (bs, s) = console_fill n s in (word_of_int c # bs, s))"

definition device_read :: "u64 \<Rightarrow> nat \<Rightarrow> 'a fsys_scheme \<Rightarrow> ((errno + bytes) outcome \<times> 'a fsys_scheme) option" where
  "device_read f size0 s =
     (if v_name (vnodes s (f_node (files s f))) = cstr ''null'' \<or> size0 = 0 then Some (Returns (Inr []), s)
      else let (bs, s) = console_fill size0 s
        in if bs = [] then do { s \<leftarrow> scheduler_sleep 1 s; Some (Sleeps, s) }
           else Some (Returns (Inr bs), s))"

definition device_write :: "u64 \<Rightarrow> bytes \<Rightarrow> 'a fsys_scheme \<Rightarrow> (errno + nat) \<times> 'a fsys_scheme" where
  "device_write f buf s =
     (if v_name (vnodes s (f_node (files s f))) \<noteq> cstr ''null'' then (Inr (length buf), fold console_putc buf s)
      else (Inr (length buf), s))"

section \<open>Opening\<close>

definition open_allowed :: u32 where
  "open_allowed = O_ACCMODE OR O_CREAT OR O_EXCL OR O_TRUNC OR O_APPEND OR O_DIRECTORY OR O_NOFOLLOW"

text \<open>The last component of a path and what comes before it, slash included.\<close>

definition path_leaf :: "bytes \<Rightarrow> bytes" where
  "path_leaf path = rev (takeWhile (\<lambda>c. c \<noteq> SLASH) (rev path))"

definition path_parent :: "bytes \<Rightarrow> bytes" where
  "path_parent path = take (length path - length (path_leaf path)) path"

definition create_node :: "u64 \<Rightarrow> u64 \<Rightarrow> bytes \<Rightarrow> 'a fsys_scheme \<Rightarrow> ((errno + u64) \<times> 'a fsys_scheme) option" where
  "create_node root0 base path s =
     (if path = [] \<or> length path \<ge> PATH_LIMIT \<or> last path = SLASH then Some (Inl E_INVAL, s)
      else if length (path_leaf path) \<ge> NAME_LIMIT then Some (Inl E_NAMETOOLONG, s)
      else case (if path_parent path \<noteq> [] then vfs_resolve root0 base (path_parent path) False s else Inr base) of
          Inl e \<Rightarrow> Some (Inl e, s)
        | Inr parent \<Rightarrow>
            if v_type (vnodes s parent) \<noteq> DT_DIR then Some (Inl E_NOTDIR, s)
            else if m_readonly (mounts s ! v_mount (vnodes s parent)) then Some (Inl E_ROFS, s)
            else if child s parent (path_leaf path) \<noteq> 0 then Some (Inl E_NOENT, s)
            else do {
              (n, s) \<leftarrow> new_node parent (path_leaf path) DT_REG (v_mount (vnodes s parent)) s;
              Some (if n = 0 then Inl E_NOMEM else Inr n, s)
            })"

definition open_refused :: "u32 \<Rightarrow> u64 \<Rightarrow> 'a fsys_scheme \<Rightarrow> errno option" where
  "open_refused flags n s =
     (let v = vnodes s n
      in if flags AND O_DIRECTORY \<noteq> 0 \<and> v_type v \<noteq> DT_DIR then Some E_NOTDIR
         else if flags AND O_ACCMODE \<noteq> 0 \<and> v_type v = DT_DIR then Some E_ISDIR
         else if flags AND O_ACCMODE \<noteq> 0 \<and> v_type v = DT_REG \<and> m_readonly (mounts s ! v_mount v) then Some E_ROFS
         else None)"

definition open_rollback :: "bool \<Rightarrow> u64 \<Rightarrow> 'a fsys_scheme \<Rightarrow> 'a fsys_scheme option" where
  "open_rollback created n s =
     (if created
      then let s = s\<lparr>nodes := removeAll n (nodes s)\<rparr>;
               s = update_vnode (v_parent (vnodes s n)) (\<lambda>v. v\<lparr>v_children := removeAll n (v_children v)\<rparr>) s
        in kfree n s
      else Some s)"

definition truncate_node :: "u64 \<Rightarrow> 'a fsys_scheme \<Rightarrow> 'a fsys_scheme" where
  "truncate_node n s =
     (let s = free_blocks (v_blocks (vnodes s n)) s
      in update_vnode n (\<lambda>v. v\<lparr>v_blocks := replicate TMP_FILE_PAGES 0, v_size := 0\<rparr>) s)"

definition open_vnode :: "bool \<Rightarrow> u64 \<Rightarrow> u32 \<Rightarrow> 'a fsys_scheme \<Rightarrow> ((errno + u64) \<times> 'a fsys_scheme) option" where
  "open_vnode created n flags s =
     (case open_refused flags n s of
        Some e \<Rightarrow> do { s \<leftarrow> open_rollback created n s; Some (Inl e, s) }
      | None \<Rightarrow> do {
          (f, s) \<leftarrow> file_new (if v_type (vnodes s n) = DT_CHR then device_ops else regular_ops) flags s;
          if f = 0 then do { s \<leftarrow> open_rollback created n s; Some (Inl E_NOMEM, s) }
          else do {
            let s = update_file f (\<lambda>x. x\<lparr>f_node := n\<rparr>) s;
            Some (Inr f, if flags AND O_TRUNC \<noteq> 0 then truncate_node n s else s)
          }
        })"

definition vfs_openat :: "u64 \<Rightarrow> u64 \<Rightarrow> bytes \<Rightarrow> u32 \<Rightarrow> 'a fsys_scheme \<Rightarrow> ((errno + u64) \<times> 'a fsys_scheme) option" where
  "vfs_openat root0 base path flags s =
     (if flags AND NOT open_allowed \<noteq> 0 \<or> flags AND O_ACCMODE = 3 \<or> (flags AND O_TRUNC \<noteq> 0 \<and> flags AND O_ACCMODE = 0) then Some (Inl E_INVAL, s)
      else do {
        let (irq, s) = irq_save s;
        (result, s) \<leftarrow> (case vfs_resolve root0 base path (flags AND O_NOFOLLOW \<noteq> 0) s of
            Inr n \<Rightarrow> if flags AND (O_CREAT OR O_EXCL) = O_CREAT OR O_EXCL then Some (Inl E_EXIST, s) else open_vnode False n flags s
          | Inl e \<Rightarrow> if e = E_NOENT \<and> flags AND O_CREAT \<noteq> 0
              then do {
                (created, s) \<leftarrow> create_node root0 base path s;
                case created of Inl e \<Rightarrow> Some (Inl e, s) | Inr n \<Rightarrow> open_vnode True n flags s
              }
              else Some (Inl e, s));
        Some (result, irq_restore irq s)
      })"

definition vfs_open :: "bytes \<Rightarrow> 'a fsys_scheme \<Rightarrow> (u64 \<times> 'a fsys_scheme) option" where
  "vfs_open path s = do {
     (result, s) \<leftarrow> vfs_openat (vfs_root s) (vfs_root s) path O_RDONLY s;
     Some (case result of Inl e \<Rightarrow> 0 | Inr f \<Rightarrow> f, s)
   }"

section \<open>Operations on open files\<close>

definition file_size :: "u64 \<Rightarrow> 'a fsys_scheme \<Rightarrow> nat" where
  "file_size f s = (if f \<noteq> 0 \<and> f_node (files s f) \<noteq> 0 then v_size (vnodes s (f_node (files s f))) else 0)"

definition file_pread :: "u64 \<Rightarrow> nat \<Rightarrow> nat \<Rightarrow> 'a fsys_scheme \<Rightarrow> (errno + bytes) \<times> 'a fsys_scheme" where
  "file_pread f size0 offset s =
     (if f = 0 \<or> f_flags (files s f) AND O_ACCMODE = O_WRONLY then (Inl E_BADF, s)
      else if f_ops (files s f) \<noteq> regular_ops then (Inl E_SPIPE, s)
      else let (irq, s) = irq_save s;
               result = regular_pread f size0 offset s
        in (result, irq_restore irq s))"

definition file_read :: "u64 \<Rightarrow> nat \<Rightarrow> 'a fsys_scheme \<Rightarrow> ((errno + bytes) outcome \<times> 'a fsys_scheme) option" where
  "file_read f size0 s =
     (if f = 0 \<or> f_flags (files s f) AND O_ACCMODE = O_WRONLY then Some (Returns (Inl E_BADF), s)
      else do {
        let self = current s;
        let (irq, s) = irq_save s;
        (result, s) \<leftarrow> (case f_ops (files s f) of
            pipe_ops \<Rightarrow> pipe_read f size0 s
          | device_ops \<Rightarrow> device_read f size0 s
          | regular_ops \<Rightarrow>
              (case regular_pread f size0 (f_offset (files s f)) s of
                 Inl e \<Rightarrow> Some (Returns (Inl e), s)
               | Inr bs \<Rightarrow> Some (Returns (Inr bs), if bs \<noteq> [] then update_file f (\<lambda>x. x\<lparr>f_offset := f_offset x + length bs\<rparr>) s else s)));
        Some (result, back_in self irq s)
      })"

definition file_write :: "u64 \<Rightarrow> bytes \<Rightarrow> 'a fsys_scheme \<Rightarrow> ((errno + nat) outcome \<times> 'a fsys_scheme) option" where
  "file_write f buf s =
     (if f = 0 \<or> f_flags (files s f) AND O_ACCMODE = 0 then Some (Returns (Inl E_BADF), s)
      else do {
        let self = current s;
        let (irq, s) = irq_save s;
        (result, s) \<leftarrow> (case f_ops (files s f) of
            pipe_ops \<Rightarrow> pipe_write f buf s
          | device_ops \<Rightarrow> (let (r, s) = device_write f buf s in Some (Returns r, s))
          | regular_ops \<Rightarrow> (let (r, s) = regular_write f buf s in Some (Returns r, s)));
        Some (result, back_in self irq s)
      })"

text \<open>\<^verbatim>\<open>INT64_MAX\<close>; offsets and sizes stay below it.\<close>

definition INT64_MAX :: int where "INT64_MAX = 0x7fffffffffffffff"

definition file_seek :: "u64 \<Rightarrow> int \<Rightarrow> u32 \<Rightarrow> 'a fsys_scheme \<Rightarrow> (errno + int) \<times> 'a fsys_scheme" where
  "file_seek f offset whence s =
     (if f_node (files s f) = 0 \<or> v_type (vnodes s (f_node (files s f))) \<noteq> DT_REG then (Inl E_SPIPE, s)
      else let (irq, s) = irq_save s;
               base = (if whence = SEEK_SET then 0 else if whence = SEEK_CUR then int (f_offset (files s f)) else int (file_size f s))
        in if whence > SEEK_END \<or> offset < - base \<or> offset > INT64_MAX - base then (Inl E_INVAL, irq_restore irq s)
           else let s = update_file f (\<lambda>x. x\<lparr>f_offset := nat (base + offset)\<rparr>) s
             in (Inr (base + offset), irq_restore irq s))"

record directory_entry =
  d_inode :: u64
  d_type :: u32
  d_name :: bytes

definition directory_entry_size :: nat where "directory_entry_size = 80"

fun dents_loop :: "(u64 \<Rightarrow> vnode) \<Rightarrow> nat \<Rightarrow> nat \<Rightarrow> nat \<Rightarrow> nat \<Rightarrow> u64 list \<Rightarrow> directory_entry list" where
  "dents_loop vs offset index count limit [] = []"
| "dents_loop vs offset index count limit (n # ns) =
     (if count < limit
      then if index < offset then dents_loop vs offset (index + 1) count limit ns
           else \<lparr>d_inode = v_inode (vs n), d_type = v_type (vs n), d_name = v_name (vs n)\<rparr> # dents_loop vs offset (index + 1) (count + 1) limit ns
      else [])"

definition file_getdents :: "u64 \<Rightarrow> nat \<Rightarrow> 'a fsys_scheme \<Rightarrow> (errno + directory_entry list) \<times> 'a fsys_scheme" where
  "file_getdents f size0 s =
     (if f_node (files s f) = 0 \<or> v_type (vnodes s (f_node (files s f))) \<noteq> DT_DIR then (Inl E_NOTDIR, s)
      else if size0 < directory_entry_size then (Inl E_INVAL, s)
      else let (irq, s) = irq_save s;
               out = dents_loop (vnodes s) (f_offset (files s f)) 0 0 (size0 div directory_entry_size) (v_children (vnodes s (f_node (files s f))));
               s = update_file f (\<lambda>x. x\<lparr>f_offset := f_offset x + length out\<rparr>) s
        in (Inr out, irq_restore irq s))"

end
