(* ===== verification/Pipe_Stream.thy ===== *)
theory Pipe_Stream
  imports Pipe Scheduler_Sleep
begin

text \<open>
  A pipe is a byte stream: whatever the interleaving of reads, writes, closes and scheduler steps, the
  bytes read are the bytes written, in order, and no thread waits in a queue of the pipe although it
  could go on.
\<close>

section \<open>The ring buffer\<close>

definition ring :: "bytes \<Rightarrow> nat \<Rightarrow> nat \<Rightarrow> bytes" where
  "ring buf head n = map (\<lambda>i. buf ! ((head + i) mod PIPE_CAPACITY)) [0..<n]"

lemma ring_length [simp]: "length (ring buf head n) = n"
  by (simp add: ring_def)

lemma drain_ring: "head < PIPE_CAPACITY \<Longrightarrow> drain buf head n = (ring buf head n, (head + n) mod PIPE_CAPACITY)"
proof (induction n arbitrary: head)
  case (Suc n)
  have "ring buf ((head + 1) mod PIPE_CAPACITY) n = map (\<lambda>i. buf ! ((head + Suc i) mod PIPE_CAPACITY)) [0..<n]"
    by (simp add: ring_def mod_simps)
  moreover have "ring buf head (Suc n) = buf ! head # map (\<lambda>i. buf ! ((head + Suc i) mod PIPE_CAPACITY)) [0..<n]"
    using Suc(2) by (simp add: ring_def upt_rec [of 0] map_Suc_upt [symmetric] comp_def del: upt_Suc)
  moreover have "(head + 1) mod PIPE_CAPACITY < PIPE_CAPACITY" by (simp add: PIPE_CAPACITY_def)
  ultimately show ?case using Suc(1) by (simp add: mod_simps)
qed (simp add: ring_def)

lemma ring_parts:
  assumes "k \<le> n"
  shows "ring buf head k = take k (ring buf head n)" "ring buf ((head + k) mod PIPE_CAPACITY) (n - k) = drop k (ring buf head n)"
  using assms by (auto simp: ring_def take_map drop_map mod_simps add.assoc intro!: nth_equalityI)

lemma mod_distinct:
  fixes m :: nat
  assumes "i < n" "n < m"
  shows "(h + i) mod m \<noteq> (h + n) mod m"
proof
  assume "(h + i) mod m = (h + n) mod m"
  then have "m dvd (h + n) - (h + i)" using assms(1) mod_eq_dvd_iff_nat [of "h + i" "h + n" m] by simp
  then show False using assms by (auto dest: dvd_imp_le)
qed

lemma ring_snoc:
  assumes "length buf = PIPE_CAPACITY" "n < PIPE_CAPACITY"
  shows "ring (buf[(head + n) mod PIPE_CAPACITY := b]) head (Suc n) = ring buf head n @ [b]"
proof -
  have "(head + n) mod PIPE_CAPACITY < length buf" using assms(1) by (simp add: PIPE_CAPACITY_def)
  moreover have "buf[(head + n) mod PIPE_CAPACITY := b] ! ((head + i) mod PIPE_CAPACITY) = buf ! ((head + i) mod PIPE_CAPACITY)" if "i < n" for i
    using mod_distinct [OF that assms(2), of head] by simp
  ultimately show ?thesis by (simp add: ring_def)
qed

lemma fill_length [simp]: "length (fill buf pos bs) = length buf"
  by (induction buf pos bs rule: fill.induct) auto

lemma ring_fill:
  "length buf = PIPE_CAPACITY \<Longrightarrow> n + length bs \<le> PIPE_CAPACITY \<Longrightarrow> ring (fill buf (head + n) bs) head (n + length bs) = ring buf head n @ bs"
proof (induction bs arbitrary: buf n)
  case (Cons b bs)
  show ?case using Cons(1) [of "buf[(head + n) mod PIPE_CAPACITY := b]" "Suc n"] Cons(2,3) ring_snoc [OF Cons(2), of n head b] by simp
qed simp

section \<open>What the pipe's operations leave alone\<close>

lemma pipe_frames [simp]:
  "pipes (set_state t st s) = pipes s" "files (set_state t st s) = files s"
  "pipes (scheduler_block_current q s) = pipes s" "files (scheduler_block_current q s) = files s"
  "pipes (scheduler_wake_node t s) = pipes s" "files (scheduler_wake_node t s) = files s"
  "pipes (snd (wait_queue_wake_one q s)) = pipes s" "files (snd (wait_queue_wake_one q s)) = files s"
  by (auto simp: set_state_def update_thread_def scheduler_block_current_def scheduler_wake_node_def wait_queue_wake_one_def Let_def split: list.split)

lemma wake_all_keeps:
  assumes "\<And>q s. g (snd (wait_queue_wake_one q s)) = g s"
  shows "g (wait_queue_wake_all q s) = g s"
proof (induction q s rule: wait_queue_wake_all.induct)
  case (1 q s)
  show ?case
  proof (cases "fst (wait_queue_wake_one q s)")
    case True
    then show ?thesis using 1 [OF refl prod.collapse] assms [of q s] by (subst wait_queue_wake_all.simps) (simp add: case_prod_beta)
  next
    case False
    then show ?thesis using assms [of q s] by (subst wait_queue_wake_all.simps) (simp add: case_prod_beta)
  qed
qed

lemma wake_all_frame [simp]: "pipes (wait_queue_wake_all q s) = pipes s" "files (wait_queue_wake_all q s) = files s"
  by (rule wake_all_keeps; simp)+

lemma switch_frame: "scheduler_switch s = Some s' \<Longrightarrow> pipes s' = pipes s \<and> files s' = files s"
  by (auto simp: scheduler_switch_def bind_eq_Some_conv Let_def context_switch_def vm_activate_def update_thread_def split: if_splits)

lemma update_pipe_view [simp]: "view (update_pipe p g s) = view s" "sched_view (update_pipe p g s) = sched_view s"
  "pipes (update_pipe p g s) = (pipes s)(p := g (pipes s p))" "files (update_pipe p g s) = files s" "tick_count (update_pipe p g s) = tick_count s"
  "wait_queues (update_pipe p g s) = wait_queues s"
  by (simp_all add: update_pipe_def view_def sched_view_def)

section \<open>The invariant of a pipe\<close>

definition contents :: "pipe \<Rightarrow> bytes" where
  "contents q = ring (p_data q) (p_head q) (p_used q)"

definition pipe_ok :: "'a fsys_scheme \<Rightarrow> u64 \<Rightarrow> bool" where
  "pipe_ok s p \<longleftrightarrow> sched_inv s \<and> p_lock (pipes s p) = 0 \<and> length (p_data (pipes s p)) = PIPE_CAPACITY \<and> p_head (pipes s p) < PIPE_CAPACITY \<and>
     p_used (pipes s p) \<le> PIPE_CAPACITY \<and>
     (wait_queues s (readable p) \<noteq> [] \<longrightarrow> p_used (pipes s p) = 0 \<and> p_writer (pipes s p)) \<and>
     (wait_queues s (writable p) \<noteq> [] \<longrightarrow> p_used (pipes s p) = PIPE_CAPACITY \<and> p_reader (pipes s p))"

text \<open>A thread that finds it cannot go on joins one queue and hands over the processor.\<close>

lemma pipe_sleeps:
  assumes ok: "pipe_ok s p" and idle: "\<not> t_idle (threads s (current s))" and q: "q = readable p \<and> p_used (pipes s p) = 0 \<and> p_writer (pipes s p) \<or>
      q = writable p \<and> p_used (pipes s p) = PIPE_CAPACITY \<and> p_reader (pipes s p)"
  shows "\<exists>s'. wait_queue_sleep q (pipe_unlock p) (update_pipe p (\<lambda>x. x\<lparr>p_lock := 1\<rparr>) s) = Some s' \<and> pipe_ok s' p \<and> pipes s' p = pipes s p \<and> files s' = files s \<and>
    wait_queues s' q = wait_queues s q @ [current s]"
proof -
  let ?u = "update_pipe p (\<lambda>x. x\<lparr>p_lock := 1\<rparr>) s"
  have i: "sched_inv s" using ok by (simp add: pipe_ok_def)
  have iu: "sched_inv ?u" using i sched_view_cong(3) [of ?u s] by simp
  have c: "current ?u = current s" "threads ?u = threads s" by (simp_all add: update_pipe_def)
  have un: "sched_view (pipe_unlock p x) = sched_view x" "tick_count (pipe_unlock p x) = tick_count x" for x :: "'a fsys_scheme"
    by (simp_all add: pipe_unlock_def)
  obtain s' where s': "wait_queue_sleep q (pipe_unlock p) ?u = Some s'"
    using hands_over_inv [OF wait_hands_over [OF iu, of "pipe_unlock p" q]] idle un c by auto
  then have st: "sched_step ?u (Wait q) s'" using sched_step.wait [of ?u "pipe_unlock p"] idle un c by simp
  have l: "leaves ?u (prep (Wait q) ?u)" using prep_leaves [OF iu, of "Wait q"] idle c by simp
  have w: "wait_queues s' = (wait_queues s)(q := wait_queues s q @ [current s])"
    using switch_kept(1) [OF l step_taken [OF st iu]] by (simp add: scheduler_block_current_def Let_def c)
  have "pipes s' = pipes (pipe_unlock p (scheduler_block_current q ?u))" "files s' = files (pipe_unlock p (scheduler_block_current q ?u))"
    using switch_frame s' unfolding wait_queue_sleep_def by blast+
  then have e: "pipes s' p = pipes s p" "files s' = files s" using ok by (simp_all add: pipe_unlock_def spin_unlock_def pipe_ok_def)
  have ne: "readable p \<noteq> writable p" by (simp add: readable_def writable_def)
  have "pipe_ok s' p" unfolding pipe_ok_def e(1) w using step_inv(1) [OF st iu] ok q ne by (auto simp: pipe_ok_def)
  then show ?thesis using s' e w by simp
qed

text \<open>A wake-up of one of the two queues empties it and keeps the rest.\<close>

lemma pipe_woken:
  assumes "sched_inv s"
  shows "sched_inv (wait_queue_wake_all q s)" "wait_queues (wait_queue_wake_all q s) r = (if r = q then [] else wait_queues s r)"
  using wake_all_stays [OF assms] wake_all_queue [OF assms] by (auto simp: stays_def)

lemma pipe_acquire_ok: "pipe_ok s p \<Longrightarrow> pipe_acquire p s = Some (update_pipe p (\<lambda>x. x\<lparr>p_lock := 1\<rparr>) s)"
  by (simp add: pipe_acquire_def pipe_ok_def spin_lock_def)

lemma update_pipe_inv [simp]: "sched_inv (update_pipe p g s) = sched_inv s"
  by (rule sched_view_cong(3)) simp

lemma pipe_unlock_simps [simp]:
  "sched_inv (pipe_unlock p s) = sched_inv s" "wait_queues (pipe_unlock p s) = wait_queues s" "files (pipe_unlock p s) = files s"
  "pipes (pipe_unlock p s) = (pipes s)(p := (pipes s p)\<lparr>p_lock := 0\<rparr>)"
  by (simp_all add: pipe_unlock_def spin_unlock_def)

lemma queues_differ [simp]: "readable p \<noteq> writable p" "writable p \<noteq> readable p"
  by (simp_all add: readable_def writable_def)

lemma pipe_read_ok:
  assumes ok: "pipe_ok s p" and f: "f_private (files s f) = p" and n: "n \<noteq> 0" and idle: "\<not> t_idle (threads s (current s))"
  shows "if p_used (pipes s p) = 0 \<and> p_writer (pipes s p)
    then \<exists>s'. pipe_read f n s = Some (Sleeps, s') \<and> pipe_ok s' p \<and> pipes s' p = pipes s p \<and> files s' = files s \<and>
      wait_queues s' (readable p) = wait_queues s (readable p) @ [current s]
    else \<exists>s'. pipe_read f n s = Some (Returns (Inr (take n (contents (pipes s p)))), s') \<and> pipe_ok s' p \<and>
      contents (pipes s' p) = drop n (contents (pipes s p)) \<and> p_reader (pipes s' p) = p_reader (pipes s p) \<and> p_writer (pipes s' p) = p_writer (pipes s p) \<and>
      files s' = files s \<and> wait_queues s' (writable p) = []"
proof (cases "p_used (pipes s p) = 0 \<and> p_writer (pipes s p)")
  case True
  then show ?thesis using pipe_sleeps [OF ok idle, of "readable p"] pipe_acquire_ok [OF ok] n f by (auto simp: pipe_read_def)
next
  case False
  let ?u = "update_pipe p (\<lambda>x. x\<lparr>p_lock := 1\<rparr>) s"
  define q where "q = pipes s p"
  define k where "k = min n (p_used q)"
  have q: "length (p_data q) = PIPE_CAPACITY" "p_head q < PIPE_CAPACITY" "p_used q \<le> PIPE_CAPACITY" "sched_inv s" using ok by (simp_all add: pipe_ok_def q_def)
  let ?v = "update_pipe p (\<lambda>x. x\<lparr>p_head := (p_head q + k) mod PIPE_CAPACITY, p_used := p_used x - k\<rparr>) ?u"
  let ?s = "pipe_unlock p (wait_queue_wake_all (writable p) ?v)"
  have run: "pipe_read f n s = Some (Returns (Inr (ring (p_data q) (p_head q) k)), ?s)"
    using False n f by (cases "p_used q < n") (auto simp: pipe_read_def pipe_acquire_ok [OF ok] q_def [symmetric] Let_def k_def drain_ring [OF q(2)])
  have p: "pipes ?s p = q\<lparr>p_lock := 0, p_head := (p_head q + k) mod PIPE_CAPACITY, p_used := p_used q - k\<rparr>" by (simp add: q_def)
  have w: "wait_queues ?s (readable p) = wait_queues s (readable p)" "wait_queues ?s (writable p) = []" "sched_inv ?s"
    using pipe_woken [of ?v "writable p"] q(4) by simp_all
  have "wait_queues s (readable p) = []" using False ok by (auto simp: pipe_ok_def)
  then have "pipe_ok ?s p" unfolding pipe_ok_def w(1,2) p using q w(3) by (simp add: PIPE_CAPACITY_def)
  moreover have "contents (pipes ?s p) = drop k (contents q)" unfolding p using ring_parts(2) [of k "p_used q"] by (simp add: contents_def k_def)
  moreover have "drop k (contents q) = drop n (contents q)" "take k (contents q) = take n (contents q)" by (simp_all add: k_def contents_def min_def)
  moreover have "ring (p_data q) (p_head q) k = take k (contents q)" using ring_parts(1) [of k "p_used q"] by (simp add: contents_def k_def)
  ultimately show ?thesis using False run w(2) p by (simp add: q_def)
qed

lemma pipe_write_ok:
  assumes ok: "pipe_ok s p" and f: "f_private (files s f) = p" and n: "buf \<noteq> []" and idle: "\<not> t_idle (threads s (current s))"
  shows "if p_used (pipes s p) = PIPE_CAPACITY \<and> p_reader (pipes s p)
    then \<exists>s'. pipe_write f buf s = Some (Sleeps, s') \<and> pipe_ok s' p \<and> pipes s' p = pipes s p \<and> files s' = files s \<and>
      wait_queues s' (writable p) = wait_queues s (writable p) @ [current s]
    else if p_reader (pipes s p)
    then \<exists>n s'. pipe_write f buf s = Some (Returns (Inr n), s') \<and> n = min (length buf) (PIPE_CAPACITY - p_used (pipes s p)) \<and> 0 < n \<and> n \<le> length buf \<and> pipe_ok s' p \<and>
      contents (pipes s' p) = contents (pipes s p) @ take n buf \<and> p_reader (pipes s' p) \<and> p_writer (pipes s' p) = p_writer (pipes s p) \<and>
      files s' = files s \<and> wait_queues s' (readable p) = []
    else \<exists>s'. pipe_write f buf s = Some (Returns (Inl E_PIPE), s') \<and> pipe_ok s' p \<and> pipes s' p = pipes s p \<and> files s' = files s"
proof (cases "p_used (pipes s p) = PIPE_CAPACITY \<and> p_reader (pipes s p)")
  case True
  then show ?thesis using pipe_sleeps [OF ok idle, of "writable p"] pipe_acquire_ok [OF ok] n f by (auto simp: pipe_write_def)
next
  case False
  let ?u = "update_pipe p (\<lambda>x. x\<lparr>p_lock := 1\<rparr>) s"
  define q where "q = pipes s p"
  have q: "length (p_data q) = PIPE_CAPACITY" "p_head q < PIPE_CAPACITY" "p_used q \<le> PIPE_CAPACITY" "sched_inv s" "p_lock q = 0" using ok by (simp_all add: pipe_ok_def q_def)
  show ?thesis
  proof (cases "p_reader q")
    case reader: False
    let ?s = "pipe_unlock p ?u"
    have run: "pipe_write f buf s = Some (Returns (Inl E_PIPE), ?s)"
      using False reader n f by (simp add: pipe_write_def pipe_acquire_ok [OF ok] q_def)
    have "pipes ?s p = pipes s p" using q(5) by (simp add: q_def)
    moreover have "pipe_ok ?s p" unfolding pipe_ok_def calculation using ok by (simp add: pipe_ok_def)
    ultimately show ?thesis using run False reader by (simp add: q_def)
  next
    case reader: True
    define k where "k = min (length buf) (PIPE_CAPACITY - p_used q)"
    have k: "0 < k" "k \<le> length buf" "p_used q + k \<le> PIPE_CAPACITY"
      using False reader n q(3) by (auto simp: k_def q_def)
    let ?v = "update_pipe p (\<lambda>x. x\<lparr>p_data := fill (p_data x) (p_head x + p_used x) (take k buf), p_used := p_used x + k\<rparr>) ?u"
    let ?s = "pipe_unlock p (wait_queue_wake_all (readable p) ?v)"
    have run: "pipe_write f buf s = Some (Returns (Inr k), ?s)"
      using False reader n f by (cases "PIPE_CAPACITY - p_used q < length buf") (auto simp: pipe_write_def pipe_acquire_ok [OF ok] q_def [symmetric] Let_def k_def)
    have p: "pipes ?s p = q\<lparr>p_lock := 0, p_data := fill (p_data q) (p_head q + p_used q) (take k buf), p_used := p_used q + k\<rparr>" by (simp add: q_def)
    have w: "wait_queues ?s (writable p) = wait_queues s (writable p)" "wait_queues ?s (readable p) = []" "sched_inv ?s"
      using pipe_woken [of ?v "readable p"] q(4) by simp_all
    have "wait_queues s (writable p) = []" using False ok by (auto simp: pipe_ok_def)
    then have "pipe_ok ?s p" unfolding pipe_ok_def w(1,2) p using q w(3) k(3) by simp
    moreover have "contents (pipes ?s p) = contents q @ take k buf"
      unfolding p using ring_fill [OF q(1), of "p_used q" "take k buf" "p_head q"] k(2,3) by (simp add: contents_def min_absorb2)
    ultimately show ?thesis using False reader run w(2) p k(1,2) by (auto simp: q_def k_def)
  qed
qed

text \<open>Closing an end wakes everyone; the pipe's object is given back to the heap with its last end.\<close>

lemma pipe_release_ok:
  assumes ok: "pipe_ok s p" and f: "f_private (files s f) = p"
    and r: "reader = (f_flags (files s f) AND O_ACCMODE \<noteq> O_RDONLY \<and> p_reader (pipes s p))"
      "writer = (f_flags (files s f) AND O_ACCMODE = O_RDONLY \<and> p_writer (pipes s p))"
  shows "\<exists>s'. pipe_release f s = (if reader \<or> writer then Some s' else kfree p s') \<and> pipe_ok s' p \<and> contents (pipes s' p) = contents (pipes s p) \<and>
    p_reader (pipes s' p) = reader \<and> p_writer (pipes s' p) = writer \<and> files s' = files s \<and> wait_queues s' (readable p) = [] \<and> wait_queues s' (writable p) = []"
proof -
  let ?u = "update_pipe p (\<lambda>x. x\<lparr>p_lock := 1\<rparr>) s"
  define q where "q = (if f_flags (files s f) AND O_ACCMODE = O_RDONLY then (pipes s p)\<lparr>p_reader := False\<rparr> else (pipes s p)\<lparr>p_writer := False\<rparr>)"
  define v where "v = (if f_flags (files s f) AND O_ACCMODE = O_RDONLY then update_pipe p (\<lambda>q. q\<lparr>p_reader := False\<rparr>) ?u else update_pipe p (\<lambda>q. q\<lparr>p_writer := False\<rparr>) ?u)"
  let ?s = "pipe_unlock p (wait_queue_wake_all (writable p) (wait_queue_wake_all (readable p) v))"
  have v: "sched_inv v" "pipes v p = q\<lparr>p_lock := 1\<rparr>" "files v = files s" using ok by (simp_all add: pipe_ok_def q_def v_def)
  have p: "pipes ?s p = q\<lparr>p_lock := 0\<rparr>" using v(2) by simp
  have w: "sched_inv ?s" "wait_queues ?s (readable p) = []" "wait_queues ?s (writable p) = []"
    using pipe_woken [OF v(1), of "readable p"] pipe_woken [OF pipe_woken(1) [OF v(1), of "readable p"], of "writable p"] by simp_all
  have "pipe_ok ?s p" unfolding pipe_ok_def p w(2,3) using w(1) ok by (simp add: pipe_ok_def q_def)
  moreover have "p_reader q = reader" "p_writer q = writer" "contents q = contents (pipes s p)" using r by (auto simp: q_def contents_def)
  moreover have "pipe_release f s = (if p_reader q \<or> p_writer q then Some ?s else kfree p ?s)"
    using v(2) f unfolding v_def by (simp add: pipe_release_def pipe_acquire_ok [OF ok] Let_def)
  ultimately show ?thesis using p w v(3) by (intro exI [of _ ?s]) (simp add: contents_def)
qed

section \<open>Runs\<close>

text \<open>
  What may happen around a pipe: a thread reads or writes through an open end, an end is closed while
  the other stays open, or the scheduler does anything that is not a wait or a wake-up of the pipe's queues.
\<close>

datatype pipe_event = Read nat "bytes outcome" | Write bytes "(errno + nat) outcome" | Close bool | Other sched_event

fun touches :: "sched_event \<Rightarrow> u64 \<Rightarrow> bool" where
  "touches (Wait r) q \<longleftrightarrow> r = q"
| "touches e q \<longleftrightarrow> wakes e q"

inductive pipe_step :: "u64 \<Rightarrow> 'a fsys_scheme \<Rightarrow> pipe_event \<Rightarrow> 'a fsys_scheme \<Rightarrow> bool" for p where
  read_end: "f_private (files s f) = p \<Longrightarrow> p_reader (pipes s p) \<Longrightarrow> \<not> t_idle (threads s (current s)) \<Longrightarrow>
    pipe_read f n s = Some (r, s') \<Longrightarrow> r = Sleeps \<and> out = Sleeps \<or> (\<exists>bs. r = Returns (Inr bs) \<and> out = Returns bs) \<Longrightarrow> pipe_step p s (Read n out) s'"
| write_end: "f_private (files s f) = p \<Longrightarrow> p_writer (pipes s p) \<Longrightarrow> \<not> t_idle (threads s (current s)) \<Longrightarrow>
    pipe_write f buf s = Some (out, s') \<Longrightarrow> pipe_step p s (Write buf out) s'"
| close_end: "f_private (files s f) = p \<Longrightarrow> reads = (f_flags (files s f) AND O_ACCMODE = O_RDONLY) \<Longrightarrow>
    (if reads then p_writer (pipes s p) else p_reader (pipes s p)) \<Longrightarrow> pipe_release f s = Some s' \<Longrightarrow> pipe_step p s (Close reads) s'"
| other_end: "sched_step s e s' \<Longrightarrow> \<not> touches e (readable p) \<Longrightarrow> \<not> touches e (writable p) \<Longrightarrow> pipes s' p = pipes s p \<Longrightarrow> pipe_step p s (Other e) s'"

inductive pipe_steps :: "u64 \<Rightarrow> 'a fsys_scheme \<Rightarrow> pipe_event list \<Rightarrow> 'a fsys_scheme \<Rightarrow> bool" for p where
  none: "pipe_steps p s [] s"
| more: "pipe_step p s e s' \<Longrightarrow> pipe_steps p s' es s'' \<Longrightarrow> pipe_steps p s (e # es) s''"

text \<open>The bytes an event takes out of the pipe and puts into it.\<close>

fun received :: "pipe_event \<Rightarrow> bytes" where
  "received (Read n (Returns bs)) = bs"
| "received e = []"

fun sent :: "pipe_event \<Rightarrow> bytes" where
  "sent (Write buf (Returns (Inr n))) = take n buf"
| "sent e = []"

lemma queue_other:
  assumes st: "sched_step s e s'" "sched_inv s" "\<not> touches e q"
  shows "wait_queues s' q = wait_queues s q"
proof (cases "switches e")
  case True
  have l: "leaves s (prep e s)" using prep_leaves [OF st(2) True] idle_step [OF st(1)] True by blast
  have d: "distinct (all_threads s)" using st(2) by (simp add: sched_inv_def threads_ok_def)
  have "wait_queues (prep e s) q = wait_queues s q"
    using True st(3) fold_wake_due [OF d, of "s\<lparr>tick_count := tick_count s + 1\<rparr>"] by (cases e) (auto simp: scheduler_block_current_def Let_def)
  then show ?thesis using switch_kept(1) [OF l step_taken [OF st(1,2) True]] by simp
next
  case False
  then show ?thesis using st wake_one_queue [OF st(2)] wake_all_queue [OF st(2)] by (auto elim!: sched_step.cases)
qed

lemma pipe_step_stream:
  assumes "pipe_step p s e s'" "pipe_ok s p"
  shows "pipe_ok s' p \<and> contents (pipes s p) @ sent e = received e @ contents (pipes s' p)"
  using assms
proof (cases rule: pipe_step.cases)
  case (read_end f n r out)
  show ?thesis
  proof (cases "n = 0")
    case True
    then show ?thesis using read_end assms(2) by (auto simp: pipe_read_def)
  next
    case False
    then show ?thesis using pipe_read_ok [OF assms(2) read_end(2) False read_end(4)] read_end by (auto split: if_splits)
  qed
next
  case (write_end f buf out)
  show ?thesis
  proof (cases "buf = []")
    case True
    then show ?thesis using write_end assms(2) by (auto simp: pipe_write_def)
  next
    case False
    then show ?thesis using pipe_write_ok [OF assms(2) write_end(2) False write_end(4)] write_end by (auto split: if_splits)
  qed
next
  case (close_end f reads)
  then show ?thesis using pipe_release_ok [OF assms(2) close_end(2) refl refl] by (auto split: if_splits)
next
  case (other_end e)
  have i: "sched_inv s" using assms(2) by (simp add: pipe_ok_def)
  show ?thesis using other_end step_inv(1) [OF other_end(2) i] queue_other [OF other_end(2) i] assms(2) by (simp add: pipe_ok_def)
qed

lemma pipe_steps_stream:
  assumes "pipe_steps p s es s'" "pipe_ok s p"
  shows "pipe_ok s' p \<and> contents (pipes s p) @ concat (map sent es) = concat (map received es) @ contents (pipes s' p)"
  using assms
proof (induction rule: pipe_steps.induct)
  case (more s e s1 es s')
  note a = pipe_step_stream [OF more(1,4)]
  have "contents (pipes s p) @ sent e @ concat (map sent es) = received e @ contents (pipes s1 p) @ concat (map sent es)" using a by (metis append_assoc)
  then show ?case using a more(3) by simp
qed simp

end
