(* ===== verification/Files_Heap.thy ===== *)
theory Files_Heap
  imports Pipe_Stream Thread_Create
begin

text \<open>
  The file layer's objects on the kernel heap: allocation and release as its clients see them, and the
  creation and release of open files and pipes without leaking an object on any path.
\<close>

section \<open>The heap's contract for clients\<close>

lemma heap_only_fsys:
  assumes "heap_only s s'"
  shows "vnodes s' = vnodes s" "nodes s' = nodes s" "mounts s' = mounts s" "next_inode s' = next_inode s" "live_files s' = live_files s"
    "files s' = files s" "pipes s' = pipes s" "uart_in s' = uart_in s" "uart_out s' = uart_out s" "wait_queues s' = wait_queues s"
  using assms by (auto simp: heap_only_def)

text \<open>At most \<open>n\<close> free pages are taken.\<close>

definition pages_within :: "nat \<Rightarrow> 'a kstate_scheme \<Rightarrow> 'b kstate_scheme \<Rightarrow> bool" where
  "pages_within n s s' \<longleftrightarrow> unat (free_pages s) \<le> unat (free_pages s') + n"

lemma kmalloc_within: "kmalloc n s = Some (r, s') \<Longrightarrow> pages_within 1 s s'"
proof -
  assume "kmalloc n s = Some (r, s')"
  then consider "free_pages s' = free_pages s" | "free_pages s' = free_pages s - 1" using kmalloc_pages by fastforce
  then show ?thesis
  proof cases
    case 2
    then show ?thesis by (cases "free_pages s = 0") (simp_all add: pages_within_def unat_minus_one)
  qed (simp add: pages_within_def)
qed

lemma kmalloc_client:
  assumes "heap_rep s P L" "n \<le> 2048"
  obtains (full) "kmalloc n s = Some (0, s)" "free_pages s = 0"
  | (object) r s' where "kmalloc n s = Some (r, s')" "r \<noteq> 0" "heap_rep s' P (insert (r, object_size n) L)" "(r, object_size n) \<notin> L" "heap_only s s'" "sstatus s' = sstatus s"
      "\<And>a k. (a, k) \<in> L \<Longrightarrow> span r (object_size n) \<inter> span a k = {}" "\<And>j. j < object_size n \<Longrightarrow> kmem s' (r + of_nat j) = 0" "pages_within 1 s s'"
proof (cases "kmalloc n s = Some (0, s) \<and> free_pages s = 0")
  case False
  then obtain r s' where r: "kmalloc n s = Some (r, s')" "allocated s P L (object_size n) r s'" using kmalloc_ok [OF assms] by blast
  have "(r, object_size n) \<notin> L" using allocated_fresh [OF r(2)] object_size_pos [OF assms(2)] by blast
  then show ?thesis using object [OF r(1)] heap_only_kmalloc [OF r(1)] kmalloc_within [OF r(1)] r(2) unfolding allocated_def by blast
qed (use full in blast)

lemma kfree_client:
  assumes "heap_rep s P L" "(a, k) \<in> L"
  obtains s' where "kfree a s = Some s'" "heap_rep s' P (L - {(a, k)})" "heap_only s s'" "sstatus s' = sstatus s"
  using kfree_ok [OF assms] heap_only_kfree that by (auto simp: released_def)

lemma heap_rep_fsys [simp]:
  fixes s :: "'a fsys_scheme"
  shows "heap_rep (s\<lparr>files := fs\<rparr>) P L = heap_rep s P L" "heap_rep (s\<lparr>pipes := ps\<rparr>) P L = heap_rep s P L" "heap_rep (s\<lparr>live_files := n\<rparr>) P L = heap_rep s P L"
    "heap_rep (s\<lparr>vnodes := vs\<rparr>) P L = heap_rep s P L" "heap_rep (s\<lparr>nodes := ns\<rparr>) P L = heap_rep s P L" "heap_rep (s\<lparr>next_inode := i\<rparr>) P L = heap_rep s P L"
    "heap_rep (s\<lparr>mounts := ms\<rparr>) P L = heap_rep s P L" "heap_rep (s\<lparr>wait_queues := wq\<rparr>) P L = heap_rep s P L"
    "heap_rep (irq_restore fl s) P L = heap_rep s P L" "heap_rep (snd (irq_save s)) P L = heap_rep s P L"
    "heap_rep (update_pipe p g s) P L = heap_rep s P L" "heap_rep (update_file f h s) P L = heap_rep s P L" "heap_rep (update_vnode v k s) P L = heap_rep s P L"
  by (rule heap_rep_cong; simp add: irq_defs update_pipe_def update_file_def update_vnode_def)+

lemma irq_fsys [simp]:
  "vnodes (irq_restore fl s) = vnodes s" "nodes (irq_restore fl s) = nodes s" "mounts (irq_restore fl s) = mounts s" "next_inode (irq_restore fl s) = next_inode s"
  "live_files (irq_restore fl s) = live_files s" "files (irq_restore fl s) = files s" "pipes (irq_restore fl s) = pipes s" "uart_in (irq_restore fl s) = uart_in s"
  "uart_out (irq_restore fl s) = uart_out s" "wait_queues (irq_restore fl s) = wait_queues s" "kmem (irq_restore fl s) = kmem s" "free_pages (irq_restore fl s) = free_pages s" "free_pages (snd (irq_save s)) = free_pages s"
  "vnodes (snd (irq_save s)) = vnodes s" "nodes (snd (irq_save s)) = nodes s" "mounts (snd (irq_save s)) = mounts s" "next_inode (snd (irq_save s)) = next_inode s"
  "live_files (snd (irq_save s)) = live_files s" "files (snd (irq_save s)) = files s" "pipes (snd (irq_save s)) = pipes s" "uart_in (snd (irq_save s)) = uart_in s"
  "uart_out (snd (irq_save s)) = uart_out s" "wait_queues (snd (irq_save s)) = wait_queues s" "kmem (snd (irq_save s)) = kmem s"
  by (simp_all add: irq_defs)

lemma heap_rep_wake_all [simp]: "heap_rep (wait_queue_wake_all q s) P L = heap_rep s P L"
  by (rule wake_all_keeps [of "\<lambda>s. heap_rep s P L"], rule heap_rep_cong)
    (simp_all add: wait_queue_wake_one_def scheduler_wake_node_def set_state_def update_thread_def Let_def split: list.split)

section \<open>Open files and pipes\<close>

definition same_tree :: "'a fsys_scheme \<Rightarrow> 'a fsys_scheme \<Rightarrow> bool" where
  "same_tree s s' \<longleftrightarrow> vnodes s' = vnodes s \<and> nodes s' = nodes s \<and> mounts s' = mounts s \<and> next_inode s' = next_inode s \<and> uart_in s' = uart_in s \<and> uart_out s' = uart_out s"

lemma wake_all_rest [simp]:
  "live_files (wait_queue_wake_all q s) = live_files s" "vnodes (wait_queue_wake_all q s) = vnodes s" "nodes (wait_queue_wake_all q s) = nodes s"
  "mounts (wait_queue_wake_all q s) = mounts s" "next_inode (wait_queue_wake_all q s) = next_inode s" "uart_in (wait_queue_wake_all q s) = uart_in s"
  "uart_out (wait_queue_wake_all q s) = uart_out s"
  by (rule wake_all_keeps; simp add: wait_queue_wake_one_def scheduler_wake_node_def set_state_def update_thread_def Let_def split: list.split)+

lemma object_sizes: "object_size file_object_size = 64" "file_object_size \<le> 2048" "object_size pipe_object_size = 1024" "pipe_object_size \<le> 2048"
  by (simp_all add: object_size_def file_object_size_def pipe_object_size_def class_sizes_def)

definition new_file :: "file_ops \<Rightarrow> u32 \<Rightarrow> open_file" where
  "new_file ops flags = \<lparr>f_ops = ops, f_node = 0, f_private = 0, f_offset = 0, f_references = 1, f_flags = flags\<rparr>"

lemma file_new_client:
  fixes s :: "'a fsys_scheme"
  assumes "heap_rep s P L"
  obtains (full) "file_new ops flags s = Some (0, s)" "free_pages s = 0"
  | (object) f s' where "file_new ops flags s = Some (f, s')" "f \<noteq> 0" "heap_rep s' P (insert (f, 64) L)" "(f, 64) \<notin> L" "\<And>a k. (a, k) \<in> L \<Longrightarrow> span f 64 \<inter> span a k = {}"
      "files s' = (files s)(f := new_file ops flags)" "live_files s' = live_files s + 1" "pipes s' = pipes s" "wait_queues s' = wait_queues s" "same_tree s s'" "sstatus s' = sstatus s" "pages_within 1 s s'"
  using assms object_sizes(2)
proof (cases rule: kmalloc_client)
  case full
  then show ?thesis using that(1) by (simp add: file_new_def)
next
  case (object f t)
  let ?t = "t\<lparr>files := (files t)(f := new_file ops flags)\<rparr>"
  let ?u = "irq_restore (fst (irq_save ?t)) ((snd (irq_save ?t))\<lparr>live_files := live_files (snd (irq_save ?t)) + 1\<rparr>)"
  note h = heap_only_fsys [OF object(5)]
  have run: "file_new ops flags s = Some (f, ?u)" using object(1,2) by (simp add: file_new_def new_file_def Let_def case_prod_beta)
  have st: "sstatus ?u = sstatus t" by (subst irq_restored) simp_all
  have "heap_rep ?u P (insert (f, 64) L)" using object(3) object_sizes(1) by simp
  moreover have "pages_within 1 s ?u" using object(9) by (simp add: pages_within_def)
  moreover have "files ?u = (files s)(f := new_file ops flags)" "live_files ?u = live_files s + 1" "pipes ?u = pipes s" "wait_queues ?u = wait_queues s" "same_tree s ?u"
    using h by (simp_all add: irq_defs same_tree_def)
  ultimately show ?thesis using that(2) [OF run object(2)] object(4,6,7) st by (simp add: object_sizes(1))
qed

text \<open>The last reference to one end of a pipe whose other end was never opened gives back both objects.\<close>

lemma file_put_end:
  fixes s :: "'a fsys_scheme"
  assumes rep: "heap_rep s P L" and L: "(f, 64) \<in> L" "(p, 1024) \<in> L" "f \<noteq> 0" and f: "files s f = (new_file pipe_ops O_RDONLY)\<lparr>f_private := p\<rparr>"
    and p: "p_lock (pipes s p) = 0" "\<not> p_writer (pipes s p)"
  shows "\<exists>s'. file_put f s = Some s' \<and> heap_rep s' P (L - {(p, 1024)} - {(f, 64)}) \<and> live_files s' = live_files s - 1 \<and> same_tree s s'"
proof -
  define u where "u = update_file f (\<lambda>x. x\<lparr>f_references := f_references x - 1\<rparr>) (snd (irq_save s))"
  have fu: "f_references (files u f) = 0" "f_ops (files u f) = pipe_ops" "f_private (files u f) = p" "f_flags (files u f) = O_RDONLY"
    using f by (simp_all add: u_def update_file_def irq_defs new_file_def)
  have hu: "heap_rep u P L" using rep by (simp add: u_def)
  have su: "pipes u = pipes s" "live_files u = live_files s" "same_tree s u" by (simp_all add: u_def irq_defs update_file_def same_tree_def)
  define v where "v = pipe_unlock p (wait_queue_wake_all (writable p) (wait_queue_wake_all (readable p) (update_pipe p (\<lambda>q. q\<lparr>p_reader := False\<rparr>) (update_pipe p (\<lambda>q. q\<lparr>p_lock := 1\<rparr>) u))))"
  have acq: "pipe_acquire p u = Some (update_pipe p (\<lambda>q. q\<lparr>p_lock := 1\<rparr>) u)" using p(1) su(1) by (simp add: pipe_acquire_def spin_lock_def)
  have rel: "pipe_release f u = kfree p v" using fu(3,4) p su(1) by (simp add: pipe_release_def acq v_def Let_def open_flags)
  have hv: "heap_rep v P L" using hu by (simp add: v_def pipe_unlock_def)
  obtain w where w: "kfree p v = Some w" "heap_rep w P (L - {(p, 1024)})" "heap_only v w" using kfree_client [OF hv L(2)] by blast
  have "(f, 64) \<in> L - {(p, 1024)}" "heap_rep (w\<lparr>live_files := live_files w - 1\<rparr>) P (L - {(p, 1024)})" using L w(2) by simp_all
  then obtain x where x: "kfree f (w\<lparr>live_files := live_files w - 1\<rparr>) = Some x" "heap_rep x P (L - {(p, 1024)} - {(f, 64)})" "heap_only (w\<lparr>live_files := live_files w - 1\<rparr>) x"
    using kfree_client by blast
  have "file_put f s = Some (irq_restore (fst (irq_save s)) x)"
    using L(3) fu(1,2) rel w(1) x(1) by (simp add: file_put_def case_prod_beta u_def [symmetric])
  moreover have v: "live_files v = live_files u" "same_tree u v" by (simp_all add: v_def pipe_unlock_def update_pipe_def same_tree_def)
  ultimately show ?thesis using x(2) heap_only_fsys [OF w(3)] heap_only_fsys [OF x(3)] su(2,3) by (simp add: same_tree_def)
qed

text \<open>The outcome of creating a pipe: two ends with one reference each, connected by an empty pipe, or nothing.\<close>

definition pipe_made :: "'a fsys_scheme \<Rightarrow> u64 set \<Rightarrow> (u64 \<times> nat) set \<Rightarrow> u64 \<Rightarrow> u64 \<Rightarrow> u64 \<Rightarrow> 'a fsys_scheme \<Rightarrow> bool" where
  "pipe_made s P L p r w s' \<longleftrightarrow> heap_rep s' P (insert (w, 64) (insert (r, 64) (insert (p, 1024) L))) \<and> r \<noteq> w \<and> r \<noteq> 0 \<and> w \<noteq> 0 \<and> (p, 1024) \<notin> L \<and> (r, 64) \<notin> L \<and> (w, 64) \<notin> L \<and>
     files s' = (files s)(r := (new_file pipe_ops O_RDONLY)\<lparr>f_private := p\<rparr>, w := (new_file pipe_ops O_WRONLY)\<lparr>f_private := p\<rparr>) \<and>
     pipes s' = (pipes s)(p := zero_pipe\<lparr>p_reader := True, p_writer := True\<rparr>) \<and> wait_queues s' = (wait_queues s)(readable p := [], writable p := []) \<and>
     live_files s' = live_files s + 2"

lemma pipe_create_ok:
  fixes s :: "'a fsys_scheme"
  assumes rep: "heap_rep s P L"
  shows "(\<exists>s'. pipe_create s = Some (Inl E_NOMEM, s') \<and> heap_rep s' P L \<and> live_files s' = live_files s \<and> same_tree s s' \<and> unat (free_pages s) \<le> 2) \<or>
    (\<exists>p r w s'. pipe_create s = Some (Inr (r, w), s') \<and> pipe_made s P L p r w s' \<and> same_tree s s')"
  using rep object_sizes(4)
proof (cases rule: kmalloc_client)
  case full
  then show ?thesis using rep by (simp add: pipe_create_def same_tree_def)
next
  case (object p s1)
  note h1 = heap_only_fsys [OF object(5)]
  let ?a = "s1\<lparr>pipes := (pipes s1)(p := zero_pipe)\<rparr>"
  have rep1: "heap_rep ?a P (insert (p, 1024) L)" using object(3) object_sizes(3) by simp
  have fresh: "(p, 1024) \<notin> L" "\<And>a k. (a, k) \<in> L \<Longrightarrow> span p 1024 \<inter> span a k = {}" using object(4,7) object_sizes(3) by simp_all
  from rep1 show ?thesis
  proof (cases rule: file_new_client [where ops = pipe_ops and flags = O_RDONLY])
    case full
    obtain s2 where s2: "kfree p ?a = Some s2" "heap_rep s2 P (insert (p, 1024) L - {(p, 1024)})" "heap_only ?a s2" using kfree_client [OF rep1, of p 1024] by blast
    moreover have "insert (p, 1024) L - {(p, 1024)} = L" using fresh by simp
    moreover have "unat (free_pages s) \<le> 2" using object(9) full(2) by (simp add: pages_within_def)
    ultimately show ?thesis using object(1,2) full h1 heap_only_fsys [OF s2(3)] by (simp add: pipe_create_def same_tree_def)
  next
    case (object r s2)
    have within: "pages_within 2 s s2" using object(12) \<open>pages_within 1 s s1\<close> by (simp add: pages_within_def)
    note p = \<open>kmalloc pipe_object_size s = Some (p, s1)\<close> \<open>p \<noteq> 0\<close>
    note r = object
    define b where "b = update_file r (\<lambda>x. x\<lparr>f_private := p\<rparr>) (wait_queue_init (writable p) (wait_queue_init (readable p) (update_pipe p (\<lambda>q. q\<lparr>p_reader := True, p_lock := spinlock_init\<rparr>) s2)))"
    have b: "heap_rep b P (insert (r, 64) (insert (p, 1024) L))" using r(3) by (simp add: b_def wait_queue_init_def)
    have bf: "files b = (files s)(r := (new_file pipe_ops O_RDONLY)\<lparr>f_private := p\<rparr>)" "pipes b = (pipes s)(p := zero_pipe\<lparr>p_reader := True\<rparr>)"
      "wait_queues b = (wait_queues s)(readable p := [], writable p := [])" "live_files b = live_files s + 1" "same_tree s b"
      using r(6-10) h1 by (auto simp: b_def update_file_def update_pipe_def wait_queue_init_def same_tree_def zero_pipe_def spinlock_init_def)
    have run: "pipe_create s = Option.bind (file_new pipe_ops O_WRONLY b) (\<lambda>(w, s). if w = 0 then Option.bind (file_put r s) (\<lambda>s. Some (Inl E_NOMEM, s))
        else Some (Inr (r, w), update_pipe p (\<lambda>q. q\<lparr>p_writer := True\<rparr>) (update_file w (\<lambda>x. x\<lparr>f_private := p\<rparr>) s)))"
      using p r(1,2) by (simp add: pipe_create_def b_def Let_def cong: if_cong)
    from b show ?thesis
    proof (cases rule: file_new_client [where ops = pipe_ops and flags = O_WRONLY])
      case full
      have "\<exists>s'. file_put r b = Some s' \<and> heap_rep s' P (insert (r, 64) (insert (p, 1024) L) - {(p, 1024)} - {(r, 64)}) \<and> live_files s' = live_files b - 1 \<and> same_tree b s'"
        by (rule file_put_end [OF b]) (use r(2) in \<open>simp_all add: bf zero_pipe_def\<close>)
      moreover have "insert (r, 64) (insert (p, 1024) L) - {(p, 1024)} - {(r, 64)} = L" using fresh(1) r(4) by auto
      moreover have "free_pages b = free_pages s2" by (simp add: b_def update_file_def update_pipe_def wait_queue_init_def)
      then have "unat (free_pages s) \<le> 2" using within full(2) by (simp add: pages_within_def)
      ultimately show ?thesis using run full(1) bf by (auto simp: same_tree_def)
    next
      case (object w s3)
      define c where "c = update_pipe p (\<lambda>q. q\<lparr>p_writer := True\<rparr>) (update_file w (\<lambda>x. x\<lparr>f_private := p\<rparr>) s3)"
      have "heap_rep c P (insert (w, 64) (insert (r, 64) (insert (p, 1024) L)))" using object(3) by (simp add: c_def)
      moreover have "r \<noteq> w" using object(4) by auto
      moreover have "files c = (files s)(r := (new_file pipe_ops O_RDONLY)\<lparr>f_private := p\<rparr>, w := (new_file pipe_ops O_WRONLY)\<lparr>f_private := p\<rparr>)"
        "pipes c = (pipes s)(p := zero_pipe\<lparr>p_reader := True, p_writer := True\<rparr>)" "wait_queues c = (wait_queues s)(readable p := [], writable p := [])"
        "live_files c = live_files s + 2" "same_tree s c"
        using object(6-10) bf by (auto simp: c_def update_file_def update_pipe_def same_tree_def)
      ultimately have "pipe_made s P L p r w c" "same_tree s c" unfolding pipe_made_def using object(2,4) r(2,4) fresh(1) by auto
      then show ?thesis using run object(1,2) by (auto simp: c_def)
    qed
  qed
qed

end
