(* ===== verification/File_Data.thy ===== *)
theory File_Data
  imports Vfs Files_Heap
begin

text \<open>
  Regular files as byte strings: what \<open>regular_pread\<close> reads and \<open>regular_write\<close> changes, page by page, is one
  sequence of bytes in which a hole reads as zeros and a write overwrites or extends.
\<close>

section \<open>The bytes of a file\<close>

definition cell :: "mem \<Rightarrow> u64 list \<Rightarrow> nat \<Rightarrow> u8" where
  "cell m blocks i = (if blocks ! (i div 4096) = 0 then 0 else m (phys_to_virt (blocks ! (i div 4096)) + of_nat (i mod 4096)))"

definition file_bytes :: "'a fsys_scheme \<Rightarrow> u64 \<Rightarrow> bytes" where
  "file_bytes s n = (let v = vnodes s n in case v_data v of Some d \<Rightarrow> take (v_size v) d | None \<Rightarrow> map (cell (kmem s) (v_blocks v)) [0..<v_size v])"

lemma part_cells:
  assumes "i < page_part off n"
  shows "(off + i) div 4096 = off div 4096" "(off + i) mod 4096 = off mod 4096 + i"
proof -
  have "off mod 4096 + i < 4096" using assms page_part_bounds(3) [of off n] by linarith
  moreover have "off + i = off div 4096 * 4096 + (off mod 4096 + i)" by simp
  ultimately show "(off + i) div 4096 = off div 4096" "(off + i) mod 4096 = off mod 4096 + i" by (metis div_mult_self3 div_less add.right_neutral zero_neq_numeral, metis mod_mult_self3 mod_less)
qed

lemma chunk_cells:
  "(if blocks ! (off div 4096) \<noteq> 0 then read_bytes m (phys_to_virt (blocks ! (off div 4096)) + of_nat (off mod 4096)) (page_part off n) else replicate (page_part off n) 0)
     = map (cell m blocks) [off..<off + page_part off n]"
  using part_cells [of _ off n] by (auto intro!: nth_equalityI simp: cell_def add.assoc)

lemma pread_cells: "pread_loop m blocks n off = map (cell m blocks) [off..<off + n]"
proof (induction m blocks n off rule: pread_loop.induct)
  case (1 m blocks n off)
  show ?case
  proof (cases "n = 0")
    case False
    have "[off..<off + n] = [off..<off + page_part off n] @ [off + page_part off n..<off + page_part off n + (n - page_part off n)]"
      using page_part_bounds(2) [of off n] upt_add_eq_append [of off "off + page_part off n" "n - page_part off n"] by simp
    then show ?thesis using 1 [OF False refl refl refl] False chunk_cells [of blocks off m n]
      by (subst pread_loop.simps) (simp add: Let_def)
  qed (simp add: pread_loop.simps)
qed

text \<open>A read returns the bytes of the file from the offset on, as many as asked for and as there are.\<close>

lemma regular_pread_bytes:
  assumes "v_type (vnodes s (f_node (files s f))) \<noteq> DT_DIR"
    and "\<And>d. v_data (vnodes s (f_node (files s f))) = Some d \<Longrightarrow> length d = v_size (vnodes s (f_node (files s f)))"
  shows "regular_pread f n off s = Inr (take n (drop off (file_bytes s (f_node (files s f)))))"
proof -
  define v where "v = vnodes s (f_node (files s f))"
  have k: "v_size v - off < n \<Longrightarrow> min n (v_size v - off) = v_size v - off" "\<not> v_size v - off < n \<Longrightarrow> min n (v_size v - off) = n" by auto
  have cells: "map g [off..<off + min n (v_size v - off)] = take n (drop off (map g [0..<v_size v]))" if "off < v_size v" for g :: "nat \<Rightarrow> u8"
    using that by (auto intro!: nth_equalityI)
  show ?thesis
  proof (cases "v_size v \<le> off")
    case True
    then show ?thesis using assms by (auto simp: regular_pread_def file_bytes_def v_def [symmetric] Let_def split: option.split)
  next
    case False
    then show ?thesis using assms cells [of "cell (kmem s) (v_blocks v)"]
      by (cases "v_size v - off < n") (auto simp: regular_pread_def file_bytes_def v_def [symmetric] Let_def pread_cells k split: option.split)
  qed
qed

section \<open>Pages of a file\<close>

definition page_free_of :: "'a fsys_scheme \<Rightarrow> u64 set \<Rightarrow> u64 \<Rightarrow> bool" where
  "page_free_of s P p \<longleftrightarrow> valid_page p \<and> p \<notin> P \<and> span (heap_classes s) 128 \<inter> span (phys_to_virt p) 4096 = {}"

definition blocks_ok :: "'a fsys_scheme \<Rightarrow> u64 set \<Rightarrow> u64 list \<Rightarrow> bool" where
  "blocks_ok s P blocks \<longleftrightarrow> length blocks = TMP_FILE_PAGES \<and> (\<forall>i<TMP_FILE_PAGES. blocks ! i \<noteq> 0 \<longrightarrow> page_free_of s P (blocks ! i)) \<and>
     (\<forall>i<TMP_FILE_PAGES. \<forall>j<TMP_FILE_PAGES. i \<noteq> j \<and> blocks ! i \<noteq> 0 \<longrightarrow> blocks ! i \<noteq> blocks ! j)"

definition file_ok :: "'a fsys_scheme \<Rightarrow> u64 set \<Rightarrow> (u64 \<times> nat) set \<Rightarrow> u64 \<Rightarrow> bool" where
  "file_ok s P L n \<longleftrightarrow> heap_rep s P L \<and> v_data (vnodes s n) = None \<and> blocks_ok s P (v_blocks (vnodes s n)) \<and> v_size (vnodes s n) \<le> tmp_file_limit \<and>
     (\<forall>i. v_size (vnodes s n) \<le> i \<and> i < tmp_file_limit \<longrightarrow> cell (kmem s) (v_blocks (vnodes s n)) i = 0)"

lemma blocks_okD:
  assumes "blocks_ok s P blocks"
  shows "length blocks = TMP_FILE_PAGES" "\<And>i. i < TMP_FILE_PAGES \<Longrightarrow> blocks ! i \<noteq> 0 \<Longrightarrow> page_free_of s P (blocks ! i)"
    "\<And>i. i < TMP_FILE_PAGES \<Longrightarrow> blocks ! i \<noteq> 0 \<Longrightarrow> valid_page (blocks ! i)"
    "\<And>i j. i < TMP_FILE_PAGES \<Longrightarrow> j < TMP_FILE_PAGES \<Longrightarrow> i \<noteq> j \<Longrightarrow> blocks ! i \<noteq> 0 \<Longrightarrow> blocks ! i \<noteq> blocks ! j"
  using assms by (auto simp: blocks_ok_def page_free_of_def)

lemma blocks_ok_cong: "heap_classes t = heap_classes s \<Longrightarrow> blocks_ok t P blocks = blocks_ok s P blocks"
  by (simp add: blocks_ok_def page_free_of_def)

lemma file_okD:
  assumes "file_ok s P L n"
  shows "heap_rep s P L" "v_data (vnodes s n) = None" "blocks_ok s P (v_blocks (vnodes s n))" "v_size (vnodes s n) \<le> tmp_file_limit"
    "\<And>i. v_size (vnodes s n) \<le> i \<Longrightarrow> i < tmp_file_limit \<Longrightarrow> cell (kmem s) (v_blocks (vnodes s n)) i = 0"
  using assms by (auto simp: file_ok_def)

lemma cell_index: "i < tmp_file_limit \<Longrightarrow> i div 4096 < TMP_FILE_PAGES" "i mod 4096 < (4096 :: nat)"
  by (simp_all add: tmp_file_limit_def TMP_FILE_PAGES_def)

text \<open>A fresh page joins the blocks; cleared, it does not change a byte of the file.\<close>

lemma blocks_grow:
  assumes b: "blocks_ok s P blocks" and i: "i < TMP_FILE_PAGES" and p: "p \<in> P" "p \<noteq> 0" "valid_page p" "span (heap_classes s) 128 \<inter> span (phys_to_virt p) 4096 = {}"
  shows "blocks_ok s (P - {p}) (blocks[i := p])"
proof -
  note o = blocks_okD [OF b]
  have np: "blocks ! j \<noteq> p" if "j < TMP_FILE_PAGES" for j using o(2) [OF that] p(1,2) by (cases "blocks ! j = 0") (auto simp: page_free_of_def)
  have "page_free_of s (P - {p}) (blocks[i := p] ! j)" if "j < TMP_FILE_PAGES" "blocks[i := p] ! j \<noteq> 0" for j
    using o(1) o(2) [OF that(1)] that p by (cases "j = i") (auto simp: page_free_of_def)
  moreover have "blocks[i := p] ! j \<noteq> blocks[i := p] ! k" if "j < TMP_FILE_PAGES" "k < TMP_FILE_PAGES" "j \<noteq> k" "blocks[i := p] ! j \<noteq> 0" for j k
    using o(1) o(4) [OF that(1,2,3)] np [OF that(1)] np [OF that(2)] that by (cases "j = i"; cases "k = i") auto
  ultimately show ?thesis using o(1) by (simp add: blocks_ok_def)
qed

lemma cells_grow:
  assumes b: "blocks_ok s P blocks" and i: "i < TMP_FILE_PAGES" "blocks ! i = 0" and p: "p \<in> P" "p \<noteq> 0" "valid_page p" and j: "j < tmp_file_limit"
  shows "cell (memset (phys_to_virt p) 0 4096 m) (blocks[i := p]) j = cell m blocks j"
proof (cases "j div 4096 = i")
  case True
  then show ?thesis using i blocks_okD(1) [OF b] memset_inside [of "j mod 4096" 4096 "phys_to_virt p" 0 m] p(2) by (simp add: cell_def)
next
  case False
  have "memset (phys_to_virt p) 0 4096 m (phys_to_virt q + of_nat (j mod 4096)) = m (phys_to_virt q + of_nat (j mod 4096))" if "page_free_of s P q" for q
  proof -
    have "valid_page q" "q \<noteq> p" using that p(1) by (auto simp: page_free_of_def)
    moreover have "phys_to_virt q + of_nat (j mod 4096) \<in> span (phys_to_virt q) 4096" using cell_index(2) by (auto simp: span_def)
    ultimately have "phys_to_virt q + of_nat (j mod 4096) \<notin> span (phys_to_virt p) 4096" using pages_apart [of q p] p(3) by blast
    then show ?thesis using agree_writes(4) [of 4096 "phys_to_virt p" m 0] by (simp add: agree_def)
  qed
  then show ?thesis using False blocks_okD(2) [OF b cell_index(1) [OF j]] by (auto simp: cell_def)
qed

lemma write_bytes_inside: "k < length bs \<Longrightarrow> length bs \<le> 4096 \<Longrightarrow> write_bytes m a bs (a + of_nat k) = bs ! k"
  by (simp add: write_bytes_def unat_of_nat_small)

text \<open>A store inside one page of a file changes exactly the bytes it covers.\<close>

lemma cell_write:
  assumes b: "blocks_ok s P blocks"
    and off: "off < tmp_file_limit" "blocks ! (off div 4096) \<noteq> 0" "off mod 4096 + length bs \<le> 4096" and j: "j < tmp_file_limit"
  shows "cell (write_bytes m (phys_to_virt (blocks ! (off div 4096)) + of_nat (off mod 4096)) bs) blocks j =
    (if off \<le> j \<and> j < off + length bs then bs ! (j - off) else cell m blocks j)"
proof -
  let ?p = "blocks ! (off div 4096)" and ?q = "blocks ! (j div 4096)"
  let ?m = "write_bytes m (phys_to_virt ?p + of_nat (off mod 4096)) bs"
  note v = blocks_okD(3) [OF b] and d = blocks_okD(4) [OF b] and idx = cell_index(1) [OF off(1)] cell_index(1) [OF j]
  have jm: "j mod 4096 < 4096" by simp
  have out: "?m (phys_to_virt ?q + of_nat (j mod 4096)) = m (phys_to_virt ?q + of_nat (j mod 4096))"
    if "?q \<noteq> 0" "?p \<noteq> ?q \<or> j mod 4096 < off mod 4096 \<or> off mod 4096 + length bs \<le> j mod 4096"
  proof -
    have "span (phys_to_virt ?p + of_nat (off mod 4096)) (length bs) \<inter> span (phys_to_virt ?q + of_nat (j mod 4096)) 1 = {}"
      by (rule page_spans) (use v idx off(2,3) jm that in auto)
    then have "phys_to_virt ?q + of_nat (j mod 4096) \<notin> span (phys_to_virt ?p + of_nat (off mod 4096)) (length bs)" by (auto simp: span_def)
    then show ?thesis using agree_write_bytes [of "phys_to_virt ?p + of_nat (off mod 4096)" bs m] by (simp add: agree_def)
  qed
  show ?thesis
  proof (cases "off div 4096 = j div 4096")
    case True
    have e: "off \<le> j \<and> j < off + length bs \<longleftrightarrow> off mod 4096 \<le> j mod 4096 \<and> j mod 4096 < off mod 4096 + length bs" "off mod 4096 \<le> j mod 4096 \<Longrightarrow> j - off = j mod 4096 - off mod 4096"
      using True div_mult_mod_eq [of off 4096] div_mult_mod_eq [of j 4096] by linarith+
    have "?m (phys_to_virt ?p + of_nat (j mod 4096)) = bs ! (j - off)" if "off mod 4096 \<le> j mod 4096" "j mod 4096 < off mod 4096 + length bs"
    proof -
      have "j mod 4096 - off mod 4096 < length bs" using that by linarith
      from write_bytes_inside [OF this, of m "phys_to_virt ?p + of_nat (off mod 4096)"] show ?thesis using that(1) off(3) e(2) by (simp add: of_nat_diff)
    qed
    then show ?thesis using True off(2) e(1) out by (auto simp: cell_def not_le)
  next
    case False
    have "\<not> (off \<le> j \<and> j < off + length bs)"
    proof
      assume r: "off \<le> j \<and> j < off + length bs"
      then have "j < (off div 4096 + 1) * 4096" using off(3) div_mult_mod_eq [of off 4096] by (simp only: distrib_right) linarith
      then have "j div 4096 < off div 4096 + 1" by (rule less_mult_imp_div_less)
      moreover have "off div 4096 \<le> j div 4096" using r by (intro div_le_mono) simp
      ultimately show False using False by simp
    qed
    moreover have "?p \<noteq> ?q" by (rule d) (use idx False off(2) in auto)
    ultimately show ?thesis using out by (auto simp: cell_def)
  qed
qed

section \<open>One page of a write\<close>

text \<open>What a write leaves alone: everything but memory, the page allocator, one node and one open file.\<close>

definition write_keeps :: "u64 \<Rightarrow> u64 \<Rightarrow> 'a fsys_scheme \<Rightarrow> 'a fsys_scheme \<Rightarrow> bool" where
  "write_keeps f n s s' \<longleftrightarrow> (\<forall>x. x \<noteq> n \<longrightarrow> vnodes s' x = vnodes s x) \<and> (\<forall>x. x \<noteq> f \<longrightarrow> files s' x = files s x) \<and> f_node (files s' f) = f_node (files s f) \<and>
     mounts s' = mounts s \<and> pipes s' = pipes s \<and> nodes s' = nodes s \<and> v_type (vnodes s' n) = v_type (vnodes s n) \<and> heap_classes s' = heap_classes s"

lemma write_keeps_trans: "write_keeps f n s t \<Longrightarrow> write_keeps f n t u \<Longrightarrow> write_keeps f n s u"
  by (simp add: write_keeps_def)

text \<open>No page in use elsewhere is written: only pages of the file and pages taken from the pool \<open>P\<close>.\<close>

definition pages_kept :: "u64 set \<Rightarrow> u64 \<Rightarrow> 'a fsys_scheme \<Rightarrow> 'a fsys_scheme \<Rightarrow> bool" where
  "pages_kept P n s s' \<longleftrightarrow> set (v_blocks (vnodes s' n)) \<subseteq> set (v_blocks (vnodes s n)) \<union> P \<and>
     (\<forall>p. valid_page p \<and> p \<notin> P \<and> p \<notin> set (v_blocks (vnodes s n)) \<longrightarrow> (\<forall>k<4096. kmem s' (phys_to_virt p + of_nat k) = kmem s (phys_to_virt p + of_nat k)))"

lemma pages_kept_refl: "pages_kept P n s s"
  by (simp add: pages_kept_def)

lemma pages_kept_trans:
  assumes "pages_kept P n s t" "pages_kept P' n t u" "P' \<subseteq> P"
  shows "pages_kept P n s u"
proof -
  have b: "set (v_blocks (vnodes t n)) \<subseteq> set (v_blocks (vnodes s n)) \<union> P" "set (v_blocks (vnodes u n)) \<subseteq> set (v_blocks (vnodes t n)) \<union> P'"
    using assms(1,2) by (simp_all add: pages_kept_def)
  have "kmem u (phys_to_virt p + of_nat k) = kmem s (phys_to_virt p + of_nat k)"
    if "valid_page p" "p \<notin> P" "p \<notin> set (v_blocks (vnodes s n))" "k < 4096" for p k
  proof -
    have "p \<notin> P'" "p \<notin> set (v_blocks (vnodes t n))" using that b(1) assms(3) by auto
    then show ?thesis using assms(1,2) that unfolding pages_kept_def by simp
  qed
  then show ?thesis using b assms(3) unfolding pages_kept_def by blast
qed

lemma page_alloc_fsys:
  fixes s :: "'a fsys_scheme"
  shows "vnodes (snd (page_alloc s)) = vnodes s" "files (snd (page_alloc s)) = files s" "mounts (snd (page_alloc s)) = mounts s" "pipes (snd (page_alloc s)) = pipes s"
  "nodes (snd (page_alloc s)) = nodes s" "heap_classes (snd (page_alloc s)) = heap_classes s"
  by (rule heap_only_fsys [OF heap_only_page_alloc] heap_only_kernel(9) [OF heap_only_page_alloc])+

text \<open>Getting the block of a file costs at most one page and changes no byte of it and of any page in use.\<close>

definition same_bytes :: "u64 \<Rightarrow> 'a fsys_scheme \<Rightarrow> 'a fsys_scheme \<Rightarrow> bool" where
  "same_bytes n s s' \<longleftrightarrow> v_size (vnodes s' n) = v_size (vnodes s n) \<and>
     (\<forall>j<tmp_file_limit. cell (kmem s') (v_blocks (vnodes s' n)) j = cell (kmem s) (v_blocks (vnodes s n)) j)"

lemma file_block_new:
  fixes s t :: "'a fsys_scheme"
  assumes ok: "file_ok s P L n" and i: "i < TMP_FILE_PAGES" "v_blocks (vnodes s n) ! i = 0"
    and p: "page_alloc s = (p, t)" "p \<in> P" "valid_page p" "p \<noteq> 0" "heap_rep t (P - {p}) L" "kmem t = kmem s"
  defines "s' \<equiv> (update_vnode n (\<lambda>v. v\<lparr>v_blocks := (v_blocks v)[i := p]\<rparr>) t)\<lparr>kmem := memset (phys_to_virt p) 0 4096 (kmem s)\<rparr>"
  shows "file_block n i s = (p, s')" "v_blocks (vnodes s' n) ! i = p" "file_ok s' (P - {p}) L n" "same_bytes n s s'" "files s' = files s" "write_keeps f n s s'" "pages_kept P n s s'"
proof -
  note o = file_okD [OF ok] and ft = page_alloc_fsys [of s, unfolded p(1) snd_conv]
  have v: "vnodes s' = (vnodes s)(n := (vnodes s n)\<lparr>v_blocks := (v_blocks (vnodes s n))[i := p]\<rparr>)" using ft by (simp add: update_vnode_def s'_def)
  show "file_block n i s = (p, s')" using i(2) p(1,4,6) by (simp add: file_block_def s'_def update_vnode_def)
  show "v_blocks (vnodes s' n) ! i = p" using blocks_okD(1) [OF o(3)] i(1) by (simp add: v)
  show "files s' = files s" "write_keeps f n s s'" using ft v by (simp_all add: s'_def update_vnode_def write_keeps_def)
  have "kmem s' (phys_to_virt q + of_nat k) = kmem s (phys_to_virt q + of_nat k)" if "valid_page q" "q \<notin> P" "k < 4096" for q k
  proof -
    have "phys_to_virt q + of_nat k \<in> span (phys_to_virt q) 4096" "q \<noteq> p" using that p(2) by (auto simp: span_def)
    then have "phys_to_virt q + of_nat k \<notin> span (phys_to_virt p) 4096" using pages_apart [OF that(1) p(3)] by blast
    then show ?thesis using agree_writes(4) [of 4096 "phys_to_virt p" "kmem s" 0] by (simp add: agree_def s'_def)
  qed
  moreover have "set (v_blocks (vnodes s' n)) \<subseteq> set (v_blocks (vnodes s n)) \<union> P" using set_update_subset_insert p(2) by (fastforce simp: v)
  ultimately show "pages_kept P n s s'" by (simp add: pages_kept_def)
  show same: "same_bytes n s s'" unfolding same_bytes_def v using cells_grow [OF o(3) i p(2,4,3)] by (simp add: s'_def)
  have "heap_rep (t\<lparr>kmem := memset (phys_to_virt p) 0 4096 (kmem s)\<rparr>) (P - {p}) L"
    by (rule heap_rep_store [OF p(5), of "span (phys_to_virt p) 4096"])
      (use ft(6) p(3,6) agree_writes(4) [of 4096 "phys_to_virt p" "kmem s" 0] heap_rep_pages [OF o(1)] p(2) pages_apart [of _ p] in auto)
  moreover have "heap_rep s' (P - {p}) L = heap_rep (t\<lparr>kmem := memset (phys_to_virt p) 0 4096 (kmem s)\<rparr>) (P - {p}) L"
    by (rule heap_rep_cong) (simp_all add: update_vnode_def s'_def)
  moreover have "blocks_ok s' (P - {p}) ((v_blocks (vnodes s n))[i := p])"
    using blocks_grow [OF o(3) i(1) p(2,4,3) heap_rep_pages(2) [OF o(1) p(2)]] ft(6) blocks_ok_cong [of s' s] by (simp add: s'_def update_vnode_def)
  ultimately show "file_ok s' (P - {p}) L n" unfolding file_ok_def using same o(2,4,5) by (simp add: v same_bytes_def)
qed

lemma file_block_ok:
  fixes s :: "'a fsys_scheme"
  assumes ok: "file_ok s P L n" and i: "i < TMP_FILE_PAGES"
  obtains (full) "file_block n i s = (0, s)" "free_pages s = 0"
  | (block) page s' P' where "file_block n i s = (page, s')" "page \<noteq> 0" "v_blocks (vnodes s' n) ! i = page" "file_ok s' P' L n" "P' \<subseteq> P"
      "same_bytes n s s'" "files s' = files s" "write_keeps f n s s'" "pages_kept P n s s'"
proof (cases "v_blocks (vnodes s n) ! i = 0")
  case False
  show ?thesis by (rule block [of "v_blocks (vnodes s n) ! i" s P]) (use False ok in \<open>auto simp: file_block_def write_keeps_def same_bytes_def pages_kept_refl\<close>)
next
  case True
  note o = file_okD [OF ok]
  consider "page_alloc s = (0, s)" "free_pages s = 0"
    | p t where "page_alloc s = (p, t)" "p \<in> P" "valid_page p" "p \<noteq> 0" "heap_rep t (P - {p}) L" "kmem t = kmem s"
    using heap_rep_page_alloc [OF o(1)] by blast
  then show ?thesis
  proof cases
    case 1
    have "(v_blocks (vnodes s n))[i := 0] = v_blocks (vnodes s n)" using True blocks_okD(1) [OF o(3)] i by (metis list_update_id)
    then have "update_vnode n (\<lambda>v. v\<lparr>v_blocks := (v_blocks v)[i := 0]\<rparr>) s = s" by (simp add: update_vnode_def)
    then show ?thesis using full 1 True by (simp add: file_block_def)
  next
    case (2 p t)
    note b = file_block_new [OF ok i True 2]
    show ?thesis by (rule block [OF b(1) 2(4) b(2,3) _ b(4-7)]) auto
  qed
qed

section \<open>A whole write\<close>

definition patched :: "(nat \<Rightarrow> u8) \<Rightarrow> nat \<Rightarrow> bytes \<Rightarrow> nat \<Rightarrow> u8" where
  "patched g off bs j = (if off \<le> j \<and> j < off + length bs then bs ! (j - off) else g j)"

definition write_chunk :: "u64 \<Rightarrow> u64 \<Rightarrow> bytes \<Rightarrow> 'a fsys_scheme \<Rightarrow> 'a fsys_scheme" where
  "write_chunk f page bs s =
     (let off = f_offset (files s f); node = f_node (files s f);
          s = s\<lparr>kmem := write_bytes (kmem s) (phys_to_virt page + of_nat (off mod 4096)) bs\<rparr>;
          s = update_file f (\<lambda>x. x\<lparr>f_offset := f_offset x + length bs\<rparr>) s
      in if f_offset (files s f) > v_size (vnodes s node) then update_vnode node (\<lambda>v. v\<lparr>v_size := f_offset (files s f)\<rparr>) s else s)"

lemma write_chunk_ok:
  fixes s :: "'a fsys_scheme"
  assumes ok: "file_ok s P L n" and f: "f_node (files s f) = n" "off = f_offset (files s f)" "off < tmp_file_limit" and page: "page \<noteq> 0" "v_blocks (vnodes s n) ! (off div 4096) = page"
    and bs: "off mod 4096 + length bs \<le> 4096" and s': "s' = write_chunk f page bs s"
  shows "file_ok s' P L n" "f_offset (files s' f) = off + length bs" "v_size (vnodes s' n) = max (v_size (vnodes s n)) (off + length bs)" "write_keeps f n s s'"
    "\<And>j. j < tmp_file_limit \<Longrightarrow> cell (kmem s') (v_blocks (vnodes s' n)) j = patched (cell (kmem s) (v_blocks (vnodes s n))) off bs j" "pages_kept P n s s'"
proof -
  note o = file_okD [OF ok]
  define m where "m = write_bytes (kmem s) (phys_to_virt page + of_nat (off mod 4096)) bs"
  have e: "kmem s' = m" "vnodes s' = (vnodes s)(n := (vnodes s n)\<lparr>v_size := max (v_size (vnodes s n)) (off + length bs)\<rparr>)"
    "files s' = (files s)(f := (files s f)\<lparr>f_offset := off + length bs\<rparr>)" "heap_classes s' = heap_classes s" "mounts s' = mounts s" "pipes s' = pipes s" "nodes s' = nodes s"
    "free_list s' = free_list s" "free_pages s' = free_pages s" "heap_lock s' = heap_lock s"
    using f by (auto simp: s' write_chunk_def Let_def update_file_def update_vnode_def m_def max_def)
  show "f_offset (files s' f) = off + length bs" "v_size (vnodes s' n) = max (v_size (vnodes s n)) (off + length bs)" "write_keeps f n s s'"
    using e f(1) by (auto simp: write_keeps_def)
  have cells: "cell m (v_blocks (vnodes s n)) j = patched (cell (kmem s) (v_blocks (vnodes s n))) off bs j" if "j < tmp_file_limit" for j
    using cell_write [OF o(3) f(3) _ bs that, of "kmem s"] page by (simp add: m_def patched_def)
  then show "cell (kmem s') (v_blocks (vnodes s' n)) j = patched (cell (kmem s) (v_blocks (vnodes s n))) off bs j" if "j < tmp_file_limit" for j using that e by simp
  have idx: "off div 4096 < TMP_FILE_PAGES" by (rule cell_index(1) [OF f(3)])
  have pf: "page_free_of s P page" using blocks_okD(2) [OF o(3) idx] page by simp
  have "agree (span (phys_to_virt page) 4096) (kmem s) m"
    unfolding m_def by (rule agree_mono [OF agree_write_bytes span_mono [OF bs]])
  then have kept: "m (phys_to_virt q + of_nat k) = kmem s (phys_to_virt q + of_nat k)" if "valid_page q" "q \<noteq> page" "k < 4096" for q k
  proof -
    have "phys_to_virt q + of_nat k \<in> span (phys_to_virt q) 4096" using that(3) by (auto simp: span_def)
    then have "phys_to_virt q + of_nat k \<notin> span (phys_to_virt page) 4096" using pages_apart [OF that(1) _ that(2)] pf by (auto simp: page_free_of_def)
    then show ?thesis using \<open>agree (span (phys_to_virt page) 4096) (kmem s) m\<close> by (simp add: agree_def)
  qed
  have "page \<in> set (v_blocks (vnodes s n))" using page(2) idx blocks_okD(1) [OF o(3)] nth_mem by fastforce
  then show "pages_kept P n s s'" using kept e by (auto simp: pages_kept_def)
  from \<open>agree (span (phys_to_virt page) 4096) (kmem s) m\<close> have "heap_rep (s\<lparr>kmem := m\<rparr>) P L"
    by (rule heap_rep_store [OF o(1)]) (use pf heap_rep_pages(1) [OF o(1)] pages_apart [of _ page] in \<open>auto simp: page_free_of_def\<close>)
  moreover have "heap_rep s' P L = heap_rep (s\<lparr>kmem := m\<rparr>) P L" by (rule heap_rep_cong) (simp_all add: e)
  moreover have "off + length bs \<le> tmp_file_limit"
  proof -
    have "off + length bs \<le> (off div 4096 + 1) * 4096" using bs div_mult_mod_eq [of off 4096] unfolding distrib_right mult_1 by linarith
    also have "\<dots> \<le> TMP_FILE_PAGES * 4096" using idx by (intro mult_le_mono1) simp
    finally show ?thesis by (simp add: tmp_file_limit_def)
  qed
  ultimately show "file_ok s' P L n" unfolding file_ok_def e using o cells blocks_ok_cong [OF e(4)] by (simp add: patched_def)
qed

lemma file_block_files: "files (snd (file_block n i s)) = files s"
  using page_alloc_fsys(2) [of s] by (simp add: file_block_def Let_def case_prod_beta update_vnode_def)

lemma write_loop_chunk:
  fixes s :: "'a fsys_scheme"
  assumes "buf \<noteq> []" "f_offset (files s f) < tmp_file_limit" and fb: "file_block (f_node (files s f)) (f_offset (files s f) div 4096) s = (page, t)"
    and k: "k = page_part (f_offset (files s f)) (length buf)"
  shows "write_loop f buf written s =
    (if page = 0 then (if written \<noteq> 0 then Inr written else Inl E_NOMEM, t) else write_loop f (drop k buf) (written + k) (write_chunk f page (take k buf) t))"
proof -
  have t: "files t = files s" using file_block_files [of "f_node (files s f)" "f_offset (files s f) div 4096" s] fb by simp
  have "min (length buf) k = k" using page_part_bounds(2) k by (simp add: min_absorb2)
  then show ?thesis using assms(1,2) fb unfolding write_loop.simps [of f buf written s] k [symmetric]
    by (simp add: Let_def write_chunk_def t k [symmetric])
qed

lemma patched_append:
  "patched (patched g off as) (off + length as) bs j = patched g off (as @ bs) j"
  by (auto simp: patched_def nth_append)

text \<open>The outcome of writing \<open>buf\<close> at \<open>off\<close>: \<open>k\<close> bytes are written, all that fit unless the pages run out.\<close>

definition written_ok :: "u64 \<Rightarrow> u64 \<Rightarrow> bytes \<Rightarrow> nat \<Rightarrow> nat \<Rightarrow> 'a fsys_scheme \<Rightarrow> u64 set \<Rightarrow> (u64 \<times> nat) set \<Rightarrow> 'a fsys_scheme \<Rightarrow> bool" where
  "written_ok f n buf off k s P L s' \<longleftrightarrow> (\<exists>P'. file_ok s' P' L n \<and> P' \<subseteq> P) \<and> write_keeps f n s s' \<and> pages_kept P n s s' \<and> f_offset (files s' f) = off + k \<and>
     v_size (vnodes s' n) = (if k = 0 then v_size (vnodes s n) else max (v_size (vnodes s n)) (off + k)) \<and>
     (\<forall>j<tmp_file_limit. cell (kmem s') (v_blocks (vnodes s' n)) j = patched (cell (kmem s) (v_blocks (vnodes s n))) off (take k buf) j) \<and>
     k \<le> min (length buf) (tmp_file_limit - off) \<and> (k = min (length buf) (tmp_file_limit - off) \<or> free_pages s' = 0)"

lemma written_okD:
  assumes "written_ok f n buf off k s P L s'"
  shows "\<exists>P'. file_ok s' P' L n \<and> P' \<subseteq> P" "write_keeps f n s s'" "f_offset (files s' f) = off + k"
    "v_size (vnodes s' n) = (if k = 0 then v_size (vnodes s n) else max (v_size (vnodes s n)) (off + k))"
    "\<forall>j<tmp_file_limit. cell (kmem s') (v_blocks (vnodes s' n)) j = patched (cell (kmem s) (v_blocks (vnodes s n))) off (take k buf) j"
    "k \<le> min (length buf) (tmp_file_limit - off)" "k = min (length buf) (tmp_file_limit - off) \<or> free_pages s' = 0" "pages_kept P n s s'"
  using assms unfolding written_ok_def by argo+

lemma written_ok_step:
  fixes s :: "'a fsys_scheme"
  assumes P: "P1 \<subseteq> P" and st: "same_bytes n s t" "write_keeps f n s t" and kept: "pages_kept P n s t" "pages_kept P1 n t u" and tu: "write_keeps f n t u" "f_offset (files u f) = off + part" "v_size (vnodes u n) = max (v_size (vnodes t n)) (off + part)"
    "\<And>j. j < tmp_file_limit \<Longrightarrow> cell (kmem u) (v_blocks (vnodes u n)) j = patched (cell (kmem t) (v_blocks (vnodes t n))) off (take part buf) j"
    and k: "written_ok f n (drop part buf) (off + part) k u P1 L s'" and part: "0 < part" "part \<le> length buf" "off + part \<le> tmp_file_limit"
  shows "written_ok f n buf off (part + k) s P L s'"
proof -
  obtain P' where P': "file_ok s' P' L n" "P' \<subseteq> P1" using written_okD(1) [OF k] by blast
  have "pages_kept P n s s'" by (rule pages_kept_trans [OF pages_kept_trans [OF kept P] written_okD(8) [OF k] P])
  moreover have w: "write_keeps f n u s'" "f_offset (files s' f) = off + part + k"
    "v_size (vnodes s' n) = (if k = 0 then v_size (vnodes u n) else max (v_size (vnodes u n)) (off + part + k))"
    by (rule written_okD [OF k])+
  have c: "\<forall>j<tmp_file_limit. cell (kmem s') (v_blocks (vnodes s' n)) j = patched (cell (kmem u) (v_blocks (vnodes u n))) (off + part) (take k (drop part buf)) j"
    "k \<le> min (length (drop part buf)) (tmp_file_limit - (off + part))" "k = min (length (drop part buf)) (tmp_file_limit - (off + part)) \<or> free_pages s' = 0"
    by (rule written_okD [OF k])+
  have ts: "v_size (vnodes t n) = v_size (vnodes s n)" "\<And>j. j < tmp_file_limit \<Longrightarrow> cell (kmem t) (v_blocks (vnodes t n)) j = cell (kmem s) (v_blocks (vnodes s n)) j"
    using st(1) by (simp_all add: same_bytes_def)
  moreover have "cell (kmem s') (v_blocks (vnodes s' n)) j = patched (cell (kmem s) (v_blocks (vnodes s n))) off (take (part + k) buf) j" if "j < tmp_file_limit" for j
  proof -
    have "cell (kmem u) (v_blocks (vnodes u n)) j = patched (cell (kmem s) (v_blocks (vnodes s n))) off (take part buf) j"
      using tu(4) [OF that] ts(2) [OF that] by (simp add: patched_def)
    then have "cell (kmem s') (v_blocks (vnodes s' n)) j = patched (patched (cell (kmem s) (v_blocks (vnodes s n))) off (take part buf)) (off + part) (take k (drop part buf)) j"
      using c(1) that by (simp add: patched_def [of _ "off + part"])
    then show ?thesis using patched_append [of "cell (kmem s) (v_blocks (vnodes s n))" off "take part buf" "take k (drop part buf)" j] part(2)
      by (simp add: take_add min_absorb2)
  qed
  moreover have "v_size (vnodes s' n) = (if part + k = 0 then v_size (vnodes s n) else max (v_size (vnodes s n)) (off + (part + k)))"
    using w(3) tu(3) ts(1) part(1) by (auto simp: max_def)
  moreover have m: "min (length buf) (tmp_file_limit - off) = part + min (length (drop part buf)) (tmp_file_limit - (off + part))" using part(2,3) by simp
  have "part + k \<le> min (length buf) (tmp_file_limit - off)" "part + k = min (length buf) (tmp_file_limit - off) \<or> free_pages s' = 0" using c(2,3) unfolding m by auto
  ultimately show ?thesis
    unfolding written_ok_def using write_keeps_trans [OF write_keeps_trans [OF st(2) tu(1)] w(1)] w(2) P' P by (simp add: add.assoc) (metis order_trans)
qed

lemma write_loop_ok:
  fixes s :: "'a fsys_scheme"
  assumes "file_ok s P L n" "f_node (files s f) = n"
  shows "\<exists>k s'. written_ok f n buf (f_offset (files s f)) k s P L s' \<and>
    write_loop f buf written s = (if written + k = 0 \<and> k < min (length buf) (tmp_file_limit - f_offset (files s f)) then Inl E_NOMEM else Inr (written + k), s')"
  using assms
proof (induction "length buf" arbitrary: buf written s P rule: less_induct)
  case less
  define off where "off = f_offset (files s f)"
  show ?case
  proof (cases "buf = [] \<or> off \<ge> tmp_file_limit")
    case True
    then have "write_loop f buf written s = (Inr written, s)" by (simp add: write_loop.simps [of f buf] off_def Let_def)
    moreover have "written_ok f n buf off 0 s P L s" using less(2,3) True by (auto simp: written_ok_def write_keeps_def patched_def off_def pages_kept_refl)
    ultimately show ?thesis using True by (intro exI [of _ 0] exI [of _ s]) (auto simp: off_def)
  next
    case False
    then have off: "off < tmp_file_limit" "buf \<noteq> []" by auto
    define part where "part = page_part off (length buf)"
    have part: "0 < part" "part \<le> length buf" "off mod 4096 + part \<le> 4096" using page_part_bounds(1) [of "length buf" off] page_part_bounds(2,3) [of off "length buf"] off(2) by (auto simp: part_def)
    show ?thesis
      using less(2) cell_index(1) [OF off(1)]
    proof (cases rule: file_block_ok [where f = f])
      case full
      then have "write_loop f buf written s = (if written \<noteq> 0 then Inr written else Inl E_NOMEM, s)"
        using write_loop_chunk [OF off(2), of s f 0 s] off(1) less(3) by (simp add: off_def)
      moreover have "written_ok f n buf off 0 s P L s" using full(2) less(2) by (auto simp: written_ok_def write_keeps_def patched_def off_def pages_kept_refl)
      ultimately show ?thesis using off by (intro exI [of _ 0] exI [of _ s]) (auto simp: off_def)
    next
      case (block page t P1)
      define u where "u = write_chunk f page (take part buf) t"
      have run: "write_loop f buf written s = write_loop f (drop part buf) (written + part) u"
        using write_loop_chunk [OF off(2), of s f page t part written] off(1) block(1,2) less(3) by (simp add: off_def part_def u_def)
      have w: "file_ok u P1 L n" "f_offset (files u f) = off + part" "v_size (vnodes u n) = max (v_size (vnodes t n)) (off + part)" "write_keeps f n t u"
        "\<And>j. j < tmp_file_limit \<Longrightarrow> cell (kmem u) (v_blocks (vnodes u n)) j = patched (cell (kmem t) (v_blocks (vnodes t n))) off (take part buf) j" "pages_kept P1 n t u"
        using write_chunk_ok [OF block(4), of f off page "take part buf" u] block(2,3,7) less(3) off(1) part by (auto simp: off_def u_def min_absorb2)
      have node: "f_node (files u f) = n" using w(4) block(7) less(3) by (simp add: write_keeps_def)
      have shorter: "length (drop part buf) < length buf" using part(1,2) by simp
      obtain k s' where k: "written_ok f n (drop part buf) (off + part) k u P1 L s'"
        "write_loop f (drop part buf) (written + part) u = (Inr (written + part + k), s')"
        using less(1) [OF shorter w(1) node, of "written + part"] w(2) part(1) by auto
      have lim: "off + part \<le> tmp_file_limit" using file_okD(4) [OF w(1)] w(3) by simp
      have "written_ok f n buf off (part + k) s P L s'"
        by (rule written_ok_step [OF block(5,6,8,9) w(6,4,2,3,5) k(1) part(1,2) lim])
      then show ?thesis using run k(2) part(1) by (intro exI [of _ "part + k"] exI [of _ s']) (simp add: off_def add.assoc)
    qed
  qed
qed

section \<open>Writes as operations on byte strings\<close>

definition overwrite :: "bytes \<Rightarrow> nat \<Rightarrow> bytes \<Rightarrow> bytes" where
  "overwrite xs off bs = take off (xs @ replicate (off - length xs) 0) @ bs @ drop (off + length bs) xs"

lemma overwrite_length: "length (overwrite xs off bs) = max (length xs) (off + length bs)"
  by (auto simp: overwrite_def)

lemma overwrite_nth:
  "j < max (length xs) (off + length bs) \<Longrightarrow> overwrite xs off bs ! j = patched (\<lambda>j. if j < length xs then xs ! j else 0) off bs j"
proof -
  assume "j < max (length xs) (off + length bs)"
  moreover have "length (take off (xs @ replicate (off - length xs) 0)) = off" by simp
  ultimately show ?thesis unfolding overwrite_def patched_def nth_append [of "take off _"] by (auto simp: nth_append)
qed

lemma patched_Nil [simp]: "patched g off [] j = g j"
  by (auto simp: patched_def)

lemma written_bytes:
  assumes w: "written_ok f n buf off k s P L s'" and ok: "file_ok s P L n"
  shows "file_bytes s' n = (if k = 0 then file_bytes s n else overwrite (file_bytes s n) off (take k buf))"
proof -
  note o = file_okD [OF ok] and c = written_okD [OF w]
  have k: "length (take k buf) = k" using c(6) by simp
  have lim: "v_size (vnodes s' n) \<le> tmp_file_limit" "v_data (vnodes s' n) = None" using c(1) file_okD(2,4) by blast+
  have old: "length (file_bytes s n) = v_size (vnodes s n)" "\<And>j. j < v_size (vnodes s n) \<Longrightarrow> file_bytes s n ! j = cell (kmem s) (v_blocks (vnodes s n)) j"
    using o(2) by (simp_all add: file_bytes_def Let_def)
  have new: "length (file_bytes s' n) = v_size (vnodes s' n)" "\<And>j. j < v_size (vnodes s' n) \<Longrightarrow> file_bytes s' n ! j = cell (kmem s') (v_blocks (vnodes s' n)) j"
    using lim(2) by (simp_all add: file_bytes_def Let_def)
  have same: "patched (\<lambda>j. if j < length (file_bytes s n) then file_bytes s n ! j else 0) off (take k buf) j = patched (cell (kmem s) (v_blocks (vnodes s n))) off (take k buf) j"
    if "j < tmp_file_limit" for j
    using o(5) [of j] that old by (auto simp: patched_def not_less)
  show ?thesis
  proof (cases "k = 0")
    case True
    have "file_bytes s' n = file_bytes s n"
    proof (rule nth_equalityI)
      show "length (file_bytes s' n) = length (file_bytes s n)" using c(4) True old(1) new(1) by simp
      fix j assume "j < length (file_bytes s' n)"
      then have j: "j < v_size (vnodes s n)" "j < v_size (vnodes s' n)" "j < tmp_file_limit" using new(1) c(4) True lim(1) by simp_all
      show "file_bytes s' n ! j = file_bytes s n ! j" unfolding new(2) [OF j(2)] old(2) [OF j(1)] using c(5) j(3) True by simp
    qed
    then show ?thesis using True by simp
  next
    case False
    have "file_bytes s' n = overwrite (file_bytes s n) off (take k buf)"
    proof (rule nth_equalityI)
      show "length (file_bytes s' n) = length (overwrite (file_bytes s n) off (take k buf))" using c(4) False old(1) new(1) k by (simp only: overwrite_length) simp
      fix j assume "j < length (file_bytes s' n)"
      then have j: "j < v_size (vnodes s' n)" "j < tmp_file_limit" "j < max (length (file_bytes s n)) (off + length (take k buf))" using new(1) c(4) False lim(1) old(1) k by auto
      show "file_bytes s' n ! j = overwrite (file_bytes s n) off (take k buf) ! j"
        unfolding new(2) [OF j(1)] overwrite_nth [OF j(3)] same [OF j(2)] using c(5) j(2) by simp
    qed
    then show ?thesis using False by simp
  qed
qed

text \<open>The other files, which share no page with this one, keep their contents.\<close>

lemma written_other:
  assumes w: "written_ok f n buf off k s P L s'" and m: "m \<noteq> n" "file_ok s P L m" and apart: "set (v_blocks (vnodes s m)) \<inter> set (v_blocks (vnodes s n)) \<subseteq> {0}"
  shows "file_bytes s' m = file_bytes s m"
proof -
  note o = file_okD [OF m(2)] and c = written_okD [OF w]
  have v: "vnodes s' m = vnodes s m" using c(2) m(1) by (simp add: write_keeps_def)
  have "cell (kmem s') (v_blocks (vnodes s m)) j = cell (kmem s) (v_blocks (vnodes s m)) j" if "j < v_size (vnodes s m)" for j
  proof (cases "v_blocks (vnodes s m) ! (j div 4096) = 0")
    case False
    have idx: "j div 4096 < TMP_FILE_PAGES" using cell_index(1) that o(4) by simp
    then have "v_blocks (vnodes s m) ! (j div 4096) \<in> set (v_blocks (vnodes s m))" using blocks_okD(1) [OF o(3)] by simp
    then have "v_blocks (vnodes s m) ! (j div 4096) \<notin> set (v_blocks (vnodes s n))" using False apart by blast
    moreover have "valid_page (v_blocks (vnodes s m) ! (j div 4096))" "v_blocks (vnodes s m) ! (j div 4096) \<notin> P"
      using blocks_okD(2) [OF o(3) idx False] by (simp_all add: page_free_of_def)
    ultimately show ?thesis using c(8) by (simp add: pages_kept_def cell_def)
  qed (simp add: cell_def)
  then show ?thesis using o(2) by (simp add: file_bytes_def v Let_def)
qed

lemma regular_write_ok:
  fixes s :: "'a fsys_scheme"
  assumes ok: "file_ok s P L n" and f: "f_node (files s f) = n" "\<not> m_readonly (mounts s ! v_mount (vnodes s n))" "v_type (vnodes s n) \<noteq> DT_DIR"
    and off: "off = (if f_flags (files s f) AND O_APPEND \<noteq> 0 then v_size (vnodes s n) else f_offset (files s f))"
  shows "\<exists>k s0 s'. written_ok f n buf off k s0 P L s' \<and> file_ok s0 P L n \<and> kmem s0 = kmem s \<and> vnodes s0 = vnodes s \<and> free_pages s0 = free_pages s \<and> write_keeps f n s s0 \<and>
    regular_write f buf s = (if k = 0 \<and> buf \<noteq> [] then Inl (if off \<ge> tmp_file_limit then E_FBIG else E_NOMEM) else Inr k, s')"
proof -
  define s0 where "s0 = (if f_flags (files s f) AND O_APPEND \<noteq> 0 then update_file f (\<lambda>x. x\<lparr>f_offset := v_size (vnodes s n)\<rparr>) s else s)"
  have s0: "f_offset (files s0 f) = off" "f_node (files s0 f) = n" "kmem s0 = kmem s" "vnodes s0 = vnodes s" "free_pages s0 = free_pages s" "write_keeps f n s s0"
    using f(1) off by (auto simp: s0_def update_file_def write_keeps_def)
  have h: "heap_rep s0 P L = heap_rep s P L" "heap_classes s0 = heap_classes s" by (simp_all add: s0_def update_file_def)
  have ok0: "file_ok s0 P L n" using ok unfolding file_ok_def s0(3,4) h(1) blocks_ok_cong [OF h(2)] .
  have run: "regular_write f buf s = (if off \<ge> tmp_file_limit then (if buf \<noteq> [] then Inl E_FBIG else Inr 0, s0) else write_loop f buf 0 s0)"
    using f s0(1) by (simp add: regular_write_def Let_def s0_def [symmetric])
  show ?thesis
  proof (cases "off \<ge> tmp_file_limit")
    case True
    have "written_ok f n buf off 0 s0 P L s0" using ok0 s0(1) True by (auto simp: written_ok_def write_keeps_def patched_def pages_kept_refl)
    then show ?thesis using run True ok0 s0 by (intro exI [of _ 0] exI [of _ s0]) auto
  next
    case False
    obtain k s' where k: "written_ok f n buf off k s0 P L s'" "write_loop f buf 0 s0 = (if k = 0 \<and> k < min (length buf) (tmp_file_limit - off) then Inl E_NOMEM else Inr k, s')"
      using write_loop_ok [OF ok0 s0(2), of buf 0] s0(1) by auto
    moreover have "(k = 0 \<and> k < min (length buf) (tmp_file_limit - off)) = (k = 0 \<and> buf \<noteq> [])" using False by auto
    ultimately show ?thesis using run False ok0 s0 by (intro exI [of _ k] exI [of _ s0] exI [of _ s']) auto
  qed
qed

end
