(* ===== verification/Vfs_Paths.thy ===== *)
theory Vfs_Paths
  imports Vfs_Tree
begin

text \<open>
  The tree of directories: its shape, paths through it, and what path resolution and \<open>vfs_getcwd\<close> compute.
\<close>

section \<open>Well-formed trees\<close>

text \<open>The directory entry a node is reached by: a mount's root is reached by the directory it covers.\<close>

definition entry :: "'a fsys_scheme \<Rightarrow> u64 \<Rightarrow> u64" where
  "entry s node = (let m = mounts s ! v_mount (vnodes s node) in if m_root m = node \<and> m_covered m \<noteq> 0 then m_covered m else node)"

definition name_ok :: "bytes \<Rightarrow> bool" where
  "name_ok name \<longleftrightarrow> name \<noteq> [] \<and> SLASH \<notin> set name \<and> length name < NAME_LIMIT \<and> name \<noteq> cstr ''.'' \<and> name \<noteq> cstr ''..''"

definition child_ok :: "'a fsys_scheme \<Rightarrow> u64 \<Rightarrow> u64 \<Rightarrow> bool" where
  "child_ok s n c \<longleftrightarrow> c \<in> set (nodes s) \<and> c \<noteq> 0 \<and> cross_mount s c \<in> set (nodes s) \<and> entry s (cross_mount s c) = c \<and> v_parent (vnodes s c) = n \<and>
     v_type (vnodes s n) = DT_DIR \<and> name_ok (v_name (vnodes s c))"

definition tree_ok :: "'a fsys_scheme \<Rightarrow> bool" where
  "tree_ok s \<longleftrightarrow> (\<forall>n\<in>set (nodes s). (\<forall>c\<in>set (v_children (vnodes s n)). child_ok s n c) \<and> distinct (map (\<lambda>c. v_name (vnodes s c)) (v_children (vnodes s n))))"

lemma dotdot_entry: "dotdot s node = v_parent (vnodes s (entry s node))"
  by (simp add: dotdot_def entry_def Let_def)

text \<open>The nodes below a directory, with the names that lead to them.\<close>

inductive tree_path :: "'a fsys_scheme \<Rightarrow> u64 \<Rightarrow> u64 \<Rightarrow> bytes list \<Rightarrow> bool" for s root0 where
  here: "root0 \<in> set (nodes s) \<Longrightarrow> tree_path s root0 root0 []"
| below: "tree_path s root0 n names \<Longrightarrow> c \<in> set (v_children (vnodes s n)) \<Longrightarrow> tree_path s root0 (cross_mount s c) (names @ [v_name (vnodes s c)])"

definition in_tree :: "'a fsys_scheme \<Rightarrow> u64 \<Rightarrow> u64 \<Rightarrow> bool" where
  "in_tree s root0 n \<longleftrightarrow> (\<exists>names. tree_path s root0 n names)"

lemma tree_path_node:
  assumes "tree_path s root0 n names" "tree_ok s"
  shows "n \<in> set (nodes s)"
  using assms by (induction rule: tree_path.induct) (auto simp: tree_ok_def child_ok_def)

lemma tree_child:
  assumes "tree_ok s" "tree_path s root0 n names" "c \<in> set (v_children (vnodes s n))"
  shows "child_ok s n c"
  using assms(1,3) tree_path_node [OF assms(2,1)] by (simp add: tree_ok_def)

lemma in_tree_dotdot:
  assumes "tree_ok s" "in_tree s root0 n" "n \<noteq> root0"
  shows "in_tree s root0 (dotdot s n)" "v_type (vnodes s (dotdot s n)) = DT_DIR"
proof -
  obtain names where p: "tree_path s root0 n names" using assms(2) by (auto simp: in_tree_def)
  then obtain m c ns where m: "n = cross_mount s c" "tree_path s root0 m ns" "c \<in> set (v_children (vnodes s m))"
    using assms(3) by (cases rule: tree_path.cases) auto
  have "child_ok s m c" by (rule tree_child [OF assms(1) m(2,3)])
  then have "dotdot s n = m" "v_type (vnodes s m) = DT_DIR" by (simp_all add: dotdot_entry m(1) child_ok_def)
  then show "in_tree s root0 (dotdot s n)" "v_type (vnodes s (dotdot s n)) = DT_DIR" using m(2) by (auto simp: in_tree_def)
qed

lemma child_found:
  assumes "child s n name = c" "c \<noteq> 0"
  shows "c \<in> set (v_children (vnodes s n))" "v_name (vnodes s c) = name"
  using assms by (auto simp: child_def find_Some_iff split: option.splits)

lemma find_by_name:
  assumes "distinct (map f xs)" "x \<in> set xs"
  shows "find (\<lambda>y. f y = f x) xs = Some x"
  using assms by (induction xs) (auto simp: rev_image_eqI)

section \<open>Resolution stays below the root\<close>

lemma resolve_step_node:
  assumes "resolve_step s root0 nofollow node work links = Continue node' work' links'"
  shows "node' = node \<or> node' = root0 \<or> node \<noteq> root0 \<and> node' = dotdot s node \<or>
    (\<exists>name. child s node name \<noteq> 0 \<and> node' = cross_mount s (child s node name) \<and> v_type (vnodes s node') \<noteq> DT_LNK)"
proof -
  define w where "w = dropWhile (\<lambda>c. c = SLASH) work"
  define name rest where "name = takeWhile (\<lambda>c. c \<noteq> SLASH) w" and "rest = dropWhile (\<lambda>c. c \<noteq> SLASH) w"
  define nx where "nx = cross_mount s (child s node name)"
  have "node' = node \<or> node' = root0 \<or> node \<noteq> root0 \<and> node' = dotdot s node \<or> child s node name \<noteq> 0 \<and> node' = nx \<and> v_type (vnodes s nx) \<noteq> DT_LNK"
    using assms unfolding resolve_step_def Let_def w_def [symmetric] name_def [symmetric] rest_def [symmetric] nx_def [symmetric]
    by (simp only: split: if_split_asm) (simp_all only: walk_step.simps, blast+)
  then show ?thesis unfolding nx_def by blast
qed

lemma resolve_step_inside:
  assumes ok: "tree_ok s" "v_type (vnodes s root0) = DT_DIR" "root0 \<in> set (nodes s)" and node: "in_tree s root0 node" "v_type (vnodes s node) \<noteq> DT_LNK"
  shows "resolve_step s root0 nofollow node work links = Stop (Inr n) \<Longrightarrow> n = node"
    "resolve_step s root0 nofollow node work links = Continue node' work' links' \<Longrightarrow> in_tree s root0 node' \<and> v_type (vnodes s node') \<noteq> DT_LNK"
proof -
  have r: "in_tree s root0 root0" "v_type (vnodes s root0) \<noteq> DT_LNK" using ok(2,3) tree_path.here by (auto simp: in_tree_def node_types)
  have up: "in_tree s root0 (dotdot s node)" "v_type (vnodes s (dotdot s node)) \<noteq> DT_LNK" if "node \<noteq> root0"
    using in_tree_dotdot [OF ok(1) node(1) that] by (simp_all add: node_types)
  have down: "in_tree s root0 (cross_mount s (child s node name))" if "child s node name \<noteq> 0" for name
    using node(1) tree_path.below child_found(1) [OF refl that] by (fastforce simp: in_tree_def)
  show "resolve_step s root0 nofollow node work links = Stop (Inr n) \<Longrightarrow> n = node"
    unfolding resolve_step_def Let_def by (simp only: split: if_split_asm) (simp_all only: walk_step.simps sum.simps)
  show "in_tree s root0 node' \<and> v_type (vnodes s node') \<noteq> DT_LNK" if "resolve_step s root0 nofollow node work links = Continue node' work' links'"
    using resolve_step_node [OF that] by (elim disjE exE conjE) (simp_all add: r up down node)
qed

lemma resolve_from_inside:
  assumes "tree_ok s" "v_type (vnodes s root0) = DT_DIR" "root0 \<in> set (nodes s)"
  shows "in_tree s root0 node \<Longrightarrow> v_type (vnodes s node) \<noteq> DT_LNK \<Longrightarrow> resolve_from s root0 nofollow node work links = Inr n \<Longrightarrow> in_tree s root0 n \<and> v_type (vnodes s n) \<noteq> DT_LNK"
  using assms
proof (induction s root0 nofollow node work links rule: resolve_from.induct)
  case (1 s root0 nofollow node work links)
  note step = resolve_step_inside [OF 1(5,6,7,2,3), of nofollow work links]
  show ?case
  proof (cases "resolve_step s root0 nofollow node work links")
    case (Stop r)
    then show ?thesis using step(1) [of n] 1(2-4) by (auto simp: resolve_from.simps [of s root0 nofollow node work])
  next
    case (Continue node' work' links')
    then show ?thesis using 1(1) [OF Continue] step(2) [OF Continue] 1(4-7) by (simp add: resolve_from.simps [of s root0 nofollow node work])
  qed
qed

section \<open>The path of a directory leads back to it\<close>

definition flat :: "bytes list \<Rightarrow> bytes" where
  "flat names = concat (map (\<lambda>name. SLASH # name) names)"

lemma flat_simps [simp]: "flat [] = []" "flat (names @ [name]) = flat names @ SLASH # name"
  by (simp_all add: flat_def)

lemma takes:
  assumes "SLASH \<notin> set name" "rest = [] \<or> begins_slash rest"
  shows "takeWhile (\<lambda>c. c \<noteq> SLASH) (name @ rest) = name" "dropWhile (\<lambda>c. c \<noteq> SLASH) (name @ rest) = rest"
  using assms by (induction name) (auto simp: begins_slash_def split: list.splits)

lemma resolve_component:
  assumes ok: "tree_ok s" "tree_path s root0 n names" "c \<in> set (v_children (vnodes s n))" and link: "v_type (vnodes s (cross_mount s c)) \<noteq> DT_LNK"
    and rest: "rest = [] \<or> begins_slash rest"
  shows "resolve_from s root0 nofollow n (SLASH # v_name (vnodes s c) @ rest) links = resolve_from s root0 nofollow (cross_mount s c) rest links"
proof -
  let ?name = "v_name (vnodes s c)"
  have co: "child_ok s n c" by (rule tree_child [OF ok])
  then have name: "name_ok ?name" by (simp add: child_ok_def)
  have "distinct (map (\<lambda>c. v_name (vnodes s c)) (v_children (vnodes s n)))" using ok(1) tree_path_node [OF ok(2,1)] by (simp add: tree_ok_def)
  then have "find (\<lambda>n. v_name (vnodes s n) = ?name) (v_children (vnodes s n)) = Some c" using ok(3) by (rule find_by_name)
  then have child: "child s n ?name = c" by (simp add: child_def)
  have "dropWhile (\<lambda>c. c = SLASH) (SLASH # ?name @ rest) = ?name @ rest" using name by (cases ?name) (auto simp: name_ok_def)
  moreover have "takeWhile (\<lambda>c. c \<noteq> SLASH) (?name @ rest) = ?name" "dropWhile (\<lambda>c. c \<noteq> SLASH) (?name @ rest) = rest"
    using takes [OF _ rest] name by (simp_all add: name_ok_def)
  ultimately have "resolve_step s root0 nofollow n (SLASH # ?name @ rest) links = Continue (cross_mount s c) rest links"
    using name child co link by (simp add: resolve_step_def Let_def name_ok_def child_ok_def)
  then show ?thesis by (simp add: resolve_from.simps [of s root0 nofollow n])
qed

lemma resolve_end: "resolve_from s root0 nofollow n [] links = Inr n"
  by (simp add: resolve_from.simps [of s root0 nofollow n] resolve_step_def begins_slash_def)

text \<open>A directory's path: every node on the way is a directory.\<close>

lemma tree_path_resolves:
  assumes "tree_path s root0 n names" "tree_ok s" "v_type (vnodes s n) \<noteq> DT_LNK" "rest = [] \<or> begins_slash rest"
  shows "resolve_from s root0 nofollow root0 (flat names @ rest) links = resolve_from s root0 nofollow n rest links"
  using assms
proof (induction arbitrary: rest rule: tree_path.induct)
  case (below n names c)
  have "v_type (vnodes s n) = DT_DIR" using tree_child [OF below(4,1,2)] by (simp add: child_ok_def)
  then have "resolve_from s root0 nofollow root0 (flat names @ SLASH # v_name (vnodes s c) @ rest) links = resolve_from s root0 nofollow n (SLASH # v_name (vnodes s c) @ rest) links"
    using below(3) [OF below(4), of "SLASH # v_name (vnodes s c) @ rest"] by (simp add: node_types begins_slash_def)
  then show ?case using resolve_component [OF below(4,1,2,5,6)] by simp
qed simp

text \<open>The walk up to the root spells a path that leads down again.\<close>

lemma getcwd_step:
  "cwd \<noteq> root0 \<Longrightarrow> getcwd_loop s root0 cwd pos acc =
     (if length (v_name (vnodes s (entry s cwd))) + 1 > pos then Inl E_NAMETOOLONG
      else getcwd_loop s root0 (dotdot s cwd) (pos - (length (v_name (vnodes s (entry s cwd))) + 1)) (SLASH # v_name (vnodes s (entry s cwd)) @ acc))"
  unfolding dotdot_entry by (simp add: getcwd_loop.simps [of s root0 cwd] entry_def Let_def)

lemma getcwd_path:
  assumes "tree_path s root0 n names" "tree_ok s" "length (flat names) \<le> pos"
  shows "\<exists>ns. tree_path s root0 n ns \<and> length (flat ns) \<le> length (flat names) \<and> getcwd_loop s root0 n pos acc = Inr (flat ns @ acc)"
  using assms
proof (induction arbitrary: pos acc rule: tree_path.induct)
  case here
  then show ?case using tree_path.here [of root0 s] by (intro exI [of _ "[]"]) (simp add: getcwd_loop.simps [of s root0 root0])
next
  case (below n names c)
  let ?name = "v_name (vnodes s c)"
  have co: "child_ok s n c" by (rule tree_child [OF below(4,1,2)])
  then have up: "entry s (cross_mount s c) = c" "dotdot s (cross_mount s c) = n" by (simp_all add: child_ok_def dotdot_entry)
  show ?case
  proof (cases "cross_mount s c = root0")
    case True
    have "root0 \<in> set (nodes s)" using co True by (simp add: child_ok_def)
    then show ?thesis using True tree_path.here [of root0 s] by (intro exI [of _ "[]"]) (simp add: getcwd_loop.simps [of s root0 root0])
  next
    case False
    have "length (flat names) \<le> pos - (length ?name + 1)" using below(5) by simp
    then obtain ns where ns: "tree_path s root0 n ns" "length (flat ns) \<le> length (flat names)"
      "getcwd_loop s root0 n (pos - (length ?name + 1)) (SLASH # ?name @ acc) = Inr (flat ns @ SLASH # ?name @ acc)"
      using below(3) [OF below(4), of "pos - (length ?name + 1)" "SLASH # ?name @ acc"] by blast
    have "getcwd_loop s root0 (cross_mount s c) pos acc = Inr (flat ns @ SLASH # ?name @ acc)"
      unfolding getcwd_step [OF False] up using ns(3) below(5) by simp
    then show ?thesis using tree_path.below [OF ns(1) below(2)] ns(2) by (intro exI [of _ "ns @ [?name]"]) simp
  qed
qed

lemma resolve_root: "v_type (vnodes s root0) = DT_DIR \<Longrightarrow> resolve_from s root0 nofollow root0 [SLASH] links = Inr root0"
  by (simp add: resolve_from.simps [of s root0 nofollow root0] resolve_step_def begins_slash_def)

lemma getcwd_resolves:
  assumes ok: "tree_ok s" "v_type (vnodes s root0) = DT_DIR" "root0 \<noteq> 0"
    and cwd: "tree_path s root0 cwd names" "v_type (vnodes s cwd) = DT_DIR" "length (flat names) < PATH_LIMIT" "length (flat names) + 2 \<le> size0"
  shows "\<exists>path. vfs_getcwd root0 cwd size0 s = Inr path \<and> begins_slash path \<and> length path < PATH_LIMIT \<and> vfs_resolve root0 base path nofollow s = Inr cwd"
proof -
  have "length (flat names) \<le> PATH_LIMIT - 1" using cwd(3) by simp
  then obtain ns where ns: "tree_path s root0 cwd ns" "length (flat ns) \<le> length (flat names)" "getcwd_loop s root0 cwd (PATH_LIMIT - 1) [] = Inr (flat ns)"
    using getcwd_path [OF cwd(1) ok(1), of "PATH_LIMIT - 1" "[]"] by auto
  show ?thesis
  proof (cases "flat ns = []")
    case True
    then have "ns = []" by (cases ns) (auto simp: flat_def)
    then have "cwd = root0" using ns(1) by (auto elim: tree_path.cases)
    then show ?thesis using True ns(3) cwd(4) ok resolve_root [OF ok(2)]
      by (intro exI [of _ "[SLASH]"]) (simp add: vfs_getcwd_def vfs_resolve_def begins_slash_def limits)
  next
    case False
    then obtain rest where path: "flat ns = SLASH # rest" by (cases ns) (auto simp: flat_def)
    have "resolve_from s root0 nofollow root0 (flat ns) 0 = Inr cwd"
      using tree_path_resolves [OF ns(1) ok(1), of "[]" nofollow 0] resolve_end [of s root0 nofollow cwd 0] cwd(2) by (simp add: node_types)
    then show ?thesis using path ns(2,3) cwd(3,4) ok(3)
      by (intro exI [of _ "flat ns"]) (simp add: vfs_getcwd_def vfs_resolve_def begins_slash_def)
  qed
qed

end
