(* ===== verification/Pipes.thy ===== *)
theory Pipes
  imports Files_Heap Threads
begin

text \<open>
  The properties of pipes: a byte stream under every interleaving, the outcome of each call, and
  creation without leaks. The examples run on a kernel with three threads and on a heap of two pages.
\<close>

section \<open>A kernel with a pipe\<close>

text \<open>A file layer with no vnodes, where every open file is an end of the empty pipe at \<open>0x6000\<close>.\<close>

definition demo_files :: fsys where
  "demo_files = kernel.extend demo_kernel (fsys.fields (\<lambda>_. \<lparr>v_children = [], v_parent = 0, v_mount = 0, v_mounted = None, v_name = [], v_type = DT_REG,
       v_inode = 0, v_data = None, v_size = 0, v_blocks = []\<rparr>) [] [] 1 0
     (\<lambda>_. \<lparr>f_ops = pipe_ops, f_node = 0, f_private = 0x6000, f_offset = 0, f_references = 1, f_flags = O_RDONLY\<rparr>)
     (\<lambda>_. zero_pipe\<lparr>p_reader := True, p_writer := True\<rparr>) [] [])"

lemma demo_files_facts:
  "sched_inv demo_files" "wait_queues demo_files q = []" "pipes demo_files p = zero_pipe\<lparr>p_reader := True, p_writer := True\<rparr>" "f_private (files demo_files f) = 0x6000"
  "\<not> t_idle (threads demo_files (current demo_files))"
  by (simp_all add: demo_files_def kernel.defs fsys.defs sched_defs demo_kernel_def demo_thread_def state_of_def zero_thread_def)

lemma demo_pipe: "pipe_ok demo_files 0x6000" "contents (pipes demo_files 0x6000) = []"
  using demo_files_facts(1) by (simp_all add: pipe_ok_def contents_def ring_def demo_files_facts(2,3) zero_pipe_def) (simp add: PIPE_CAPACITY_def)

lemma nobody_waits: "wait_queues s q = [] \<Longrightarrow> wait_queue_wake_all q s = s"
  by (simp add: wait_queue_wake_all.simps [of q s] wait_queue_wake_one_def)

section \<open>Properties of pipes\<close>

text \<open>C13. A pipe is a byte stream. In every run of reads, writes, closes of an end and scheduler steps, in any interleaving of any number of threads, the bytes
  read are the bytes written before, in order, none lost, repeated or changed, and what was written and not read yet is in the buffer, at most 512 bytes.
  At the end no reader sleeps while there is data or the writer is gone, and no writer sleeps while there is room or the reader is gone.\<close>

theorem pipe_is_stream:
  assumes "pipe_steps p s es s'" "pipe_ok s p"
  shows "contents (pipes s p) @ concat (map sent es) = concat (map received es) @ contents (pipes s' p) \<and> length (contents (pipes s' p)) \<le> 512 \<and>
    (wait_queues s' (readable p) = [] \<or> contents (pipes s' p) = [] \<and> p_writer (pipes s' p)) \<and>
    (wait_queues s' (writable p) = [] \<or> length (contents (pipes s' p)) = 512 \<and> p_reader (pipes s' p)) \<and> pipe_ok s' p"
proof -
  have ok: "pipe_ok s' p" and eq: "contents (pipes s p) @ concat (map sent es) = concat (map received es) @ contents (pipes s' p)"
    using pipe_steps_stream [OF assms] by auto
  have "length (contents (pipes s' p)) = p_used (pipes s' p)" by (simp add: contents_def)
  moreover have "p_used (pipes s' p) \<le> 512" "wait_queues s' (readable p) = [] \<or> p_used (pipes s' p) = 0 \<and> p_writer (pipes s' p)"
    "wait_queues s' (writable p) = [] \<or> p_used (pipes s' p) = 512 \<and> p_reader (pipes s' p)"
    using ok by (auto simp: pipe_ok_def PIPE_CAPACITY_def)
  ultimately show ?thesis using eq ok by auto
qed

theorem pipe_is_stream_witness:
  "\<exists>s2. pipe_steps 0x6000 demo_files [Write [7, 8, 9] (Returns (Inr 3)), Read 2 (Returns [7, 8])] s2 \<and> contents (pipes s2 0x6000) = [9]"
proof -
  note facts = demo_files_facts
  obtain s1 where w: "pipe_write 0 [7, 8, 9] demo_files = Some (Returns (Inr 3), s1)" "pipe_ok s1 0x6000" "contents (pipes s1 0x6000) = [7, 8, 9]"
    "p_reader (pipes s1 0x6000)" "files s1 = files demo_files"
    using pipe_write_ok [OF demo_pipe(1) facts(4), of "[7, 8, 9]" 0] facts(3,5) demo_pipe(2) by (auto simp: zero_pipe_def PIPE_CAPACITY_def)
  have st: "pipe_step 0x6000 demo_files (Write [7, 8, 9] (Returns (Inr 3))) s1"
    using pipe_step.write_end [OF facts(4) _ facts(5) w(1)] facts(3) by simp
  have idle: "\<not> t_idle (threads s1 (current s1))"
    using w(1) facts(2,3,5) by (auto simp: pipe_write_def pipe_acquire_ok [OF demo_pipe(1)] facts(4) zero_pipe_def PIPE_CAPACITY_def nobody_waits pipe_unlock_def update_pipe_def)
  have "p_used (pipes s1 0x6000) \<noteq> 0" using arg_cong [OF w(3), of length] by (simp add: contents_def)
  then obtain s2 where r: "pipe_read 0 2 s1 = Some (Returns (Inr [7, 8]), s2)" 
    using pipe_read_ok [OF w(2), of 0 2] w(3,5) facts(4) idle by auto
  have "pipe_step 0x6000 s1 (Read 2 (Returns [7, 8])) s2"
    by (rule pipe_step.read_end [OF _ w(4) idle r]) (use w(5) facts(4) in auto)
  then have run: "pipe_steps 0x6000 demo_files [Write [7, 8, 9] (Returns (Inr 3)), Read 2 (Returns [7, 8])] s2"
    using st by (auto intro: pipe_steps.intros)
  then show ?thesis using pipe_is_stream [OF run demo_pipe(1)] demo_pipe(2) by auto
qed

text \<open>C17. Every call on a pipe returns or puts its thread to sleep in the right queue. A read takes the oldest bytes, as many as asked for and there are; on an empty
  pipe it sleeps while the writer is open and reports the end of the stream when it is closed. A write appends as many bytes as there is room for; on a
  full pipe it sleeps, and without a reader it fails with \<open>E_PIPE\<close> and writes nothing. The invariant of the pipe and the scheduler holds again.\<close>

theorem pipe_transfer:
  assumes "pipe_ok s p" "f_private (files s f) = p" "\<not> t_idle (threads s (current s))" "n \<noteq> 0" "buf \<noteq> []"
  defines "q \<equiv> pipes s p"
  shows "(\<exists>s'. pipe_read f n s = Some (if contents q = [] \<and> p_writer q then Sleeps else Returns (Inr (take n (contents q))), s') \<and> pipe_ok s' p \<and>
      contents (pipes s' p) = drop n (contents q) \<and>
      (if contents q = [] \<and> p_writer q then wait_queues s' (readable p) = wait_queues s (readable p) @ [current s] else wait_queues s' (writable p) = [])) \<and>
    (\<exists>s' k. pipe_write f buf s = Some (if length (contents q) = 512 \<and> p_reader q then Sleeps else Returns (if p_reader q then Inr k else Inl E_PIPE), s') \<and> pipe_ok s' p \<and>
      k = (if p_reader q then min (length buf) (512 - length (contents q)) else 0) \<and> contents (pipes s' p) = contents q @ take k buf \<and>
      (if length (contents q) = 512 \<and> p_reader q then wait_queues s' (writable p) = wait_queues s (writable p) @ [current s] else p_reader q \<longrightarrow> wait_queues s' (readable p) = []))"
proof (rule conjI)
  have len: "length (contents q) = p_used q" "(contents q = []) = (p_used q = 0)" by (auto simp: contents_def ring_def)
  have cap: "PIPE_CAPACITY = 512" by (simp add: PIPE_CAPACITY_def)
  show "\<exists>s'. pipe_read f n s = Some (if contents q = [] \<and> p_writer q then Sleeps else Returns (Inr (take n (contents q))), s') \<and> pipe_ok s' p \<and>
      contents (pipes s' p) = drop n (contents q) \<and>
      (if contents q = [] \<and> p_writer q then wait_queues s' (readable p) = wait_queues s (readable p) @ [current s] else wait_queues s' (writable p) = [])"
    using pipe_read_ok [OF assms(1,2,4,3)] by (cases "p_used q = 0 \<and> p_writer q") (auto simp: q_def [symmetric] len contents_def ring_def)
  show "\<exists>s' k. pipe_write f buf s = Some (if length (contents q) = 512 \<and> p_reader q then Sleeps else Returns (if p_reader q then Inr k else Inl E_PIPE), s') \<and> pipe_ok s' p \<and>
      k = (if p_reader q then min (length buf) (512 - length (contents q)) else 0) \<and> contents (pipes s' p) = contents q @ take k buf \<and>
      (if length (contents q) = 512 \<and> p_reader q then wait_queues s' (writable p) = wait_queues s (writable p) @ [current s] else p_reader q \<longrightarrow> wait_queues s' (readable p) = [])"
  proof (cases "p_reader q")
    case True
    show ?thesis
    proof (cases "p_used q = 512")
      case full: True
      then obtain s' where "pipe_write f buf s = Some (Sleeps, s')" "pipe_ok s' p" "pipes s' p = q" "wait_queues s' (writable p) = wait_queues s (writable p) @ [current s]"
        using pipe_write_ok [OF assms(1,2,5,3)] True by (auto simp: q_def cap)
      then show ?thesis using True full len(1) by (intro exI [of _ s'] exI [of _ 0]) simp
    next
      case room: False
      then obtain s' k where k: "pipe_write f buf s = Some (Returns (Inr k), s')" "k = min (length buf) (512 - p_used q)" "pipe_ok s' p"
        "contents (pipes s' p) = contents q @ take k buf" "wait_queues s' (readable p) = []"
        using pipe_write_ok [OF assms(1,2,5,3)] True by (auto simp: q_def cap)
      then show ?thesis using True room unfolding len(1) by (intro exI [of _ s'] exI [of _ k]) simp
    qed
  next
    case False
    then obtain s' where "pipe_write f buf s = Some (Returns (Inl E_PIPE), s')" "pipe_ok s' p" "pipes s' p = q"
      using pipe_write_ok [OF assms(1,2,5,3)] by (auto simp: q_def cap)
    then show ?thesis using False by (intro exI [of _ s'] exI [of _ 0]) simp
  qed
qed

theorem pipe_transfer_witness:
  "\<exists>s1 s2. pipe_read 0 4 demo_files = Some (Sleeps, s1) \<and> hd (wait_queues s1 (readable 0x6000)) = 0x1000 \<and>
    pipe_write 0 [1, 2] demo_files = Some (Returns (Inr 2), s2) \<and> contents (pipes s2 0x6000) = [1, 2]"
  using pipe_transfer [OF demo_pipe(1) demo_files_facts(4,5), of 4 "[1, 2]" 0] demo_pipe(2) demo_files_facts(2)
  by (auto simp: demo_files_facts(3) zero_pipe_def) (simp_all add: demo_files_def kernel.defs demo_kernel_def)

text \<open>C18. Creating a pipe fails with \<open>E_NOMEM\<close> only when at most two pages are free, and then every heap object is given back, the count of open files and everything else in the file layer is as before. Otherwise it
  makes exactly three new objects: an empty open pipe and two open files, one end for reading and one for writing, with one reference each; no object in use is overlapped.\<close>

theorem pipe_create_exact:
  fixes s :: "'a fsys_scheme"
  assumes "heap_rep s P L"
  shows "(\<exists>s'. pipe_create s = Some (Inl E_NOMEM, s') \<and> heap_rep s' P L \<and> live_files s' = live_files s \<and> same_tree s s' \<and> unat (free_pages s) \<le> 2) \<or>
    (\<exists>p r w s'. pipe_create s = Some (Inr (r, w), s') \<and> heap_rep s' P (L \<union> {(p, 1024), (r, 64), (w, 64)}) \<and> r \<noteq> w \<and> {(p, 1024), (r, 64), (w, 64)} \<inter> L = {} \<and>
      files s' = (files s)(r := (new_file pipe_ops O_RDONLY)\<lparr>f_private := p\<rparr>, w := (new_file pipe_ops O_WRONLY)\<lparr>f_private := p\<rparr>) \<and>
      contents (pipes s' p) = [] \<and> p_reader (pipes s' p) \<and> p_writer (pipes s' p) \<and> wait_queues s' (readable p) = [] \<and> wait_queues s' (writable p) = [] \<and>
      live_files s' = live_files s + 2 \<and> same_tree s s')"
  using pipe_create_ok [OF assms]
proof (elim disjE exE conjE)
  fix p r w s' assume run: "pipe_create s = Some (Inr (r, w), s')" and made: "pipe_made s P L p r w s'" and tree: "same_tree s s'"
  have e: "insert (w, 64) (insert (r, 64) (insert (p, 1024) L)) = L \<union> {(p, 1024), (r, 64), (w, 64 :: nat)}" by blast
  have m: "heap_rep s' P (L \<union> {(p, 1024), (r, 64), (w, 64)})" "r \<noteq> w" "(p, 1024) \<notin> L" "(r, 64) \<notin> L" "(w, 64) \<notin> L"
    "pipes s' p = zero_pipe\<lparr>p_reader := True, p_writer := True\<rparr>" "wait_queues s' (readable p) = []" "wait_queues s' (writable p) = []" "live_files s' = live_files s + 2"
    "files s' = (files s)(r := (new_file pipe_ops O_RDONLY)\<lparr>f_private := p\<rparr>, w := (new_file pipe_ops O_WRONLY)\<lparr>f_private := p\<rparr>)"
    using made unfolding pipe_made_def e by simp_all
  have "{(p, 1024), (r, 64), (w, 64)} \<inter> L = {}" using m(3-5) by blast
  then show ?thesis using m run tree
    by (intro disjI2 exI [of _ p] exI [of _ r] exI [of _ w] exI [of _ s']) (simp add: contents_def zero_pipe_def ring_def)
qed simp

text \<open>The file layer on a heap of sixteen pages.\<close>

definition demo_pages :: "u64 list" where
  "demo_pages = [0x80200000, 0x80201000, 0x80202000, 0x80203000, 0x80204000, 0x80205000, 0x80206000, 0x80207000,
     0x80208000, 0x80209000, 0x8020a000, 0x8020b000, 0x8020c000, 0x8020d000, 0x8020e000, 0x8020f000]"

definition bare_heap :: hstate where
  "bare_heap = small_heap\<lparr>free_list := 0, free_pages := 0\<rparr>"

definition demo_heap :: hstate where
  "demo_heap = heap_init (fold page_free demo_pages bare_heap)"

lemma page_frees_inv: "page_inv s xs \<Longrightarrow> list_all valid_page ps \<Longrightarrow> distinct ps \<Longrightarrow> set ps \<inter> set xs = {} \<Longrightarrow> page_inv (fold page_free ps s) (rev ps @ xs)"
proof (induction ps arbitrary: s xs)
  case (Cons p ps)
  have "page_inv (page_free p s) (p # xs)" using page_free_inv [OF Cons(2)] Cons(3-5) by simp
  then show ?case using Cons(1) [of "page_free p s" "p # xs"] Cons(3-5) by simp
qed simp

lemma page_frees_classes: "heap_classes (fold page_free ps s) = heap_classes s"
  by (induction ps arbitrary: s) (simp_all add: page_free_def Let_def case_prod_beta irq_defs)

lemma demo_heap_rep: "heap_rep demo_heap (set demo_pages) {}" "unat (free_pages demo_heap) = 16"
proof -
  have p: "list_all valid_page demo_pages" "distinct demo_pages"
    by (simp_all add: demo_pages_def valid_page_def page_aligned_def PAGE_MASK_def PAGE_SIZE_def)
  have "page_inv bare_heap []" by (simp add: page_inv_def bare_heap_def)
  then have inv: "page_inv (fold page_free demo_pages bare_heap) (rev demo_pages)" using page_frees_inv [OF _ p, of bare_heap "[]"] by simp
  have classes: "heap_classes (fold page_free demo_pages bare_heap) = phys_to_virt 0x80300000"
    unfolding page_frees_classes by (simp add: bare_heap_def small_heap_def)
  have "span (phys_to_virt 0x80300000) 128 \<inter> span (phys_to_virt p) 4096 = {}" if "p \<in> set demo_pages" for p
    using page_spans [of "0x80300000" p 0 128 0 4096] p(1) that by (auto simp: list_all_iff demo_pages_def valid_page_def page_aligned_def PAGE_MASK_def PAGE_SIZE_def)
  then show rep: "heap_rep demo_heap (set demo_pages) {}" using heap_init_rep [OF inv] classes by (simp add: demo_heap_def)
  show "unat (free_pages demo_heap) = 16" using heap_rep_empty [OF rep] by (simp add: demo_pages_def)
qed

definition boot_files :: fsys where
  "boot_files = demo_files\<lparr>kmem := kmem demo_heap, free_list := free_list demo_heap, free_pages := free_pages demo_heap,
     heap_classes := heap_classes demo_heap, heap_lock := heap_lock demo_heap\<rparr>"

lemma boot_files_heap: "heap_rep boot_files (set demo_pages) {}" "unat (free_pages boot_files) = 16"
proof -
  have "heap_rep boot_files (set demo_pages) {} = heap_rep demo_heap (set demo_pages) {}"
    by (rule heap_rep_cong) (simp_all add: boot_files_def)
  then show "heap_rep boot_files (set demo_pages) {}" "unat (free_pages boot_files) = 16"
    using demo_heap_rep by (simp_all add: boot_files_def)
qed

theorem pipe_create_exact_witness:
  "\<exists>p r w s'. pipe_create boot_files = Some (Inr (r, w), s') \<and> live_files s' = 2 \<and> f_flags (files s' w) = O_WRONLY \<and> f_private (files s' r) = p \<and>
     heap_rep s' (set demo_pages) {(p, 1024), (r, 64), (w, 64)}"
proof -
  have "live_files boot_files = 0" by (simp add: boot_files_def demo_files_def kernel.defs fsys.defs)
  then obtain p r w s' where "pipe_create boot_files = Some (Inr (r, w), s')" "live_files s' = 2" "r \<noteq> w" "heap_rep s' (set demo_pages) {(p, 1024), (r, 64), (w, 64)}"
    "files s' = (files boot_files)(r := (new_file pipe_ops O_RDONLY)\<lparr>f_private := p\<rparr>, w := (new_file pipe_ops O_WRONLY)\<lparr>f_private := p\<rparr>)"
    using pipe_create_exact [OF boot_files_heap(1)] boot_files_heap(2) by auto
  then show ?thesis by (intro exI [of _ p] exI [of _ r] exI [of _ w] exI [of _ s']) (simp add: new_file_def)
qed

end
