(* ===== verification/Vfs_Names.thy ===== *)
theory Vfs_Names
  imports Vfs_Paths Pipes
begin

text \<open>
  Properties of the name space: path resolution confined to the root, and the path of the current directory.
\<close>

section \<open>An example tree\<close>

text \<open>The root at \<open>0x10\<close> with \<open>/bin\<close> (\<open>0x20\<close>), the link \<open>/up\<close> to \<open>..\<close> (\<open>0x30\<close>) and \<open>/tmp\<close> (\<open>0x40\<close>) covered by a mount with root \<open>0x50\<close> that has a file \<open>a\<close> (\<open>0x60\<close>).\<close>

definition demo_node :: "u64 list \<Rightarrow> u64 \<Rightarrow> nat \<Rightarrow> bytes \<Rightarrow> u32 \<Rightarrow> vnode" where
  "demo_node children parent mount name type = \<lparr>v_children = children, v_parent = parent, v_mount = mount, v_mounted = None, v_name = name, v_type = type,
     v_inode = 1, v_data = None, v_size = 0, v_blocks = replicate TMP_FILE_PAGES 0\<rparr>"

definition demo_tree :: fsys where
  "demo_tree = boot_files\<lparr>nodes := [0x10, 0x20, 0x30, 0x40, 0x50, 0x60],
     mounts := [\<lparr>m_root = 0x10, m_covered = 0, m_readonly = True\<rparr>, \<lparr>m_root = 0x50, m_covered = 0x40, m_readonly = False\<rparr>, \<lparr>m_root = 0, m_covered = 0, m_readonly = True\<rparr>],
     vnodes := (\<lambda>_. demo_node [] 0 0 [] DT_REG)
       (0x10 := demo_node [0x20, 0x30, 0x40] 0x10 0 [] DT_DIR, 0x20 := demo_node [] 0x10 0 (cstr ''bin'') DT_DIR,
        0x30 := (demo_node [] 0x10 0 (cstr ''up'') DT_LNK)\<lparr>v_data := Some (cstr ''..''), v_size := 2\<rparr>,
        0x40 := (demo_node [] 0x10 0 (cstr ''tmp'') DT_DIR)\<lparr>v_mounted := Some 1\<rparr>,
        0x50 := demo_node [0x60] 0x50 1 [] DT_DIR, 0x60 := demo_node [] 0x50 1 (cstr ''a'') DT_REG),
     files := (\<lambda>_. \<lparr>f_ops = regular_ops, f_node = 0x60, f_private = 0, f_offset = 0, f_references = 1, f_flags = O_RDWR\<rparr>)\<rparr>"

lemma demo_tree_ok: "tree_ok demo_tree"
  by (simp add: tree_ok_def child_ok_def entry_def cross_mount_def name_ok_def demo_tree_def demo_node_def limits SLASH_def)

section \<open>Paths\<close>

text \<open>C14. Path resolution is confined to the process's root: in a well-formed tree, from a directory below the root and on any path whatsoever, with any symbolic links, relative or absolute,
  any \<open>..\<close> and mounts on the way, resolution ends, and a node it returns lies below the root and is not itself a symbolic link.\<close>

theorem resolve_confined:
  assumes "tree_ok s" "root0 \<in> set (nodes s)" "v_type (vnodes s root0) = DT_DIR" "in_tree s root0 base" "v_type (vnodes s base) = DT_DIR"
    and "vfs_resolve root0 base path nofollow s = Inr n"
  shows "in_tree s root0 n \<and> v_type (vnodes s n) \<noteq> DT_LNK"
proof -
  have r: "in_tree s root0 root0" using tree_path.here [OF assms(2)] by (auto simp: in_tree_def)
  obtain node where node: "node = root0 \<or> node = base" "resolve_from s root0 nofollow node path 0 = Inr n"
    using assms(6) by (auto simp: vfs_resolve_def Let_def split: if_splits)
  then have "in_tree s root0 node" "v_type (vnodes s node) \<noteq> DT_LNK" using r assms(3-5) by (auto simp: node_types)
  then show ?thesis using resolve_from_inside [OF assms(1,3,2) _ _ node(2)] by blast
qed

lemma demo_root: "0x10 \<in> set (nodes demo_tree)" "v_type (vnodes demo_tree 0x10) = DT_DIR" "in_tree demo_tree 0x10 0x50" "v_type (vnodes demo_tree 0x50) = DT_DIR"
proof -
  show r: "0x10 \<in> set (nodes demo_tree)" "v_type (vnodes demo_tree 0x10) = DT_DIR" "v_type (vnodes demo_tree 0x50) = DT_DIR" by (simp_all add: demo_tree_def demo_node_def)
  have "tree_path demo_tree 0x10 (cross_mount demo_tree 0x40) ([] @ [v_name (vnodes demo_tree 0x40)])"
    by (rule tree_path.below [OF tree_path.here [OF r(1)]]) (simp add: demo_tree_def demo_node_def)
  moreover have "cross_mount demo_tree 0x40 = 0x50" by (simp add: cross_mount_def demo_tree_def demo_node_def)
  ultimately show "in_tree demo_tree 0x10 0x50" by (auto simp: in_tree_def)
qed

theorem resolve_confined_witness:
  "vfs_resolve 0x10 0x50 (cstr ''../up/../tmp/a'') False demo_tree = Inr 0x60 \<and> in_tree demo_tree 0x10 0x60"
proof -
  have "vfs_resolve 0x10 0x50 (cstr ''../up/../tmp/a'') False demo_tree = Inr 0x60"
    by (simp add: vfs_resolve_def resolve_from.simps resolve_step_def begins_slash_def dotdot_def child_def cross_mount_def link_text_def demo_tree_def demo_node_def limits SLASH_def node_types Let_def)
  then show ?thesis using resolve_confined [OF demo_tree_ok demo_root] by blast
qed

text \<open>C16. The path of the current directory leads back to it: for a directory below the root with a path of less than 256 bytes, and a buffer with room for it, \<open>vfs_getcwd\<close>
  returns an absolute path, and resolving that path, from any directory, with links followed or not, gives the directory again, across mount points as well.\<close>

theorem getcwd_round_trip:
  assumes "tree_ok s" "v_type (vnodes s root0) = DT_DIR" "root0 \<noteq> 0"
    and "tree_path s root0 cwd names" "v_type (vnodes s cwd) = DT_DIR" "length (flat names) < 256" "length (flat names) + 2 \<le> size0"
  shows "\<exists>path. vfs_getcwd root0 cwd size0 s = Inr path \<and> begins_slash path \<and> length path < 256 \<and> vfs_resolve root0 base path nofollow s = Inr cwd"
  using getcwd_resolves [OF assms(1-5) _ assms(7), of base nofollow] assms(6) by (simp add: limits)

theorem getcwd_round_trip_witness:
  "vfs_getcwd 0x10 0x50 16 demo_tree = Inr (cstr ''/tmp'') \<and> vfs_resolve 0x10 0x20 (cstr ''/tmp'') False demo_tree = Inr 0x50"
proof -
  obtain names where names: "tree_path demo_tree 0x10 0x50 names" "names = [cstr ''tmp'']"
    using tree_path.below [OF tree_path.here [OF demo_root(1)], of "0x40"] by (simp add: cross_mount_def demo_tree_def demo_node_def)
  have "vfs_getcwd 0x10 0x50 16 demo_tree = Inr (cstr ''/tmp'')"
    by (simp add: vfs_getcwd_def getcwd_loop.simps demo_tree_def demo_node_def limits SLASH_def Let_def)
  then show ?thesis using getcwd_round_trip [OF demo_tree_ok demo_root(2) _ names(1) demo_root(4), of 16 "0x20" False] names(2) by (auto simp: flat_def)
qed

end
