(* ===== verification/Vfs_Files.thy ===== *)
theory Vfs_Files
  imports File_Data Vfs_Names
begin

text \<open>
  Regular files of the temporary file system are byte strings.
\<close>

section \<open>Regular files\<close>

lemma file_ok_irq [simp]:
  "file_ok (irq_restore fl s) P L n = file_ok s P L n" "file_ok (snd (irq_save s)) P L n = file_ok s P L n"
  using blocks_ok_cong [of "irq_restore fl s" s P] blocks_ok_cong [of "snd (irq_save s)" s P]
  by (simp_all add: file_ok_def) (simp_all add: irq_defs)

lemma file_bytes_irq [simp]: "file_bytes (irq_restore fl s) n = file_bytes s n" "file_bytes (snd (irq_save s)) n = file_bytes s n"
  by (simp_all add: file_bytes_def Let_def cong: option.case_cong)

lemma file_bytes_cong: "kmem t = kmem s \<Longrightarrow> vnodes t = vnodes s \<Longrightarrow> file_bytes t n = file_bytes s n"
  by (simp add: file_bytes_def Let_def cong: option.case_cong)

text \<open>What a write of \<open>k\<close> bytes at \<open>off\<close> does to all files.\<close>

definition wrote :: "u64 \<Rightarrow> u64 \<Rightarrow> bytes \<Rightarrow> nat \<Rightarrow> nat \<Rightarrow> u64 set \<Rightarrow> (u64 \<times> nat) set \<Rightarrow> 'a fsys_scheme \<Rightarrow> 'a fsys_scheme \<Rightarrow> bool" where
  "wrote f n buf off k P L s s' \<longleftrightarrow> (\<exists>P'\<subseteq>P. file_ok s' P' L n) \<and> f_node (files s' f) = n \<and> v_type (vnodes s' n) = v_type (vnodes s n) \<and> f_offset (files s' f) = off + k \<and>
     file_bytes s' n = (if k = 0 then file_bytes s n else overwrite (file_bytes s n) off (take k buf)) \<and>
     k \<le> length buf \<and> (k = min (length buf) (tmp_file_limit - off) \<or> free_pages s' = 0) \<and>
     (\<forall>m. m \<noteq> n \<and> file_ok s P L m \<and> set (v_blocks (vnodes s m)) \<inter> set (v_blocks (vnodes s n)) \<subseteq> {0} \<longrightarrow> file_bytes s' m = file_bytes s m)"

lemma regular_write_wrote:
  fixes s :: "'a fsys_scheme"
  assumes ok: "file_ok s P L n" and f: "f_node (files s f) = n" "\<not> m_readonly (mounts s ! v_mount (vnodes s n))" "v_type (vnodes s n) \<noteq> DT_DIR"
    and off: "off = (if f_flags (files s f) AND O_APPEND \<noteq> 0 then v_size (vnodes s n) else f_offset (files s f))"
  shows "\<exists>k s'. wrote f n buf off k P L s s' \<and> regular_write f buf s = (if k = 0 \<and> buf \<noteq> [] then Inl (if off \<ge> tmp_file_limit then E_FBIG else E_NOMEM) else Inr k, s')"
proof -
  obtain k s0 s' where w: "written_ok f n buf off k s0 P L s'" "file_ok s0 P L n" "kmem s0 = kmem s" "vnodes s0 = vnodes s" "write_keeps f n s s0"
    "regular_write f buf s = (if k = 0 \<and> buf \<noteq> [] then Inl (if off \<ge> tmp_file_limit then E_FBIG else E_NOMEM) else Inr k, s')"
    using regular_write_ok [OF ok f off, of buf] by blast
  note c = written_okD [OF w(1)]
  have same: "file_bytes s0 m = file_bytes s m" for m by (rule file_bytes_cong [OF w(3,4)])
  have "heap_classes s0 = heap_classes s" using w(5) by (simp add: write_keeps_def)
  then have ok0: "file_ok s0 P L m" if "file_ok s P L m" for m
    using that file_okD(1) [OF w(2)] unfolding file_ok_def w(3,4) by (simp add: blocks_ok_cong [of s0 s])
  have "file_bytes s' m = file_bytes s m" if "m \<noteq> n" "file_ok s P L m" "set (v_blocks (vnodes s m)) \<inter> set (v_blocks (vnodes s n)) \<subseteq> {0}" for m
    using written_other [OF w(1) that(1) ok0 [OF that(2)]] that(3) same by (simp add: w(4))
  moreover have "k \<le> length buf" using c(6) by simp
  moreover have kept: "f_node (files s' f) = n" "v_type (vnodes s' n) = v_type (vnodes s n)" using c(2) w(4,5) f(1) by (simp_all add: write_keeps_def)
  ultimately have "wrote f n buf off k P L s s'"
    unfolding wrote_def using c(1,3,7) written_bytes [OF w(1,2)] same kept by auto
  then show ?thesis using w(6) by blast
qed

lemma overwrite_read: "k \<le> length buf \<Longrightarrow> take k (drop off (overwrite xs off (take k buf))) = take k buf"
  by (simp add: overwrite_def)

lemma wrote_read:
  fixes s :: "'a fsys_scheme"
  assumes w: "wrote f n buf off k P L s s'" and type: "v_type (vnodes s n) \<noteq> DT_DIR"
  shows "regular_pread f k off s' = Inr (take k buf)"
proof -
  obtain P' where "file_ok s' P' L n" using w by (auto simp: wrote_def)
  then have d: "v_data (vnodes s' n) = None" by (rule file_okD(2))
  have n: "f_node (files s' f) = n" "v_type (vnodes s' n) \<noteq> DT_DIR" "k \<le> length buf"
    "file_bytes s' n = (if k = 0 then file_bytes s n else overwrite (file_bytes s n) off (take k buf))"
    using w type by (simp_all add: wrote_def)
  then have "regular_pread f k off s' = Inr (take k (drop off (file_bytes s' n)))" using regular_pread_bytes [of s' f k off] d by simp
  then show ?thesis using n(3,4) overwrite_read [of k buf off "file_bytes s n"] by simp
qed

text \<open>C15. Writing a regular file is overwriting a byte string. A write through a descriptor open for writing returns; it stores the longest prefix of the buffer that fits the
  limit of 64 KiB (less only when no free page is left) at the offset, or at the end for \<open>O_APPEND\<close>, filling any gap with zero bytes, moves the offset behind it, and changes no other
  byte of the file and no byte of any other file. A write of nothing fails with \<open>E_FBIG\<close> at the limit and \<open>E_NOMEM\<close> without pages. Reading the range back gives the bytes written.\<close>

theorem file_write_correct:
  fixes s :: "'a fsys_scheme"
  assumes "file_ok s P L n" "f_node (files s f) = n" "\<not> m_readonly (mounts s ! v_mount (vnodes s n))" "v_type (vnodes s n) \<noteq> DT_DIR"
    and "f \<noteq> 0" "f_flags (files s f) AND O_ACCMODE \<noteq> 0" "f_ops (files s f) = regular_ops"
    and "off = (if f_flags (files s f) AND O_APPEND \<noteq> 0 then v_size (vnodes s n) else f_offset (files s f))"
  shows "\<exists>k s'. file_write f buf s = Some (Returns (if k = 0 \<and> buf \<noteq> [] then Inl (if off \<ge> tmp_file_limit then E_FBIG else E_NOMEM) else Inr k), s') \<and>
    wrote f n buf off k P L s s' \<and> regular_pread f k off s' = Inr (take k buf)"
proof -
  let ?t = "snd (irq_save s)" and ?irq = "fst (irq_save s)"
  have t: "file_ok ?t P L n" "f_node (files ?t f) = n" "\<not> m_readonly (mounts ?t ! v_mount (vnodes ?t n))" "v_type (vnodes ?t n) \<noteq> DT_DIR"
    "off = (if f_flags (files ?t f) AND O_APPEND \<noteq> 0 then v_size (vnodes ?t n) else f_offset (files ?t f))" using assms by simp_all
  obtain k u where u: "wrote f n buf off k P L ?t u" "regular_write f buf ?t = (if k = 0 \<and> buf \<noteq> [] then Inl (if off \<ge> tmp_file_limit then E_FBIG else E_NOMEM) else Inr k, u)"
    using regular_write_wrote [OF t, of buf] by blast
  let ?s' = "back_in (current s) ?irq u"
  have run: "file_write f buf s = Some (Returns (if k = 0 \<and> buf \<noteq> [] then Inl (if off \<ge> tmp_file_limit then E_FBIG else E_NOMEM) else Inr k), ?s')"
    using assms(5-7) u(2) by (simp add: file_write_def case_prod_beta Let_def)
  have w: "wrote f n buf off k P L s ?s'" using u(1) unfolding wrote_def back_in_def by (simp cong: if_cong)
  then have "regular_pread f k off ?s' = Inr (take k buf)" using assms(4) by (rule wrote_read)
  then show ?thesis using run w by (intro exI [of _ k] exI [of _ ?s'] conjI)
qed

lemma demo_file: "file_ok demo_tree (set demo_pages) {} 0x60"
proof -
  have "heap_rep demo_tree (set demo_pages) {} = heap_rep boot_files (set demo_pages) {}" by (rule heap_rep_cong) (simp_all add: demo_tree_def)
  then show ?thesis using boot_files_heap(1)
    by (simp add: file_ok_def blocks_ok_def cell_def demo_tree_def demo_node_def TMP_FILE_PAGES_def tmp_file_limit_def)
qed

theorem file_write_correct_witness:
  "\<exists>k s'. file_write 1 [1, 2, 3] demo_tree = Some (if k = 0 then Returns (Inl E_NOMEM) else Returns (Inr k), s') \<and> regular_pread 1 k 0 s' = Inr (take k [1, 2, 3])"
proof -
  have f: "f_node (files demo_tree 1) = 0x60" "\<not> m_readonly (mounts demo_tree ! v_mount (vnodes demo_tree 0x60))" "v_type (vnodes demo_tree 0x60) \<noteq> DT_DIR"
    "(1 :: u64) \<noteq> 0" "f_flags (files demo_tree 1) AND O_ACCMODE \<noteq> 0" "f_ops (files demo_tree 1) = regular_ops"
    "0 = (if f_flags (files demo_tree 1) AND O_APPEND \<noteq> 0 then v_size (vnodes demo_tree 0x60) else f_offset (files demo_tree 1))"
    by (simp_all add: demo_tree_def demo_node_def node_types open_flags)
  have lim: "tmp_file_limit = 65536" by (simp add: tmp_file_limit_def TMP_FILE_PAGES_def)
  obtain k s' where "file_write 1 [1, 2, 3] demo_tree = Some (Returns (if k = 0 \<and> [1, 2, 3 :: u8] \<noteq> [] then Inl (if tmp_file_limit \<le> 0 then E_FBIG else E_NOMEM) else Inr k), s')"
    "regular_pread 1 k 0 s' = Inr (take k [1, 2, 3])"
    using file_write_correct [OF demo_file f, of "[1, 2, 3]"] by blast
  then show ?thesis by (intro exI [of _ k] exI [of _ s']) (simp add: lim)
qed

end
