(* ===== verification/Address_Space.thy ===== *)
theory Address_Space
  imports Vfs
begin

text \<open>
  User address spaces, \<^verbatim>\<open>src/mm/address_space.c\<close>. An operation takes the contents of the \<^verbatim>\<open>struct address_space\<close> it is
  given a pointer to and returns the new contents. The ledger of pages and the list of areas are
  sequences of an object's address and its contents; the objects are allocated on the kernel heap.
  \<open>None\<close> is a call that never returns.
\<close>

section \<open>Layout\<close>

definition HEAP_BASE :: u64 where "HEAP_BASE = 0x800000"
definition MMAP_BASE :: u64 where "MMAP_BASE = 0x10000000"
definition MMAP_END :: u64 where "MMAP_END = 0x20000000"
definition MAX_MAPPING :: u64 where "MAX_MAPPING = 0x1000000"

text \<open>The end of the lower half, \<^verbatim>\<open>UINT64_C(1) << 38\<close>.\<close>

definition USER_LIMIT :: u64 where "USER_LIMIT = 0x4000000000"

definition PROT_READ :: u32 where "PROT_READ = 1"
definition PROT_WRITE :: u32 where "PROT_WRITE = 2"
definition PROT_EXEC :: u32 where "PROT_EXEC = 4"
definition MAP_PRIVATE :: u32 where "MAP_PRIVATE = 2"
definition MAP_ANONYMOUS :: u32 where "MAP_ANONYMOUS = 0x20"
definition MAP_FIXED_NOREPLACE :: u32 where "MAP_FIXED_NOREPLACE = 0x100000"

lemmas layout_defs = HEAP_BASE_def MMAP_BASE_def MMAP_END_def MAX_MAPPING_def USER_LIMIT_def
lemmas map_flags = PROT_READ_def PROT_WRITE_def PROT_EXEC_def MAP_PRIVATE_def MAP_ANONYMOUS_def MAP_FIXED_NOREPLACE_def

text \<open>\<^verbatim>\<open>sizeof(struct user_page)\<close> and \<^verbatim>\<open>sizeof(struct vm_area)\<close>.\<close>

definition user_page_size :: nat where "user_page_size = 40"
definition vm_area_size :: nat where "vm_area_size = 48"

definition round_up :: "u64 \<Rightarrow> u64" where
  "round_up a = (a + PAGE_MASK) AND NOT PAGE_MASK"

text \<open>The addresses a loop in steps of a page visits from \<open>start\<close> until it reaches \<open>bound\<close>.\<close>

definition pages_between :: "u64 \<Rightarrow> u64 \<Rightarrow> u64 list" where
  "pages_between start bound = map (\<lambda>i. start + of_nat i * PAGE_SIZE) [0..<(unat (bound - start) + 4095) div 4096]"

section \<open>Setting up and tearing down\<close>

definition address_space_init :: "page_table option \<Rightarrow> 'a kstate_scheme \<Rightarrow> bool \<times> address_space \<times> 'a kstate_scheme" where
  "address_space_init kernel_table s =
     (let as = \<lparr>as_table = \<lparr>root = 0\<rparr>, as_pages = [], as_areas = [], brk_base = HEAP_BASE, brk_end = HEAP_BASE\<rparr>;
          (ok, table, s) = vm_create_user (Some (as_table as)) kernel_table s
      in (ok, case table of Some t \<Rightarrow> as\<lparr>as_table := t\<rparr> | None \<Rightarrow> as, s))"

fun release_pages :: "(u64 \<times> user_page) list \<Rightarrow> 'a hstate_scheme \<Rightarrow> 'a hstate_scheme option" where
  "release_pages [] s = Some s"
| "release_pages ((a, page) # rest) s = do { s \<leftarrow> kfree a (page_free (up_physical page) s); release_pages rest s }"

fun release_areas :: "(u64 \<times> vm_area) list \<Rightarrow> 'a hstate_scheme \<Rightarrow> 'a hstate_scheme option" where
  "release_areas [] s = Some s"
| "release_areas ((a, area) # rest) s = do { s \<leftarrow> kfree a s; release_areas rest s }"

definition address_space_destroy :: "address_space \<Rightarrow> 'a hstate_scheme \<Rightarrow> (address_space \<times> 'a hstate_scheme) option" where
  "address_space_destroy as s = do {
     let (table, s) = vm_destroy_user (Some (as_table as)) s;
     s \<leftarrow> release_pages (as_pages as) s;
     s \<leftarrow> release_areas (as_areas as) s;
     Some (as\<lparr>as_table := (case table of Some t \<Rightarrow> t | None \<Rightarrow> as_table as), as_pages := [], as_areas := []\<rparr>, s)
   }"

section \<open>Pages and areas\<close>

definition address_space_add_page ::
  "u64 \<Rightarrow> u64 \<Rightarrow> u64 \<Rightarrow> nat \<Rightarrow> address_space \<Rightarrow> 'a hstate_scheme \<Rightarrow> (bool \<times> address_space \<times> 'a hstate_scheme) option" where
  "address_space_add_page address flags data size0 as s =
     (if address \<ge> USER_LIMIT \<or> address AND PAGE_MASK \<noteq> 0 \<or> flags AND PTE_U = 0 \<or> size0 > 4096 \<or> (size0 \<noteq> 0 \<and> data = 0) then Some (False, as, s)
      else do {
        (page, s) \<leftarrow> kmalloc user_page_size s;
        if page = 0 then Some (False, as, s)
        else do {
          let (physical, s) = page_alloc s;
          if physical = 0 then do { s \<leftarrow> kfree page s; Some (False, as, s) }
          else do {
            let s = s\<lparr>kmem := memset (phys_to_virt physical) 0 4096 (kmem s)\<rparr>;
            let s = (if size0 \<noteq> 0 then s\<lparr>kmem := memcpy (phys_to_virt physical) data size0 (kmem s)\<rparr> else s);
            let (mapped, s) = (if flags AND (PTE_R OR PTE_X) \<noteq> 0 then vm_map (Some (as_table as)) address physical flags s else (True, s));
            if \<not> mapped
            then do {
              s \<leftarrow> kfree page (page_free physical s);
              Some (False, as, vm_prune_user (as_table as) s)
            }
            else Some (True, as\<lparr>as_pages := as_pages as @ [(page, \<lparr>up_virtual_address = address, up_physical = physical, up_flags = flags\<rparr>)]\<rparr>, s)
          }
        }
      })"

definition vacant :: "address_space \<Rightarrow> u64 \<Rightarrow> u64 \<Rightarrow> bool" where
  "vacant as start bound \<longleftrightarrow> list_all (\<lambda>(x, a). \<not> (start < area_end a \<and> area_start a < bound)) (as_areas as)"

definition address_space_reserve ::
  "u64 \<Rightarrow> u64 \<Rightarrow> u64 \<Rightarrow> area_kind \<Rightarrow> address_space \<Rightarrow> 'a hstate_scheme \<Rightarrow> (bool \<times> address_space \<times> 'a hstate_scheme) option" where
  "address_space_reserve start bound flags kind as s =
     (if start \<ge> bound \<or> start AND PAGE_MASK \<noteq> 0 \<or> bound AND PAGE_MASK \<noteq> 0 \<or> bound > USER_LIMIT \<or> \<not> vacant as start bound then Some (False, as, s)
      else do {
        (a, s) \<leftarrow> kmalloc vm_area_size s;
        if a = 0 then Some (False, as, s)
        else Some (True, as\<lparr>as_areas := as_areas as @ [(a, \<lparr>area_start = start, area_end = bound, area_flags = flags, area_kind = kind\<rparr>)]\<rparr>, s)
      })"

fun remove_loop :: "page_table \<Rightarrow> u64 \<Rightarrow> u64 \<Rightarrow> (u64 \<times> user_page) list \<Rightarrow> 'a hstate_scheme \<Rightarrow> ((u64 \<times> user_page) list \<times> 'a hstate_scheme) option" where
  "remove_loop table start bound [] s = Some ([], s)"
| "remove_loop table start bound ((x, p) # rest) s =
     (if up_virtual_address p < start \<or> up_virtual_address p \<ge> bound
      then do { (kept, s) \<leftarrow> remove_loop table start bound rest s; Some ((x, p) # kept, s) }
      else do {
        let s = (if up_flags p AND (PTE_R OR PTE_X) \<noteq> 0 then snd (vm_unmap (Some table) (up_virtual_address p) s) else s);
        s \<leftarrow> kfree x (page_free (up_physical p) s);
        remove_loop table start bound rest s
      })"

definition remove_pages :: "u64 \<Rightarrow> u64 \<Rightarrow> address_space \<Rightarrow> 'a hstate_scheme \<Rightarrow> (address_space \<times> 'a hstate_scheme) option" where
  "remove_pages start bound as s = do {
     (kept, s) \<leftarrow> remove_loop (as_table as) start bound (as_pages as) s;
     Some (as\<lparr>as_pages := kept\<rparr>, vm_prune_user (as_table as) s)
   }"

section \<open>Copies\<close>

fun clone_areas :: "(u64 \<times> vm_area) list \<Rightarrow> address_space \<Rightarrow> 'a hstate_scheme \<Rightarrow> (bool \<times> address_space \<times> 'a hstate_scheme) option" where
  "clone_areas [] as s = Some (True, as, s)"
| "clone_areas ((x, a) # rest) as s = do {
     (ok, as, s) \<leftarrow> address_space_reserve (area_start a) (area_end a) (area_flags a) (area_kind a) as s;
     if ok then clone_areas rest as s else Some (False, as, s)
   }"

fun clone_pages :: "(u64 \<times> user_page) list \<Rightarrow> address_space \<Rightarrow> 'a hstate_scheme \<Rightarrow> (bool \<times> address_space \<times> 'a hstate_scheme) option" where
  "clone_pages [] as s = Some (True, as, s)"
| "clone_pages ((x, p) # rest) as s = do {
     (ok, as, s) \<leftarrow> address_space_add_page (up_virtual_address p) (up_flags p) (phys_to_virt (up_physical p)) 4096 as s;
     if ok then clone_pages rest as s else Some (False, as, s)
   }"

definition address_space_clone ::
  "address_space \<Rightarrow> page_table option \<Rightarrow> 'a hstate_scheme \<Rightarrow> (bool \<times> address_space \<times> 'a hstate_scheme) option" where
  "address_space_clone source kernel_table s = do {
     let (ok, as, s) = address_space_init kernel_table s;
     if \<not> ok then Some (False, as, s)
     else do {
       let as = as\<lparr>brk_base := brk_base source, brk_end := brk_end source\<rparr>;
       (ok, as, s) \<leftarrow> clone_areas (as_areas source) as s;
       if \<not> ok then do { (as, s) \<leftarrow> address_space_destroy as s; Some (False, as, s) }
       else do {
         (ok, as, s) \<leftarrow> clone_pages (as_pages source) as s;
         if \<not> ok then do { (as, s) \<leftarrow> address_space_destroy as s; Some (False, as, s) }
         else Some (True, as, s)
       }
     }
   }"

text \<open>The new contents of the destination and of the source; the entries are moved one by one, in order.\<close>

definition address_space_move :: "address_space \<Rightarrow> address_space \<times> address_space" where
  "address_space_move source = (source, source\<lparr>as_table := \<lparr>root = 0\<rparr>, as_pages := [], as_areas := []\<rparr>)"

text \<open>The part of a copy of \<open>size0\<close> bytes at a user address that stays in one page.\<close>

definition user_chunk :: "u64 \<Rightarrow> nat \<Rightarrow> nat" where
  "user_chunk address size0 = min (unat (PAGE_SIZE - (address AND PAGE_MASK))) size0"

definition user_page_at :: "address_space \<Rightarrow> u64 \<Rightarrow> bool \<Rightarrow> 'a kstate_scheme \<Rightarrow> u64 option" where
  "user_page_at as address write s =
     (case vm_query (Some (as_table as)) address s of
        None \<Rightarrow> None
      | Some (physical, flags) \<Rightarrow>
          if flags AND (PTE_U OR PTE_R) \<noteq> PTE_U OR PTE_R \<or> (write \<and> flags AND PTE_W = 0) then None else Some physical)"

lemma user_chunk_bounds: "0 < size0 \<Longrightarrow> 0 < user_chunk address size0" "user_chunk address size0 \<le> size0"
proof -
  have "address AND PAGE_MASK \<le> PAGE_MASK" by (simp add: word_and_le1)
  then have "unat (address AND PAGE_MASK) \<le> 4095" by (simp add: word_le_nat_alt PAGE_MASK_def PAGE_SIZE_def)
  then have "0 < unat (PAGE_SIZE - (address AND PAGE_MASK))" by (simp add: PAGE_SIZE_def unat_sub_if' unat_gt_0)
  then show "0 < size0 \<Longrightarrow> 0 < user_chunk address size0" "user_chunk address size0 \<le> size0" by (auto simp: user_chunk_def)
qed

text \<open>Reading user memory gives the bytes, writing it the new state.\<close>

function copy_in :: "address_space \<Rightarrow> u64 \<Rightarrow> nat \<Rightarrow> 'a kstate_scheme \<Rightarrow> bytes option" where
  "copy_in as address size0 s =
     (if size0 = 0 then Some []
      else case user_page_at as address False s of
          None \<Rightarrow> None
        | Some physical \<Rightarrow>
            let chunk = user_chunk address size0
            in case copy_in as (address + of_nat chunk) (size0 - chunk) s of
                 None \<Rightarrow> None
               | Some bs \<Rightarrow> Some (read_bytes (kmem s) (phys_to_virt physical) chunk @ bs))"
  by pat_completeness auto

termination copy_in
  by (relation "measure (\<lambda>(as, address, size0, s). size0)") (auto simp: user_chunk_bounds)

function copy_out :: "address_space \<Rightarrow> u64 \<Rightarrow> bytes \<Rightarrow> 'a kstate_scheme \<Rightarrow> bool \<times> 'a kstate_scheme" where
  "copy_out as address bs s =
     (if bs = [] then (True, s)
      else case user_page_at as address True s of
          None \<Rightarrow> (False, s)
        | Some physical \<Rightarrow>
            let chunk = user_chunk address (length bs)
            in copy_out as (address + of_nat chunk) (drop chunk bs) (s\<lparr>kmem := write_bytes (kmem s) (phys_to_virt physical) (take chunk bs)\<rparr>))"
  by pat_completeness auto

termination copy_out
  by (relation "measure (\<lambda>(as, address, bs, s). length bs)") (auto simp: user_chunk_bounds)

declare copy_in.simps [simp del] copy_out.simps [simp del]

definition user_range :: "u64 \<Rightarrow> nat \<Rightarrow> bool" where
  "user_range address size0 \<longleftrightarrow> address < USER_LIMIT \<and> size0 \<le> unat (USER_LIMIT - address)"

text \<open>\<^verbatim>\<open>address_space_copy\<close> in its two directions.\<close>

definition address_space_copy_from :: "address_space \<Rightarrow> u64 \<Rightarrow> nat \<Rightarrow> 'a kstate_scheme \<Rightarrow> bytes option" where
  "address_space_copy_from as address size0 s =
     (if size0 = 0 then Some [] else if \<not> user_range address size0 then None else copy_in as address size0 s)"

definition address_space_copy_to :: "address_space \<Rightarrow> u64 \<Rightarrow> bytes \<Rightarrow> 'a kstate_scheme \<Rightarrow> bool \<times> 'a kstate_scheme" where
  "address_space_copy_to as address bs s =
     (if bs = [] then (True, s) else if \<not> user_range address (length bs) then (False, s) else copy_out as address bs s)"

function validate_loop :: "address_space \<Rightarrow> u64 \<Rightarrow> nat \<Rightarrow> bool \<Rightarrow> 'a kstate_scheme \<Rightarrow> bool" where
  "validate_loop as address size0 write s =
     (if size0 = 0 then True
      else if user_page_at as address write s = None then False
      else let part = user_chunk address size0 in validate_loop as (address + of_nat part) (size0 - part) write s)"
  by pat_completeness auto

termination validate_loop
  by (relation "measure (\<lambda>(as, address, size0, write, s). size0)") (auto simp: user_chunk_bounds)

declare validate_loop.simps [simp del]

definition address_space_validate :: "address_space \<Rightarrow> u64 \<Rightarrow> nat \<Rightarrow> bool \<Rightarrow> 'a kstate_scheme \<Rightarrow> bool" where
  "address_space_validate as address size0 write s =
     (if size0 = 0 then True else if \<not> user_range address size0 then False else validate_loop as address size0 write s)"

section \<open>Mapping\<close>

text \<open>\<open>file\<close> is null or an open file.\<close>

definition mmap_refused :: "u64 \<Rightarrow> u64 \<Rightarrow> u32 \<Rightarrow> u32 \<Rightarrow> u64 \<Rightarrow> u64 \<Rightarrow> 'a fsys_scheme \<Rightarrow> errno option" where
  "mmap_refused address len prot mapflags file offset s =
     (let allowed = MAP_PRIVATE OR MAP_ANONYMOUS OR MAP_FIXED_NOREPLACE
      in if len = 0 \<or> len > MAX_MAPPING \<or> prot AND NOT 7 \<noteq> 0 \<or> (prot AND PROT_WRITE \<noteq> 0 \<and> prot AND PROT_READ = 0) \<or>
            prot AND (PROT_WRITE OR PROT_EXEC) = PROT_WRITE OR PROT_EXEC \<or> mapflags AND MAP_PRIVATE = 0 \<or> mapflags AND NOT allowed \<noteq> 0 \<or>
            offset AND PAGE_MASK \<noteq> 0 \<or> (mapflags AND MAP_ANONYMOUS \<noteq> 0 \<and> offset \<noteq> 0) then Some E_INVAL
         else if mapflags AND MAP_ANONYMOUS = 0 \<and>
            (file = 0 \<or> f_node (files s file) = 0 \<or> v_type (vnodes s (f_node (files s file))) \<noteq> DT_REG \<or> f_flags (files s file) AND O_ACCMODE = O_WRONLY) then Some E_BADF
         else if offset > - 1 - round_up len then Some E_INVAL
         else if address AND PAGE_MASK \<noteq> 0 then Some E_INVAL
         else None)"

text \<open>First fit; the callers have bounded the length.\<close>

function first_fit :: "address_space \<Rightarrow> u64 \<Rightarrow> u64 \<Rightarrow> u64" where
  "first_fit as len address =
     (if len \<le> MAX_MAPPING \<and> address \<le> MMAP_END - len \<and> \<not> vacant as address (address + len) then first_fit as len (address + PAGE_SIZE) else address)"
  by pat_completeness auto

lemma first_fit_step: "len \<le> MAX_MAPPING \<Longrightarrow> address \<le> MMAP_END - len \<Longrightarrow> unat (address + PAGE_SIZE) = unat address + 4096 \<and> unat address \<le> unat MMAP_END"
proof -
  assume a: "len \<le> MAX_MAPPING" "address \<le> MMAP_END - len"
  then have "unat (MMAP_END - len) \<le> unat MMAP_END" by (simp add: word_le_nat_alt layout_defs unat_sub_if')
  then have "unat address \<le> unat MMAP_END" using a(2) by (simp add: word_le_nat_alt)
  then show ?thesis by (simp add: layout_defs PAGE_SIZE_def unat_word_ariths)
qed

termination first_fit
  by (relation "measure (\<lambda>(as, len, address). unat MMAP_END + 4096 - unat address)") (auto dest!: first_fit_step)

declare first_fit.simps [simp del]

definition mmap_place :: "u64 \<Rightarrow> u64 \<Rightarrow> u32 \<Rightarrow> address_space \<Rightarrow> errno + u64" where
  "mmap_place address len mapflags as =
     (let outside = (address < MMAP_BASE \<or> address > MMAP_END - len)
      in if mapflags AND MAP_FIXED_NOREPLACE \<noteq> 0
         then if outside then Inl E_INVAL
              else if \<not> vacant as address (address + len) then Inl E_EXIST
              else Inr address
         else if outside \<or> \<not> vacant as address (address + len)
         then let address = first_fit as len MMAP_BASE in if address > MMAP_END - len then Inl E_NOMEM else Inr address
         else Inr address)"

definition prot_flags :: "u32 \<Rightarrow> u64" where
  "prot_flags prot = PTE_U OR (if prot AND PROT_READ \<noteq> 0 then PTE_R else 0) OR (if prot AND PROT_WRITE \<noteq> 0 then PTE_W else 0)
     OR (if prot AND PROT_EXEC \<noteq> 0 then PTE_X else 0)"

text \<open>The loop over the pages of a mapping; a file's contents are read into the page just added.\<close>

fun mmap_pages :: "u64 \<Rightarrow> u64 \<Rightarrow> u64 \<Rightarrow> u64 \<Rightarrow> bool \<Rightarrow> u64 list \<Rightarrow> address_space \<Rightarrow> 'a fsys_scheme \<Rightarrow> (bool \<times> address_space \<times> 'a fsys_scheme) option" where
  "mmap_pages address flags file offset anonymous [] as s = Some (True, as, s)"
| "mmap_pages address flags file offset anonymous (at # ats) as s = do {
     (ok, as, s) \<leftarrow> address_space_add_page at flags 0 0 as s;
     if \<not> ok then Some (False, as, s)
     else if anonymous then mmap_pages address flags file offset anonymous ats as s
     else case file_pread file 4096 (unat (offset + at - address)) s of
         (Inl e, s) \<Rightarrow> Some (False, as, s)
       | (Inr bs, s) \<Rightarrow>
           mmap_pages address flags file offset anonymous ats as
             (s\<lparr>kmem := write_bytes (kmem s) (phys_to_virt (up_physical (snd (last (as_pages as))))) bs\<rparr>)
   }"

definition address_space_mmap ::
  "u64 \<Rightarrow> u64 \<Rightarrow> u32 \<Rightarrow> u32 \<Rightarrow> u64 \<Rightarrow> u64 \<Rightarrow> address_space \<Rightarrow> 'a fsys_scheme \<Rightarrow> ((errno + u64) \<times> address_space \<times> 'a fsys_scheme) option" where
  "address_space_mmap address len prot mapflags file offset as s =
     (case mmap_refused address len prot mapflags file offset s of
        Some e \<Rightarrow> Some (Inl e, as, s)
      | None \<Rightarrow>
          let len = round_up len; anonymous = (mapflags AND MAP_ANONYMOUS \<noteq> 0)
          in case mmap_place address len mapflags as of
               Inl e \<Rightarrow> Some (Inl e, as, s)
             | Inr address \<Rightarrow> do {
                 (ok, as, s) \<leftarrow> address_space_reserve address (address + len) (prot_flags prot) (if anonymous then AREA_ANON else AREA_FILE) as s;
                 if \<not> ok then Some (Inl E_NOMEM, as, s)
                 else do {
                   (ok, as, s) \<leftarrow> mmap_pages address (prot_flags prot) file offset anonymous (pages_between address (address + len)) as s;
                   if ok then Some (Inr address, as, s)
                   else do {
                     (as, s) \<leftarrow> remove_pages address (address + len) as s;
                     s \<leftarrow> kfree (fst (last (as_areas as))) s;
                     Some (Inl E_NOMEM, as\<lparr>as_areas := butlast (as_areas as)\<rparr>, s)
                   }
                 }
               })"

section \<open>Unmapping\<close>

text \<open>The pass before any change: areas that may not be cut are refused, and the area a cut in the middle needs is allocated.\<close>

fun munmap_check :: "u64 \<Rightarrow> u64 \<Rightarrow> (u64 \<times> vm_area) list \<Rightarrow> u64 \<Rightarrow> 'a hstate_scheme \<Rightarrow> ((errno + u64) \<times> 'a hstate_scheme) option" where
  "munmap_check start bound [] split s = Some (Inr split, s)"
| "munmap_check start bound ((x, a) # rest) split s =
     (if start \<ge> area_end a \<or> bound \<le> area_start a then munmap_check start bound rest split s
      else if area_kind a \<noteq> AREA_ANON \<and> area_kind a \<noteq> AREA_FILE then do { s \<leftarrow> kfree split s; Some (Inl E_PERM, s) }
      else if start > area_start a \<and> bound < area_end a
      then do { (split, s) \<leftarrow> kmalloc vm_area_size s; if split = 0 then Some (Inl E_NOMEM, s) else munmap_check start bound rest split s }
      else munmap_check start bound rest split s)"

text \<open>The pass that cuts the areas. It returns the areas left, an area split off, which goes to the end of the list, and the allocated object if it was not used.\<close>

fun munmap_cut :: "u64 \<Rightarrow> u64 \<Rightarrow> (u64 \<times> vm_area) list \<Rightarrow> u64 \<Rightarrow> 'a hstate_scheme \<Rightarrow> ((u64 \<times> vm_area) list \<times> (u64 \<times> vm_area) list \<times> u64 \<times> 'a hstate_scheme) option" where
  "munmap_cut start bound [] split s = Some ([], [], split, s)"
| "munmap_cut start bound ((x, a) # rest) split s =
     (if start \<ge> area_end a \<or> bound \<le> area_start a
      then do { (left, new, split, s) \<leftarrow> munmap_cut start bound rest split s; Some ((x, a) # left, new, split, s) }
      else if start \<le> area_start a \<and> bound \<ge> area_end a
      then do { s \<leftarrow> kfree x s; munmap_cut start bound rest split s }
      else if start > area_start a \<and> bound < area_end a
      then do { (left, new, unused, s) \<leftarrow> munmap_cut start bound rest 0 s; Some ((x, a\<lparr>area_end := start\<rparr>) # left, (split, a\<lparr>area_start := bound\<rparr>) # new, unused, s) }
      else do {
        (left, new, split, s) \<leftarrow> munmap_cut start bound rest split s;
        Some ((x, if start \<le> area_start a then a\<lparr>area_start := bound\<rparr> else a\<lparr>area_end := start\<rparr>) # left, new, split, s)
      })"

definition address_space_munmap :: "u64 \<Rightarrow> u64 \<Rightarrow> address_space \<Rightarrow> 'a hstate_scheme \<Rightarrow> ((errno + u64) \<times> address_space \<times> 'a hstate_scheme) option" where
  "address_space_munmap start len as s =
     (if start AND PAGE_MASK \<noteq> 0 \<or> len = 0 \<or> start \<ge> USER_LIMIT \<or> len > USER_LIMIT - start then Some (Inl E_INVAL, as, s)
      else do {
        let bound = round_up (start + len);
        (checked, s) \<leftarrow> munmap_check start bound (as_areas as) 0 s;
        case checked of
          Inl e \<Rightarrow> Some (Inl e, as, s)
        | Inr split \<Rightarrow> do {
            (as, s) \<leftarrow> remove_pages start bound as s;
            (left, new, unused, s) \<leftarrow> munmap_cut start bound (as_areas as) split s;
            s \<leftarrow> kfree unused s;
            Some (Inr 0, as\<lparr>as_areas := left @ new\<rparr>, s)
          }
      })"

section \<open>The heap of a process\<close>

fun brk_pages :: "u64 list \<Rightarrow> address_space \<Rightarrow> 'a hstate_scheme \<Rightarrow> (bool \<times> address_space \<times> 'a hstate_scheme) option" where
  "brk_pages [] as s = Some (True, as, s)"
| "brk_pages (at # ats) as s = do {
     (ok, as, s) \<leftarrow> address_space_add_page at (PTE_U OR PTE_R OR PTE_W) 0 0 as s;
     if ok then brk_pages ats as s else Some (False, as, s)
   }"

text \<open>The last area of kind \<open>AREA_HEAP\<close>, and a change of it.\<close>

definition heap_area :: "address_space \<Rightarrow> (u64 \<times> vm_area) option" where
  "heap_area as = (case filter (\<lambda>(x, a). area_kind a = AREA_HEAP) (as_areas as) of [] \<Rightarrow> None | hs \<Rightarrow> Some (last hs))"

definition set_heap_end :: "u64 \<Rightarrow> u64 \<Rightarrow> address_space \<Rightarrow> address_space" where
  "set_heap_end x bound as = as\<lparr>as_areas := map (\<lambda>(y, a). if y = x then (y, a\<lparr>area_end := bound\<rparr>) else (y, a)) (as_areas as)\<rparr>"

definition brk_grow :: "u64 \<Rightarrow> u64 \<Rightarrow> address_space \<Rightarrow> 'a hstate_scheme \<Rightarrow> (bool \<times> address_space \<times> 'a hstate_scheme) option" where
  "brk_grow old bound as s =
     (if \<not> vacant as old bound then Some (False, as, s)
      else do {
        (fresh, s) \<leftarrow> (if heap_area as \<noteq> None then Some (0, s) else kmalloc vm_area_size s);
        if heap_area as = None \<and> fresh = 0 then Some (False, as, s)
        else do {
          (ok, as, s) \<leftarrow> brk_pages (pages_between old bound) as s;
          if \<not> ok
          then do { (as, s) \<leftarrow> remove_pages old bound as s; s \<leftarrow> kfree fresh s; Some (False, as, s) }
          else Some (True, case heap_area as of
              None \<Rightarrow> as\<lparr>as_areas := as_areas as @ [(fresh, \<lparr>area_start = brk_base as, area_end = bound, area_flags = PTE_U OR PTE_R OR PTE_W, area_kind = AREA_HEAP\<rparr>)]\<rparr>
            | Some (x, a) \<Rightarrow> set_heap_end x bound as, s)
        }
      })"

definition brk_shrink :: "u64 \<Rightarrow> u64 \<Rightarrow> address_space \<Rightarrow> 'a hstate_scheme \<Rightarrow> (address_space \<times> 'a hstate_scheme) option" where
  "brk_shrink old bound as s = do {
     (as, s) \<leftarrow> remove_pages bound old as s;
     case heap_area as of
       None \<Rightarrow> Some (as, s)
     | Some (x, a) \<Rightarrow>
         if bound = area_start a then do { s \<leftarrow> kfree x s; Some (as\<lparr>as_areas := filter (\<lambda>(y, b). y \<noteq> x) (as_areas as)\<rparr>, s) }
         else Some (set_heap_end x bound as, s)
   }"

definition address_space_brk :: "u64 \<Rightarrow> address_space \<Rightarrow> 'a hstate_scheme \<Rightarrow> ((errno + u64) \<times> address_space \<times> 'a hstate_scheme) option" where
  "address_space_brk requested as s =
     (if requested = 0 then Some (Inr (brk_end as), as, s)
      else if requested < brk_base as \<or> requested > brk_base as + MAX_MAPPING then Some (Inl E_NOMEM, as, s)
      else do {
        let old = round_up (brk_end as);
        let bound = round_up requested;
        (ok, as, s) \<leftarrow> (if bound > old then brk_grow old bound as s
          else if bound < old then do { (as, s) \<leftarrow> brk_shrink old bound as s; Some (True, as, s) }
          else Some (True, as, s));
        if \<not> ok then Some (Inl E_NOMEM, as, s)
        else Some (Inr requested, as\<lparr>brk_end := requested\<rparr>, s)
      })"

end
