(* ===== verification/Process_State.thy ===== *)
theory Process_State
  imports Address_Space
begin

text \<open>
  Processes as objects, from \<^verbatim>\<open>src/kernel/process.h\<close>, and the copies between kernel and user memory of
  \<^verbatim>\<open>src/kernel/user.c\<close>. The address space of the process at \<open>p\<close> is \<open>spaces s p\<close>: it is the first member of the object.
\<close>

datatype process_state = PROCESS_RUNNING | PROCESS_ZOMBIE | PROCESS_REAPABLE

text \<open>Signed statuses are kept as the 64-bit words that are copied to user memory.\<close>

record process =
  pr_fds :: "u64 list"
  pr_root :: u64
  pr_cwd :: u64
  pr_pid :: u64
  pr_parent :: u64
  pr_children :: "u64 list"
  pr_state :: process_state
  pr_exit_status :: u64
  pr_fault_code :: u64
  pr_result :: u64

record process_result =
  res_reaped :: bool
  res_status :: u64
  res_fault :: u64

text \<open>The statics of \<^verbatim>\<open>src/kernel/process.c\<close>; \<open>results\<close> holds the observers of root processes by address.\<close>

record psys = fsys +
  processes :: "u64 \<Rightarrow> process"
  process_table :: "page_table option"
  init_process :: u64
  next_pid :: u64
  process_lock :: spinlock
  results :: "u64 \<Rightarrow> process_result"

definition update_process :: "u64 \<Rightarrow> (process \<Rightarrow> process) \<Rightarrow> 'a psys_scheme \<Rightarrow> 'a psys_scheme" where
  "update_process p g s = s\<lparr>processes := (processes s)(p := g (processes s p))\<rparr>"

definition update_space :: "u64 \<Rightarrow> address_space \<Rightarrow> 'a kernel_scheme \<Rightarrow> 'a kernel_scheme" where
  "update_space p as s = s\<lparr>spaces := (spaces s)(p := as)\<rparr>"

text \<open>\<^verbatim>\<open>sizeof(struct process)\<close> and the address of its wait queue.\<close>

definition process_size :: nat where "process_size = 424"
definition child_wait :: "u64 \<Rightarrow> u64" where "child_wait p = p + 376"

definition process_acquire :: "'a psys_scheme \<Rightarrow> 'a psys_scheme option" where
  "process_acquire s = do { l \<leftarrow> spin_lock (process_lock s); Some (s\<lparr>process_lock := l\<rparr>) }"

definition process_unlock :: "'a psys_scheme \<Rightarrow> 'a psys_scheme" where
  "process_unlock s = s\<lparr>process_lock := spin_unlock (process_lock s)\<rparr>"

section \<open>User memory\<close>

definition copy_from_user :: "u64 \<Rightarrow> nat \<Rightarrow> 'a kernel_scheme \<Rightarrow> bytes option" where
  "copy_from_user source size0 s =
     (let process = current_process s
      in if size0 = 0 then Some [] else if process = 0 then None else address_space_copy_from (spaces s process) source size0 s)"

definition copy_to_user :: "u64 \<Rightarrow> bytes \<Rightarrow> 'a kernel_scheme \<Rightarrow> bool \<times> 'a kernel_scheme" where
  "copy_to_user destination bs s =
     (let process = current_process s
      in if bs = [] then (True, s) else if process = 0 then (False, s) else address_space_copy_to (spaces s process) destination bs s)"

text \<open>A string of less than \<open>capacity\<close> bytes at \<open>source + i\<close>; the result is the string without its NUL.\<close>

fun user_string_from :: "u64 \<Rightarrow> nat \<Rightarrow> nat \<Rightarrow> 'a kernel_scheme \<Rightarrow> bytes option" where
  "user_string_from source i 0 s = None"
| "user_string_from source i (Suc n) s =
     (if source > - 1 - of_nat i then None
      else case copy_from_user (source + of_nat i) 1 s of
          Some [c] \<Rightarrow> if c = 0 then Some [] else map_option (\<lambda>cs. c # cs) (user_string_from source (i + 1) n s)
        | _ \<Rightarrow> None)"

definition copy_user_string :: "nat \<Rightarrow> u64 \<Rightarrow> 'a kernel_scheme \<Rightarrow> bytes option" where
  "copy_user_string capacity source s = (if source = 0 \<or> capacity = 0 then None else user_string_from source 0 capacity s)"

definition EXEC_MAX_ARGS :: nat where "EXEC_MAX_ARGS = 8"
definition EXEC_MAX_ENVS :: nat where "EXEC_MAX_ENVS = 8"
definition EXEC_STRING_SIZE :: nat where "EXEC_STRING_SIZE = 64"

record exec_arguments =
  argv :: "bytes list"
  envp :: "bytes list"

text \<open>\<open>count\<close> strings are read, at most \<open>n\<close> more are allowed, and after that there must be a null pointer.\<close>

fun user_vector_from :: "u64 \<Rightarrow> nat \<Rightarrow> nat \<Rightarrow> 'a kernel_scheme \<Rightarrow> bytes list option" where
  "user_vector_from vector count 0 s =
     (case copy_from_user (vector + of_nat (count * 8)) 8 s of
        None \<Rightarrow> None | Some bs \<Rightarrow> if (of_le_bytes bs :: u64) = 0 then Some [] else None)"
| "user_vector_from vector count (Suc n) s =
     (case copy_from_user (vector + of_nat (count * 8)) 8 s of
        None \<Rightarrow> None
      | Some bs \<Rightarrow>
          if (of_le_bytes bs :: u64) = 0 then Some []
          else case copy_user_string EXEC_STRING_SIZE (of_le_bytes bs) s of
              None \<Rightarrow> None
            | Some str \<Rightarrow> map_option (\<lambda>strs. str # strs) (user_vector_from vector (count + 1) n s))"

definition copy_user_vector :: "u64 \<Rightarrow> nat \<Rightarrow> 'a kernel_scheme \<Rightarrow> bytes list option" where
  "copy_user_vector vector maximum s =
     (if vector = 0 then Some []
      else if vector > - 1 - of_nat ((maximum + 1) * 8) then None
      else user_vector_from vector 0 maximum s)"

definition copy_exec_request :: "u64 \<Rightarrow> u64 \<Rightarrow> u64 \<Rightarrow> 'a kernel_scheme \<Rightarrow> (bytes \<times> exec_arguments) option" where
  "copy_exec_request user_path user_argv user_envp s = do {
     path \<leftarrow> copy_user_string EXEC_STRING_SIZE user_path s;
     args \<leftarrow> copy_user_vector user_argv EXEC_MAX_ARGS s;
     envs \<leftarrow> copy_user_vector user_envp EXEC_MAX_ENVS s;
     Some (path, \<lparr>argv = args, envp = envs\<rparr>)
   }"

end
