(* ===== verification/Elf.thy ===== *)
theory Elf
  imports Process_State
begin

text \<open>
  The ELF loader, \<^verbatim>\<open>src/kernel/elf.c\<close>: the checks on the headers, the loading of segments, the initial stack and
  the image as a whole. \<open>None\<close> is a call that never returns.
\<close>

section \<open>The file format\<close>

definition ELF_MACHINE_RISCV :: u16 where "ELF_MACHINE_RISCV = 243"
definition ELF_TYPE_EXEC :: u16 where "ELF_TYPE_EXEC = 2"
definition ELF_PROGRAM_LOAD :: u32 where "ELF_PROGRAM_LOAD = 1"
definition ELF_PROGRAM_DYNAMIC :: u32 where "ELF_PROGRAM_DYNAMIC = 2"
definition ELF_PROGRAM_INTERP :: u32 where "ELF_PROGRAM_INTERP = 3"
definition ELF_FLAG_EXEC :: u32 where "ELF_FLAG_EXEC = 1"
definition ELF_FLAG_WRITE :: u32 where "ELF_FLAG_WRITE = 2"
definition ELF_FLAG_READ :: u32 where "ELF_FLAG_READ = 4"
definition ELF_MAX_HEADERS :: u16 where "ELF_MAX_HEADERS = 16"
definition USER_END :: u64 where "USER_END = 0x3fb000"
definition USER_STACK_TOP :: u64 where "USER_STACK_TOP = 0x400000"
definition USER_STACK_PAGES :: u64 where "USER_STACK_PAGES = 4"

lemmas elf_flags = ELF_FLAG_EXEC_def ELF_FLAG_WRITE_def ELF_FLAG_READ_def

record elf_header =
  eh_identity :: bytes
  eh_type :: u16
  eh_machine :: u16
  eh_version :: u32
  eh_entry :: u64
  eh_program_offset :: u64
  eh_section_offset :: u64
  eh_flags :: u32
  eh_header_size :: u16
  eh_program_entry_size :: u16
  eh_program_count :: u16
  eh_section_entry_size :: u16
  eh_section_count :: u16
  eh_section_names :: u16

record elf_program =
  ep_type :: u32
  ep_flags :: u32
  ep_offset :: u64
  ep_virtual_address :: u64
  ep_physical_address :: u64
  ep_file_size :: u64
  ep_memory_size :: u64
  ep_alignment :: u64

definition elf_header_size :: nat where "elf_header_size = 64"
definition elf_program_size :: nat where "elf_program_size = 56"

text \<open>The structures as they lie in the file.\<close>

definition field :: "bytes \<Rightarrow> nat \<Rightarrow> nat \<Rightarrow> 'w::len word" where
  "field bs off n = of_le_bytes (take n (drop off bs))"

definition elf_header_of :: "bytes \<Rightarrow> elf_header" where
  "elf_header_of bs = \<lparr>eh_identity = take 16 bs, eh_type = field bs 16 2, eh_machine = field bs 18 2, eh_version = field bs 20 4, eh_entry = field bs 24 8,
     eh_program_offset = field bs 32 8, eh_section_offset = field bs 40 8, eh_flags = field bs 48 4, eh_header_size = field bs 52 2,
     eh_program_entry_size = field bs 54 2, eh_program_count = field bs 56 2, eh_section_entry_size = field bs 58 2,
     eh_section_count = field bs 60 2, eh_section_names = field bs 62 2\<rparr>"

definition elf_program_of :: "bytes \<Rightarrow> elf_program" where
  "elf_program_of bs = \<lparr>ep_type = field bs 0 4, ep_flags = field bs 4 4, ep_offset = field bs 8 8, ep_virtual_address = field bs 16 8,
     ep_physical_address = field bs 24 8, ep_file_size = field bs 32 8, ep_memory_size = field bs 40 8, ep_alignment = field bs 48 8\<rparr>"

definition read_exact :: "u64 \<Rightarrow> nat \<Rightarrow> u64 \<Rightarrow> 'a fsys_scheme \<Rightarrow> bytes option \<times> 'a fsys_scheme" where
  "read_exact file size0 offset s =
     (case file_pread file size0 (unat offset) s of
        (Inr bs, s) \<Rightarrow> (if length bs = size0 then Some bs else None, s)
      | (Inl e, s) \<Rightarrow> (None, s))"

definition elf_identity :: bytes where "elf_identity = [0x7f, 0x45, 0x4c, 0x46, 2, 1, 1]"

definition valid_header :: "elf_header \<Rightarrow> u64 \<Rightarrow> bool" where
  "valid_header header file_length =
     (if take 7 (eh_identity header) \<noteq> elf_identity \<or> eh_type header \<noteq> ELF_TYPE_EXEC \<or> eh_machine header \<noteq> ELF_MACHINE_RISCV \<or>
         eh_version header \<noteq> 1 \<or> eh_header_size header \<noteq> of_nat elf_header_size \<or> eh_program_entry_size header \<noteq> of_nat elf_program_size \<or>
         eh_program_count header = 0 \<or> eh_program_count header > ELF_MAX_HEADERS then False
      else let table_size = ucast (eh_program_count header) * of_nat elf_program_size
        in eh_program_offset header \<le> file_length \<and> table_size \<le> file_length - eh_program_offset header)"

section \<open>Segments\<close>

text \<open>The checks of \<open>load_segment\<close> on a segment that is not empty.\<close>

definition segment_refused :: "u64 \<Rightarrow> elf_program \<Rightarrow> bool" where
  "segment_refused file_length program \<longleftrightarrow>
     ep_file_size program > ep_memory_size program \<or>
     ep_flags program AND NOT (ELF_FLAG_READ OR ELF_FLAG_WRITE OR ELF_FLAG_EXEC) \<noteq> 0 \<or>
     (ep_alignment program > 1 \<and> ep_alignment program AND (ep_alignment program - 1) \<noteq> 0) \<or>
     ep_virtual_address program \<ge> USER_END \<or>
     ep_memory_size program > USER_END - ep_virtual_address program \<or>
     ep_offset program > file_length \<or>
     ep_file_size program > file_length - ep_offset program \<or>
     (ep_virtual_address program XOR ep_offset program) AND PAGE_MASK \<noteq> 0 \<or>
     (ep_flags program AND ELF_FLAG_WRITE \<noteq> 0 \<and> ep_flags program AND ELF_FLAG_READ = 0) \<or>
     ep_flags program AND (ELF_FLAG_WRITE OR ELF_FLAG_EXEC) = ELF_FLAG_WRITE OR ELF_FLAG_EXEC"

definition segment_flags :: "elf_program \<Rightarrow> u64" where
  "segment_flags program = PTE_U OR (if ep_flags program AND ELF_FLAG_READ \<noteq> 0 then PTE_R else 0)
     OR (if ep_flags program AND ELF_FLAG_WRITE \<noteq> 0 then PTE_W else 0) OR (if ep_flags program AND ELF_FLAG_EXEC \<noteq> 0 then PTE_X else 0)"

fun segment_pages :: "u64 \<Rightarrow> u64 list \<Rightarrow> address_space \<Rightarrow> 'a hstate_scheme \<Rightarrow> (bool \<times> address_space \<times> 'a hstate_scheme) option" where
  "segment_pages flags [] as s = Some (True, as, s)"
| "segment_pages flags (at # ats) as s = do {
     (ok, as, s) \<leftarrow> address_space_add_page at flags 0 0 as s;
     if ok then segment_pages flags ats as s else Some (False, as, s)
   }"

text \<open>Copying the part of the segment that is in the file.\<close>

function segment_copy :: "page_table \<Rightarrow> u64 \<Rightarrow> u64 \<Rightarrow> u64 \<Rightarrow> nat \<Rightarrow> 'a fsys_scheme \<Rightarrow> bool \<times> 'a fsys_scheme" where
  "segment_copy table file address offset remaining s =
     (if remaining = 0 then (True, s)
      else let chunk = user_chunk address remaining
        in case vm_query (Some table) address s of
             None \<Rightarrow> (False, s)
           | Some (physical, flags) \<Rightarrow>
               (case read_exact file chunk offset s of
                  (None, s) \<Rightarrow> (False, s)
                | (Some bs, s) \<Rightarrow>
                    segment_copy table file (address + of_nat chunk) (offset + of_nat chunk) (remaining - chunk)
                      (s\<lparr>kmem := write_bytes (kmem s) (phys_to_virt physical) bs\<rparr>)))"
  by pat_completeness auto

termination segment_copy
  by (relation "measure (\<lambda>(table, file, address, offset, remaining, s). remaining)") (auto simp: user_chunk_bounds)

declare segment_copy.simps [simp del]

definition load_segment :: "u64 \<Rightarrow> u64 \<Rightarrow> elf_program \<Rightarrow> address_space \<Rightarrow> 'a fsys_scheme \<Rightarrow> (bool \<times> address_space \<times> 'a fsys_scheme) option" where
  "load_segment file file_length program as s =
     (if ep_memory_size program = 0 then Some (ep_file_size program = 0, as, s)
      else if segment_refused file_length program then Some (False, as, s)
      else let flags = segment_flags program
        in if flags AND (PTE_R OR PTE_X) = 0 then Some (False, as, s)
           else let first = ep_virtual_address program AND NOT PAGE_MASK
             in if ep_virtual_address program + ep_memory_size program > - 1 - PAGE_MASK then Some (False, as, s)
                else do {
                  let bound = round_up (ep_virtual_address program + ep_memory_size program);
                  (ok, as, s) \<leftarrow> address_space_reserve first bound flags AREA_ELF as s;
                  if \<not> ok then Some (False, as, s)
                  else do {
                    (ok, as, s) \<leftarrow> segment_pages flags (pages_between first bound) as s;
                    if \<not> ok then Some (False, as, s)
                    else do {
                      let (ok, s) = segment_copy (as_table as) file (ep_virtual_address program) (ep_offset program) (unat (ep_file_size program)) s;
                      Some (ok, as, s)
                    }
                  }
                })"

section \<open>The initial stack\<close>

text \<open>The strings are pushed from the last to the first; the result is their addresses in order, and the new stack pointer.\<close>

fun push_strings :: "bytes list \<Rightarrow> u64 \<Rightarrow> address_space \<Rightarrow> 'a kstate_scheme \<Rightarrow> (u64 list \<times> u64) option \<times> 'a kstate_scheme" where
  "push_strings [] cursor as s = (Some ([], cursor), s)"
| "push_strings (str # rest) cursor as s =
     (let cursor = cursor - of_nat (length str + 1);
          (ok, s) = address_space_copy_to as cursor (str @ [0]) s
      in if \<not> ok then (None, s)
         else case push_strings rest cursor as s of
             (None, s) \<Rightarrow> (None, s)
           | (Some (pointers, bottom), s) \<Rightarrow> (Some (pointers @ [cursor], bottom), s))"

definition stack_pages :: "u64 list" where
  "stack_pages = map (\<lambda>i. USER_STACK_TOP - (USER_STACK_PAGES - of_nat i) * PAGE_SIZE) [0..<unat USER_STACK_PAGES]"

definition build_stack :: "exec_arguments \<Rightarrow> address_space \<Rightarrow> 'a hstate_scheme \<Rightarrow> (u64 option \<times> address_space \<times> 'a hstate_scheme) option" where
  "build_stack arguments as s = do {
     (ok, as, s) \<leftarrow> address_space_reserve (USER_STACK_TOP - (USER_STACK_PAGES + 1) * PAGE_SIZE) USER_STACK_TOP (PTE_U OR PTE_R OR PTE_W) AREA_STACK as s;
     if \<not> ok then Some (None, as, s)
     else do {
       (ok, as, s) \<leftarrow> segment_pages (PTE_U OR PTE_R OR PTE_W) stack_pages as s;
       if \<not> ok then Some (None, as, s)
       else case push_strings (rev (envp arguments)) USER_STACK_TOP as s of
           (None, s) \<Rightarrow> Some (None, as, s)
         | (Some (envs, cursor), s) \<Rightarrow>
             (case push_strings (rev (argv arguments)) cursor as s of
                (None, s) \<Rightarrow> Some (None, as, s)
              | (Some (args, cursor), s) \<Rightarrow>
                  let words = of_nat (length (argv arguments)) # args @ [0] @ envs @ [0];
                      cursor = (cursor - of_nat (length words * 8)) AND NOT 15
                  in if cursor < USER_STACK_TOP - USER_STACK_PAGES * PAGE_SIZE then Some (None, as, s)
                     else let (ok, s) = address_space_copy_to as cursor (concat (map (le_bytes 8) words)) s
                       in Some (if ok then Some cursor else None, as, s))
     }
   }"

section \<open>The image\<close>

record exec_image =
  im_as :: address_space
  im_entry :: u64
  im_stack_pointer :: u64

text \<open>The loop over the program headers; the flag says whether an executable segment with the entry point was loaded.\<close>

fun load_programs :: "elf_header \<Rightarrow> u64 \<Rightarrow> u64 \<Rightarrow> nat list \<Rightarrow> bool \<Rightarrow> address_space \<Rightarrow> 'a fsys_scheme \<Rightarrow> (bool option \<times> address_space \<times> 'a fsys_scheme) option" where
  "load_programs header file file_length [] executable as s = Some (Some executable, as, s)"
| "load_programs header file file_length (i # is) executable as s =
     (case read_exact file elf_program_size (eh_program_offset header + of_nat (i * elf_program_size)) s of
        (None, s) \<Rightarrow> Some (None, as, s)
      | (Some bs, s) \<Rightarrow>
          let program = elf_program_of bs
          in if ep_type program = ELF_PROGRAM_DYNAMIC \<or> ep_type program = ELF_PROGRAM_INTERP then Some (None, as, s)
             else if ep_type program \<noteq> ELF_PROGRAM_LOAD then load_programs header file file_length is executable as s
             else do {
               (ok, as, s) \<leftarrow> load_segment file file_length program as s;
               if \<not> ok then Some (None, as, s)
               else load_programs header file file_length is
                 (executable \<or> (ep_flags program AND ELF_FLAG_EXEC \<noteq> 0 \<and> eh_entry header \<ge> ep_virtual_address program \<and>
                    eh_entry header - ep_virtual_address program < ep_memory_size program)) as s
             })"

text \<open>The part of \<open>elf_load\<close> whose failures destroy the address space.\<close>

definition load_image :: "elf_header \<Rightarrow> u64 \<Rightarrow> u64 \<Rightarrow> exec_arguments \<Rightarrow> address_space \<Rightarrow> 'a fsys_scheme \<Rightarrow> (exec_image option \<times> 'a fsys_scheme) option" where
  "load_image header file file_length arguments as s = do {
     (loaded, as, s) \<leftarrow> load_programs header file file_length [0..<unat (eh_program_count header)] False as s;
     (stack, as, s) \<leftarrow> (if loaded = Some True then build_stack arguments as s else Some (None, as, s));
     case stack of
       None \<Rightarrow> do { (as, s) \<leftarrow> address_space_destroy as s; Some (None, s) }
     | Some sp \<Rightarrow> Some (Some \<lparr>im_as = as, im_entry = eh_entry header, im_stack_pointer = sp\<rparr>, s)
   }"

definition elf_load :: "page_table option \<Rightarrow> bytes \<Rightarrow> exec_arguments \<Rightarrow> 'a psys_scheme \<Rightarrow> (exec_image option \<times> 'a psys_scheme) option" where
  "elf_load kernel_table path arguments s = do {
     let process = current_process s;
     (opened, s) \<leftarrow> vfs_openat (if process \<noteq> 0 then pr_root (processes s process) else vfs_root s)
       (if process \<noteq> 0 then pr_cwd (processes s process) else vfs_root s) path O_RDONLY s;
     case opened of
       Inl e \<Rightarrow> Some (None, s)
     | Inr file \<Rightarrow> do {
         let file_length = of_nat (file_size file s);
         (result, s) \<leftarrow> (case read_exact file elf_header_size 0 s of
             (None, s) \<Rightarrow> Some (None, s)
           | (Some bs, s) \<Rightarrow>
               if \<not> valid_header (elf_header_of bs) file_length then Some (None, s)
               else (case address_space_init kernel_table s of
                   (False, as, s) \<Rightarrow> Some (None, s)
                 | (True, as, s) \<Rightarrow> load_image (elf_header_of bs) file file_length arguments as s));
         s \<leftarrow> file_put file s;
         Some (result, s)
       }
   }"

definition elf_image_destroy :: "exec_image \<Rightarrow> 'a hstate_scheme \<Rightarrow> 'a hstate_scheme option" where
  "elf_image_destroy img s = do { (as, s) \<leftarrow> address_space_destroy (im_as img) s; Some s }"

end
