(* ===== verification/Process.thy ===== *)
theory Process
  imports Elf
begin

text \<open>
  Processes, \<^verbatim>\<open>src/kernel/process.c\<close>, and the reaping of dead threads, \<open>scheduler_reap\<close> of \<^verbatim>\<open>src/kernel/scheduler.c\<close>, which releases
  their processes. \<open>None\<close> is a call that never returns; a wait that puts its thread to sleep starts over
  when the thread runs again.
\<close>

section \<open>Creation and destruction\<close>

definition process_system_init :: "page_table option \<Rightarrow> 'a psys_scheme \<Rightarrow> 'a psys_scheme" where
  "process_system_init kernel_table s = s\<lparr>process_table := kernel_table, init_process := 0, next_pid := 1, process_lock := spinlock_init\<rparr>"

definition new_process :: "u64 \<Rightarrow> process" where
  "new_process root0 = \<lparr>pr_fds = replicate FD_COUNT 0, pr_root = root0, pr_cwd = root0, pr_pid = 0, pr_parent = 0, pr_children = [],
     pr_state = PROCESS_RUNNING, pr_exit_status = 0, pr_fault_code = 0, pr_result = 0\<rparr>"

definition process_create :: "'a psys_scheme \<Rightarrow> (u64 \<times> 'a psys_scheme) option" where
  "process_create s = do {
     (process, s) \<leftarrow> kmalloc process_size s;
     if process = 0 then Some (0, s)
     else do {
       let (ok, as, s) = address_space_init (process_table s) s;
       let s = update_space process as s;
       if \<not> ok then do { s \<leftarrow> kfree process s; Some (0, s) }
       else do {
         let s = wait_queue_init (child_wait process) s;
         let s = s\<lparr>processes := (processes s)(process := new_process (vfs_root s))\<rparr>;
         let (flags, s) = irq_save s;
         s \<leftarrow> process_acquire s;
         let s = update_process process (\<lambda>p. p\<lparr>pr_pid := next_pid s\<rparr>) s;
         let s = process_unlock (s\<lparr>next_pid := next_pid s + 1\<rparr>);
         Some (process, irq_restore flags s)
       }
     }
   }"

text \<open>Closing the descriptors of a process from slot \<open>i\<close> on.\<close>

fun put_files :: "u64 \<Rightarrow> nat list \<Rightarrow> 'a psys_scheme \<Rightarrow> 'a psys_scheme option" where
  "put_files process [] s = Some s"
| "put_files process (i # is) s = do {
     s \<leftarrow> file_put (pr_fds (processes s process) ! i) s;
     put_files process is (update_process process (\<lambda>p. p\<lparr>pr_fds := (pr_fds p)[i := 0]\<rparr>) s)
   }"

definition destroy_space :: "u64 \<Rightarrow> 'a kernel_scheme \<Rightarrow> 'a kernel_scheme option" where
  "destroy_space process s = do { (as, s) \<leftarrow> address_space_destroy (spaces s process) s; Some (update_space process as s) }"

definition process_destroy :: "u64 \<Rightarrow> 'a psys_scheme \<Rightarrow> 'a psys_scheme option" where
  "process_destroy process s =
     (if process = 0 then Some s
      else do {
        s \<leftarrow> destroy_space process s;
        s \<leftarrow> put_files process [0..<FD_COUNT] s;
        kfree process s
      })"

definition process_set_init :: "u64 \<Rightarrow> 'a psys_scheme \<Rightarrow> 'a psys_scheme" where
  "process_set_init process s = s\<lparr>init_process := process\<rparr>"

definition process_getpid :: "'a psys_scheme \<Rightarrow> u64" where
  "process_getpid s = (if current_process s \<noteq> 0 then pr_pid (processes s (current_process s)) else 0)"

section \<open>Families\<close>

definition link_child :: "u64 \<Rightarrow> u64 \<Rightarrow> 'a psys_scheme \<Rightarrow> 'a psys_scheme" where
  "link_child parent child0 s =
     update_process parent (\<lambda>p. p\<lparr>pr_children := pr_children p @ [child0]\<rparr>) (update_process child0 (\<lambda>p. p\<lparr>pr_parent := parent\<rparr>) s)"

text \<open>\<open>list_remove\<close> of the child's link and clearing its parent.\<close>

definition unlink_child :: "u64 \<Rightarrow> u64 \<Rightarrow> 'a psys_scheme \<Rightarrow> 'a psys_scheme" where
  "unlink_child parent child0 s =
     update_process child0 (\<lambda>p. p\<lparr>pr_parent := 0\<rparr>) (update_process parent (\<lambda>p. p\<lparr>pr_children := removeAll child0 (pr_children p)\<rparr>) s)"

fun share_files :: "u64 \<Rightarrow> u64 \<Rightarrow> nat list \<Rightarrow> 'a psys_scheme \<Rightarrow> 'a psys_scheme" where
  "share_files parent child0 [] s = s"
| "share_files parent child0 (i # is) s =
     (let f = pr_fds (processes s parent) ! i
      in share_files parent child0 is (file_get f (update_process child0 (\<lambda>p. p\<lparr>pr_fds := (pr_fds p)[i := f]\<rparr>) s)))"

definition process_fork :: "code_symbols \<Rightarrow> trap_frame \<Rightarrow> 'a psys_scheme \<Rightarrow> ((errno + u64) \<times> 'a psys_scheme) option" where
  "process_fork syms parent_frame s = do {
     let parent = current_process s;
     (child0, s) \<leftarrow> process_create s;
     if child0 = 0 then Some (Inl E_NOMEM, s)
     else do {
       s \<leftarrow> destroy_space child0 s;
       (ok, copy, s) \<leftarrow> address_space_clone (spaces s parent) (process_table s) s;
       if \<not> ok
       then do {
         let s = update_space child0 ((spaces s child0)\<lparr>as_table := \<lparr>root = 0\<rparr>, as_pages := []\<rparr>) s;
         s \<leftarrow> process_destroy child0 s;
         Some (Inl E_NOMEM, s)
       }
       else do {
         let s = update_space child0 (fst (address_space_move copy)) s;
         let s = update_process child0 (\<lambda>p. p\<lparr>pr_root := pr_root (processes s parent), pr_cwd := pr_cwd (processes s parent)\<rparr>) s;
         let s = share_files parent child0 [0..<FD_COUNT] s;
         let child_frame = parent_frame\<lparr>frame_x := (frame_x parent_frame)[10 := 0]\<rparr>;
         let (flags, s) = irq_save s;
         s \<leftarrow> process_acquire s;
         let s = process_unlock (link_child parent child0 s);
         (ok, s) \<leftarrow> thread_create_user syms child0 (Some child_frame) s;
         if \<not> ok
         then do {
           s \<leftarrow> process_acquire s;
           let s = irq_restore flags (process_unlock (unlink_child parent child0 s));
           s \<leftarrow> process_destroy child0 s;
           Some (Inl E_NOMEM, s)
         }
         else let s = irq_restore flags s in Some (Inr (pr_pid (processes s child0)), s)
       }
     }
   }"

text \<open>The frame the process continues with, the result, and the new state. A failed load is the error 2.\<close>

definition process_exec :: "trap_frame \<Rightarrow> bytes \<Rightarrow> exec_arguments \<Rightarrow> 'a psys_scheme \<Rightarrow> ((errno + u64) \<times> trap_frame \<times> 'a psys_scheme) option" where
  "process_exec frame path arguments s = do {
     let process = current_process s;
     (loaded, s) \<leftarrow> elf_load (process_table s) path arguments s;
     case loaded of
       None \<Rightarrow> Some (Inl E_NOENT, frame, s)
     | Some img \<Rightarrow> do {
         let (old, rest) = address_space_move (spaces s process);
         let s = update_space process (fst (address_space_move (im_as img))) s;
         let s = vm_activate (as_table (spaces s process)) s;
         (old, s) \<leftarrow> address_space_destroy old s;
         Some (Inr 0, zero_frame\<lparr>frame_sepc := im_entry img, frame_x := (replicate 32 0)[2 := im_stack_pointer img], frame_sstatus := SSTATUS_SPIE\<rparr>, s)
       }
   }"

section \<open>Waiting and exiting\<close>

text \<open>\<open>pid\<close> is the signed argument of \<open>waitpid\<close>; \<open>first\<close> the first child met by a wait for any child.\<close>

fun find_child_from :: "(u64 \<Rightarrow> process) \<Rightarrow> int \<Rightarrow> u64 \<Rightarrow> u64 list \<Rightarrow> u64" where
  "find_child_from ps pid first [] = first"
| "find_child_from ps pid first (c # cs) =
     (if pid \<noteq> - 1 \<and> word_of_int pid = pr_pid (ps c) then c
      else if pid = - 1
      then if pr_state (ps c) = PROCESS_REAPABLE then c else find_child_from ps pid (if first = 0 then c else first) cs
      else find_child_from ps pid first cs)"

definition find_child :: "u64 \<Rightarrow> int \<Rightarrow> 'a psys_scheme \<Rightarrow> u64" where
  "find_child parent pid s = find_child_from (processes s) pid 0 (pr_children (processes s parent))"

definition process_waitpid :: "int \<Rightarrow> u64 \<Rightarrow> u64 \<Rightarrow> 'a psys_scheme \<Rightarrow> ((errno + u64) outcome \<times> 'a psys_scheme) option" where
  "process_waitpid pid status_address options s =
     (let parent = current_process s; self = current s
      in if (pid \<le> 0 \<and> pid \<noteq> - 1) \<or> options \<noteq> 0 then Some (Returns (Inl E_INVAL), s)
         else do {
           let (flags, s) = irq_save s;
           s \<leftarrow> process_acquire s;
           let child0 = find_child parent pid s;
           if child0 = 0 then Some (Returns (Inl E_CHILD), irq_restore flags (process_unlock s))
           else if pr_state (processes s child0) = PROCESS_REAPABLE
           then do {
             let (ok, s) = (if status_address \<noteq> 0 then copy_to_user status_address (le_bytes 8 (pr_exit_status (processes s child0))) s else (True, s));
             if \<not> ok then Some (Returns (Inl E_FAULT), irq_restore flags (process_unlock s))
             else do {
               let result = pr_pid (processes s child0);
               let s = irq_restore flags (process_unlock (unlink_child parent child0 s));
               s \<leftarrow> kfree child0 s;
               Some (Returns (Inr result), s)
             }
           }
           else do {
             s \<leftarrow> wait_queue_sleep (child_wait parent) process_unlock s;
             Some (Sleeps, back_in self flags s)
           }
         })"

text \<open>The children of an exiting process go to the init process; without one, those already reaped are freed.\<close>

fun adopt_children :: "u64 \<Rightarrow> u64 list \<Rightarrow> 'a psys_scheme \<Rightarrow> 'a psys_scheme option" where
  "adopt_children process [] s = Some s"
| "adopt_children process (c # cs) s = do {
     let s = unlink_child process c s;
     s \<leftarrow> (if init_process s \<noteq> 0 \<and> init_process s \<noteq> process then Some (link_child (init_process s) c s)
       else if pr_state (processes s c) = PROCESS_REAPABLE then kfree c s
       else Some s);
     adopt_children process cs s
   }"

definition process_exit :: "u64 \<Rightarrow> u64 \<Rightarrow> 'a psys_scheme \<Rightarrow> 'a psys_scheme option" where
  "process_exit status fault s = do {
     let process = current_process s;
     let (flags, s) = irq_save s;
     s \<leftarrow> process_acquire s;
     let s = update_process process (\<lambda>p. p\<lparr>pr_exit_status := status, pr_fault_code := fault, pr_state := PROCESS_ZOMBIE\<rparr>) s;
     s \<leftarrow> adopt_children process (pr_children (processes s process)) s;
     thread_exit (process_unlock s)
   }"

section \<open>Reaping\<close>

definition process_thread_reaped :: "u64 \<Rightarrow> 'a psys_scheme \<Rightarrow> 'a psys_scheme option" where
  "process_thread_reaped process s = do {
     let result = pr_result (processes s process);
     s \<leftarrow> destroy_space process s;
     s \<leftarrow> put_files process [0..<FD_COUNT] s;
     s \<leftarrow> process_acquire s;
     let s = update_process process (\<lambda>p. p\<lparr>pr_state := PROCESS_REAPABLE\<rparr>) s;
     let parent = pr_parent (processes s process);
     let s = (if parent \<noteq> 0 then wait_queue_wake_all (child_wait parent) s else s);
     if result = 0
     then let s = process_unlock s in if pr_parent (processes s process) = 0 then kfree process s else Some s
     else do {
       let s = s\<lparr>results := (results s)(result := (results s result)\<lparr>res_status := pr_exit_status (processes s process), res_fault := pr_fault_code (processes s process)\<rparr>)\<rparr>;
       let s = (if process = init_process s then s\<lparr>init_process := 0\<rparr> else s);
       s \<leftarrow> kfree process (process_unlock s);
       Some (s\<lparr>results := (results s)(result := (results s result)\<lparr>res_reaped := True\<rparr>)\<rparr>)
     }
   }"

fun reap_threads :: "u64 list \<Rightarrow> 'a psys_scheme \<Rightarrow> 'a psys_scheme option" where
  "reap_threads [] s = Some s"
| "reap_threads (t # ts) s =
     (if t \<noteq> current s \<and> \<not> t_idle (threads s t) \<and> state_of s t = THREAD_DEAD
      then do {
        let s = s\<lparr>all_threads := removeAll t (all_threads s)\<rparr>;
        let s = page_free (t_stack_page (threads s t)) s;
        s \<leftarrow> (if t_process (threads s t) \<noteq> 0 then process_thread_reaped (t_process (threads s t)) s else Some s);
        s \<leftarrow> kfree t s;
        reap_threads ts s
      }
      else reap_threads ts s)"

definition scheduler_reap :: "'a psys_scheme \<Rightarrow> 'a psys_scheme option" where
  "scheduler_reap s = do {
     let (flags, s) = irq_save s;
     s \<leftarrow> reap_threads (all_threads s) s;
     Some (irq_restore flags s)
   }"

end
