(* ===== verification/Syscalls.thy ===== *)
theory Syscalls
  imports Process
begin

text \<open>
  The system calls: file descriptors, \<^verbatim>\<open>src/kernel/fd.c\<close>, and the dispatch of \<^verbatim>\<open>src/kernel/user.c\<close>. The arguments are
  the registers of the trap frame. A result is an error or a value of register \<open>a0\<close>.
\<close>

section \<open>Descriptors\<close>

definition lookup_fd :: "u64 \<Rightarrow> u64 \<Rightarrow> 'a psys_scheme \<Rightarrow> u64" where
  "lookup_fd p fd s = (if unat fd < FD_COUNT then pr_fds (processes s p) ! unat fd else 0)"

text \<open>The first empty slot at or after \<open>i\<close>.\<close>

definition empty_slot_from :: "nat \<Rightarrow> u64 list \<Rightarrow> nat option" where
  "empty_slot_from i fds = find (\<lambda>j. fds ! j = 0) [i..<FD_COUNT]"

definition empty_slot :: "u64 \<Rightarrow> 'a psys_scheme \<Rightarrow> nat option" where
  "empty_slot p s = empty_slot_from 0 (pr_fds (processes s p))"

definition set_fd :: "u64 \<Rightarrow> nat \<Rightarrow> u64 \<Rightarrow> 'a psys_scheme \<Rightarrow> 'a psys_scheme" where
  "set_fd p i f = update_process p (\<lambda>x. x\<lparr>pr_fds := (pr_fds x)[i := f]\<rparr>)"

text \<open>The string at a user address, \<open>n\<close> more bytes of it at most.\<close>

fun path_copy_from :: "u64 \<Rightarrow> nat \<Rightarrow> nat \<Rightarrow> 'a kernel_scheme \<Rightarrow> errno + bytes" where
  "path_copy_from address i 0 s = Inl E_NAMETOOLONG"
| "path_copy_from address i (Suc n) s =
     (if address > - 1 - of_nat i then Inl E_FAULT
      else case copy_from_user (address + of_nat i) 1 s of
          Some [c] \<Rightarrow> if c = 0 then Inr [] else (case path_copy_from address (i + 1) n s of Inl e \<Rightarrow> Inl e | Inr cs \<Rightarrow> Inr (c # cs))
        | _ \<Rightarrow> Inl E_FAULT)"

definition path_copy :: "u64 \<Rightarrow> 'a kernel_scheme \<Rightarrow> errno + bytes" where
  "path_copy address s = path_copy_from address 0 PATH_LIMIT s"

fun install_stdio_from :: "u64 \<Rightarrow> nat list \<Rightarrow> 'a psys_scheme \<Rightarrow> (errno option \<times> 'a psys_scheme) option" where
  "install_stdio_from p [] s = Some (None, s)"
| "install_stdio_from p (i # is) s = do {
     let root0 = pr_root (processes s p);
     (opened, s) \<leftarrow> vfs_openat root0 root0 (cstr ''/dev/console'') (if i \<noteq> 0 then O_WRONLY else O_RDONLY) s;
     case opened of Inl e \<Rightarrow> Some (Some e, s) | Inr f \<Rightarrow> install_stdio_from p is (set_fd p i f s)
   }"

definition fd_install_stdio :: "u64 \<Rightarrow> 'a psys_scheme \<Rightarrow> (errno option \<times> 'a psys_scheme) option" where
  "fd_install_stdio p s = install_stdio_from p [0..<3] s"

section \<open>Transfers\<close>

text \<open>
  A transfer goes in chunks of at most 256 bytes. \<open>Blocked done\<close> means that the thread sleeps in a read
  or a write after \<open>done\<close> bytes; when it runs again it goes on with the chunk at \<open>done\<close>.
\<close>

datatype transfer_outcome = Blocked nat | Done "errno + nat"

definition TRANSFER_CHUNK :: nat where "TRANSFER_CHUNK = 256"

text \<open>One chunk: asleep, or the count or error the backend returned. The range was validated before, so the copies do not fail.\<close>

definition transfer_chunk :: "u64 \<Rightarrow> u64 \<Rightarrow> nat \<Rightarrow> bool \<Rightarrow> 'a psys_scheme \<Rightarrow> ((errno + nat) outcome \<times> 'a psys_scheme) option" where
  "transfer_chunk file address chunk writing s =
     (if writing then file_write file (case copy_from_user address chunk s of Some bs \<Rightarrow> bs | None \<Rightarrow> replicate chunk 0) s
      else do {
        (r, s) \<leftarrow> file_read file chunk s;
        case r of
          Sleeps \<Rightarrow> Some (Sleeps, s)
        | Returns (Inl e) \<Rightarrow> Some (Returns (Inl e), s)
        | Returns (Inr bs) \<Rightarrow> Some (Returns (Inr (length bs)), if bs \<noteq> [] then snd (copy_to_user address bs s) else s)
      })"

function transfer_loop :: "u64 \<Rightarrow> u64 \<Rightarrow> nat \<Rightarrow> bool \<Rightarrow> nat \<Rightarrow> 'a psys_scheme \<Rightarrow> (transfer_outcome \<times> 'a psys_scheme) option" where
  "transfer_loop file address size0 writing pos s =
     (if pos \<ge> size0 then Some (Done (Inr pos), s)
      else let chunk = (if size0 - pos > TRANSFER_CHUNK then TRANSFER_CHUNK else size0 - pos)
        in case transfer_chunk file (address + of_nat pos) chunk writing s of
             None \<Rightarrow> None
           | Some (Sleeps, s) \<Rightarrow> Some (Blocked pos, s)
           | Some (Returns (Inl e), s) \<Rightarrow> Some (Done (if pos \<noteq> 0 then Inr pos else Inl e), s)
           | Some (Returns (Inr n), s) \<Rightarrow>
               if n = 0 \<or> n < chunk \<or> (\<not> writing \<and> f_ops (files s file) \<noteq> regular_ops) then Some (Done (Inr (pos + n)), s)
               else transfer_loop file address size0 writing (pos + n) s)"
  by pat_completeness auto

termination transfer_loop
  by (relation "measure (\<lambda>(file, address, size0, writing, pos, s). size0 - pos)") (auto simp: TRANSFER_CHUNK_def split: if_splits)

declare transfer_loop.simps [simp del]

text \<open>A transfer that starts, and one that goes on after its thread was woken. The extra reference is given back at the end.\<close>

definition transfer_finish :: "u64 \<Rightarrow> transfer_outcome \<times> 'a psys_scheme \<Rightarrow> (transfer_outcome \<times> 'a psys_scheme) option" where
  "transfer_finish file r =
     (case r of
        (Blocked pos, s) \<Rightarrow> Some (Blocked pos, s)
      | (Done n, s) \<Rightarrow> do { s \<leftarrow> file_put file s; Some (Done n, s) })"

definition transfer_resume :: "u64 \<Rightarrow> u64 \<Rightarrow> nat \<Rightarrow> bool \<Rightarrow> nat \<Rightarrow> 'a psys_scheme \<Rightarrow> (transfer_outcome \<times> 'a psys_scheme) option" where
  "transfer_resume file address size0 writing pos s = do {
     r \<leftarrow> transfer_loop file address size0 writing pos s;
     transfer_finish file r
   }"

definition transfer :: "u64 \<Rightarrow> u64 \<Rightarrow> u64 \<Rightarrow> u64 \<Rightarrow> bool \<Rightarrow> 'a psys_scheme \<Rightarrow> (transfer_outcome \<times> 'a psys_scheme) option" where
  "transfer p fd address size0 writing s =
     (let file = lookup_fd p fd s
      in if file = 0 \<or> (if writing then f_flags (files s file) AND O_ACCMODE = O_RDONLY else f_flags (files s file) AND O_ACCMODE = O_WRONLY) then Some (Done (Inl E_BADF), s)
         else if uint size0 > INT64_MAX \<or> \<not> address_space_validate (spaces s p) address (unat size0) (\<not> writing) s then Some (Done (Inl E_FAULT), s)
         else transfer_resume file address (unat size0) writing 0 (file_get file s))"

section \<open>The calls on descriptors\<close>

definition SYS_WRITE :: u64 where "SYS_WRITE = 1"
definition SYS_EXIT :: u64 where "SYS_EXIT = 2"
definition SYS_YIELD :: u64 where "SYS_YIELD = 3"
definition SYS_GETPID :: u64 where "SYS_GETPID = 4"
definition SYS_EXEC :: u64 where "SYS_EXEC = 5"
definition SYS_WAITPID :: u64 where "SYS_WAITPID = 6"
definition SYS_FORK :: u64 where "SYS_FORK = 7"
definition SYS_OPENAT :: u64 where "SYS_OPENAT = 8"
definition SYS_CLOSE :: u64 where "SYS_CLOSE = 9"
definition SYS_READ :: u64 where "SYS_READ = 10"
definition SYS_DUP :: u64 where "SYS_DUP = 11"
definition SYS_DUP2 :: u64 where "SYS_DUP2 = 12"
definition SYS_GETDENTS :: u64 where "SYS_GETDENTS = 13"
definition SYS_PIPE :: u64 where "SYS_PIPE = 14"
definition SYS_CHDIR :: u64 where "SYS_CHDIR = 15"
definition SYS_GETCWD :: u64 where "SYS_GETCWD = 16"
definition SYS_BRK :: u64 where "SYS_BRK = 17"
definition SYS_MMAP :: u64 where "SYS_MMAP = 18"
definition SYS_MUNMAP :: u64 where "SYS_MUNMAP = 19"
definition SYS_LSEEK :: u64 where "SYS_LSEEK = 20"

lemmas syscall_numbers = SYS_WRITE_def SYS_EXIT_def SYS_YIELD_def SYS_GETPID_def SYS_EXEC_def SYS_WAITPID_def SYS_FORK_def SYS_OPENAT_def SYS_CLOSE_def SYS_READ_def SYS_DUP_def SYS_DUP2_def SYS_GETDENTS_def SYS_PIPE_def SYS_CHDIR_def SYS_GETCWD_def SYS_BRK_def SYS_MMAP_def SYS_MUNMAP_def SYS_LSEEK_def

definition AT_FDCWD :: u64 where "AT_FDCWD = - 100"

text \<open>
  The outcome of a call: its thread sleeps and, for a transfer, goes on at a position (any other call
  starts over); a result; a new program runs; or the process has ended.
\<close>

datatype syscall_outcome = Asleep nat | Result "errno + u64" | Replaced | Ended

definition transfer_result :: "transfer_outcome \<Rightarrow> syscall_outcome" where
  "transfer_result r = (case r of Blocked pos \<Rightarrow> Asleep pos | Done (Inl e) \<Rightarrow> Result (Inl e) | Done (Inr n) \<Rightarrow> Result (Inr (of_nat n)))"

definition sys_close :: "u64 \<Rightarrow> u64 \<Rightarrow> 'a psys_scheme \<Rightarrow> ((errno + u64) \<times> 'a psys_scheme) option" where
  "sys_close p fd s =
     (let file = lookup_fd p fd s
      in if file = 0 then Some (Inl E_BADF, s)
         else do { s \<leftarrow> file_put file (set_fd p (unat fd) 0 s); Some (Inr 0, s) })"

text \<open>\<open>dup\<close> takes the first empty slot, \<open>dup2\<close> the one asked for.\<close>

definition sys_dup :: "u64 \<Rightarrow> u64 \<Rightarrow> u64 option \<Rightarrow> 'a psys_scheme \<Rightarrow> ((errno + u64) \<times> 'a psys_scheme) option" where
  "sys_dup p fd target s =
     (let file = lookup_fd p fd s
      in if file = 0 then Some (Inl E_BADF, s)
         else case (case target of
                      None \<Rightarrow> (case empty_slot p s of None \<Rightarrow> Inl E_MFILE | Some i \<Rightarrow> Inr i)
                    | Some b \<Rightarrow> if unat b < FD_COUNT then Inr (unat b) else Inl E_BADF) of
             Inl e \<Rightarrow> Some (Inl e, s)
           | Inr slot \<Rightarrow>
               if slot = unat fd then Some (Inr (of_nat slot), s)
               else do {
                 let s = file_get file s;
                 s \<leftarrow> file_put (pr_fds (processes s p) ! slot) s;
                 Some (Inr (of_nat slot), set_fd p slot file s)
               })"

definition sys_openat :: "u64 \<Rightarrow> u64 \<Rightarrow> u64 \<Rightarrow> u64 \<Rightarrow> 'a psys_scheme \<Rightarrow> ((errno + u64) \<times> 'a psys_scheme) option" where
  "sys_openat p a b c s =
     (case path_copy b s of
        Inl e \<Rightarrow> Some (Inl e, s)
      | Inr path \<Rightarrow>
          let file = lookup_fd p a s; relative = (\<not> begins_slash path \<and> a \<noteq> AT_FDCWD)
          in if relative \<and> file = 0 then Some (Inl E_BADF, s)
             else if relative \<and> (f_node (files s file) = 0 \<or> v_type (vnodes s (f_node (files s file))) \<noteq> DT_DIR) then Some (Inl E_NOTDIR, s)
             else let base = (if relative then f_node (files s file) else pr_cwd (processes s p))
               in case empty_slot p s of
                    None \<Rightarrow> Some (Inl E_MFILE, s)
                  | Some slot \<Rightarrow>
                      if c > 0xffffffff then Some (Inl E_INVAL, s)
                      else do {
                        (opened, s) \<leftarrow> vfs_openat (pr_root (processes s p)) base path (ucast c) s;
                        case opened of Inl e \<Rightarrow> Some (Inl e, s) | Inr f \<Rightarrow> Some (Inr (of_nat slot), set_fd p slot f s)
                      })"

definition sys_pipe :: "u64 \<Rightarrow> u64 \<Rightarrow> 'a psys_scheme \<Rightarrow> ((errno + u64) \<times> 'a psys_scheme) option" where
  "sys_pipe p a s =
     (if \<not> address_space_validate (spaces s p) a 8 True s then Some (Inl E_FAULT, s)
      else case empty_slot p s of
          None \<Rightarrow> Some (Inl E_MFILE, s)
        | Some i \<Rightarrow>
            (case empty_slot_from (i + 1) (pr_fds (processes s p)) of
               None \<Rightarrow> Some (Inl E_MFILE, s)
             | Some j \<Rightarrow> do {
                 (made, s) \<leftarrow> pipe_create s;
                 case made of
                   Inl e \<Rightarrow> Some (Inl e, s)
                 | Inr (r, w) \<Rightarrow>
                     Some (Inr 0, snd (copy_to_user a (le_bytes 4 (of_nat i :: u32) @ le_bytes 4 (of_nat j :: u32)) (set_fd p j w (set_fd p i r s))))
               }))"

definition entry_bytes :: "directory_entry \<Rightarrow> bytes" where
  "entry_bytes e = le_bytes 8 (d_inode e) @ le_bytes 4 (d_type e) @ replicate 4 0 @ d_name e @ replicate (NAME_LIMIT - length (d_name e)) 0"

text \<open>One directory entry at a time, while the buffer has room for \<open>n\<close> more.\<close>

fun getdents_loop :: "u64 \<Rightarrow> u64 \<Rightarrow> nat \<Rightarrow> nat \<Rightarrow> 'a psys_scheme \<Rightarrow> (errno + nat) \<times> 'a psys_scheme" where
  "getdents_loop file address pos 0 s = (Inr pos, s)"
| "getdents_loop file address pos (Suc n) s =
     (case file_getdents file directory_entry_size s of
        (Inl e, s) \<Rightarrow> (if pos \<noteq> 0 then Inr pos else Inl e, s)
      | (Inr [], s) \<Rightarrow> (Inr pos, s)
      | (Inr (e # _), s) \<Rightarrow> getdents_loop file address (pos + directory_entry_size) n (snd (copy_to_user (address + of_nat pos) (entry_bytes e) s)))"

definition sys_getdents :: "u64 \<Rightarrow> u64 \<Rightarrow> u64 \<Rightarrow> u64 \<Rightarrow> 'a psys_scheme \<Rightarrow> (errno + u64) \<times> 'a psys_scheme" where
  "sys_getdents p a b c s =
     (let file = lookup_fd p a s
      in if file = 0 then (Inl E_BADF, s)
         else if unat c < directory_entry_size then (Inl E_INVAL, s)
         else if uint c > INT64_MAX \<or> \<not> address_space_validate (spaces s p) b (unat c) True s then (Inl E_FAULT, s)
         else case getdents_loop file b 0 (unat c div directory_entry_size) s of
             (Inl e, s) \<Rightarrow> (Inl e, s)
           | (Inr n, s) \<Rightarrow> (Inr (of_nat n), s))"

definition sys_chdir :: "u64 \<Rightarrow> u64 \<Rightarrow> 'a psys_scheme \<Rightarrow> (errno + u64) \<times> 'a psys_scheme" where
  "sys_chdir p a s =
     (case path_copy a s of
        Inl e \<Rightarrow> (Inl e, s)
      | Inr path \<Rightarrow>
          (case vfs_resolve (pr_root (processes s p)) (pr_cwd (processes s p)) path False s of
             Inl e \<Rightarrow> (Inl e, s)
           | Inr n \<Rightarrow>
               if v_type (vnodes s n) \<noteq> DT_DIR then (Inl E_NOTDIR, s)
               else (Inr 0, update_process p (\<lambda>x. x\<lparr>pr_cwd := n\<rparr>) s)))"

definition sys_getcwd :: "u64 \<Rightarrow> u64 \<Rightarrow> u64 \<Rightarrow> 'a psys_scheme \<Rightarrow> (errno + u64) \<times> 'a psys_scheme" where
  "sys_getcwd p a b s =
     (case vfs_getcwd (pr_root (processes s p)) (pr_cwd (processes s p)) PATH_LIMIT s of
        Inl e \<Rightarrow> (Inl e, s)
      | Inr path \<Rightarrow>
          if unat b < length path + 1 then (Inl E_INVAL, s)
          else let (ok, s) = copy_to_user a (path @ [0]) s in (if ok then Inr (of_nat (length path + 1)) else Inl E_FAULT, s))"

definition sys_lseek :: "u64 \<Rightarrow> u64 \<Rightarrow> u64 \<Rightarrow> u64 \<Rightarrow> 'a psys_scheme \<Rightarrow> (errno + u64) \<times> 'a psys_scheme" where
  "sys_lseek p a b c s =
     (let file = lookup_fd p a s
      in if file = 0 then (Inl E_BADF, s)
         else if c > 0xffffffff then (Inl E_INVAL, s)
         else case file_seek file (sint b) (ucast c) s of
             (Inl e, s) \<Rightarrow> (Inl e, s)
           | (Inr n, s) \<Rightarrow> (Inr (word_of_int n), s))"

definition fd_syscall :: "trap_frame \<Rightarrow> 'a psys_scheme \<Rightarrow> (syscall_outcome \<times> 'a psys_scheme) option" where
  "fd_syscall f s =
     (let p = current_process s; a = frame_x f ! 10; b = frame_x f ! 11; c = frame_x f ! 12; number = frame_x f ! 17;
          done = map_option (\<lambda>(r, s). (Result r, s))
      in if number = SYS_READ then map_option (\<lambda>(r, s). (transfer_result r, s)) (transfer p a b c False s)
         else if number = SYS_WRITE then map_option (\<lambda>(r, s). (transfer_result r, s)) (transfer p a b c True s)
         else if number = SYS_CLOSE then done (sys_close p a s)
         else if number = SYS_DUP then done (sys_dup p a None s)
         else if number = SYS_DUP2 then done (sys_dup p a (Some b) s)
         else if number = SYS_OPENAT then done (sys_openat p a b c s)
         else if number = SYS_PIPE then done (sys_pipe p a s)
         else if number = SYS_GETDENTS then done (Some (sys_getdents p a b c s))
         else if number = SYS_CHDIR then done (Some (sys_chdir p a s))
         else if number = SYS_GETCWD then done (Some (sys_getcwd p a b s))
         else if number = SYS_LSEEK then done (Some (sys_lseek p a b c s))
         else Some (Result (Inl E_NOSYS), s))"

section \<open>Dispatch\<close>

definition in_space :: "u64 \<Rightarrow> ((errno + u64) \<times> address_space \<times> 'a psys_scheme) option \<Rightarrow> (syscall_outcome \<times> 'a psys_scheme) option" where
  "in_space p r = map_option (\<lambda>(result, as, s). (Result result, update_space p as s)) r"

text \<open>\<^verbatim>\<open>sizeof(struct exec_arguments)\<close>.\<close>

definition exec_arguments_size :: nat where "exec_arguments_size = 1040"

definition sys_mmap :: "trap_frame \<Rightarrow> 'a psys_scheme \<Rightarrow> (syscall_outcome \<times> 'a psys_scheme) option" where
  "sys_mmap f s =
     (let p = current_process s; fd = frame_x f ! 14; prot = frame_x f ! 12; mapflags = frame_x f ! 13
      in if prot > 0xffffffff \<or> mapflags > 0xffffffff \<or> (mapflags AND ucast MAP_ANONYMOUS \<noteq> 0 \<and> fd \<noteq> - 1) then Some (Result (Inl E_INVAL), s)
         else in_space p (address_space_mmap (frame_x f ! 10) (frame_x f ! 11) (ucast prot) (ucast mapflags) (lookup_fd p fd s) (frame_x f ! 15) (spaces s p) s))"

definition sys_exec :: "trap_frame \<Rightarrow> 'a psys_scheme \<Rightarrow> (syscall_outcome \<times> trap_frame \<times> 'a psys_scheme) option" where
  "sys_exec f s = do {
     (arguments, s) \<leftarrow> kmalloc exec_arguments_size s;
     if arguments = 0 then Some (Result (Inl E_NOMEM), f, s)
     else case copy_exec_request (frame_x f ! 10) (frame_x f ! 11) (frame_x f ! 12) s of
         None \<Rightarrow> do { s \<leftarrow> kfree arguments s; Some (Result (Inl E_FAULT), f, s) }
       | Some (path, args) \<Rightarrow> do {
           (result, f, s) \<leftarrow> process_exec f path args s;
           s \<leftarrow> kfree arguments s;
           Some (if result = Inr 0 then Replaced else Result result, f, s)
         }
   }"

definition fd_calls :: "u64 list" where
  "fd_calls = [SYS_WRITE, SYS_READ, SYS_OPENAT, SYS_CLOSE, SYS_DUP, SYS_DUP2, SYS_GETDENTS, SYS_PIPE, SYS_CHDIR, SYS_GETCWD, SYS_LSEEK]"

definition dispatch_syscall :: "code_symbols \<Rightarrow> trap_frame \<Rightarrow> 'a psys_scheme \<Rightarrow> (syscall_outcome \<times> trap_frame \<times> 'a psys_scheme) option" where
  "dispatch_syscall syms f s =
     (let p = current_process s; number = frame_x f ! 17; keep = map_option (\<lambda>(r, s). (r, f, s))
      in if number \<in> set fd_calls then keep (fd_syscall f s)
         else if number = SYS_BRK then keep (in_space p (address_space_brk (frame_x f ! 10) (spaces s p) s))
         else if number = SYS_MUNMAP then keep (in_space p (address_space_munmap (frame_x f ! 10) (frame_x f ! 11) (spaces s p) s))
         else if number = SYS_MMAP then keep (sys_mmap f s)
         else if number = SYS_EXIT then keep (map_option (\<lambda>s. (Ended, s)) (process_exit (frame_x f ! 10) 0 s))
         else if number = SYS_YIELD then keep (map_option (\<lambda>s. (Result (Inr 0), s)) (scheduler_yield s))
         else if number = SYS_GETPID then Some (Result (Inr (process_getpid s)), f, s)
         else if number = SYS_EXEC then sys_exec f s
         else if number = SYS_WAITPID
         then keep (map_option (\<lambda>(r, s). (case r of Sleeps \<Rightarrow> Asleep 0 | Returns v \<Rightarrow> Result v, s)) (process_waitpid (sint (frame_x f ! 10)) (frame_x f ! 11) (frame_x f ! 12) s))
         else if number = SYS_FORK then keep (map_option (\<lambda>(r, s). (Result r, s)) (process_fork syms f s))
         else Some (Result (Inl E_NOSYS), f, s))"

definition EXCEPTION_USER_ECALL :: u64 where "EXCEPTION_USER_ECALL = 8"

definition result_word :: "errno + u64 \<Rightarrow> u64" where
  "result_word r = (case r of Inl e \<Rightarrow> word_of_int (- errno_value e) | Inr v \<Rightarrow> v)"

text \<open>What a trap leads to: it is not the user's, the user goes on with a frame, its thread sleeps in a call with the frame it will have, or its process has ended.\<close>

datatype trap_outcome = NotUser | Resumes trap_frame | Sleeping nat trap_frame | Finished

definition user_handle_trap :: "code_symbols \<Rightarrow> trap_frame \<Rightarrow> u64 \<Rightarrow> 'a psys_scheme \<Rightarrow> (trap_outcome \<times> 'a psys_scheme) option" where
  "user_handle_trap syms f code s =
     (if current_process s = 0 \<or> frame_sstatus f AND SSTATUS_SPP \<noteq> 0 then Some (NotUser, s)
      else if code = EXCEPTION_USER_ECALL
      then do {
        (r, f, s) \<leftarrow> dispatch_syscall syms (f\<lparr>frame_sepc := frame_sepc f + 4\<rparr>) s;
        Some (case r of
            Asleep pos \<Rightarrow> Sleeping pos f
          | Result v \<Rightarrow> Resumes (f\<lparr>frame_x := (frame_x f)[10 := result_word v]\<rparr>)
          | Replaced \<Rightarrow> Resumes f
          | Ended \<Rightarrow> Finished, s)
      }
      else do { s \<leftarrow> process_exit (- 1) code s; Some (Finished, s) })"

end
