(* ===== verification/Traps.thy ===== *)
theory Traps
  imports Syscalls
begin

text \<open>
  The start of the first process, \<open>start_init\<close> of \<^verbatim>\<open>src/kernel/user.c\<close>, and the trap handler of
  \<^verbatim>\<open>src/arch/riscv/trap.c\<close> with the console output it uses (\<^verbatim>\<open>src/platform/qemu-virt.c\<close>).
\<close>

section \<open>The first process\<close>

definition init_arguments :: exec_arguments where
  "init_arguments = \<lparr>argv = [cstr ''/init''], envp = [cstr ''BOOT=init'']\<rparr>"

definition start_init :: "code_symbols \<Rightarrow> page_table option \<Rightarrow> u64 \<Rightarrow> 'a psys_scheme \<Rightarrow> (bool \<times> 'a psys_scheme) option" where
  "start_init syms kernel_table result s = do {
     (process, s) \<leftarrow> process_create s;
     if process = 0 then Some (False, s)
     else do {
       s \<leftarrow> destroy_space process s;
       (loaded, s) \<leftarrow> elf_load kernel_table (cstr ''/init'') init_arguments s;
       case loaded of
         None \<Rightarrow> do {
           let s = update_space process ((spaces s process)\<lparr>as_table := \<lparr>root = 0\<rparr>, as_pages := []\<rparr>) s;
           s \<leftarrow> process_destroy process s;
           Some (False, s)
         }
       | Some img \<Rightarrow> do {
           let s = update_space process (fst (address_space_move (im_as img))) s;
           (error, s) \<leftarrow> fd_install_stdio process s;
           if error \<noteq> None then do { s \<leftarrow> process_destroy process s; Some (False, s) }
           else do {
             let s = update_process process (\<lambda>p. p\<lparr>pr_result := result\<rparr>) s;
             let frame = zero_frame\<lparr>frame_sepc := im_entry img, frame_x := (replicate 32 0)[2 := im_stack_pointer img], frame_sstatus := SSTATUS_SPIE\<rparr>;
             let s = process_set_init process s;
             (ok, s) \<leftarrow> thread_create_user syms process (Some frame) s;
             if \<not> ok then do { s \<leftarrow> process_destroy process (process_set_init 0 s); Some (False, s) }
             else Some (True, s)
           }
         }
     }
   }"

section \<open>Console output\<close>

definition console_puts :: "bytes \<Rightarrow> 'a fsys_scheme \<Rightarrow> 'a fsys_scheme" where
  "console_puts str s = fold console_putc str s"

definition hex_digits :: "u64 \<Rightarrow> bytes" where
  "hex_digits v = map (\<lambda>i. cstr ''0123456789abcdef'' ! unat (drop_bit (60 - 4 * i) v AND 0xf)) [0..<16]"

definition console_puthex :: "u64 \<Rightarrow> 'a fsys_scheme \<Rightarrow> 'a fsys_scheme" where
  "console_puthex v s = fold console_putc (hex_digits v) (console_puts (cstr ''0x'') s)"

section \<open>The state of the trap handler\<close>

definition SCAUSE_INTERRUPT :: u64 where "SCAUSE_INTERRUPT = push_bit 63 1"
definition EXCEPTION_ILLEGAL_INSTRUCTION :: u64 where "EXCEPTION_ILLEGAL_INSTRUCTION = 2"
definition EXCEPTION_BREAKPOINT :: u64 where "EXCEPTION_BREAKPOINT = 3"
definition EXCEPTION_LOAD_ACCESS_FAULT :: u64 where "EXCEPTION_LOAD_ACCESS_FAULT = 5"
definition EXCEPTION_LOAD_PAGE_FAULT :: u64 where "EXCEPTION_LOAD_PAGE_FAULT = 13"
definition INTERRUPT_SUPERVISOR_TIMER :: u64 where "INTERRUPT_SUPERVISOR_TIMER = 5"

definition expected_exceptions :: "u64 list" where
  "expected_exceptions = [EXCEPTION_ILLEGAL_INSTRUCTION, EXCEPTION_BREAKPOINT, EXCEPTION_LOAD_ACCESS_FAULT]"

text \<open>The statics of \<^verbatim>\<open>trap.c\<close>, and the bounds of the instructions during which all registers hold known values.\<close>

record tsys = psys +
  trap_interval :: u64
  timer_ticks :: u32
  register_ticks :: u32
  register_failures :: u32
  exception_index :: nat
  test_running :: bool
  page_fault_test_running :: bool
  page_fault_seen :: bool
  expected_page_fault :: u64
  expected_fault_address :: u64
  trap_register_test_sp :: u64

record window =
  window_start :: u64
  window_end :: u64

definition print_trap :: "bytes \<Rightarrow> trap_frame \<Rightarrow> 'a fsys_scheme \<Rightarrow> 'a fsys_scheme" where
  "print_trap kind f s =
     (let s = console_puts (cstr '': scause='') (console_puts kind s);
          s = console_puts (cstr '' sepc='') (console_puthex (frame_scause f) s);
          s = console_puts (cstr '' stval='') (console_puthex (frame_sepc f) s)
      in console_putc 0x0a (console_puthex (frame_stval f) s))"

definition exception_name :: "u64 \<Rightarrow> bytes" where
  "exception_name code =
     (if code = EXCEPTION_ILLEGAL_INSTRUCTION then cstr ''illegal instruction''
      else if code = EXCEPTION_BREAKPOINT then cstr ''breakpoint''
      else if code = EXCEPTION_LOAD_ACCESS_FAULT then cstr ''load access fault''
      else cstr ''unexpected exception'')"

text \<open>The length of the instruction at a kernel address, from the two low bits of its first byte.\<close>

definition trapped_instruction_size :: "u64 \<Rightarrow> 'a kstate_scheme \<Rightarrow> u64" where
  "trapped_instruction_size sepc s = (if kmem s sepc AND 3 = 3 then 4 else 2)"

definition in_register_window :: "window \<Rightarrow> u64 \<Rightarrow> bool" where
  "in_register_window w sepc \<longleftrightarrow> window_start w \<le> sepc \<and> sepc < window_end w"

definition check_saved_registers :: "trap_frame \<Rightarrow> 'a tsys_scheme \<Rightarrow> 'a tsys_scheme" where
  "check_saved_registers f s =
     s\<lparr>register_failures := register_failures s +
        of_nat (length (filter (\<lambda>i. frame_x f ! i \<noteq> (if i = 2 then trap_register_test_sp s else of_nat i)) [1..<32]))\<rparr>"

section \<open>Dispatch\<close>

definition handle_timer :: "window \<Rightarrow> trap_frame \<Rightarrow> 'a tsys_scheme \<Rightarrow> (trap_frame \<times> 'a tsys_scheme) option" where
  "handle_timer w f s =
     (if scheduler_timer_active s then do { s \<leftarrow> scheduler_tick s; Some (f, s) }
      else let s = s\<lparr>timer_ticks := timer_ticks s + 1\<rparr>;
               hit = (test_running s \<and> in_register_window w (frame_sepc f));
               s = (if hit then (check_saved_registers f s)\<lparr>register_ticks := register_ticks s + 1\<rparr> else s);
               f = (if hit \<and> register_ticks s = 3 then f\<lparr>frame_sepc := window_end w\<rparr> else f)
           in Some (f, sbi_set_timer (time s + trap_interval s) s))"

text \<open>A trap returns with a frame, leaves its thread asleep in a system call or its process ended, or stops the machine.\<close>

datatype dispatched = Continues trap_frame | Suspended nat trap_frame | Exited | Stopped

definition trap_dispatch :: "code_symbols \<Rightarrow> window \<Rightarrow> trap_frame \<Rightarrow> 'a tsys_scheme \<Rightarrow> (dispatched \<times> 'a tsys_scheme) option" where
  "trap_dispatch syms w f s =
     (let code = frame_scause f AND NOT SCAUSE_INTERRUPT
      in if frame_scause f AND SCAUSE_INTERRUPT \<noteq> 0
         then if code = INTERRUPT_SUPERVISOR_TIMER then map_option (\<lambda>(f, s). (Continues f, s)) (handle_timer w f s)
              else Some (Stopped, print_trap (cstr ''unexpected interrupt'') f s)
         else do {
           (r, s) \<leftarrow> user_handle_trap syms f code s;
           case r of
             Resumes f \<Rightarrow> Some (Continues f, s)
           | Sleeping n f \<Rightarrow> Some (Suspended n f, s)
           | Finished \<Rightarrow> Some (Exited, s)
           | NotUser \<Rightarrow>
               if page_fault_test_running s \<and> code = expected_page_fault s \<and> frame_stval f = expected_fault_address s
               then let s = (print_trap (if code = EXCEPTION_LOAD_PAGE_FAULT then cstr ''load page fault'' else cstr ''store page fault'') f s)\<lparr>page_fault_seen := True\<rparr>
                    in Some (Continues (f\<lparr>frame_sepc := frame_sepc f + trapped_instruction_size (frame_sepc f) s\<rparr>), s)
               else let s = print_trap (exception_name code) f s
                    in if test_running s \<and> exception_index s < length expected_exceptions \<and> code = expected_exceptions ! exception_index s
                       then Some (Continues (f\<lparr>frame_sepc := frame_sepc f + trapped_instruction_size (frame_sepc f) s\<rparr>), s\<lparr>exception_index := exception_index s + 1\<rparr>)
                       else Some (Stopped, print_trap (cstr ''unhandled exception'') f s)
         })"

end
