(* ===== verification/Initramfs.thy ===== *)
theory Initramfs
  imports Vfs_Tree
begin

text \<open>
  The writer of the boot archive, \<^verbatim>\<open>tools/mkinitramfs.py\<close>, and that the kernel's reader takes from its output exactly the
  entries that were written. Python's integers are natural numbers, a \<^verbatim>\<open>bytearray\<close> is the list of its bytes.
\<close>

section \<open>Writing\<close>

definition pad4 :: "bytes \<Rightarrow> bytes" where
  "pad4 data = data @ replicate (nat (- int (length data) mod 4)) 0"

definition hex_char :: "nat \<Rightarrow> u8" where
  "hex_char d = (if d < 10 then 0x30 + of_nat d else 0x61 + of_nat (d - 10))"

fun hex_of :: "nat \<Rightarrow> bytes" where
  "hex_of n = (if n < 16 then [hex_char n] else hex_of (n div 16) @ [hex_char (n mod 16)])"

declare hex_of.simps [simp del]

text \<open>The format \<^verbatim>\<open>08x\<close>.\<close>

definition format_08x :: "nat \<Rightarrow> bytes" where
  "format_08x n = replicate (8 - length (hex_of n)) 0x30 @ hex_of n"

text \<open>\<^verbatim>\<open>name.encode("ascii")\<close> raises an exception for other characters.\<close>

definition encode_ascii :: "string \<Rightarrow> bytes option" where
  "encode_ascii name = (if list_all (\<lambda>c. (of_char c :: nat) < 128) name then Some (cstr name) else None)"

definition header_fields :: "nat \<Rightarrow> nat \<Rightarrow> nat \<Rightarrow> nat list" where
  "header_fields mode payload_size name_size = [1, mode, 0, 0, 1, 0, payload_size, 0, 0, 0, 0, name_size, 0]"

definition add_entry :: "bytes \<Rightarrow> string \<Rightarrow> bytes \<Rightarrow> nat \<Rightarrow> bytes option" where
  "add_entry archive name payload mode =
     (case encode_ascii name of
        None \<Rightarrow> None
      | Some encoded \<Rightarrow>
          let encoded = encoded @ [0];
              archive = archive @ cstr ''070701'' @ concat (map format_08x (header_fields mode (length payload) (length encoded)));
              archive = pad4 (archive @ encoded)
          in Some (pad4 (archive @ payload)))"

fun add_entries :: "bytes \<Rightarrow> (string \<times> bytes \<times> nat) list \<Rightarrow> bytes option" where
  "add_entries archive [] = Some archive"
| "add_entries archive ((name, payload, mode) # es) =
     (case add_entry archive name payload mode of None \<Rightarrow> None | Some archive \<Rightarrow> add_entries archive es)"

text \<open>The entries \<^verbatim>\<open>main\<close> always writes, with the modes \<^verbatim>\<open>040755\<close>, \<^verbatim>\<open>100444\<close> and \<^verbatim>\<open>120777\<close>.\<close>

definition fixed_entries :: "(string \<times> bytes \<times> nat) list" where
  "fixed_entries =
    [(''.'', [], 16877), (''bin'', [], 16877), (''etc'', [], 16877),
     (''etc/message'', cstr ''abcdef'' @ [0x0a], 33060), (''link'', cstr ''etc/message'', 41471),
     (''abs-link'', cstr ''/etc/message'', 41471), (''dir-link'', cstr ''etc'', 41471),
     (''dangling'', cstr ''/missing'', 41471), (''loop'', cstr ''/loop'', 41471)]"

text \<open>\<open>items\<close> are the names and file contents of the command line; their mode is \<^verbatim>\<open>100755\<close>.\<close>

definition file_entries :: "(string \<times> bytes) list \<Rightarrow> (string \<times> bytes \<times> nat) list" where
  "file_entries items = map (\<lambda>(name, contents). (name, contents, 33261)) items"

definition mkinitramfs :: "(string \<times> bytes) list \<Rightarrow> bytes option" where
  "mkinitramfs items = add_entries [] (fixed_entries @ file_entries items @ [(''TRAILER!!!'', [], 0)])"

section \<open>Numbers\<close>

lemma hex_digit_char: "d < 16 \<Longrightarrow> hex_digit (hex_char d) = Some (of_nat d)"
proof -
  assume "d < 16"
  then have "d \<in> set [0..<16]" by simp
  moreover have "list_all (\<lambda>d. hex_digit (hex_char d) = Some (of_nat d)) [0..<16]" by code_simp
  ultimately show ?thesis by (auto simp: list_all_iff)
qed

lemma shift_in_digit: "d < 16 \<Longrightarrow> push_bit 4 v OR of_nat d = v * 16 + (of_nat d :: u32)"
proof -
  assume d: "d < 16"
  have "\<not> bit (of_nat d :: u32) n" if "4 \<le> n" for n
  proof -
    have "(of_nat d :: u32) = take_bit 4 (of_nat d)" using d by (simp add: take_bit_of_nat take_bit_nat_eq_self)
    then show ?thesis using that by (metis bit_take_bit_iff not_le)
  qed
  then have "push_bit 4 v AND (of_nat d :: u32) = 0" by (intro bit_eqI) (auto simp: bit_and_iff bit_push_bit_iff)
  then show ?thesis by (simp add: disjunctive_add_eq_or push_bit_eq_mult flip: disjunctive_add_eq_or)
qed

lemma hex_value_append: "hex_value v (xs @ ys) = (case hex_value v xs of None \<Rightarrow> None | Some w \<Rightarrow> hex_value w ys)"
  by (induction v xs rule: hex_value.induct) (auto split: option.split)

lemma hex_value_of: "hex_value v (hex_of n) = Some (v * 16 ^ length (hex_of n) + of_nat n)"
proof (induction n arbitrary: v rule: hex_of.induct)
  case (1 n)
  show ?case
  proof (cases "n < 16")
    case True
    then show ?thesis by (subst (1 2) hex_of.simps) (simp add: hex_digit_char shift_in_digit)
  next
    case False
    have "(of_nat n :: u32) = of_nat (n div 16 * 16 + n mod 16)" by simp
    then have "(of_nat n :: u32) = of_nat (n div 16) * 16 + of_nat (n mod 16)" by (simp only: of_nat_add of_nat_mult of_nat_numeral)
    then show ?thesis using False "1.IH" [of v]
      by (subst (1 2) hex_of.simps) (simp add: hex_value_append hex_digit_char shift_in_digit algebra_simps)
  qed
qed

lemma hex_value_zeros: "hex_value 0 (replicate k 0x30 @ bs) = hex_value 0 bs"
  by (induction k) (simp_all add: hex_digit_def)

lemma length_hex_of: "n < 16 ^ Suc k \<Longrightarrow> length (hex_of n) \<le> Suc k"
proof (induction k arbitrary: n)
  case 0
  then show ?case by (subst hex_of.simps) simp
next
  case (Suc k)
  then have "n div 16 < 16 ^ Suc k" by (simp add: div_less_iff_less_mult ac_simps)
  from Suc.IH [OF this] show ?case by (subst hex_of.simps) simp
qed

lemma format_08x_ok:
  assumes "n < 2 ^ 32"
  shows "length (format_08x n) = 8" "hex8 (format_08x n @ rest) = Some (of_nat n)"
proof -
  have "length (hex_of n) \<le> 8" using length_hex_of [of n 7] assms by simp
  then show l: "length (format_08x n) = 8" by (simp add: format_08x_def)
  have "take 8 (format_08x n @ rest) = format_08x n" using l by simp
  then show "hex8 (format_08x n @ rest) = Some (of_nat n)"
    by (simp add: hex8_def format_08x_def hex_value_zeros hex_value_of)
qed

section \<open>Reading one entry back\<close>

text \<open>What the format can hold.\<close>

definition entry_ok :: "string \<times> bytes \<times> nat \<Rightarrow> bool" where
  "entry_ok = (\<lambda>(name, payload, mode). list_all (\<lambda>c. 0 < (of_char c :: nat) \<and> (of_char c :: nat) < 128) name \<and> length name < PATH_LIMIT \<and>
     length payload < 2 ^ 32 \<and> mode < 2 ^ 32)"

definition padding :: "nat \<Rightarrow> bytes" where
  "padding n = replicate (nat (- int n mod 4)) 0"

definition header :: "string \<Rightarrow> bytes \<Rightarrow> nat \<Rightarrow> bytes" where
  "header name payload mode = cstr ''070701'' @ concat (map format_08x (header_fields mode (length payload) (length name + 1)))"

definition entry :: "string \<Rightarrow> bytes \<Rightarrow> nat \<Rightarrow> bytes" where
  "entry name payload mode =
     header name payload mode @ cstr name @ [0] @ padding (110 + length name + 1) @ payload @ padding (length payload)"

lemma entry_ok_name:
  assumes "entry_ok (name, payload, mode)"
  shows "encode_ascii name = Some (cstr name)" "0 \<notin> set (cstr name)"
proof -
  have n: "list_all (\<lambda>c. 0 < (of_char c :: nat) \<and> (of_char c :: nat) < 128) name" using assms by (simp add: entry_ok_def)
  then show "encode_ascii name = Some (cstr name)" by (simp add: encode_ascii_def list_all_iff)
  have "of_char c \<noteq> (0 :: u8)" if "c \<in> set name" for c
  proof -
    have "(of_char c :: nat) mod 256 \<noteq> 0" using n that by (auto simp: list_all_iff)
    then have "(of_nat (of_char c) :: u8) \<noteq> 0" by (simp add: word_of_nat_eq_0_iff dvd_eq_mod_eq_0)
    then show ?thesis by (metis of_nat_of_char)
  qed
  then show "0 \<notin> set (cstr name)" by force
qed

lemma header_ok:
  assumes "entry_ok (name, payload, mode)"
  shows "length (header name payload mode) = 110"
    and "take 6 (header name payload mode @ rest) = cstr ''070701''"
    and "hex8 (drop 14 (header name payload mode @ rest)) = Some (of_nat mode)"
    and "hex8 (drop 54 (header name payload mode @ rest)) = Some (of_nat (length payload))"
    and "hex8 (drop 94 (header name payload mode @ rest)) = Some (of_nat (length name + 1))"
proof -
  have sizes: "mode < 2 ^ 32" "length payload < 2 ^ 32" "length name + 1 < 2 ^ 32" "(0 :: nat) < 2 ^ 32" "(1 :: nat) < 2 ^ 32"
    using assms by (auto simp: entry_ok_def PATH_LIMIT_def)
  note l = sizes [THEN format_08x_ok(1)] and v = sizes [THEN format_08x_ok(2)]
  show "length (header name payload mode) = 110" using l by (simp add: header_def header_fields_def)
  show "take 6 (header name payload mode @ rest) = cstr ''070701''" by (simp add: header_def)
  show "hex8 (drop 14 (header name payload mode @ rest)) = Some (of_nat mode)"
    "hex8 (drop 54 (header name payload mode @ rest)) = Some (of_nat (length payload))"
    "hex8 (drop 94 (header name payload mode @ rest)) = Some (of_nat (length name + 1))"
    using l v by (simp_all add: header_def header_fields_def drop_Cons')
qed

lemma pad4_padding: "pad4 data = data @ padding (length data)"
  by (simp add: pad4_def padding_def)

lemma padding_shift: "4 dvd k \<Longrightarrow> padding (k + n) = padding n"
proof -
  assume "4 dvd k"
  then have "- int (k + n) mod 4 = - int n mod 4" by presburger
  then show ?thesis by (simp only: padding_def)
qed

lemma round4_padding: "round4 n = n + length (padding n)"
proof -
  have "int ((n + 3) div 4 * 4) = int n + - int n mod 4" by presburger
  then show ?thesis by (simp add: round4_def padding_def)
qed

lemma round4_dvd: "4 dvd round4 n"
  by (simp add: round4_def)

lemma add_entry_entry:
  assumes "entry_ok (name, payload, mode)" "4 dvd length archive"
  shows "add_entry archive name payload mode = Some (archive @ entry name payload mode)" "4 dvd length (entry name payload mode)"
proof -
  define body where "body = header name payload mode @ cstr name @ [0]"
  have l: "length body = 110 + length name + 1" using header_ok(1) [OF assms(1)] by (simp add: body_def)
  define named where "named = body @ padding (length body)"
  have ln: "4 dvd length named" using round4_dvd [of "length body"] by (simp add: named_def round4_padding)
  have e: "entry name payload mode = named @ payload @ padding (length payload)"
    by (simp add: entry_def named_def l) (simp add: body_def)
  have "add_entry archive name payload mode = Some (pad4 (pad4 (archive @ body) @ payload))"
    by (simp add: add_entry_def entry_ok_name [OF assms(1)] body_def header_def Let_def)
  also have "pad4 (archive @ body) = archive @ named" using padding_shift [OF assms(2)] by (simp add: pad4_padding named_def)
  also have "pad4 ((archive @ named) @ payload) = archive @ entry name payload mode"
    using padding_shift [of "length archive + length named" "length payload"] assms(2) ln by (simp add: pad4_padding e add.assoc)
  finally show "add_entry archive name payload mode = Some (archive @ entry name payload mode)" .
  show "4 dvd length (entry name payload mode)"
    using ln round4_dvd [of "length payload"] by (simp add: e round4_padding)
qed

lemma unat_length: "n < 2 ^ 32 \<Longrightarrow> unat (of_nat n :: u32) = n"
  by (simp add: unsigned_of_nat take_bit_nat_eq_self)

lemma takeWhile_nul: "0 \<notin> set xs \<Longrightarrow> takeWhile (\<lambda>c. c \<noteq> 0) (xs @ 0 # ys) = xs"
  by (induction xs) auto

lemma archive_entry_entry:
  assumes ok: "entry_ok (name, payload, mode)" and al: "4 dvd length before"
  shows "archive_entry (before @ entry name payload mode @ rest) (length before) =
    Some (of_nat mode, cstr name, payload, length before + length (entry name payload mode))"
proof -
  note h = header_ok [OF ok] and nm = entry_ok_name(2) [OF ok]
  define k where "k = length name + 1"
  define pad where "pad = padding (110 + k)"
  have sz: "k \<le> 256" "k \<noteq> 0" "k - 1 = length name" "length payload < 2 ^ 32" using ok by (auto simp: entry_ok_def PATH_LIMIT_def k_def)
  have un: "unat (of_nat k :: u32) = k" "unat (of_nat (length payload) :: u32) = length payload"
    using sz by (simp_all add: unat_length)
  have doff: "round4 (length before + 110 + k) = length before + 110 + k + length pad"
    using padding_shift [OF al, of "110 + k"] by (simp add: round4_padding pad_def add.assoc)
  define archive where "archive = before @ entry name payload mode @ rest"
  have split: "archive = before @ header name payload mode @ cstr name @ 0 # pad @ payload @ padding (length payload) @ rest"
    by (simp add: archive_def entry_def pad_def k_def)
  have le: "length (entry name payload mode) = 110 + k + length pad + length payload + length (padding (length payload))"
    using h(1) by (simp add: entry_def pad_def k_def)
  have "4 dvd length before + 110 + k + length pad" using round4_dvd doff by metis
  from padding_shift [OF this, of "length payload"]
  have next': "round4 (length before + 110 + k + length pad + length payload) = length before + length (entry name payload mode)"
    by (simp add: round4_padding le)
  have dh: "drop (length before) archive = header name payload mode @ cstr name @ 0 # pad @ payload @ padding (length payload) @ rest"
    by (simp add: split)
  have dn: "takeWhile (\<lambda>c. c \<noteq> 0) (drop (length before + 110) archive) = cstr name"
    using h(1) takeWhile_nul [OF nm] by (simp add: split)
  have dp: "take (length payload) (drop (length before + 110 + k + length pad) archive) = payload"
    using h(1) by (simp add: split k_def)
  have nul: "archive ! (length before + 110 + k - 1) = 0"
    using h(1) by (simp add: split nth_append k_def)
  have la: "length archive = length before + length (entry name payload mode) + length rest" by (simp add: archive_def)
  have n5: "hex8 (drop 94 (header name payload mode @ bs)) = Some (of_nat k)" for bs using h(5) by (simp add: k_def)
  show ?thesis
    unfolding archive_def [symmetric] archive_entry_def Let_def dh h(2-4) n5 Option.bind_lunit un doff next' dn dp
    using nul la le sz by (simp add: PATH_LIMIT_def)
qed

section \<open>Reading the whole archive back\<close>

text \<open>What the kernel is to do with an archive: enter its entries in order until one is refused.\<close>

fun enter_all :: "(string \<times> bytes \<times> nat) list \<Rightarrow> 'a fsys_scheme \<Rightarrow> (bool \<times> 'a fsys_scheme) option" where
  "enter_all [] s = Some (True, s)"
| "enter_all ((name, payload, mode) # es) s =
     (case archive_node (cstr name) payload (of_nat mode) s of
        None \<Rightarrow> None
      | Some (ok, s) \<Rightarrow> if ok then enter_all es s else Some (False, s))"

definition entries_bytes :: "(string \<times> bytes \<times> nat) list \<Rightarrow> bytes" where
  "entries_bytes es = concat (map (\<lambda>(name, payload, mode). entry name payload mode) es)"

lemma add_entries_bytes:
  assumes "list_all entry_ok es" "4 dvd length archive"
  shows "add_entries archive es = Some (archive @ entries_bytes es)"
  using assms
proof (induction archive es rule: add_entries.induct)
  case (2 archive name payload mode es)
  then show ?case using add_entry_entry [of name payload mode archive] by (simp add: entries_bytes_def)
qed (simp add: entries_bytes_def)

lemma cstr_inj: "cstr name = cstr name' \<longleftrightarrow> name = name'"
proof -
  have "inj (of_char :: char \<Rightarrow> u8)"
  proof (rule injI)
    fix c d :: char assume "(of_char c :: u8) = of_char d"
    then have "unat (of_nat (of_char c) :: u8) = unat (of_nat (of_char d) :: u8)" by (simp add: of_nat_of_char)
    then show "c = d" by (simp add: unsigned_of_nat take_bit_nat_eq_self)
  qed
  then show ?thesis by (simp add: inj_map_eq_map)
qed

lemma entry_long: "entry_ok (name, payload, mode) \<Longrightarrow> 110 \<le> length (entry name payload mode)"
  by (simp add: entry_def header_ok)

lemma archive_loop_entries:
  fixes s :: "'a fsys_scheme"
  assumes "list_all entry_ok es" "list_all (\<lambda>e. fst e \<noteq> ''TRAILER!!!'') es" "4 dvd length before"
    and tr: "entry_ok (''TRAILER!!!'', [], 0)"
  shows "archive_loop (before @ entries_bytes es @ entry ''TRAILER!!!'' [] 0) (length before) s = enter_all es s"
  using assms(1-3)
proof (induction es arbitrary: before s)
  case Nil
  show ?case
    using archive_entry_entry [OF tr Nil.prems(3), of "[]"] entry_long [OF tr]
    by (subst archive_loop.simps) (simp add: entries_bytes_def)
next
  case (Cons e es)
  obtain name payload mode where e: "e = (name, payload, mode)" by (cases e)
  have ok: "entry_ok (name, payload, mode)" "name \<noteq> ''TRAILER!!!''" "list_all entry_ok es"
    "list_all (\<lambda>e. fst e \<noteq> ''TRAILER!!!'') es" using Cons.prems e by auto
  define rest where "rest = entries_bytes es @ entry ''TRAILER!!!'' [] 0"
  define en where "en = entry name payload mode"
  have all: "before @ entries_bytes (e # es) @ entry ''TRAILER!!!'' [] 0 = before @ en @ rest"
    by (simp add: entries_bytes_def e rest_def en_def)
  have len: "110 \<le> length (before @ en @ rest) - length before" using entry_long [OF ok(1)] by (simp add: en_def)
  have ae: "archive_entry (before @ en @ rest) (length before) = Some (of_nat mode, cstr name, payload, length before + length en)"
    unfolding en_def by (rule archive_entry_entry [OF ok(1) Cons.prems(3)])
  have "4 dvd length (before @ en)" using Cons.prems(3) add_entry_entry(2) [OF ok(1) Cons.prems(3)] by (simp add: en_def)
  from Cons.IH [OF ok(3,4) this]
  have ih: "archive_loop (before @ en @ rest) (length before + length en) s' = enter_all es s'" for s' :: "'a fsys_scheme" by (simp add: rest_def)
  have nt: "cstr name \<noteq> cstr ''TRAILER!!!''" using ok(2) cstr_inj by blast
  have "archive_loop (before @ en @ rest) (length before) s = enter_all ((name, payload, mode) # es) s"
    by (subst archive_loop.simps, subst ae) (use len in \<open>simp add: ih nt del: list.map split: option.split\<close>)
  then show ?case unfolding all by (simp only: e)
qed

lemma trailer_ok: "entry_ok (''TRAILER!!!'', [], 0)"
  by (simp add: entry_ok_def PATH_LIMIT_def)

lemma fixed_ok: "list_all entry_ok fixed_entries" "list_all (\<lambda>e. fst e \<noteq> ''TRAILER!!!'') fixed_entries"
  by (simp_all add: fixed_entries_def entry_ok_def PATH_LIMIT_def)

text \<open>Names and contents of the command line that the archive format can hold.\<close>

definition items_ok :: "(string \<times> bytes) list \<Rightarrow> bool" where
  "items_ok items \<longleftrightarrow> list_all entry_ok (file_entries items) \<and> list_all (\<lambda>e. fst e \<noteq> ''TRAILER!!!'') items"

text \<open>
  C37. The kernel's archive reader takes from an archive written by the build tool exactly the entries the tool was given, in
  order, with their names, modes and contents, and stops at its trailer.
\<close>

theorem initramfs_round_trip:
  assumes "items_ok items"
  shows "\<exists>archive. mkinitramfs items = Some archive \<and> archive_loop archive 0 s = enter_all (fixed_entries @ file_entries items) s"
proof -
  define es where "es = fixed_entries @ file_entries items"
  have "list_all (\<lambda>e. fst e \<noteq> ''TRAILER!!!'') (file_entries items)"
    using assms by (auto simp: items_ok_def file_entries_def list_all_iff)
  then have ok: "list_all entry_ok es" "list_all (\<lambda>e. fst e \<noteq> ''TRAILER!!!'') es"
    using assms fixed_ok by (auto simp: items_ok_def es_def)
  have "mkinitramfs items = Some (entries_bytes es @ entry ''TRAILER!!!'' [] 0)"
    using add_entries_bytes [of "es @ [(''TRAILER!!!'', [], 0)]" "[]"] ok(1) trailer_ok by (simp add: mkinitramfs_def es_def entries_bytes_def)
  moreover have "archive_loop (entries_bytes es @ entry ''TRAILER!!!'' [] 0) 0 s = enter_all es s"
    using archive_loop_entries [OF ok, of "[]" s] trailer_ok by simp
  ultimately show ?thesis by (simp add: es_def)
qed

theorem initramfs_round_trip_witness:
  "\<forall>s :: fsys. \<exists>archive. mkinitramfs [(''init'', [1, 2, 3])] = Some archive \<and>
     archive_loop archive 0 s = enter_all (fixed_entries @ file_entries [(''init'', [1, 2, 3])]) s"
  by (rule allI, rule initramfs_round_trip) (simp add: items_ok_def file_entries_def entry_ok_def PATH_LIMIT_def)

end
