(* ===== verification/Plic.thy ===== *)
theory Plic
  imports Boot_Info Page_Alloc
begin

text \<open>
  The platform interrupt controller, \<^verbatim>\<open>src/platform/plic.c\<close>. The registers of the device are a map from
  addresses to 32-bit values; reading the claim register gives the value the device shows there.
\<close>

section \<open>The driver\<close>

definition PLIC_ENABLE_BASE :: u64 where "PLIC_ENABLE_BASE = 0x2000"
definition PLIC_ENABLE_STRIDE :: u64 where "PLIC_ENABLE_STRIDE = 0x80"
definition PLIC_CONTEXT_BASE :: u64 where "PLIC_CONTEXT_BASE = 0x200000"
definition PLIC_CONTEXT_STRIDE :: u64 where "PLIC_CONTEXT_STRIDE = 0x1000"

lemmas plic_layout = PLIC_ENABLE_BASE_def PLIC_ENABLE_STRIDE_def PLIC_CONTEXT_BASE_def PLIC_CONTEXT_STRIDE_def

record plic_state =
  plic_base :: u64
  plic_sources :: u32
  plic_context :: u64
  plic_regs :: "u64 \<Rightarrow> u32"

definition plic_register :: "plic_state \<Rightarrow> u64 \<Rightarrow> u64" where
  "plic_register s offset = plic_base s + offset"

definition plic_write :: "u64 \<Rightarrow> u32 \<Rightarrow> plic_state \<Rightarrow> plic_state" where
  "plic_write offset v s = s\<lparr>plic_regs := (plic_regs s)(plic_register s offset := v)\<rparr>"

definition plic_read :: "u64 \<Rightarrow> plic_state \<Rightarrow> u32" where
  "plic_read offset s = plic_regs s (plic_register s offset)"

definition context_register :: "plic_state \<Rightarrow> u64" where
  "context_register s = PLIC_CONTEXT_BASE + plic_context s * PLIC_CONTEXT_STRIDE"

definition enable_register :: "u32 \<Rightarrow> plic_state \<Rightarrow> u64" where
  "enable_register source s = PLIC_ENABLE_BASE + plic_context s * PLIC_ENABLE_STRIDE + ucast (source div 32 * 4)"

definition priority_register :: "u32 \<Rightarrow> u64" where
  "priority_register source = ucast source * 4"

definition plic_init :: "boot_info option \<Rightarrow> u64 \<Rightarrow> plic_state \<Rightarrow> bool \<times> plic_state" where
  "plic_init info hart_id s =
     (case info of
        None \<Rightarrow> (False, s)
      | Some info \<Rightarrow>
          if \<not> plic_present info \<or> rsize (plic info) < 0x210000 \<or> hart_id > (- 1 - 1) div 2 then (False, s)
          else let s = s\<lparr>plic_base := phys_to_virt (rbase (plic info)), plic_sources := plic_source_count info, plic_context := hart_id * 2 + 1\<rparr>
               in (True, plic_write (context_register s) 0 s))"

definition plic_refuses :: "u32 \<Rightarrow> plic_state \<Rightarrow> bool" where
  "plic_refuses source s \<longleftrightarrow> plic_base s = 0 \<or> source = 0 \<or> source > plic_sources s"

definition plic_enable :: "u32 \<Rightarrow> u32 \<Rightarrow> plic_state \<Rightarrow> bool \<times> plic_state" where
  "plic_enable source priority s =
     (if plic_refuses source s then (False, s)
      else let s = plic_write (priority_register source) priority s; enable = enable_register source s
           in (True, plic_write enable (plic_read enable s OR push_bit (unat (source mod 32)) 1) s))"

definition plic_disable :: "u32 \<Rightarrow> plic_state \<Rightarrow> plic_state" where
  "plic_disable source s =
     (if plic_refuses source s then s
      else let enable = enable_register source s in plic_write enable (plic_read enable s AND NOT (push_bit (unat (source mod 32)) 1)) s)"

definition plic_claim :: "plic_state \<Rightarrow> u32" where
  "plic_claim s = (if plic_base s = 0 then 0 else plic_read (context_register s + 4) s)"

definition plic_complete :: "u32 \<Rightarrow> plic_state \<Rightarrow> plic_state" where
  "plic_complete source s = (if plic_base s \<noteq> 0 \<and> source \<noteq> 0 then plic_write (context_register s + 4) source s else s)"

section \<open>What the registers mean\<close>

text \<open>
  For the context of this hart the device has a set of enabled sources and a priority for each source. The registers
  do not overlap: the controller has at most 1023 sources and 15872 contexts.
\<close>

definition plic_ok :: "plic_state \<Rightarrow> bool" where
  "plic_ok s \<longleftrightarrow> plic_base s \<noteq> 0 \<and> plic_sources s \<le> 1023 \<and> plic_context s < 15872"

definition enabled :: "plic_state \<Rightarrow> u32 \<Rightarrow> bool" where
  "enabled s source \<longleftrightarrow> bit (plic_read (enable_register source s) s) (unat (source mod 32))"

definition priority_of :: "plic_state \<Rightarrow> u32 \<Rightarrow> u32" where
  "priority_of s source = plic_read (priority_register source) s"

lemma plic_read_write: "plic_read o1 (plic_write o2 v s) = (if o1 = o2 then v else plic_read o1 s)"
  by (simp add: plic_read_def plic_write_def plic_register_def)

lemma plic_write_fields [simp]:
  "plic_base (plic_write a v s) = plic_base s" "plic_sources (plic_write a v s) = plic_sources s" "plic_context (plic_write a v s) = plic_context s"
  "enable_register source (plic_write a v s) = enable_register source s" "context_register (plic_write a v s) = context_register s"
  by (simp_all add: plic_write_def enable_register_def context_register_def)

lemma unat_widened: "unat (ucast (a :: u32) :: u64) = unat a"
proof -
  have "unat a < 2 ^ 64" using unsigned_less [of a, where ?'a = nat] by simp
  then show ?thesis by (simp add: unsigned_ucast_eq take_bit_nat_eq_self)
qed

lemma register_values:
  assumes "plic_context s < 15872" "source \<le> 1023"
  shows "unat (priority_register source) = unat source * 4"
    and "unat (enable_register source s) = 0x2000 + unat (plic_context s) * 0x80 + unat source div 32 * 4"
    and "unat source \<le> 1023"
proof -
  show src: "unat source \<le> 1023" using assms(2) by (simp add: word_le_nat_alt)
  then show "unat (priority_register source) = unat source * 4"
    by (simp add: priority_register_def unat_word_ariths unat_widened)
  have ctx: "unat (plic_context s) < 15872" using assms(1) by (simp add: word_less_nat_alt)
  have "unat (source div 32 * 4) = unat source div 32 * 4" using src by (simp add: unat_word_ariths unat_div)
  then show "unat (enable_register source s) = 0x2000 + unat (plic_context s) * 0x80 + unat source div 32 * 4"
    using src ctx by (simp add: enable_register_def plic_layout unat_word_ariths unat_widened)
qed

lemma registers_apart:
  assumes "plic_context s < 15872" "a \<le> 1023" "b \<le> 1023"
  shows "priority_register a \<noteq> enable_register b s"
    and "priority_register a = priority_register b \<longleftrightarrow> a = b"
    and "enable_register a s = enable_register b s \<longleftrightarrow> unat a div 32 = unat b div 32"
proof -
  note va = register_values [OF assms(1,2)] and vb = register_values [OF assms(1,3)]
  have "unat (priority_register a) \<noteq> unat (enable_register b s)" using va(1,3) vb(2) by simp
  then show "priority_register a \<noteq> enable_register b s" by auto
  show "priority_register a = priority_register b \<longleftrightarrow> a = b" using va(1) vb(1) by (metis mult_right_cancel word_unat_eq_iff zero_neq_numeral)
  show "enable_register a s = enable_register b s \<longleftrightarrow> unat a div 32 = unat b div 32"
    using va(2) vb(2) by (simp add: word_unat_eq_iff)
qed

lemma same_source: "unat (a :: u32) div 32 = unat b div 32 \<Longrightarrow> unat (a mod 32) = unat (b mod 32) \<longleftrightarrow> a = b"
proof -
  assume d: "unat a div 32 = unat b div 32"
  have "unat (a mod 32) = unat a mod 32" "unat (b mod 32) = unat b mod 32" by (simp_all add: unat_mod)
  with d show ?thesis by (metis div_mult_mod_eq word_unat_eq_iff)
qed

lemma source_bit: "unat ((a :: u32) mod 32) < 32"
  by (simp add: unat_mod)

lemma enable_bits:
  assumes "plic_context s < 15872" "a \<le> 1023" "b \<le> 1023"
  shows "enabled (plic_write (enable_register a s) (plic_read (enable_register a s) s OR push_bit (unat (a mod 32)) 1) s) b \<longleftrightarrow> b = a \<or> enabled s b"
    and "enabled (plic_write (enable_register a s) (plic_read (enable_register a s) s AND NOT (push_bit (unat (a mod 32)) 1)) s) b \<longleftrightarrow> b \<noteq> a \<and> enabled s b"
  using registers_apart(3) [OF assms] same_source [of a b] source_bit [of b]
  by (cases "enable_register b s = enable_register a s"; cases "b = a";
      simp add: enabled_def plic_read_write bit_or_iff bit_and_iff bit_not_iff bit_exp_iff)+

section \<open>Enabling and disabling\<close>

definition has_source :: "plic_state \<Rightarrow> u32 \<Rightarrow> bool" where
  "has_source s source \<longleftrightarrow> source \<noteq> 0 \<and> source \<le> plic_sources s"


section \<open>Initialization\<close>

lemma plic_init_ok:
  assumes "plic_init (Some info) hart s = (True, s')" "plic_source_count info \<le> 1023" "hart < 8" "phys_to_virt (rbase (plic info)) \<noteq> 0"
  shows "plic_ok s' \<and> unat (context_register s') + 8 \<le> unat (rsize (plic info))"
proof -
  have h: "unat hart < 8" using assms(3) by (simp add: word_less_nat_alt)
  then have c: "unat (hart * 2 + 1) = unat hart * 2 + 1" by (simp add: unat_word_ariths)
  then have "unat (hart * 2 + 1) < 15872" using h by simp
  then have "hart * 2 + 1 < 15872" by (simp add: word_less_nat_alt)
  moreover have "unat (PLIC_CONTEXT_BASE + (hart * 2 + 1) * PLIC_CONTEXT_STRIDE) = 0x200000 + (unat hart * 2 + 1) * 0x1000"
    using h c by (simp add: plic_layout unat_word_ariths)
  moreover have "0x210000 \<le> unat (rsize (plic info))" using assms(1) by (auto simp: plic_init_def word_less_nat_alt split: if_splits)
  ultimately show ?thesis using assms h by (auto simp: plic_init_def plic_ok_def context_register_def Let_def split: if_splits)
qed

text \<open>The size check of \<open>plic_init\<close> covers the contexts of the first eight harts only: hart 8 is accepted with its registers past the end of the device.\<close>

lemma plic_init_hart_8:
  assumes "plic_present info" "rsize (plic info) = 0x210000"
  shows "\<exists>s'. plic_init (Some info) 8 s = (True, s') \<and> rsize (plic info) \<le> context_register s'"
  using assms by (auto simp: plic_init_def Let_def context_register_def plic_layout plic_write_def)

definition demo_plic :: plic_state where
  "demo_plic = \<lparr>plic_base = 0xffffffc00c000000, plic_sources = 95, plic_context = 1, plic_regs = \<lambda>_. 0\<rparr>"


end
