(* ===== verification/Shell.thy ===== *)
theory Shell
  imports Files
begin

text \<open>
  The shell, \<^verbatim>\<open>user/sh.c\<close>, with the helpers of \<^verbatim>\<open>user/lib.c\<close> it uses. A line is the list of its bytes without the terminating
  NUL; the pointer a loop advances is the list of the bytes from there on. The system calls a program makes are requests
  to a handler that answers them and changes a world, which is the rest of the system as the program sees it.
\<close>

section \<open>Parsing a line\<close>

definition COMMANDS :: nat where "COMMANDS = 4"
definition ARGS :: nat where "ARGS = 8"
definition LINE :: nat where "LINE = 256"

lemmas shell_limits = COMMANDS_def ARGS_def LINE_def

record command =
  c_argv :: "bytes list"
  c_input :: "bytes option"
  c_output :: "bytes option"
  c_append :: bool

definition blank_command :: command where
  "blank_command = \<lparr>c_argv = [], c_input = None, c_output = None, c_append = False\<rparr>"

definition is_blank :: "u8 \<Rightarrow> bool" where
  "is_blank c \<longleftrightarrow> c = 0x20 \<or> c = 0x09"

text \<open>The bytes of \<^verbatim>\<open>|\<close>, \<^verbatim>\<open><\<close> and \<^verbatim>\<open>>\<close>.\<close>

definition is_operator :: "u8 \<Rightarrow> bool" where
  "is_operator c \<longleftrightarrow> c = 0x7c \<or> c = 0x3c \<or> c = 0x3e"

definition is_word :: "u8 \<Rightarrow> bool" where
  "is_word c \<longleftrightarrow> \<not> is_blank c \<and> \<not> is_operator c"

lemmas byte_classes = is_blank_def is_operator_def is_word_def

text \<open>What kind a token is: \<open>Append\<close> is the pair of characters the code calls \<^verbatim>\<open>+\<close>.\<close>

datatype token_kind = Word | Bar | Input | Output | Append

definition operator_kind :: "u8 \<Rightarrow> token_kind" where
  "operator_kind c = (if c = 0x7c then Bar else if c = 0x3c then Input else Output)"

text \<open>The kind of the next token, its bytes and what follows it.\<close>

definition token :: "bytes \<Rightarrow> (token_kind \<times> bytes \<times> bytes) option" where
  "token cursor =
     (case dropWhile is_blank cursor of
        [] \<Rightarrow> None
      | c # p \<Rightarrow>
          if is_operator c
          then if operator_kind c = Output \<and> p \<noteq> [] \<and> hd p = 0x3e then Some (Append, [c, hd p], tl p)
               else Some (operator_kind c, [c], p)
          else Some (Word, c # takeWhile is_word p, dropWhile is_word p))"

lemma token_shorter: "token cursor = Some (k, w, rest) \<Longrightarrow> length rest < length cursor"
proof -
  assume t: "token cursor = Some (k, w, rest)"
  obtain c p where cp: "dropWhile is_blank cursor = c # p" using t by (cases "dropWhile is_blank cursor") (auto simp: token_def)
  then have "length p < length cursor" using length_dropWhile_le [of is_blank cursor] by simp
  moreover have "length rest \<le> length p"
    using t cp length_dropWhile_le [of is_word p] by (auto simp: token_def split: if_splits)
  ultimately show ?thesis by simp
qed

text \<open>Storing a word takes its bytes and a terminator of the \<open>LINE\<close> bytes for words.\<close>

definition store_word :: "token_kind \<Rightarrow> bytes \<Rightarrow> command \<Rightarrow> command option" where
  "store_word redirect value c =
     (if redirect = Input then Some (c\<lparr>c_input := Some value\<rparr>)
      else if redirect \<noteq> Word then Some (c\<lparr>c_output := Some value, c_append := (redirect = Append)\<rparr>)
      else if length (c_argv c) = ARGS then None
      else Some (c\<lparr>c_argv := c_argv c @ [value]\<rparr>))"

text \<open>\<open>cs\<close> are the complete commands, \<open>c\<close> the one being read and \<open>used\<close> the bytes taken for words. \<open>None\<close> is the result 2.\<close>

function parse_commands :: "bytes \<Rightarrow> nat \<Rightarrow> command list \<Rightarrow> command \<Rightarrow> command list option" where
  "parse_commands cursor used cs c =
     (case token cursor of
        None \<Rightarrow> Some (cs @ [c])
      | Some (Bar, _, rest) \<Rightarrow>
          if c_argv c = [] \<or> length cs + 1 = COMMANDS then None else parse_commands rest used (cs @ [c]) blank_command
      | Some (Word, w, rest) \<Rightarrow>
          if used + length w + 1 > LINE then None
          else (case store_word Word w c of None \<Rightarrow> None | Some c \<Rightarrow> parse_commands rest (used + length w + 1) cs c)
      | Some (redirect, _, rest) \<Rightarrow>
          (case token rest of
             Some (Word, w, rest) \<Rightarrow>
               if used + length w + 1 > LINE then None
               else (case store_word redirect w c of None \<Rightarrow> None | Some c \<Rightarrow> parse_commands rest (used + length w + 1) cs c)
           | _ \<Rightarrow> None))"
  by pat_completeness auto

termination parse_commands
  by (relation "measure (\<lambda>(cursor, used, cs, c). length cursor)") (auto dest!: token_shorter)

declare parse_commands.simps [simp del]

datatype parsed = Malformed | Nothing | Pipeline "command list"

definition parse_line :: "bytes \<Rightarrow> parsed" where
  "parse_line line =
     (case parse_commands line 0 [] blank_command of
        None \<Rightarrow> Malformed
      | Some cs \<Rightarrow> if c_argv (last cs) = [] then if length cs = 1 then Nothing else Malformed else Pipeline cs)"

section \<open>Running a pipeline\<close>

text \<open>The requests of \<^verbatim>\<open>user/lib.h\<close> the shell makes, and the result of each with the words it stores.\<close>

datatype request = Pipe | Fork | Dup2 int int | Close int | Open bytes u32 | Exec bytes "bytes list" | Wait int | Chdir bytes
  | Write int bytes | Read int nat

type_synonym response = "int \<times> int list"
type_synonym 'w handler = "request \<Rightarrow> 'w \<Rightarrow> response \<times> 'w"

text \<open>How the code ends: it returns a value, the process exits, or it becomes another program.\<close>

datatype ending = Return int | Exit int | Became

definition ask :: "'w handler \<Rightarrow> request \<Rightarrow> 'w \<Rightarrow> int \<times> 'w" where
  "ask sys r w = (let (x, w) = sys r w in (fst x, w))"

fun close_all :: "'w handler \<Rightarrow> int list \<Rightarrow> 'w \<Rightarrow> 'w" where
  "close_all sys [] w = w"
| "close_all sys (fd # fds) w = close_all sys fds (snd (ask sys (Close fd) w))"

definition ends :: "(int \<times> int) list \<Rightarrow> int list" where
  "ends ps = concat (map (\<lambda>(r, w). [r, w]) ps)"

text \<open>Each attempt writes what is left; an error or a write of nothing gives up.\<close>

fun write_all :: "'w handler \<Rightarrow> nat \<Rightarrow> int \<Rightarrow> bytes \<Rightarrow> 'w \<Rightarrow> (int \<times> 'w) option" where
  "write_all sys fuel fd [] w = Some (0, w)"
| "write_all sys 0 fd (b # bs) w = None"
| "write_all sys (Suc fuel) fd (b # bs) w =
     (let (n, w) = ask sys (Write fd (b # bs)) w in if n \<le> 0 then Some (-1, w) else write_all sys fuel fd (drop (nat n) (b # bs)) w)"

text \<open>Duplicating descriptor \<open>fd\<close> as \<open>to\<close>, and opening a file as it; false is an exit with status 1.\<close>

definition redirect_fd :: "'w handler \<Rightarrow> bool \<Rightarrow> int \<Rightarrow> int \<Rightarrow> 'w \<Rightarrow> bool \<times> 'w" where
  "redirect_fd sys wanted fd to w = (if wanted then let (r, w) = ask sys (Dup2 fd to) w in (\<not> r < 0, w) else (True, w))"

definition redirect_file :: "'w handler \<Rightarrow> bytes option \<Rightarrow> u32 \<Rightarrow> int \<Rightarrow> 'w \<Rightarrow> bool \<times> 'w" where
  "redirect_file sys path flags to w =
     (case path of
        None \<Rightarrow> (True, w)
      | Some path \<Rightarrow>
          let (fd, w) = ask sys (Open path flags) w
          in if fd < 0 then (False, w)
             else let (r, w) = ask sys (Dup2 fd to) w
                  in if r < 0 then (False, w)
                     else (True, if fd \<noteq> to then snd (ask sys (Close fd) w) else w))"

text \<open>The program of a command: a name without a slash is looked for in \<^verbatim>\<open>/bin\<close>, if the path fits in 64 bytes.\<close>

definition program_path :: "bytes \<Rightarrow> bytes option" where
  "program_path name =
     (if 0x2f \<in> set name then Some name
      else if length name + 6 > 64 then None
      else Some (cstr ''/bin/'' @ name))"

text \<open>The child of stage \<open>i\<close> of \<open>count\<close>.\<close>

definition run_child :: "'w handler \<Rightarrow> (int \<times> int) list \<Rightarrow> nat \<Rightarrow> nat \<Rightarrow> command \<Rightarrow> 'w \<Rightarrow> ending \<times> 'w" where
  "run_child sys made i count c w =
     (let (ok, w) = redirect_fd sys (i \<noteq> 0) (fst (made ! (i - 1))) 0 w
      in if \<not> ok then (Exit 1, w)
      else let (ok, w) = redirect_fd sys (i + 1 < count) (snd (made ! i)) 1 w
      in if \<not> ok then (Exit 1, w)
      else let w = close_all sys (ends made) w; (ok, w) = redirect_file sys (c_input c) O_RDONLY 0 w
      in if \<not> ok then (Exit 1, w)
      else let (ok, w) = redirect_file sys (c_output c) (O_WRONLY OR O_CREAT OR (if c_append c then O_APPEND else O_TRUNC)) 1 w
      in if \<not> ok then (Exit 1, w)
      else case program_path (hd (c_argv c)) of
          None \<Rightarrow> (Exit 127, w)
        | Some path \<Rightarrow>
            let (r, w) = ask sys (Exec path (c_argv c)) w
            in if r < 0
               then (Exit 127, case write_all sys 16 2 (cstr ''sh: exec failed'' @ [0x0a]) w of None \<Rightarrow> w | Some (_, w) \<Rightarrow> w)
               else (Became, w))"

text \<open>The pipes made before one fails, if one does.\<close>

fun make_pipes :: "'w handler \<Rightarrow> nat \<Rightarrow> 'w \<Rightarrow> bool \<times> (int \<times> int) list \<times> 'w" where
  "make_pipes sys 0 w = (True, [], w)"
| "make_pipes sys (Suc n) w =
     (case sys Pipe w of
        ((r, fds), w) \<Rightarrow>
          if r < 0 then (False, [], w)
          else let (ok, ps, w) = make_pipes sys n w in (ok, (fds ! 0, fds ! 1) # ps, w))"

text \<open>Forking the stages in order. The child goes its own way; the parent has the children it started.\<close>

datatype forked = Parent bool "int list" | Child nat command

fun fork_stages :: "'w handler \<Rightarrow> nat \<Rightarrow> command list \<Rightarrow> 'w \<Rightarrow> forked \<times> 'w" where
  "fork_stages sys i [] w = (Parent True [], w)"
| "fork_stages sys i (c # cs) w =
     (let (pid, w) = ask sys Fork w
      in if pid < 0 then (Parent False [], w)
         else if pid = 0 then (Child i c, w)
         else case fork_stages sys (i + 1) cs w of
             (Parent ok pids, w) \<Rightarrow> (Parent ok (pid # pids), w)
           | (Child j c, w) \<Rightarrow> (Child j c, w))"

fun wait_all :: "'w handler \<Rightarrow> int list \<Rightarrow> int \<Rightarrow> 'w \<Rightarrow> int \<times> 'w" where
  "wait_all sys [] result w = (result, w)"
| "wait_all sys (pid # pids) result w =
     (case sys (Wait pid) w of ((r, status), w) \<Rightarrow> wait_all sys pids (if r < 0 \<or> hd status \<noteq> 0 then 1 else result) w)"

definition cleanup :: "'w handler \<Rightarrow> (int \<times> int) list \<Rightarrow> int list \<Rightarrow> int \<Rightarrow> 'w \<Rightarrow> ending \<times> 'w" where
  "cleanup sys made pids result w = (let (result, w) = wait_all sys pids result (close_all sys (ends made) w) in (Return result, w))"

definition run_pipeline :: "'w handler \<Rightarrow> command list \<Rightarrow> 'w \<Rightarrow> ending \<times> 'w" where
  "run_pipeline sys cs w =
     (let (ok, made, w) = make_pipes sys (length cs - 1) w
      in if \<not> ok then cleanup sys made [] 1 w
         else case fork_stages sys 0 cs w of
             (Child i c, w) \<Rightarrow> run_child sys made i (length cs) c w
           | (Parent ok pids, w) \<Rightarrow> cleanup sys made pids (if ok then 0 else 1) w)"

definition run :: "'w handler \<Rightarrow> bytes \<Rightarrow> 'w \<Rightarrow> ending \<times> 'w" where
  "run sys line w =
     (case parse_line line of
        Malformed \<Rightarrow> (Return 2, w)
      | Nothing \<Rightarrow> (Return 0, w)
      | Pipeline cs \<Rightarrow>
          if length cs = 1 \<and> hd (c_argv (hd cs)) = cstr ''cd''
          then if length (c_argv (hd cs)) = 2
               then let (r, w) = ask sys (Chdir (c_argv (hd cs) ! 1)) w in (Return (if r = 0 then 0 else 1), w)
               else (Return 1, w)
          else run_pipeline sys cs w)"

text \<open>The line given with \<^verbatim>\<open>-c\<close>, and lines read from standard input one byte at a time; \<open>line\<close> is what the buffer holds.\<close>

definition run_argument :: "'w handler \<Rightarrow> bytes \<Rightarrow> 'w \<Rightarrow> ending \<times> 'w" where
  "run_argument sys arg w = (if length arg \<ge> LINE then (Return 2, w) else run sys arg w)"

definition run_buffer :: "'w handler \<Rightarrow> bytes \<Rightarrow> 'w \<Rightarrow> ending \<times> 'w" where
  "run_buffer sys line w = (if line = [] then (Return 0, w) else run sys (takeWhile (\<lambda>c. c \<noteq> 0) line) w)"

partial_function (option) read_lines :: "'w handler \<Rightarrow> bytes \<Rightarrow> int \<Rightarrow> 'w \<Rightarrow> (ending \<times> 'w) option" where
  "read_lines sys line failed w =
     (case sys (Read 0 1) w of
        ((n, cs), w) \<Rightarrow>
          if n < 0 then Some (Return 1, w)
          else if n = 0 \<or> hd cs = 0x0a \<or> hd cs = 0x0d
          then (case run_buffer sys line w of
                  (Return v, w) \<Rightarrow>
                    if n = 0 then Some (Return (if v \<noteq> 0 then 1 else failed), w) else read_lines sys [] (if v \<noteq> 0 then 1 else failed) w
                | (e, w) \<Rightarrow> Some (e, w))
          else if length line + 1 < LINE then read_lines sys (line @ [word_of_int (hd cs)]) failed w
          else Some (Return 2, w))"

definition shell_main :: "'w handler \<Rightarrow> bytes list \<Rightarrow> 'w \<Rightarrow> (ending \<times> 'w) option" where
  "shell_main sys args w =
     (if length args = 3 \<and> args ! 1 = cstr ''-c'' then Some (run_argument sys (args ! 2) w)
      else if length args \<noteq> 1 then Some (Return 2, w)
      else read_lines sys [] 0 w)"

end
