(* ===== verification/Shell_Laws.thy ===== *)
theory Shell_Laws
  imports Shell
begin

text \<open>What the parser of the shell accepts, and what a pipeline leaves behind.\<close>

section \<open>Command lines\<close>

definition word_ok :: "bytes \<Rightarrow> bool" where
  "word_ok w \<longleftrightarrow> w \<noteq> [] \<and> list_all is_word w"

definition words_size :: "bytes list \<Rightarrow> nat" where
  "words_size ws = sum_list (map (\<lambda>w. length w + 1) ws)"

definition option_words :: "bytes option \<Rightarrow> bytes list" where
  "option_words x = (case x of None \<Rightarrow> [] | Some w \<Rightarrow> [w])"

definition command_words :: "command \<Rightarrow> bytes list" where
  "command_words c = c_argv c @ option_words (c_input c) @ option_words (c_output c)"

definition wf_part :: "command \<Rightarrow> bool" where
  "wf_part c \<longleftrightarrow> length (c_argv c) \<le> ARGS \<and> list_all word_ok (command_words c) \<and> (c_output c = None \<longrightarrow> \<not> c_append c)"

text \<open>At most four commands of at most eight words, each with at least one, whose words fit the buffer with their terminators.\<close>

definition wf_pipeline :: "command list \<Rightarrow> bool" where
  "wf_pipeline cs \<longleftrightarrow> cs \<noteq> [] \<and> length cs \<le> COMMANDS \<and> list_all (\<lambda>c. wf_part c \<and> c_argv c \<noteq> []) cs \<and>
     words_size (concat (map command_words cs)) \<le> LINE"

text \<open>Writing a pipeline as a line.\<close>

definition show_words :: "bytes list \<Rightarrow> bytes" where
  "show_words ws = concat (map (\<lambda>w. 0x20 # w) ws)"

definition show_command :: "command \<Rightarrow> bytes" where
  "show_command c = show_words (c_argv c) @
     (case c_input c of None \<Rightarrow> [] | Some w \<Rightarrow> 0x3c # w) @
     (case c_output c of None \<Rightarrow> [] | Some w \<Rightarrow> (if c_append c then [0x3e, 0x3e] else [0x3e]) @ w)"

fun show_pipeline :: "command list \<Rightarrow> bytes" where
  "show_pipeline [] = []"
| "show_pipeline [c] = show_command c"
| "show_pipeline (c # cs) = show_command c @ 0x7c # show_pipeline cs"

section \<open>Tokens\<close>

definition stops :: "bytes \<Rightarrow> bool" where
  "stops tail \<longleftrightarrow> tail = [] \<or> \<not> is_word (hd tail)"

lemma takeWhile_stops: "list_all is_word w \<Longrightarrow> stops tail \<Longrightarrow> takeWhile is_word (w @ tail) = w \<and> dropWhile is_word (w @ tail) = tail"
  by (induction w) (cases tail; auto simp: stops_def)+

lemma token_word: "word_ok w \<Longrightarrow> stops tail \<Longrightarrow> token (w @ tail) = Some (Word, w, tail)"
proof -
  assume a: "word_ok w" "stops tail"
  then obtain c v where w: "w = c # v" "is_word c" "list_all is_word v" by (cases w) (auto simp: word_ok_def)
  then show ?thesis using takeWhile_stops [OF w(3) a(2)] by (simp add: token_def is_word_def)
qed

lemma token_blank: "token (0x20 # p) = token p"
  by (simp add: token_def is_blank_def)

lemma token_input: "token (0x3c # p) = Some (Input, [0x3c], p)"
  by (simp add: token_def byte_classes operator_kind_def)

lemma token_bar: "token (0x7c # p) = Some (Bar, [0x7c], p)"
  by (simp add: token_def byte_classes operator_kind_def)

lemma token_append: "token (0x3e # 0x3e # p) = Some (Append, [0x3e, 0x3e], p)"
  by (simp add: token_def byte_classes operator_kind_def)

lemma token_output: "word_ok w \<Longrightarrow> token (0x3e # w @ p) = Some (Output, [0x3e], w @ p)"
  by (cases w) (auto simp: token_def byte_classes operator_kind_def word_ok_def)

lemma token_sound: "token cursor = Some (Word, w, rest) \<Longrightarrow> word_ok w"
proof -
  assume t: "token cursor = Some (Word, w, rest)"
  then obtain c p where cp: "dropWhile is_blank cursor = c # p" by (cases "dropWhile is_blank cursor") (auto simp: token_def)
  have b: "\<not> is_blank c" using cp by (metis hd_dropWhile list.sel(1) list.simps(3))
  have o': "\<not> is_operator c" and w: "w = c # takeWhile is_word p"
    using t cp by (auto simp: token_def operator_kind_def split: if_splits)
  then show ?thesis using b by (auto simp: word_ok_def is_word_def list_all_iff dest: set_takeWhileD)
qed

section \<open>Parsing what was written\<close>

lemma words_size_simps [simp]:
  "words_size [] = 0" "words_size (w # ws) = length w + 1 + words_size ws" "words_size (us @ vs) = words_size us + words_size vs"
  by (simp_all add: words_size_def)

lemma parse_word:
  assumes "word_ok w" "stops tail" "used + length w + 1 \<le> LINE" "length (c_argv c) < ARGS"
  shows "parse_commands (0x20 # w @ tail) used cs c = parse_commands tail (used + length w + 1) cs (c\<lparr>c_argv := c_argv c @ [w]\<rparr>)"
  using assms by (subst parse_commands.simps) (simp add: token_blank token_word store_word_def)

lemma parse_redirect:
  assumes "word_ok w" "stops tail" "used + length w + 1 \<le> LINE"
  shows "parse_commands (0x3c # w @ tail) used cs c = parse_commands tail (used + length w + 1) cs (c\<lparr>c_input := Some w\<rparr>)"
    and "parse_commands (0x3e # w @ tail) used cs c = parse_commands tail (used + length w + 1) cs (c\<lparr>c_output := Some w, c_append := False\<rparr>)"
    and "parse_commands (0x3e # 0x3e # w @ tail) used cs c = parse_commands tail (used + length w + 1) cs (c\<lparr>c_output := Some w, c_append := True\<rparr>)"
  using assms by (subst parse_commands.simps, simp add: token_input token_output token_append token_word store_word_def)+

lemma stops_show: "stops tail \<Longrightarrow> stops (show_words ws @ tail)"
  by (cases ws) (auto simp: show_words_def stops_def byte_classes)

lemma parse_words:
  assumes "list_all word_ok ws" "stops tail" "used + words_size ws \<le> LINE" "length (c_argv c) + length ws \<le> ARGS"
  shows "parse_commands (show_words ws @ tail) used cs c = parse_commands tail (used + words_size ws) cs (c\<lparr>c_argv := c_argv c @ ws\<rparr>)"
  using assms
proof (induction ws arbitrary: used c)
  case Nil
  then show ?case by (simp add: show_words_def)
next
  case (Cons w ws)
  have "parse_commands (0x20 # w @ (show_words ws @ tail)) used cs c =
      parse_commands (show_words ws @ tail) (used + length w + 1) cs (c\<lparr>c_argv := c_argv c @ [w]\<rparr>)"
    using Cons.prems by (intro parse_word) (auto simp: stops_show)
  also have "\<dots> = parse_commands tail (used + length w + 1 + words_size ws) cs (c\<lparr>c_argv := c_argv c @ w # ws\<rparr>)"
    using Cons.prems by (subst Cons.IH) auto
  finally show ?case by (simp add: show_words_def add.assoc)
qed

lemma parse_command:
  assumes "wf_part c" "stops tail" "tail = [] \<or> hd tail \<noteq> 0x3e" "used + words_size (command_words c) \<le> LINE"
  shows "parse_commands (show_command c @ tail) used cs blank_command = parse_commands tail (used + words_size (command_words c)) cs c"
proof -
  define outp where "outp = (case c_output c of None \<Rightarrow> [] | Some w \<Rightarrow> (if c_append c then [0x3e, 0x3e] else [0x3e]) @ w) @ tail"
  define inp where "inp = (case c_input c of None \<Rightarrow> [] | Some w \<Rightarrow> 0x3c # w) @ outp"
  have st: "stops outp" "stops inp"
    using assms(2) by (auto simp: outp_def inp_def stops_def byte_classes split: option.splits)
  have w: "list_all word_ok (c_argv c)" "list_all word_ok (option_words (c_input c))" "list_all word_ok (option_words (c_output c))"
    "length (c_argv c) \<le> ARGS" "c_output c = None \<Longrightarrow> \<not> c_append c"
    using assms(1) by (auto simp: wf_part_def command_words_def)
  have sz: "used + words_size (c_argv c) + words_size (option_words (c_input c)) + words_size (option_words (c_output c)) \<le> LINE"
    using assms(4) by (simp add: command_words_def)
  define c1 where "c1 = blank_command\<lparr>c_argv := c_argv c\<rparr>"
  define c2 where "c2 = c1\<lparr>c_input := c_input c\<rparr>"
  have "parse_commands (show_words (c_argv c) @ inp) used cs blank_command = parse_commands inp (used + words_size (c_argv c)) cs c1"
    using parse_words [OF w(1) st(2), of used blank_command cs] sz w(4) by (simp add: blank_command_def c1_def)
  also have "\<dots> = parse_commands outp (used + words_size (c_argv c) + words_size (option_words (c_input c))) cs c2"
    using parse_redirect(1) [OF _ st(1)] w(2) sz by (cases "c_input c") (auto simp: inp_def option_words_def c1_def c2_def blank_command_def add.assoc)
  also have "\<dots> = parse_commands tail (used + words_size (c_argv c) + words_size (option_words (c_input c)) + words_size (option_words (c_output c))) cs c"
    using parse_redirect(2,3) [OF _ assms(2)] w(3,5) sz
    by (cases c; cases "c_output c") (auto simp: outp_def option_words_def c1_def c2_def blank_command_def add.assoc)
  finally show ?thesis by (simp add: show_command_def command_words_def inp_def outp_def add.assoc)
qed

lemma parse_pipeline:
  assumes "cs \<noteq> []" "list_all (\<lambda>c. wf_part c \<and> c_argv c \<noteq> []) cs" "length ds + length cs \<le> COMMANDS" "used + words_size (concat (map command_words cs)) \<le> LINE"
  shows "parse_commands (show_pipeline cs) used ds blank_command = Some (ds @ cs)"
  using assms
proof (induction cs arbitrary: used ds rule: show_pipeline.induct)
  case (2 c)
  then have "parse_commands (show_command c @ []) used ds blank_command = parse_commands [] (used + words_size (command_words c)) ds c"
    by (intro parse_command) (auto simp: stops_def)
  then show ?case by (subst (asm) (2) parse_commands.simps) (simp add: token_def)
next
  case (3 c c' cs)
  have "parse_commands (show_command c @ 0x7c # show_pipeline (c' # cs)) used ds blank_command =
      parse_commands (0x7c # show_pipeline (c' # cs)) (used + words_size (command_words c)) ds c"
    using 3 by (intro parse_command) (auto simp: stops_def byte_classes)
  also have "\<dots> = parse_commands (show_pipeline (c' # cs)) (used + words_size (command_words c)) (ds @ [c]) blank_command"
    using 3 by (subst parse_commands.simps) (simp add: token_bar)
  also have "\<dots> = Some ((ds @ [c]) @ (c' # cs))"
    using 3 by (intro 3) auto
  finally show ?case by simp
qed simp

section \<open>What the parser accepts\<close>

definition wf_prefix :: "command list \<Rightarrow> command \<Rightarrow> nat \<Rightarrow> bool" where
  "wf_prefix cs c used \<longleftrightarrow> length cs + 1 \<le> COMMANDS \<and> list_all (\<lambda>c. wf_part c \<and> c_argv c \<noteq> []) cs \<and> wf_part c \<and>
     words_size (concat (map command_words (cs @ [c]))) \<le> used \<and> used \<le> LINE"

lemma store_word_wf:
  assumes "store_word k w c = Some c'" "wf_part c" "word_ok w"
  shows "wf_part c' \<and> words_size (command_words c') \<le> words_size (command_words c) + length w + 1"
  using assms by (auto simp: store_word_def wf_part_def command_words_def option_words_def split: if_splits option.splits)

lemma wf_prefix_word:
  assumes "wf_prefix cs c used" "store_word k w c = Some c'" "word_ok w" "used + length w + 1 \<le> LINE"
  shows "wf_prefix cs c' (used + length w + 1)"
  using assms store_word_wf [OF assms(2) _ assms(3)] by (auto simp: wf_prefix_def)

lemma wf_prefix_bar:
  assumes "wf_prefix cs c used" "c_argv c \<noteq> []" "length cs + 1 \<noteq> COMMANDS"
  shows "wf_prefix (cs @ [c]) blank_command used"
  using assms by (auto simp: wf_prefix_def wf_part_def blank_command_def command_words_def option_words_def)

lemma parse_commands_wf:
  assumes "parse_commands cursor used cs c = Some ds" "wf_prefix cs c used"
  shows "\<exists>es e. ds = es @ [e] \<and> wf_prefix es e LINE"
  using assms
proof (induction "length cursor" arbitrary: cursor used cs c rule: less_induct)
  case less
  note unfolded = less.prems(1) [unfolded parse_commands.simps [of cursor]]
  show ?case
  proof (cases "token cursor")
    case None
    then show ?thesis using unfolded less.prems(2) by (auto simp: wf_prefix_def)
  next
    case (Some t)
    obtain k w rest where t: "t = (k, w, rest)" by (cases t)
    have shorter: "length rest < length cursor" using Some t token_shorter by blast
    have word: ?thesis if k: "k \<noteq> Bar" "k \<noteq> Word"
    proof -
      obtain v rest' where v: "token rest = Some (Word, v, rest')"
        using unfolded Some t k by (cases k) (auto split: option.splits token_kind.splits)
      obtain c' where c': "store_word k v c = Some c'" "used + length v + 1 \<le> LINE" "parse_commands rest' (used + length v + 1) cs c' = Some ds"
        using unfolded Some t k v by (cases k) (auto split: option.splits if_splits)
      note wf = wf_prefix_word [OF less.prems(2) c'(1) token_sound [OF v] c'(2)]
      have "length rest' < length cursor" using token_shorter [OF v] Some t token_shorter [of cursor] by fastforce
      then show ?thesis using less.hyps c'(3) wf by blast
    qed
    show ?thesis
    proof (cases k)
      case Bar
      then have "c_argv c \<noteq> []" "length cs + 1 \<noteq> COMMANDS" "parse_commands rest used (cs @ [c]) blank_command = Some ds"
        using unfolded Some t by (auto split: if_splits)
      then show ?thesis using less.hyps [OF shorter] wf_prefix_bar [OF less.prems(2)] by blast
    next
      case Word
      then obtain c' where c': "store_word Word w c = Some c'" "used + length w + 1 \<le> LINE" "parse_commands rest (used + length w + 1) cs c' = Some ds"
        using unfolded Some t by (auto split: option.splits if_splits)
      have "word_ok w" using Some t Word token_sound by auto
      from wf_prefix_word [OF less.prems(2) c'(1) this c'(2)] show ?thesis using less.hyps [OF shorter] c'(3) by blast
    qed (use word in auto)
  qed
qed

lemma parse_line_wf: "parse_line line = Pipeline cs \<Longrightarrow> wf_pipeline cs"
proof -
  assume p: "parse_line line = Pipeline cs"
  then have cs: "parse_commands line 0 [] blank_command = Some cs" "c_argv (last cs) \<noteq> []"
    by (auto simp: parse_line_def split: option.splits if_splits)
  have "wf_prefix [] blank_command 0"
    by (simp add: wf_prefix_def wf_part_def blank_command_def command_words_def option_words_def shell_limits)
  from parse_commands_wf [OF cs(1) this] obtain es e where "cs = es @ [e]" "wf_prefix es e LINE" by blast
  then show ?thesis using cs(2) by (auto simp: wf_prefix_def wf_pipeline_def)
qed

text \<open>
  C38. The shell's parser accepts exactly the pipelines of at most four commands of one to eight words, with optional
  redirections, whose words fit its buffer: a well-formed pipeline written as a line is read back as it was, and whatever
  line is accepted, the commands it is read as keep these bounds.
\<close>

theorem parse_round_trip:
  "(parse_line (show_pipeline cs) = Pipeline cs) = wf_pipeline cs \<and> (\<exists>line. parse_line line = Pipeline cs) = wf_pipeline cs"
proof -
  have "parse_line (show_pipeline cs) = Pipeline cs" if "wf_pipeline cs"
    using parse_pipeline [of cs "[]" 0] that by (auto simp: parse_line_def wf_pipeline_def list_all_iff)
  then show ?thesis using parse_line_wf by blast
qed

section \<open>What a pipeline leaves behind\<close>

text \<open>A handler that also records every request with its response.\<close>

type_synonym exchanges = "(request \<times> response) list"

definition traced :: "'w handler \<Rightarrow> (exchanges \<times> 'w) handler" where
  "traced sys r = (\<lambda>(tr, w). let (x, w) = sys r w in (x, (tr @ [(r, x)], w)))"

definition opened :: "exchanges \<Rightarrow> int list" where
  "opened tr = concat (map (\<lambda>(r, x). if r = Pipe \<and> \<not> fst x < 0 then [snd x ! 0, snd x ! 1] else []) tr)"

definition closed :: "exchanges \<Rightarrow> int list" where
  "closed tr = concat (map (\<lambda>(r, x). case r of Close fd \<Rightarrow> [fd] | _ \<Rightarrow> []) tr)"

definition started :: "exchanges \<Rightarrow> int list" where
  "started tr = concat (map (\<lambda>(r, x). if r = Fork \<and> 0 < fst x then [fst x] else []) tr)"

definition waited :: "exchanges \<Rightarrow> int list" where
  "waited tr = concat (map (\<lambda>(r, x). case r of Wait pid \<Rightarrow> [pid] | _ \<Rightarrow> []) tr)"

lemma exchange_simps [simp]:
  "opened [] = []" "opened (tr @ tr') = opened tr @ opened tr'"
  "closed [] = []" "closed (tr @ tr') = closed tr @ closed tr'"
  "started [] = []" "started (tr @ tr') = started tr @ started tr'"
  "waited [] = []" "waited (tr @ tr') = waited tr @ waited tr'"
  by (simp_all add: opened_def closed_def started_def waited_def)

lemmas exchange_defs = opened_def closed_def started_def waited_def

lemma traced_step: "traced sys r (tr, w) = (fst (sys r w), (tr @ [(r, fst (sys r w))], snd (sys r w)))"
  by (simp add: traced_def split: prod.split)

lemma ask_traced: "ask (traced sys) r (tr, w) = (fst (fst (sys r w)), (tr @ [(r, fst (sys r w))], snd (sys r w)))"
  by (simp add: ask_def traced_step)

text \<open>The exchanges a step adds to the record, and which pipe ends, closed descriptors, children and waits are in them.\<close>

definition adds :: "exchanges \<Rightarrow> exchanges \<Rightarrow> int list \<Rightarrow> int list \<Rightarrow> int list \<Rightarrow> int list \<Rightarrow> bool" where
  "adds tr tr' os cs ss ws \<longleftrightarrow> (\<exists>d. tr' = tr @ d \<and> opened d = os \<and> closed d = cs \<and> started d = ss \<and> waited d = ws)"

lemma adds_refl: "adds tr tr [] [] [] []"
  by (simp add: adds_def)

lemma adds_trans: "adds t1 t2 os cs ss ws \<Longrightarrow> adds t2 t3 os' cs' ss' ws' \<Longrightarrow> adds t1 t3 (os @ os') (cs @ cs') (ss @ ss') (ws @ ws')"
  by (auto simp: adds_def)

lemma close_all_adds: "close_all (traced sys) fds (tr, w) = (tr', w') \<Longrightarrow> adds tr tr' [] fds [] []"
proof (induction fds arbitrary: tr w)
  case (Cons fd fds)
  have a: "adds tr (tr @ [(Close fd, fst (sys (Close fd) w))]) [] [fd] [] []" by (auto simp: adds_def exchange_defs)
  have "close_all (traced sys) fds (tr @ [(Close fd, fst (sys (Close fd) w))], snd (sys (Close fd) w)) = (tr', w')"
    using Cons.prems by (simp add: ask_traced)
  from adds_trans [OF a Cons.IH [OF this]] show ?case by simp
qed (auto intro: adds_refl)

lemma wait_all_adds: "wait_all (traced sys) pids v (tr, w) = (v', (tr', w')) \<Longrightarrow> adds tr tr' [] [] [] pids"
proof (induction pids arbitrary: tr w v)
  case (Cons p pids)
  obtain r st w1 where x: "sys (Wait p) w = ((r, st), w1)" by (metis surj_pair)
  have a: "adds tr (tr @ [(Wait p, r, st)]) [] [] [] [p]" by (auto simp: adds_def exchange_defs)
  have "wait_all (traced sys) pids (if r < 0 \<or> hd st \<noteq> 0 then 1 else v) (tr @ [(Wait p, r, st)], w1) = (v', (tr', w'))"
    using Cons.prems x by (simp add: traced_step)
  from adds_trans [OF a Cons.IH [OF this]] show ?case by simp
qed (auto intro: adds_refl)

lemma make_pipes_adds: "make_pipes (traced sys) n (tr, w) = (ok, ps, (tr', w')) \<Longrightarrow> adds tr tr' (ends ps) [] [] []"
proof (induction n arbitrary: tr w ps ok tr' w')
  case 0
  then show ?case by (simp add: ends_def adds_refl)
next
  case (Suc n)
  obtain r fds w1 where x: "sys Pipe w = ((r, fds), w1)" by (metis surj_pair)
  obtain ok1 qs tr1 w2 where q: "make_pipes (traced sys) n (tr @ [(Pipe, r, fds)], w1) = (ok1, qs, (tr1, w2))" by (metis surj_pair)
  show ?case
  proof (cases "r < 0")
    case True
    then show ?thesis using Suc.prems x by (auto simp: traced_step ends_def adds_def exchange_defs)
  next
    case False
    have "adds tr (tr @ [(Pipe, r, fds)]) [fds ! 0, fds ! 1] [] [] []" using False by (auto simp: adds_def exchange_defs)
    from adds_trans [OF this Suc.IH [OF q]] show ?thesis using Suc.prems x q False by (auto simp: traced_step ends_def)
  qed
qed

lemma fork_stages_adds: "fork_stages (traced sys) i cs (tr, w) = (Parent ok pids, (tr', w')) \<Longrightarrow> adds tr tr' [] [] pids []"
proof (induction cs arbitrary: i tr w pids)
  case Nil
  then show ?case by (simp add: adds_refl)
next
  case (Cons c cs)
  obtain pid x w1 where x: "sys Fork w = ((pid, x), w1)" by (metis surj_pair)
  show ?case
  proof (cases "0 < pid")
    case False
    then show ?thesis using Cons.prems x by (auto simp: ask_traced adds_def exchange_defs split: if_splits)
  next
    case True
    then obtain pids1 where p: "pids = pid # pids1" "fork_stages (traced sys) (i + 1) cs (tr @ [(Fork, pid, x)], w1) = (Parent ok pids1, (tr', w'))"
      using Cons.prems x by (auto simp: ask_traced split: prod.splits forked.splits)
    have "adds tr (tr @ [(Fork, pid, x)]) [] [] [pid] []" using True by (auto simp: adds_def exchange_defs)
    from adds_trans [OF this Cons.IH [OF p(2)]] p(1) show ?thesis by simp
  qed
qed

lemma cleanup_adds:
  assumes "cleanup (traced sys) ps pids v (tr, w) = (e, (tr', w'))"
  shows "\<exists>tr1. adds tr tr1 [] (ends ps) [] [] \<and> adds tr1 tr' [] [] [] pids"
proof -
  obtain tr1 w1 where c: "close_all (traced sys) (ends ps) (tr, w) = (tr1, w1)" by (metis surj_pair)
  obtain v2 tr2 w2 where d: "wait_all (traced sys) pids v (tr1, w1) = (v2, (tr2, w2))" by (metis surj_pair)
  have "tr2 = tr'" using assms c d by (simp add: cleanup_def)
  then show ?thesis using close_all_adds [OF c] wait_all_adds [OF d] by blast
qed

lemma run_child_ends: "run_child sys ps i n c w = (Return v, w') \<Longrightarrow> False"
  by (auto simp: run_child_def Let_def split: prod.splits option.splits if_splits)

lemma run_pipeline_adds:
  assumes "run_pipeline (traced sys) cs (tr, w) = (Return v, (tr', w'))"
  shows "\<exists>fds pids tr1. adds tr tr1 fds fds pids [] \<and> adds tr1 tr' [] [] [] pids"
proof -
  obtain ok ps tr1 w1 where p: "make_pipes (traced sys) (length cs - 1) (tr, w) = (ok, ps, (tr1, w1))" by (metis surj_pair)
  note mp = make_pipes_adds [OF p]
  show ?thesis
  proof (cases ok)
    case False
    then have "cleanup (traced sys) ps [] 1 (tr1, w1) = (Return v, (tr', w'))" using assms p by (simp add: run_pipeline_def)
    from cleanup_adds [OF this] obtain tr2 where t: "adds tr1 tr2 [] (ends ps) [] []" "adds tr2 tr' [] [] [] []" by blast
    show ?thesis using adds_trans [OF mp t(1)] t(2) by auto
  next
    case True
    obtain f tr2 w2 where f: "fork_stages (traced sys) 0 cs (tr1, w1) = (f, (tr2, w2))" by (metis surj_pair)
    obtain ok' pids where par: "f = Parent ok' pids" "cleanup (traced sys) ps pids (if ok' then 0 else 1) (tr2, w2) = (Return v, (tr', w'))"
      using assms p f True by (cases f) (auto simp: run_pipeline_def dest: run_child_ends)
    from cleanup_adds [OF par(2)] obtain tr3 where t: "adds tr2 tr3 [] (ends ps) [] []" "adds tr3 tr' [] [] [] pids" by blast
    note fk = fork_stages_adds [OF f [unfolded par(1)]]
    show ?thesis using adds_trans [OF adds_trans [OF mp fk] t(1)] t(2) by auto
  qed
qed

text \<open>
  C39. Whatever the system answers, when the shell returns from a line it has closed both ends of every pipe it made, in
  order and once each, and has waited for every child it started and no other; it has closed them all before it first waits.
\<close>

theorem pipeline_cleans_up:
  assumes "run (traced sys) line ([], w) = (Return v, (tr, w'))"
  shows "closed tr = opened tr \<and> waited tr = started tr \<and> (\<exists>pre post. tr = pre @ post \<and> closed pre = opened tr \<and> waited pre = [])"
proof -
  have none: ?thesis if "adds [] tr [] [] [] []" using that by (auto simp: adds_def)
  show ?thesis
  proof (cases "parse_line line")
    case (Pipeline cs)
    show ?thesis
    proof (cases "length cs = 1 \<and> hd (c_argv (hd cs)) = cstr ''cd''")
      case True
      have "adds [] tr [] [] [] []"
        using assms Pipeline True by (auto simp: run_def ask_traced adds_def exchange_defs split: if_splits)
      then show ?thesis by (rule none)
    next
      case False
      then have "run_pipeline (traced sys) cs ([], w) = (Return v, (tr, w'))" using assms Pipeline by (auto simp: run_def split: if_splits)
      from run_pipeline_adds [OF this] show ?thesis by (force simp: adds_def)
    qed
  qed (use assms none in \<open>auto simp: run_def adds_def\<close>)
qed

text \<open>A world that answers every fork with a new child and every pipe with two new descriptors.\<close>

definition demo_system :: "int handler" where
  "demo_system r n = (case r of Pipe \<Rightarrow> ((0, [n, n + 1]), n + 2) | Fork \<Rightarrow> ((n, []), n + 1) | _ \<Rightarrow> ((0, [0]), n))"

theorem pipeline_cleans_up_witness:
  "\<exists>tr. run (traced demo_system) (cstr ''echo a|cat'') ([], 3) = (Return 0, (tr, 7)) \<and> closed tr = [3, 4] \<and> waited tr = [5, 6]"
proof -
  define tr :: exchanges where
    "tr = [(Pipe, 0, [3, 4]), (Fork, 5, []), (Fork, 6, []), (Close 3, 0, [0]), (Close 4, 0, [0]), (Wait 5, 0, [0]), (Wait 6, 0, [0])]"
  have r: "run (traced demo_system) (cstr ''echo a|cat'') ([], 3) = (Return 0, (tr, 7))"
    unfolding tr_def by code_simp
  have "opened tr = [3, 4]" "started tr = [5, 6]" by (simp_all add: tr_def exchange_defs)
  then show ?thesis using r pipeline_cleans_up [OF r] by (intro exI [of _ tr]) simp
qed

lemma write_all_enough: "length bs \<le> fuel \<Longrightarrow> \<exists>r. write_all sys fuel fd bs w = Some r"
  by (induction sys fuel fd bs w rule: write_all.induct) (auto simp: Let_def split: prod.split)

end
