(* ===== verification/User_Copy.thy ===== *)
theory User_Copy
  imports Address_Space Vm_Contract
begin

text \<open>
  Copies out of user memory, page by page in \<open>address_space_copy\<close> and \<open>address_space_validate\<close> of \<^verbatim>\<open>src/mm/address_space.c\<close>, byte by byte.
\<close>

section \<open>Translations within a page\<close>

lemma vpn_index_page: "unat a div 4096 = unat b div 4096 \<Longrightarrow> vpn_index a level = vpn_index b level"
proof -
  assume eq: "unat a div 4096 = unat b div 4096"
  have "unat c div 2 ^ (12 + level * 9) = unat c div 4096 div 2 ^ (level * 9)" for c :: u64
    by (simp add: power_add div_mult2_eq)
  then show ?thesis by (simp add: vpn_index_div eq)
qed

lemma canonical_page: "unat a div 4096 = unat b div 4096 \<Longrightarrow> canonical a = canonical b"
proof -
  assume eq: "unat a div 4096 = unat b div 4096"
  have "unat (drop_bit 39 c) = unat c div 4096 div 2 ^ 27" for c :: u64
    by (simp add: drop_bit_eq_div unat_div flip: div_mult2_eq)
  then have "drop_bit 39 a = drop_bit 39 b" by (simp add: word_unat_eq_iff eq)
  then show ?thesis by (simp add: canonical_def)
qed

lemma walk_page:
  assumes "unat a div 4096 = unat b div 4096"
  shows "walk t a False s = walk t b False s"
proof -
  have "walk_levels n e a False s = walk_levels n e b False s" for n e
    by (induction n arbitrary: e) (simp_all add: vpn_index_page [OF assms] Let_def)
  then show ?thesis by (simp add: walk_def canonical_page [OF assms] split: option.split)
qed

lemma add_in_page:
  fixes a :: u64
  assumes "unat a mod 4096 + i < 4096"
  shows "unat (a + of_nat i) = unat a + i" "unat (a + of_nat i) div 4096 = unat a div 4096"
proof -
  have "unat a < 2 ^ 64" by (rule unat_u64)
  then have "unat a div 4096 < 4503599627370496" by (simp add: div_less_iff_less_mult)
  then have "unat a + i < 18446744073709551616" using assms div_mult_mod_eq [of "unat a" 4096] by linarith
  then show "unat (a + of_nat i) = unat a + i" using assms by (simp add: unat_word_ariths unsigned_of_nat take_bit_nat_eq_self)
  then show "unat (a + of_nat i) div 4096 = unat a div 4096" using assms
    by (metis add.assoc div_mult_mod_eq div_mult_self3 div_less add_0_right zero_neq_numeral)
qed

lemma or_offset:
  assumes "page_aligned p"
  shows "p OR (a AND PAGE_MASK) = p + of_nat (unat a mod 4096)"
proof -
  have m: "(PAGE_MASK :: u64) = mask 12" by (simp add: PAGE_MASK_def PAGE_SIZE_def mask_eq_exp_minus_1)
  have "a AND PAGE_MASK = take_bit 12 a" by (simp add: m take_bit_eq_mask)
  moreover have "take_bit 12 a = of_nat (unat a mod 4096)"
    by (simp add: word_unat_eq_iff unsigned_take_bit_eq take_bit_eq_mod unsigned_of_nat unat_mod)
  moreover have "p AND (a AND PAGE_MASK) = 0"
    using assms by (simp add: aligned_mask and.left_commute [of p a])
  ultimately show ?thesis by (metis disjunctive_add_eq_or)
qed

lemma user_page_at_offset:
  assumes "unat a mod 4096 + i < 4096"
  shows "user_page_at as (a + of_nat i) w s = map_option (\<lambda>p. p + of_nat i) (user_page_at as a w s)"
proof -
  note in_page = add_in_page [OF assms]
  have "unat (a + of_nat i) mod 4096 = unat a mod 4096 + i" using in_page assms by (metis mod_add_left_eq mod_less)
  then have phys: "pte_physical e OR ((a + of_nat i) AND PAGE_MASK) = (pte_physical e OR (a AND PAGE_MASK)) + of_nat i" for e
    using pte_physical_target [of e] by (simp add: or_offset pte_target_def)
  have "vm_query t (a + of_nat i) s = map_option (\<lambda>(p, f). (p + of_nat i, f)) (vm_query t a s)" for t
    using walk_page [OF in_page(2), of t s] by (simp add: vm_query_def phys Let_def case_prod_beta)
  then show ?thesis by (simp add: user_page_at_def split: option.split)
qed

section \<open>Whole ranges\<close>

text \<open>The byte a user-mode access at \<open>a\<close> reaches, through a leaf with the bits U and R, and W for a store.\<close>

definition accessible :: "address_space \<Rightarrow> bool \<Rightarrow> 'a kstate_scheme \<Rightarrow> u64 \<Rightarrow> bool" where
  "accessible as w s a \<longleftrightarrow> user_page_at as a w s \<noteq> None"

definition user_byte :: "address_space \<Rightarrow> 'a kstate_scheme \<Rightarrow> u64 \<Rightarrow> u8" where
  "user_byte as s a = kmem s (phys_to_virt (the (user_page_at as a False s)))"

definition user_addresses :: "u64 \<Rightarrow> nat \<Rightarrow> u64 list" where
  "user_addresses a n = map (\<lambda>i. a + of_nat i) [0..<n]"

lemma user_addresses_add: "user_addresses a (m + n) = user_addresses a m @ user_addresses (a + of_nat m) n"
proof -
  have "[0..<m + n] = [0..<m] @ map (\<lambda>i. i + m) [0..<n]" 
    using upt_add_eq_append [of 0 m n] map_add_upt [of m n] by (simp add: add.commute)
  then show ?thesis by (simp add: user_addresses_def algebra_simps)
qed

lemma chunk_in_page: "i < user_chunk a n \<Longrightarrow> unat a mod 4096 + i < 4096"
proof -
  have m: "unat (a AND PAGE_MASK) = unat a mod 4096" by (simp add: PAGE_MASK_mask unsigned_take_bit_eq take_bit_eq_mod unat_mod flip: take_bit_eq_mask)
  have "unat (PAGE_SIZE - (a AND PAGE_MASK)) = 4096 - unat a mod 4096"
    by (simp add: PAGE_SIZE_def unat_sub_if' m)
  then show "unat a mod 4096 + i < 4096" if "i < user_chunk a n" using that unfolding user_chunk_def by linarith
qed

lemma chunk_accessible:
  assumes "0 < n"
  shows "list_all (accessible as w s) (user_addresses a (user_chunk a n)) \<longleftrightarrow> user_page_at as a w s \<noteq> None"
proof -
  have "0 < user_chunk a n" by (rule user_chunk_bounds(1) [OF assms])
  then show ?thesis using chunk_in_page [THEN user_page_at_offset, of _ a n as w s]
    by (auto simp: list_all_iff user_addresses_def accessible_def)
qed

lemma chunk_bytes:
  assumes "user_page_at as a False s = Some p"
  shows "map (user_byte as s) (user_addresses a (user_chunk a n)) = read_bytes (kmem s) (phys_to_virt p) (user_chunk a n)"
  using chunk_in_page [THEN user_page_at_offset, of _ a n as False s] assms
  by (auto simp: user_addresses_def read_bytes_def user_byte_def phys_to_virt_def algebra_simps)

lemma split_chunk:
  "list_all P (user_addresses a n) = (list_all P (user_addresses a (user_chunk a n)) \<and>
     list_all P (user_addresses (a + of_nat (user_chunk a n)) (n - user_chunk a n)))"
  "map f (user_addresses a n) = map f (user_addresses a (user_chunk a n)) @ map f (user_addresses (a + of_nat (user_chunk a n)) (n - user_chunk a n))"
proof -
  have "user_addresses a n = user_addresses a (user_chunk a n) @ user_addresses (a + of_nat (user_chunk a n)) (n - user_chunk a n)"
    using user_addresses_add [of a "user_chunk a n" "n - user_chunk a n"] user_chunk_bounds(2) [of a n] by simp
  then show "list_all P (user_addresses a n) = (list_all P (user_addresses a (user_chunk a n)) \<and>
     list_all P (user_addresses (a + of_nat (user_chunk a n)) (n - user_chunk a n)))"
    "map f (user_addresses a n) = map f (user_addresses a (user_chunk a n)) @ map f (user_addresses (a + of_nat (user_chunk a n)) (n - user_chunk a n))"
    by (metis list_all_append, metis map_append)
qed

lemma copy_in_bytes:
  "copy_in as a n s = (if list_all (accessible as False s) (user_addresses a n) then Some (map (user_byte as s) (user_addresses a n)) else None)"
proof (induction as a n s rule: copy_in.induct)
  case (1 as a n s)
  show ?case
  proof (cases "n = 0")
    case True
    then show ?thesis by (subst copy_in.simps) (simp add: user_addresses_def)
  next
    case False
    note acc = chunk_accessible [of n as False s a] and sp = split_chunk [of _ a n]
    show ?thesis
    proof (cases "user_page_at as a False s")
      case None
      then have "\<not> list_all (accessible as False s) (user_addresses a n)" using False acc sp(1) by blast
      then show ?thesis using False None by (subst copy_in.simps) simp
    next
      case (Some p)
      then have la: "list_all (accessible as False s) (user_addresses a n) =
          list_all (accessible as False s) (user_addresses (a + of_nat (user_chunk a n)) (n - user_chunk a n))"
        using False acc sp(1) by blast
      show ?thesis unfolding la sp(2) chunk_bytes [OF Some, of n] using False
        by (subst copy_in.simps) (simp add: Some "1.IH" [OF False Some refl] Let_def)
    qed
  qed
qed

lemma validate_loop_bytes: "validate_loop as a n w s = list_all (accessible as w s) (user_addresses a n)"
proof (induction as a n w s rule: validate_loop.induct)
  case (1 as a n w s)
  show ?case
  proof (cases "n = 0")
    case True
    then show ?thesis by (subst validate_loop.simps) (simp add: user_addresses_def)
  next
    case False
    show ?thesis
    proof (cases "user_page_at as a w s = None")
      case True
      then show ?thesis using False chunk_accessible [of n as w s a] split_chunk(1) [of _ a n] by (subst validate_loop.simps) simp
    next
      case page: False
      show ?thesis using False page chunk_accessible [of n as w s a] "1.IH" [OF False page refl] split_chunk(1) [of "accessible as w s" a n]
        by (subst validate_loop.simps) (auto simp: Let_def)
    qed
  qed
qed


end
