(* ===== verification/Areas.thy ===== *)
theory Areas
  imports Address_Space Vm_Contract
begin

text \<open>
  The areas of an address space: where \<open>address_space_mmap\<close> places a mapping and what \<open>address_space_munmap\<close> leaves reserved
  (\<^verbatim>\<open>src/mm/address_space.c\<close>).
\<close>

section \<open>Placing a mapping\<close>

text \<open>Where a mapping of \<open>len\<close> bytes may start.\<close>

definition slot :: "address_space \<Rightarrow> u64 \<Rightarrow> u64 \<Rightarrow> bool" where
  "slot as len a \<longleftrightarrow> MMAP_BASE \<le> a \<and> a \<le> MMAP_END - len \<and> vacant as a (a + len)"

lemma aligned_above:
  assumes "page_aligned a" "page_aligned b" "a \<le> b" "a \<noteq> b" "unat (a + PAGE_SIZE) = unat a + 4096"
  shows "a + PAGE_SIZE \<le> b"
proof -
  obtain i j where ij: "unat a = 4096 * i" "unat b = 4096 * j" using assms(1,2) by (auto simp: page_aligned_iff_dvd dvd_def)
  have "unat a < unat b" using assms(3,4) by (simp add: word_le_nat_alt word_unat_eq_iff)
  then have "unat a + 4096 \<le> unat b" using ij by simp
  then show ?thesis using assms(5) by (simp add: word_le_nat_alt)
qed

lemma first_fit_least:
  assumes "len \<le> MAX_MAPPING" "page_aligned a"
  shows "page_aligned (first_fit as len a) \<and> a \<le> first_fit as len a \<and>
    (first_fit as len a \<le> MMAP_END - len \<longrightarrow> vacant as (first_fit as len a) (first_fit as len a + len)) \<and>
    (\<forall>b. page_aligned b \<longrightarrow> a \<le> b \<longrightarrow> b < first_fit as len a \<longrightarrow> \<not> vacant as b (b + len))"
  using assms
proof (induction as len a rule: first_fit.induct)
  case (1 as len a)
  define r where "r = first_fit as len a"
  show ?case
  proof (cases "a \<le> MMAP_END - len \<and> \<not> vacant as a (a + len)")
    case False
    then have "r = a" unfolding r_def using "1.prems" by (subst first_fit.simps) auto
    then show ?thesis using "1.prems" False by (auto simp: r_def)
  next
    case True
    then have r: "r = first_fit as len (a + PAGE_SIZE)" unfolding r_def using "1.prems" by (subst first_fit.simps) auto
    note step = first_fit_step [OF "1.prems"(1) conjunct1 [OF True]]
    have al: "page_aligned (a + PAGE_SIZE)" using "1.prems"(2) step by (simp add: page_aligned_iff_dvd)
    have "len \<le> MAX_MAPPING \<and> a \<le> MMAP_END - len \<and> \<not> vacant as a (a + len)" using True "1.prems"(1) by simp
    from "1.IH" [OF this "1.prems"(1) al, folded r]
    have ih: "page_aligned r" "a + PAGE_SIZE \<le> r" "r \<le> MMAP_END - len \<longrightarrow> vacant as r (r + len)"
      "\<And>b. page_aligned b \<Longrightarrow> a + PAGE_SIZE \<le> b \<Longrightarrow> b < r \<Longrightarrow> \<not> vacant as b (b + len)" by auto
    have "a \<le> r" using ih(2) step by (simp add: word_le_nat_alt)
    moreover have "\<not> vacant as b (b + len)" if "page_aligned b" "a \<le> b" "b < r" for b
      using that ih(4) [of b] aligned_above [OF "1.prems"(2) that(1,2)] step True by blast
    ultimately show ?thesis using ih by (simp add: r_def [symmetric])
  qed
qed


text \<open>A space with one anonymous area of three pages at the start of the window.\<close>

definition demo_space :: address_space where
  "demo_space = \<lparr>as_table = \<lparr>root = 0\<rparr>, as_pages = [], as_areas = [(64, \<lparr>area_start = 0x10000000, area_end = 0x10003000, area_flags = PTE_U, area_kind = AREA_ANON\<rparr>)],
     brk_base = HEAP_BASE, brk_end = HEAP_BASE\<rparr>"


section \<open>Unmapping\<close>

text \<open>The reserved addresses with the protection and kind of their area.\<close>

definition reservations :: "(u64 \<times> vm_area) list \<Rightarrow> (u64 \<times> u64 \<times> area_kind) set" where
  "reservations areas = {(x, area_flags a, area_kind a) |x y a. (y, a) \<in> set areas \<and> area_start a \<le> x \<and> x < area_end a}"

definition outside :: "u64 \<Rightarrow> u64 \<Rightarrow> (u64 \<times> 'b) set \<Rightarrow> (u64 \<times> 'b) set" where
  "outside start bound R = {(x, y) \<in> R. \<not> (start \<le> x \<and> x < bound)}"

lemma reservations_simps [simp]:
  "reservations [] = {}" "reservations (es @ fs) = reservations es \<union> reservations fs"
  by (auto simp: reservations_def)

lemma reservations_Cons: "reservations (e # es) = reservations [e] \<union> reservations es"
  using reservations_simps(2) [of "[e]" es] by simp

lemma outside_Un: "outside start bound (R \<union> S) = outside start bound R \<union> outside start bound S"
  by (auto simp: outside_def)

lemma reservations_one: "reservations [(y, a)] = {(x, area_flags a, area_kind a) |x. area_start a \<le> x \<and> x < area_end a}"
  by (auto simp: reservations_def)

lemma munmap_cut_reservations:
  assumes "munmap_cut start bound areas split s = Some (left, new, unused, s')"
  shows "reservations (left @ new) = outside start bound (reservations areas)"
  using assms
proof (induction areas arbitrary: split s left new unused s')
  case Nil
  then show ?case by (auto simp: outside_def)
next
  case (Cons e areas)
  obtain y a where e: "e = (y, a)" by (cases e)
  consider (apart) "start \<ge> area_end a \<or> bound \<le> area_start a"
    | (whole) "\<not> (start \<ge> area_end a \<or> bound \<le> area_start a)" "start \<le> area_start a \<and> bound \<ge> area_end a"
    | (middle) "\<not> (start \<ge> area_end a \<or> bound \<le> area_start a)" "\<not> (start \<le> area_start a \<and> bound \<ge> area_end a)" "start > area_start a \<and> bound < area_end a"
    | (side) "\<not> (start \<ge> area_end a \<or> bound \<le> area_start a)" "\<not> (start \<le> area_start a \<and> bound \<ge> area_end a)" "\<not> (start > area_start a \<and> bound < area_end a)"
    by blast
  then show ?case
  proof cases
    case apart
    obtain l n u s1 where m: "munmap_cut start bound areas split s = Some (l, n, u, s1)" "left = (y, a) # l" "new = n"
      using Cons.prems apart by (auto simp: e bind_eq_Some_conv)
    have "outside start bound (reservations [(y, a)]) = reservations [(y, a)]" using apart by (auto simp: outside_def reservations_one)
    then show ?thesis using Cons.IH [OF m(1)] m(2,3) by (simp add: e reservations_Cons [of _ areas] reservations_Cons [of _ "l @ n"] outside_Un)
  next
    case whole
    obtain s1 where m: "munmap_cut start bound areas split s1 = Some (left, new, unused, s')"
      using Cons.prems whole by (auto simp: e bind_eq_Some_conv)
    have "outside start bound (reservations [(y, a)]) = {}" using whole(2) by (auto simp: outside_def reservations_one)
    then show ?thesis using Cons.IH [OF m] by (simp add: e reservations_Cons [of _ areas] outside_Un)
  next
    case middle
    obtain l n u s1 where m: "munmap_cut start bound areas 0 s = Some (l, n, u, s1)" "left = (y, a\<lparr>area_end := start\<rparr>) # l" "new = (split, a\<lparr>area_start := bound\<rparr>) # n"
      using Cons.prems middle by (auto simp: e bind_eq_Some_conv)
    have "outside start bound (reservations [(y, a)]) = reservations [(y, a\<lparr>area_end := start\<rparr>)] \<union> reservations [(split, a\<lparr>area_start := bound\<rparr>)]"
      using middle by (auto simp: outside_def reservations_one)
    then show ?thesis using Cons.IH [OF m(1)] m(2,3)
      by (simp add: e reservations_Cons [of _ areas] reservations_Cons [of _ "l @ _ # n"] reservations_Cons [of _ n] outside_Un) blast
  next
    case side
    define b where "b = (if start \<le> area_start a then a\<lparr>area_start := bound\<rparr> else a\<lparr>area_end := start\<rparr>)"
    obtain l n u s1 where m: "munmap_cut start bound areas split s = Some (l, n, u, s1)" "left = (y, b) # l" "new = n"
      using Cons.prems side by (auto simp: e bind_eq_Some_conv b_def)
    have "outside start bound (reservations [(y, a)]) = reservations [(y, b)]"
      using side by (auto simp: outside_def reservations_one b_def)
    then show ?thesis using Cons.IH [OF m(1)] m(2,3) by (simp add: e reservations_Cons [of _ areas] reservations_Cons [of _ "l @ n"] outside_Un)
  qed
qed

definition page_in_range :: "u64 \<Rightarrow> u64 \<Rightarrow> u64 \<times> user_page \<Rightarrow> bool" where
  "page_in_range start bound e \<longleftrightarrow> start \<le> up_virtual_address (snd e) \<and> up_virtual_address (snd e) < bound"

lemma remove_loop_kept:
  assumes "remove_loop table start bound pages s = Some (kept, s')"
  shows "kept = filter (\<lambda>e. \<not> page_in_range start bound e) pages"
  using assms by (induction pages arbitrary: s kept) (auto simp: page_in_range_def bind_eq_Some_conv Let_def split: if_splits)

lemma remove_pages_kept:
  "remove_pages start bound as s = Some (as', s') \<Longrightarrow> as' = as\<lparr>as_pages := filter (\<lambda>e. \<not> page_in_range start bound e) (as_pages as)\<rparr>"
  by (auto simp: remove_pages_def bind_eq_Some_conv dest: remove_loop_kept)



end
