(* ===== verification/Families.thy ===== *)
theory Families
  imports Process
begin

text \<open>
  The family tree of processes: the lists of children and the parent pointers of \<^verbatim>\<open>src/kernel/process.c\<close> agree, and the loop of
  \<open>process_exit\<close> hands all children of an exiting process to the init process.
\<close>

section \<open>Agreement of the two directions\<close>

definition family_ok :: "(u64 \<Rightarrow> process) \<Rightarrow> bool" where
  "family_ok ps \<longleftrightarrow> (\<forall>p. distinct (pr_children (ps p)) \<and> p \<notin> set (pr_children (ps p))) \<and>
     (\<forall>p c. p \<noteq> 0 \<longrightarrow> (c \<in> set (pr_children (ps p)) \<longleftrightarrow> pr_parent (ps c) = p))"

text \<open>What the init process takes over.\<close>

definition adopted :: "u64 \<Rightarrow> u64 \<Rightarrow> u64 list \<Rightarrow> (u64 \<Rightarrow> process) \<Rightarrow> u64 \<Rightarrow> process" where
  "adopted init0 process cs ps q =
     (if q = process then (ps q)\<lparr>pr_children := []\<rparr>
      else if q = init0 then (ps q)\<lparr>pr_children := pr_children (ps q) @ cs\<rparr>
      else if q \<in> set cs then (ps q)\<lparr>pr_parent := init0\<rparr>
      else ps q)"

lemma adopt_children_all:
  assumes "pr_children (processes s process) = cs" "distinct cs" "process \<notin> set cs" "init_process s \<notin> set cs"
    and "init_process s \<noteq> 0" "init_process s \<noteq> process"
  shows "adopt_children process cs s = Some (s\<lparr>processes := adopted (init_process s) process cs (processes s)\<rparr>)"
  using assms
proof (induction cs arbitrary: s)
  case Nil
  have "adopted (init_process s) process [] (processes s) = processes s" using Nil.prems by (auto simp: adopted_def fun_eq_iff)
  then show ?case by simp
next
  case (Cons c cs)
  define t where "t = link_child (init_process s) c (unlink_child process c s)"
  have i: "init_process (unlink_child process c s) = init_process s" "init_process t = init_process s"
    by (simp_all add: t_def link_child_def unlink_child_def update_process_def)
  have "adopt_children process (c # cs) s = adopt_children process cs t" using Cons.prems i(1) by (simp add: t_def)
  also have "\<dots> = Some (t\<lparr>processes := adopted (init_process t) process cs (processes t)\<rparr>)"
    using Cons.prems i(2) by (intro Cons.IH) (auto simp: t_def link_child_def unlink_child_def update_process_def)
  also have "t\<lparr>processes := adopted (init_process t) process cs (processes t)\<rparr> =
      s\<lparr>processes := adopted (init_process s) process (c # cs) (processes s)\<rparr>"
  proof -
    have "adopted (init_process t) process cs (processes t) = adopted (init_process s) process (c # cs) (processes s)"
      using Cons.prems unfolding i(2)
      by (auto simp: t_def link_child_def unlink_child_def update_process_def adopted_def fun_eq_iff)
    moreover have "t\<lparr>processes := ps\<rparr> = s\<lparr>processes := ps\<rparr>" for ps
      by (simp add: t_def link_child_def unlink_child_def update_process_def)
    ultimately show ?thesis by simp
  qed
  finally show ?case .
qed

lemma adopted_family:
  assumes ok: "family_ok ps" and i: "i \<noteq> 0" "i \<noteq> p" "pr_parent (ps i) = 0" and p: "p \<noteq> 0"
  shows "family_ok (adopted i p (pr_children (ps p)) ps)"
proof -
  define cs where "cs = pr_children (ps p)"
  have mem: "c \<in> set (pr_children (ps q)) \<longleftrightarrow> pr_parent (ps c) = q" if "q \<noteq> 0" for q c using ok that by (auto simp: family_ok_def)
  have ds: "distinct (pr_children (ps q))" "q \<notin> set (pr_children (ps q))" for q using ok by (auto simp: family_ok_def)
  have cs: "c \<in> set cs \<longleftrightarrow> pr_parent (ps c) = p" for c using mem [OF p] by (simp add: cs_def)
  have out: "p \<notin> set cs" "i \<notin> set cs" using ds(2) [of p] cs [of i] i(3) p by (auto simp: cs_def)
  have ic: "c \<in> set (pr_children (ps i)) \<longleftrightarrow> pr_parent (ps c) = i" for c by (rule mem [OF i(1)])
  have "set (pr_children (ps i)) \<inter> set cs = {}" using ic cs i(2) by auto
  then have "distinct (pr_children (adopted i p cs ps q)) \<and> q \<notin> set (pr_children (adopted i p cs ps q))" for q
    using ds out i(2) by (auto simp: adopted_def cs_def)
  moreover have "c \<in> set (pr_children (adopted i p cs ps q)) \<longleftrightarrow> pr_parent (adopted i p cs ps c) = q" if "q \<noteq> 0" for q c
    using mem [OF that, of c] ic cs out i p that by (auto simp: adopted_def)
  ultimately show ?thesis by (simp add: family_ok_def cs_def)
qed

section \<open>Exiting\<close>

text \<open>
  C36. When a process other than the init process exits, the loop over its children returns and hands every one of them, in order, to the
  init process: the process has no children left, the init process has them after its own, their parent pointers say so, and nothing else
  changes - in particular no wait queue, although an adopted child may be waiting to be collected already. Lists of children and parent
  pointers agree again.
\<close>

theorem orphans_adopted:
  fixes s :: "'a psys_scheme"
  assumes "family_ok (processes s)" "init_process s \<noteq> 0" "init_process s \<noteq> process" "process \<noteq> 0" "pr_parent (processes s (init_process s)) = 0"
  shows "\<exists>s'. adopt_children process (pr_children (processes s process)) s = Some s' \<and>
    s' = s\<lparr>processes := adopted (init_process s) process (pr_children (processes s process)) (processes s)\<rparr> \<and>
    family_ok (processes s') \<and> wait_queues s' = wait_queues s"
proof -
  define cs where "cs = pr_children (processes s process)"
  have cs: "distinct cs" "process \<notin> set cs" using assms(1) by (auto simp: family_ok_def cs_def)
  have "init_process s \<notin> set cs" using assms(1,4,5) by (auto simp: family_ok_def cs_def)
  then have "adopt_children process cs s = Some (s\<lparr>processes := adopted (init_process s) process cs (processes s)\<rparr>)"
    using assms(2,3) cs by (intro adopt_children_all) (simp_all add: cs_def)
  then show ?thesis using adopted_family [OF assms(1,2,3,5,4)] by (simp add: cs_def)
qed

text \<open>Process 8 exits; its parent is the init process 1 and its child 9 waits to be collected.\<close>

definition demo_family :: "u64 \<Rightarrow> process" where
  "demo_family = (\<lambda>_. new_process 0)(1 := (new_process 0)\<lparr>pr_children := [8]\<rparr>,
     8 := (new_process 0)\<lparr>pr_parent := 1, pr_children := [9]\<rparr>, 9 := (new_process 0)\<lparr>pr_parent := 8, pr_state := PROCESS_REAPABLE\<rparr>)"

lemma demo_family_ok: "family_ok demo_family"
  by (auto simp: family_ok_def demo_family_def new_process_def)

theorem orphans_adopted_witness:
  "\<forall>s :: psys. \<exists>s'. adopt_children 8 [9] (s\<lparr>processes := demo_family, init_process := 1\<rparr>) = Some s' \<and>
     pr_children (processes s' 1) = [8, 9] \<and> pr_parent (processes s' 9) = 1 \<and> pr_children (processes s' 8) = []"
proof
  fix s :: psys
  let ?s = "s\<lparr>processes := demo_family, init_process := 1\<rparr>"
  have h: "family_ok (processes ?s)" "init_process ?s \<noteq> 0" "init_process ?s \<noteq> 8" "(8 :: u64) \<noteq> 0" "pr_parent (processes ?s (init_process ?s)) = 0"
    using demo_family_ok by (simp_all add: demo_family_def new_process_def)
  have c: "pr_children (processes ?s 8) = [9]" by (simp add: demo_family_def)
  show "\<exists>s'. adopt_children 8 [9] ?s = Some s' \<and> pr_children (processes s' 1) = [8, 9] \<and> pr_parent (processes s' 9) = 1 \<and> pr_children (processes s' 8) = []"
    using orphans_adopted [OF h] unfolding c by (auto simp: adopted_def demo_family_def)
qed

section \<open>Waiting\<close>

text \<open>A wait for any child prefers one that can be collected; a wait for one child finds it or nothing.\<close>

lemma find_child_from_any:
  assumes "0 \<notin> set cs"
  shows "find_child_from ps (-1) first cs =
    (case find (\<lambda>c. pr_state (ps c) = PROCESS_REAPABLE) cs of Some c \<Rightarrow> c | None \<Rightarrow> if first \<noteq> 0 \<or> cs = [] then first else hd cs)"
  using assms by (induction cs arbitrary: first) (auto split: option.split)

lemma find_child_from_one:
  "pid \<noteq> -1 \<Longrightarrow> find_child_from ps pid first cs = (case find (\<lambda>c. pr_pid (ps c) = word_of_int pid) cs of Some c \<Rightarrow> c | None \<Rightarrow> first)"
  by (induction cs) auto

end
