(* ===== verification/Spec2Isabelle.thy ===== *)
theory Spec2Isabelle
  imports Intrusive_List Runtime Log Vm_Kernel Dtb_Tree Threads Vfs_Files Pipes Traps Initramfs Plic Shell_Laws User_Copy Areas Families
begin

text \<open>
  A verification development for MiniCore, a small teaching kernel for RISC-V (RV64, S-mode, Sv39) on the QEMU virt board, with
  its shell and the tool that writes its boot archive. Paths are relative to the repository.

  \<^bold>\<open>The program.\<close> At boot the kernel parses the device tree (\<^verbatim>\<open>src/platform/dtb.c\<close>), puts the usable RAM pages on a free list
  (\<^verbatim>\<open>src/mm/page_alloc.c\<close>), builds its Sv39 table (\<^verbatim>\<open>src/mm/vm.c\<close>), and sets up a slab heap (\<^verbatim>\<open>src/mm/heap.c\<close>), a log
  (\<^verbatim>\<open>src/kernel/log.c\<close>) and a preemptive scheduler (\<^verbatim>\<open>src/kernel/scheduler.c\<close>, \<^verbatim>\<open>src/kernel/sync.c\<close>). It mounts an embedded
  archive as a file system (\<^verbatim>\<open>src/fs/vfs.c\<close>, \<^verbatim>\<open>src/fs/pipe.c\<close>), loads \<^verbatim>\<open>/init\<close> (\<^verbatim>\<open>src/kernel/elf.c\<close>) into an address space
  (\<^verbatim>\<open>src/mm/address_space.c\<close>) as the first process (\<^verbatim>\<open>src/kernel/process.c\<close>) and serves system calls (\<^verbatim>\<open>src/kernel/user.c\<close>,
  \<^verbatim>\<open>src/kernel/fd.c\<close>) that arrive as traps (\<^verbatim>\<open>src/arch/riscv/trap.c\<close>).

  \<^bold>\<open>State.\<close> Kernel memory is one function from virtual addresses to bytes, and a physical page is reached through the direct map.
  The free list, the page tables, the heap's slabs and the intrusive lists are bytes in it, read and written as the code does.
  Above the allocators an object is a record in a store keyed by the address \<open>kmalloc\<close> returned, and an intrusive list of objects is
  the sequence of the objects. The state grows with the components: \<open>cpu\<close> (interrupt state, theory Sync), \<open>kstate\<close> (memory and free
  list, Page_Alloc), \<open>hstate\<close> (Heap), \<open>kernel\<close> (Kernel_State), \<open>fsys\<close> (Files), \<open>psys\<close> (Process_State), \<open>tsys\<close> (Traps). An operation
  is a function from a state to a result and a state. Where a call can fail to return (a lock that is held, a list that does not
  close, a loop without end) its result is an option and \<open>None\<close> is not returning; that calls do return is proved, not assumed.
  Errors are values of a sum type. A call that puts its thread to sleep gives \<open>Sleeps\<close> and starts over when the thread runs again.

  \<^bold>\<open>Theories and the code they model.\<close>
  \<^item> Prelude: integers, memory, \<^verbatim>\<open>src/mm/layout.h\<close>. Intrusive_List: \<^verbatim>\<open>src/kernel/list.h\<close> and \<^verbatim>\<open>refcount.h\<close>. Runtime: \<^verbatim>\<open>src/runtime.c\<close>.
    Sync: interrupt masking and spin locks. Log: \<^verbatim>\<open>src/kernel/log.c\<close>.
  \<^item> Boot_Info, Dtb: \<^verbatim>\<open>src/platform/dtb.h\<close> and \<^verbatim>\<open>dtb.c\<close>. Dtb_Safe and Dtb_Tree: the parser on any bytes and on flattened trees.
  \<^item> Page_Alloc: \<^verbatim>\<open>src/mm/page_alloc.c\<close>. Vm: \<^verbatim>\<open>src/mm/vm.c\<close>. Page_Table, Vm_Map, Vm_Unmap, Vm_Reclaim, Vm_Laws, Vm_Destroy and Vm_Contract:
    the trees in memory and every operation on them. Vm_Kernel: the kernel's own table.
  \<^item> Heap: \<^verbatim>\<open>src/mm/heap.c\<close>. Heap_Slab, Heap_Inv, Heap_Ops, Heap_Contract, Kernel_Heap: its invariant and its contract. Heap_Frame: the heap beside
    its neighbours.
  \<^item> Kernel_State, Scheduler: \<^verbatim>\<open>src/kernel/scheduler.c\<close>, the wait queues of \<^verbatim>\<open>sync.c\<close>, the switch of \<^verbatim>\<open>src/arch/riscv/context.S\<close>. Scheduler_Inv,
    Scheduler_Ops, Scheduler_Run, Scheduler_Sleep, Thread_Create, Threads: invariant, runs, fairness, deadlines, creation.
  \<^item> Files, Pipe, Vfs_Tree, Vfs: \<^verbatim>\<open>src/fs/vfs.h\<close>, \<^verbatim>\<open>vfs.c\<close>, \<^verbatim>\<open>pipe.c\<close>. Pipe_Stream, Files_Heap, Pipes, Vfs_Paths, Vfs_Names, File_Data, Vfs_Files: what
    they compute. Initramfs: \<^verbatim>\<open>tools/mkinitramfs.py\<close> against the archive reader of \<^verbatim>\<open>vfs.c\<close>.
  \<^item> Address_Space: \<^verbatim>\<open>src/mm/address_space.c\<close>. Process_State, Process: \<^verbatim>\<open>src/kernel/process.h\<close>, \<^verbatim>\<open>process.c\<close> and \<open>scheduler_reap\<close>. Elf:
    \<^verbatim>\<open>src/kernel/elf.c\<close>. Syscalls: \<^verbatim>\<open>src/kernel/fd.c\<close> and the dispatch of \<^verbatim>\<open>user.c\<close>. Traps: \<open>start_init\<close> of \<^verbatim>\<open>user.c\<close>, \<^verbatim>\<open>src/arch/riscv/trap.c\<close>,
    console output.
    User_Copy, Areas and Families: copies out of user memory, the areas of a space, and the family tree of processes.
  \<^item> Plic: \<^verbatim>\<open>src/platform/plic.c\<close>. Shell and Shell_Laws: \<^verbatim>\<open>user/sh.c\<close> and \<^verbatim>\<open>user/lib.c\<close>.

  \<^bold>\<open>What is shown.\<close>
  \<^item> Pages: initialization puts exactly the usable RAM on the free list; no page is handed out twice or lost in any run of allocations.
  \<^item> Page tables: mapping, unmapping, protecting and querying act on a partial function from pages to entries; a failed or undone
    mapping restores the exact set of free pages; destroying a user table frees exactly its private tables. The kernel's own table
    maps what it should and nothing is writable and executable.
  \<^item> Heap: allocation and release return, live objects are disjoint, zeroed and never overwritten, and all pages come back.
  \<^item> Scheduler: one running thread along every run, round robin, no starvation, exact deadlines, first-come first-served wait queues
    that lose no waiter, thread creation without leaks.
  \<^item> Files: a pipe is a bounded byte stream under every interleaving, and nobody sleeps who could go on; path resolution stays below the
    root; the path of the current directory resolves to it; a regular file is a byte string; the archive reader inverts the writer.
  \<^item> Address spaces and processes: a copy from user memory sees what the user sees and fails exactly where the user has no access;
    munmap removes exactly its range and mmap finds the lowest free place; an exiting process hands its children to the init process.
  \<^item> Device tree: the parser never reads out of bounds, keeps its array bounds and computes the meaning of the tree.
  \<^item> Shell: the parser accepts exactly the pipelines that fit its arrays; a pipeline closes all its pipes and waits for all its children.
  \<^item> Interrupt controller, log, lists and runtime routines: each against a mathematical description.

  \<^bold>\<open>Interfaces.\<close> The locales \<open>node_sequence\<close>, \<open>page_provider\<close>, \<open>page_mapper\<close> and \<open>object_heap\<close> state what lists, the page allocator, page
  tables and the heap promise; each is interpreted on the model's definitions, and the properties rest on the interpretations.

  \<^bold>\<open>Bounds and fuel.\<close> Loops over data are recursive functions with termination proofs; path resolution ends because at most eight
  links are followed and every other step shortens the path. Loops through memory that may not end are partial functions into
  options. The only fuel is in \<open>write_all\<close> of the shell: each round writes at least a byte, so the length of the text is enough
  (\<open>write_all_enough\<close>). Sizes and offsets inside files and pipes are natural numbers, bounded far below 64 bits by the code's own
  limits; addresses, page counts, ticks and identifiers are words of their width.

  \<^bold>\<open>Not modelled.\<close> Boot and trap entry code (\<^verbatim>\<open>head.S\<close>, \<^verbatim>\<open>trap.S\<close>) and SBI calls are assembly; address-translation fences have no effect on
  the modelled state; the wait for the UART's transmitter, power-off and the idle loop are device waits. \<^verbatim>\<open>src/main.c\<close>, \<^verbatim>\<open>m4_test.c\<close>, the
  allocation tests of \<^verbatim>\<open>user.c\<close>, \<^verbatim>\<open>user/m6-test.c\<close> and the assembly programs are self tests and printing; \<^verbatim>\<open>cat\<close>, \<^verbatim>\<open>echo\<close> and \<^verbatim>\<open>upper\<close> are single
  loops over system calls; \<^verbatim>\<open>tools/generate-layout.py\<close> draws a report. There is one hart, as in the code: interleaving happens at
  the calls that switch threads and at timer ticks. Address spaces, processes, the ELF loader and the system calls are modelled in
  full; the theorems about them cover copies out of user memory, validation,
  the placement of mappings, munmap and the adoption of orphans; for the rest they rest on the contracts of the layers below.
\<close>

end
